(* ===== verification/Kernel_Prelude.thy ===== *)
theory Kernel_Prelude
  imports Main "HOL-Library.Word"
begin

text \<open>
  The prelude of the development: the machine types of the i686 port
  (\<open>include/machine/types.h\<close>, \<open>include/machine/stdtypes.h\<close>,
  \<open>system/arch/i686/include/sysarch/paddr.h\<close>), the faults a C function can run into, the
  result type that makes them values, and the lemmas on results and words that the component
  theories share.

  A C function that can dereference a null pointer, index an array out of its bounds, spin on
  a lock that nobody releases, call \<^verbatim>\<open>panic\<close>, run into undefined behaviour or stay in a
  loop for longer than the fuel of the model (\<open>No_Return\<close>) returns
  a value of type \<open>'a res\<close>: \<open>Inl\<close> of the fault, or \<open>Inr\<close> of the result.
\<close>

unbundle bit_operations_syntax

section \<open>Machine types\<close>

type_synonym u8 = "8 word"
type_synonym u16 = "16 word"
type_synonym u32 = "32 word"
type_synonym u64 = "64 word"

text \<open>On i686, \<^verbatim>\<open>u_intptr_t\<close>, \<^verbatim>\<open>size_t\<close>, \<^verbatim>\<open>vaddr_t\<close> and
  \<^verbatim>\<open>paddr_t\<close> are all 32 bits wide.\<close>

type_synonym vaddr = u32
type_synonym paddr = u32
type_synonym size_t = u32

section \<open>Faults and results\<close>

datatype fault =
    Null_Deref
  | Bad_Access
  | Spin_Forever
  | Panic string
  | Undefined
  | No_Return
  | Protection_Fault

type_synonym 'a res = "fault + 'a"

definition rbind :: "'a res \<Rightarrow> ('a \<Rightarrow> 'b res) \<Rightarrow> 'b res" where
  "rbind m f = (case m of Inl e \<Rightarrow> Inl e | Inr x \<Rightarrow> f x)"

definition deref :: "'p option \<Rightarrow> 'p res" where
  "deref p = (case p of None \<Rightarrow> Inl Null_Deref | Some q \<Rightarrow> Inr q)"

definition require :: "bool \<Rightarrow> fault \<Rightarrow> unit res" where
  "require b e = (if b then Inr () else Inl e)"

named_theorems res_simps \<open>equations that evaluate a result computation\<close>

lemma rbind_Inr [simp, res_simps]: "rbind (Inr x) f = f x"
  by (simp add: rbind_def)

lemma rbind_Inl [simp, res_simps]: "rbind (Inl e) f = Inl e"
  by (simp add: rbind_def)

lemma deref_Some [simp, res_simps]: "deref (Some p) = Inr p"
  by (simp add: deref_def)

lemma deref_None [simp, res_simps]: "deref None = Inl Null_Deref"
  by (simp add: deref_def)

lemma require_simps [simp, res_simps]: "require True e = Inr ()" "require False e = Inl e"
  by (simp_all add: require_def)

lemma rbind_eq_Inr: "rbind m f = Inr y \<longleftrightarrow> (\<exists>x. m = Inr x \<and> f x = Inr y)"
  by (cases m) auto

lemma rbind_eq_Inl: "rbind m f = Inl e \<longleftrightarrow> m = Inl e \<or> (\<exists>x. m = Inr x \<and> f x = Inl e)"
  by (cases m) auto

lemma deref_eq_Inr: "deref p = Inr q \<longleftrightarrow> p = Some q"
  by (cases p) auto

lemma require_eq_Inr: "require b e = Inr u \<longleftrightarrow> b"
  by (simp add: require_def)

lemma rbind_assoc: "rbind (rbind m f) g = rbind m (\<lambda>x. rbind (f x) g)"
  by (cases m) simp_all

lemmas res_inv = rbind_eq_Inr rbind_eq_Inl deref_eq_Inr require_eq_Inr

text \<open>\<open>res_post m P\<close>: if \<open>m\<close> returns, its result satisfies \<open>P\<close>.\<close>

definition res_post :: "'a res \<Rightarrow> ('a \<Rightarrow> bool) \<Rightarrow> bool" where
  "res_post m P \<longleftrightarrow> (\<forall>x. m = Inr x \<longrightarrow> P x)"

lemma res_post_Inr [simp]: "res_post (Inr x) P = P x" "res_post (Inl e) P"
  by (simp_all add: res_post_def)

lemma res_post_bind:
  "res_post m P \<Longrightarrow> (\<And>x. P x \<Longrightarrow> res_post (f x) Q) \<Longrightarrow> res_post (rbind m f) Q"
  by (auto simp: res_post_def res_inv)

lemma res_post_if:
  "(b \<Longrightarrow> res_post m P) \<Longrightarrow> (\<not> b \<Longrightarrow> res_post n P) \<Longrightarrow> res_post (if b then m else n) P"
  by simp

lemma res_post_True: "res_post m (\<lambda>_. True)"
  by (simp add: res_post_def)

lemma res_postD: "res_post m P \<Longrightarrow> m = Inr x \<Longrightarrow> P x"
  by (simp add: res_post_def)

section \<open>Words\<close>

lemma unat_u32_lt: "unat (w :: u32) < 4294967296"
  using unsigned_less [of w] by simp

lemma unat_of_nat_u32: "n < 4294967296 \<Longrightarrow> unat (of_nat n :: u32) = n"
  by (simp add: unat_of_nat)

lemma of_nat_unat_u32: "unat (w :: u32) = n \<Longrightarrow> w = of_nat n"
  by (auto simp: word_unat_eq_iff [of w])

lemma of_nat_u32_eq_0:
  assumes "n < 4294967296"
  shows "(of_nat n :: u32) = 0 \<longleftrightarrow> n = 0"
proof -
  have "(of_nat n :: u32) = 0 \<longleftrightarrow> unat (of_nat n :: u32) = 0" by (rule unsigned_eq_0_iff [symmetric])
  then show ?thesis unfolding unat_of_nat_u32 [OF assms] .
qed

lemma unat_add_u32: "unat a + unat b < 4294967296 \<Longrightarrow> unat (a + b :: u32) = unat a + unat b"
  by (simp add: unat_word_ariths)

lemma unat_sub_u32: "b \<le> a \<Longrightarrow> unat (a - b :: u32) = unat a - unat b"
  by (rule unat_sub)

lemma unat_pow2_u32:
  assumes "k < 32"
  shows "unat (2 ^ k :: u32) = 2 ^ k"
proof -
  have "(2 ^ k :: nat) < 2 ^ 32" using assms by (intro power_strict_increasing) auto
  then show ?thesis using unat_of_nat_u32 [of "2 ^ k"] by simp
qed

text \<open>Rounding down to a multiple of the page size.\<close>

lemma unat_round_down: "unat (w AND NOT 0xFFF :: u32) = unat w div 4096 * 4096"
proof -
  have m: "(0xFFF :: u32) = mask 12" by (simp add: mask_eq_exp_minus_1)
  have "w AND NOT 0xFFF = push_bit 12 (drop_bit 12 w)"
    unfolding m by (rule bit_eqI) (auto simp: bit_and_iff bit_not_iff bit_mask_iff bit_push_bit_iff bit_drop_bit_eq)
  also have "\<dots> = drop_bit 12 w * 0x1000" by (simp add: push_bit_eq_mult)
  also have "unat \<dots> = unat (drop_bit 12 w) * 4096"
    unfolding unat_word_ariths using unat_u32_lt [of w] by (simp add: drop_bit_eq_div unat_div)
  finally show ?thesis by (simp add: drop_bit_eq_div unat_div)
qed

text \<open>Decrementing a signed word that is not the least one.\<close>

lemma sint_u32_range: "- 2147483648 \<le> sint (w :: u32)" "sint (w :: u32) < 2147483648"
  using sint_ge [of w] sint_lt [of w] by simp_all

lemma sint_minus_1_u32:
  assumes "- 2147483648 < sint (d :: u32)"
  shows "sint (d - 1) = sint d - 1"
proof -
  have "sint (d - 1) = signed_take_bit 31 (sint d - 1)"
    using sint_word_ariths(2) [of d 1] by simp
  also have "\<dots> = sint d - 1"
    using assms sint_u32_range [of d] by (intro signed_take_bit_int_eq_self) simp_all
  finally show ?thesis .
qed

section \<open>Lists\<close>

lemma length_takeWhile_eqI:
  assumes "\<And>i. i < u \<Longrightarrow> P (xs ! i)" and "u \<le> length xs" and "u < length xs \<Longrightarrow> \<not> P (xs ! u)"
  shows "length (takeWhile P xs) = u"
  using assms
proof (induction xs arbitrary: u)
  case (Cons x xs)
  show ?case
  proof (cases u)
    case 0
    then show ?thesis using Cons.prems(3) by simp
  next
    case (Suc v)
    have "length (takeWhile P xs) = v"
      using Cons.prems(1) [of "Suc _"] Cons.prems(2,3) Suc by (intro Cons.IH) auto
    then show ?thesis using Cons.prems(1) [of 0] Suc by simp
  qed
qed simp

section \<open>Bounded quantifiers over small numbers\<close>

lemma all_less_1: "(\<forall>i<Suc 0. P i) \<longleftrightarrow> P 0"
  by simp

lemma all_less_2: "(\<forall>i<2. P i) \<longleftrightarrow> P 0 \<and> P (Suc 0)"
  by (auto simp: less_2_cases_iff)

end
