(* ===== verification/Bin_Tree.thy ===== *)
theory Bin_Tree
  imports Kernel_Prelude
begin

text \<open>
  The binary search trees of \<open>system/vm/tree.c\<close>, keyed by \<^verbatim>\<open>u_intptr_t\<close>, with a
  depth stored in every node.

  A tree of C nodes without sharing is a value of the datatype \<open>bintree\<close>; the node's own
  data (its address, key and value) is a record. The C functions walk down with a pointer to the
  slot that holds the current subtree and remember the slots they passed in the array
  \<^verbatim>\<open>narr\<close>; here the walk returns the subtree and the list of the frames above it, innermost
  first, and the backtracking loop rebuilds the tree from them. \<^verbatim>\<open>narr\<close> is a circular buffer
  of 64 entries, so the backtracking balances the last 64 slots of the path and no more: the
  number \<open>NARR\<close> of \<open>bt_backtrack\<close>. The links of a node that was taken out of the tree,
  and the field \<^verbatim>\<open>recycle\<close>, which no function of the file uses, are not modelled.
\<close>

section \<open>Nodes and trees\<close>

record bnode =
  n_addr :: u32
  n_K :: u32
  n_V :: u32

datatype bintree = Nil | Node bnode bintree bintree u32

fun bt_depth :: "bintree \<Rightarrow> u32" where
  "bt_depth Nil = 0"
| "bt_depth (Node n l r d) = d"

definition bt_max :: "u32 \<Rightarrow> u32 \<Rightarrow> u32" where
  "bt_max a b = (if a > b then a else b)"

fun bt_calcdepth :: "bintree \<Rightarrow> bintree" where
  "bt_calcdepth Nil = Nil"
| "bt_calcdepth (Node n l r d) = Node n l r (bt_max (bt_depth l) (bt_depth r) + 1)"

text \<open>\<^verbatim>\<open>bt_rotleft\<close> follows \<^verbatim>\<open>*node\<close> and its right child without a test; the
  depths are recomputed for \<open>h\<close>, then for \<open>x\<close>.\<close>

fun bt_rotleft :: "bintree \<Rightarrow> bintree res" where
  "bt_rotleft (Node h hl (Node x xl xr xd) he) =
     Inr (bt_calcdepth (Node x (bt_calcdepth (Node h hl xl he)) xr xd))"
| "bt_rotleft t = Inl Null_Deref"

fun bt_rotright :: "bintree \<Rightarrow> bintree res" where
  "bt_rotright (Node h (Node x xl xr xd) hr he) =
     Inr (bt_calcdepth (Node x xl (bt_calcdepth (Node h xr hr he)) xd))"
| "bt_rotright t = Inl Null_Deref"

fun bt_balance :: "bintree \<Rightarrow> bintree res" where
  "bt_balance Nil = Inr Nil"
| "bt_balance (Node n lt rt d) =
     (let l = bt_depth lt; r = bt_depth rt in
      if l > r \<and> l - r > 1 then bt_rotright (Node n lt rt d)
      else if r > l \<and> r - l > 1 then bt_rotleft (Node n lt rt d)
      else Inr (bt_calcdepth (Node n lt rt d)))"

section \<open>The path to a slot\<close>

text \<open>A frame is a node whose left (\<open>LF\<close>) or right (\<open>RF\<close>) link is the slot: it keeps
  the other subtree and the stored depth.\<close>

datatype frame = LF bnode bintree u32 | RF bnode bintree u32

fun plug1 :: "bintree \<Rightarrow> frame \<Rightarrow> bintree" where
  "plug1 t (LF n r d) = Node n t r d"
| "plug1 t (RF n l d) = Node n l t d"

fun bt_plug :: "bintree \<Rightarrow> frame list \<Rightarrow> bintree" where
  "bt_plug t [] = t"
| "bt_plug t (f # fs) = bt_plug (plug1 t f) fs"

fun bt_walk :: "u32 \<Rightarrow> bintree \<Rightarrow> frame list \<Rightarrow> bintree \<times> frame list" where
  "bt_walk K Nil fs = (Nil, fs)"
| "bt_walk K (Node n l r d) fs =
     (if K < n_K n then bt_walk K l (LF n r d # fs)
      else if n_K n < K then bt_walk K r (RF n l d # fs)
      else (Node n l r d, fs))"

definition NARR :: nat where
  "NARR = 64"

fun bt_backtrack :: "nat \<Rightarrow> bintree \<Rightarrow> frame list \<Rightarrow> bintree res" where
  "bt_backtrack 0 t fs = Inr (bt_plug t fs)"
| "bt_backtrack (Suc k) t [] = bt_balance t"
| "bt_backtrack (Suc k) t (f # fs) = rbind (bt_balance t) (\<lambda>t. bt_backtrack k (plug1 t f) fs)"

section \<open>The operations\<close>

text \<open>\<open>it\<close> is what \<^verbatim>\<open>*it\<close> points to: a node and the depth that happens to be stored
  in it. The result is the tree and the new \<^verbatim>\<open>*it\<close>.\<close>

definition bt_insert ::
  "bintree \<Rightarrow> (bnode \<times> u32) option \<Rightarrow> (bintree \<times> (bnode \<times> u32) option) res" where
  "bt_insert root it =
     rbind (deref it) (\<lambda>(n, d).
     case bt_walk (n_K n) root [] of
       (Nil, fs) \<Rightarrow> rbind (bt_backtrack NARR (Node n Nil Nil d) fs) (\<lambda>t. Inr (t, None))
     | (_, fs) \<Rightarrow> Inr (root, it))"

definition bt_put ::
  "bintree \<Rightarrow> (bnode \<times> u32) option \<Rightarrow> (bintree \<times> (bnode \<times> u32) option) res" where
  "bt_put root it =
     rbind (deref it) (\<lambda>(n, d).
     case bt_walk (n_K n) root [] of
       (Nil, fs) \<Rightarrow> rbind (bt_backtrack NARR (Node n Nil Nil d) fs) (\<lambda>t. Inr (t, None))
     | (Node m l r e, fs) \<Rightarrow>
         rbind (bt_backtrack NARR (Node n l r e) fs) (\<lambda>t. Inr (t, Some (m, e))))"

definition bt_put_ip ::
  "bintree \<Rightarrow> (bnode \<times> u32) option \<Rightarrow> (bintree \<times> (bnode \<times> u32) option) res" where
  "bt_put_ip root it =
     rbind (deref it) (\<lambda>(n, d).
     case bt_walk (n_K n) root [] of
       (Nil, fs) \<Rightarrow> rbind (bt_backtrack NARR (Node n Nil Nil d) fs) (\<lambda>t. Inr (t, None))
     | (Node m l r e, fs) \<Rightarrow>
         rbind (bt_backtrack NARR (Node (m\<lparr>n_V := n_V n\<rparr>) l r e) fs) (\<lambda>t. Inr (t, it)))"

text \<open>\<^verbatim>\<open>bt_remove\<close> takes out the node its slot holds: it rotates this node down until one
  of its links is null, always to the side of the shallower subtree.\<close>

lemma bt_rotleft_size:
  "bt_rotleft t = Inr (Node x xl xr xd) \<Longrightarrow> size xl < size t"
  by (cases t rule: bt_rotleft.cases) auto

lemma bt_rotright_size:
  "bt_rotright t = Inr (Node x xl xr xd) \<Longrightarrow> size xr < size t"
  by (cases t rule: bt_rotright.cases) auto

function bt_remove_walk ::
  "bintree \<Rightarrow> frame list \<Rightarrow> ((bnode \<times> u32) option \<times> bintree \<times> frame list) res" where
  "bt_remove_walk Nil fs = Inr (None, Nil, fs)"
| "bt_remove_walk (Node n l r d) fs =
     (if l = Nil then Inr (Some (n, d), r, fs)
      else if r = Nil then Inr (Some (n, d), l, fs)
      else if bt_depth l \<le> bt_depth r then
        (case bt_rotleft (Node n l r d) of Inl e \<Rightarrow> Inl e | Inr Nil \<Rightarrow> Inl Null_Deref
         | Inr (Node x xl xr xd) \<Rightarrow> bt_remove_walk xl (LF x xr xd # fs))
      else
        (case bt_rotright (Node n l r d) of Inl e \<Rightarrow> Inl e | Inr Nil \<Rightarrow> Inl Null_Deref
         | Inr (Node x xl xr xd) \<Rightarrow> bt_remove_walk xr (RF x xl xd # fs)))"
  by pat_completeness auto
termination
  by (relation "measure (\<lambda>(t, fs). size t)") (auto dest: bt_rotleft_size bt_rotright_size)

definition bt_remove ::
  "bintree \<Rightarrow> (bnode \<times> u32) option \<Rightarrow> (bintree \<times> (bnode \<times> u32) option) res" where
  "bt_remove t it =
     rbind (bt_remove_walk t []) (\<lambda>(n, s, fs).
     rbind (bt_backtrack NARR s fs) (\<lambda>t. Inr (t, case n of None \<Rightarrow> it | Some m \<Rightarrow> Some m)))"

text \<open>The searches return the slot they found, as the subtree and the frames above it.\<close>

fun bt_lookup_from :: "u32 \<Rightarrow> bintree \<Rightarrow> frame list \<Rightarrow> (bintree \<times> frame list) option" where
  "bt_lookup_from K Nil fs = None"
| "bt_lookup_from K (Node n l r d) fs =
     (if K < n_K n then bt_lookup_from K l (LF n r d # fs)
      else if n_K n < K then bt_lookup_from K r (RF n l d # fs)
      else Some (Node n l r d, fs))"

definition bt_lookup :: "bintree \<Rightarrow> u32 \<Rightarrow> (bintree \<times> frame list) option" where
  "bt_lookup t K = bt_lookup_from K t []"

fun bt_floor_from ::
  "u32 \<Rightarrow> (bintree \<times> frame list) option \<Rightarrow> bintree \<Rightarrow> frame list \<Rightarrow> (bintree \<times> frame list) option"
where
  "bt_floor_from K lowermost Nil fs = lowermost"
| "bt_floor_from K lowermost (Node n l r d) fs =
     (if K < n_K n then bt_floor_from K lowermost l (LF n r d # fs)
      else if n_K n < K then bt_floor_from K (Some (Node n l r d, fs)) r (RF n l d # fs)
      else Some (Node n l r d, fs))"

definition bt_floor :: "bintree \<Rightarrow> u32 \<Rightarrow> (bintree \<times> frame list) option" where
  "bt_floor t K = bt_floor_from K None t []"

fun bt_ceiling_from ::
  "u32 \<Rightarrow> (bintree \<times> frame list) option \<Rightarrow> bintree \<Rightarrow> frame list \<Rightarrow> (bintree \<times> frame list) option"
where
  "bt_ceiling_from K uppermost Nil fs = uppermost"
| "bt_ceiling_from K uppermost (Node n l r d) fs =
     (if K < n_K n then bt_ceiling_from K (Some (Node n l r d, fs)) l (LF n r d # fs)
      else if n_K n < K then bt_ceiling_from K uppermost r (RF n l d # fs)
      else Some (Node n l r d, fs))"

definition bt_ceiling :: "bintree \<Rightarrow> u32 \<Rightarrow> (bintree \<times> frame list) option" where
  "bt_ceiling t K = bt_ceiling_from K None t []"

section \<open>Order, keys and heights\<close>

fun bt_nodes :: "bintree \<Rightarrow> bnode list" where
  "bt_nodes Nil = []"
| "bt_nodes (Node n l r d) = bt_nodes l @ n # bt_nodes r"

definition bt_sorted :: "bintree \<Rightarrow> bool" where
  "bt_sorted t \<longleftrightarrow> sorted_wrt (\<lambda>a b. n_K a < n_K b) (bt_nodes t)"

fun bt_height :: "bintree \<Rightarrow> nat" where
  "bt_height Nil = 0"
| "bt_height (Node n l r d) = Suc (max (bt_height l) (bt_height r))"

fun depth_ok :: "bintree \<Rightarrow> bool" where
  "depth_ok Nil = True"
| "depth_ok (Node n l r d) =
     (depth_ok l \<and> depth_ok r \<and> unat d = Suc (max (bt_height l) (bt_height r)))"

definition bt_inv :: "bintree \<Rightarrow> bool" where
  "bt_inv t \<longleftrightarrow> bt_sorted t \<and> depth_ok t"

lemma depth_ok_depth: "depth_ok t \<Longrightarrow> unat (bt_depth t) = bt_height t"
  by (cases t) auto

lemma depth_ok_calcdepth:
  assumes "depth_ok l" and "depth_ok r" and "Suc (max (bt_height l) (bt_height r)) < 4294967296"
  shows "depth_ok (bt_calcdepth (Node n l r d))"
proof -
  have "unat (bt_max (bt_depth l) (bt_depth r)) = max (bt_height l) (bt_height r)"
    using assms by (auto simp: bt_max_def word_less_nat_alt depth_ok_depth)
  with assms show ?thesis by (simp add: unat_add_u32)
qed

lemma bt_calcdepth_simps [simp]:
  "bt_height (bt_calcdepth t) = bt_height t" "bt_nodes (bt_calcdepth t) = bt_nodes t"
  by (cases t; simp)+

lemma bt_rot_nodes:
  "bt_rotleft t = Inr t' \<Longrightarrow> bt_nodes t' = bt_nodes t"
  "bt_rotright t = Inr t' \<Longrightarrow> bt_nodes t' = bt_nodes t"
  by (cases t rule: bt_rotleft.cases; auto) (cases t rule: bt_rotright.cases; auto)

lemma bt_balance_nodes: "bt_balance t = Inr t' \<Longrightarrow> bt_nodes t' = bt_nodes t"
  by (cases t) (auto simp: Let_def dest: bt_rot_nodes split: if_splits)

lemma bt_rotright_ok:
  assumes "depth_ok lt" and "depth_ok rt" and "lt \<noteq> Nil"
    and "Suc (Suc (max (bt_height lt) (bt_height rt))) < 4294967296"
  shows "\<exists>t'. bt_rotright (Node n lt rt d) = Inr t' \<and> depth_ok t' \<and>
    bt_height t' \<le> Suc (max (bt_height lt) (Suc (bt_height rt)))"
proof -
  obtain x xl xr xd where lt: "lt = Node x xl xr xd" using assms(3) by (cases lt) auto
  let ?h = "bt_calcdepth (Node n xr rt d)"
  have h: "depth_ok ?h" using assms by (intro depth_ok_calcdepth) (auto simp: lt)
  have "depth_ok (bt_calcdepth (Node x xl ?h xd))"
    using assms h by (intro depth_ok_calcdepth) (auto simp: lt)
  then show ?thesis by (auto simp: lt)
qed

lemma bt_rotleft_ok:
  assumes "depth_ok lt" and "depth_ok rt" and "rt \<noteq> Nil"
    and "Suc (Suc (max (bt_height lt) (bt_height rt))) < 4294967296"
  shows "\<exists>t'. bt_rotleft (Node n lt rt d) = Inr t' \<and> depth_ok t' \<and>
    bt_height t' \<le> Suc (max (bt_height rt) (Suc (bt_height lt)))"
proof -
  obtain x xl xr xd where rt: "rt = Node x xl xr xd" using assms(3) by (cases rt) auto
  let ?h = "bt_calcdepth (Node n lt xl d)"
  have h: "depth_ok ?h" using assms by (intro depth_ok_calcdepth) (auto simp: rt)
  have "depth_ok (bt_calcdepth (Node x ?h xr xd))"
    using assms h by (intro depth_ok_calcdepth) (auto simp: rt)
  then show ?thesis by (auto simp: rt)
qed

text \<open>Balancing a node whose subtrees have correct depths never faults, makes its depth correct
  and does not make it deeper, whatever depth was stored before.\<close>

lemma bt_balance_ok:
  assumes "depth_ok lt" and "depth_ok rt" and "Suc (Suc (max (bt_height lt) (bt_height rt))) < 4294967296"
  shows "\<exists>t'. bt_balance (Node n lt rt d) = Inr t' \<and> depth_ok t' \<and> bt_height t' \<le> bt_height (Node n lt rt d)"
proof -
  let ?l = "bt_depth lt" and ?r = "bt_depth rt"
  have L: "unat ?l = bt_height lt" and R: "unat ?r = bt_height rt"
    using assms by (simp_all add: depth_ok_depth)
  consider (rr) "?r < ?l" "?l - ?r > 1" | (rl) "?l < ?r" "?r - ?l > 1" "\<not> ?r < ?l"
    | (ok) "\<not> (?r < ?l \<and> ?l - ?r > 1)" "\<not> (?l < ?r \<and> ?r - ?l > 1)"
    by (metis less_asym)
  then show ?thesis
  proof cases
    case rr
    then have gt: "bt_height rt + 1 < bt_height lt"
      using L R unat_sub_u32 [OF less_imp_le [OF rr(1)]] by (auto simp: word_less_nat_alt)
    then have "lt \<noteq> Nil" by auto
    from bt_rotright_ok [OF assms(1,2) this assms(3), of n d] gt rr show ?thesis
      by (auto simp: Let_def simp del: bt_rotright.simps)
  next
    case rl
    then have gt: "bt_height lt + 1 < bt_height rt"
      using L R unat_sub_u32 [OF less_imp_le [OF rl(1)]] by (auto simp: word_less_nat_alt)
    then have "rt \<noteq> Nil" by auto
    from bt_rotleft_ok [OF assms(1,2) this assms(3), of n d] gt rl show ?thesis
      by (auto simp: Let_def simp del: bt_rotleft.simps)
  next
    case ok
    have "depth_ok (bt_calcdepth (Node n lt rt d))"
      using assms by (intro depth_ok_calcdepth) auto
    with ok show ?thesis by (auto simp: Let_def simp del: bt_calcdepth.simps)
  qed
qed

section \<open>Walking down and backtracking\<close>

fun ctx_left :: "frame list \<Rightarrow> bnode list" where
  "ctx_left [] = []"
| "ctx_left (LF n r d # fs) = ctx_left fs"
| "ctx_left (RF n l d # fs) = ctx_left fs @ bt_nodes l @ [n]"

fun ctx_right :: "frame list \<Rightarrow> bnode list" where
  "ctx_right [] = []"
| "ctx_right (LF n r d # fs) = n # bt_nodes r @ ctx_right fs"
| "ctx_right (RF n l d # fs) = ctx_right fs"

fun frames_ok :: "frame list \<Rightarrow> bool" where
  "frames_ok [] = True"
| "frames_ok (LF n r d # fs) = (depth_ok r \<and> frames_ok fs)"
| "frames_ok (RF n l d # fs) = (depth_ok l \<and> frames_ok fs)"

lemma bt_plug_nodes: "bt_nodes (bt_plug t fs) = ctx_left fs @ bt_nodes t @ ctx_right fs"
  by (induction t fs rule: bt_plug.induct) (auto elim: plug1.elims, (case_tac f; simp)+)

lemma bt_plug_height_mono:
  "bt_height t \<le> bt_height t' \<Longrightarrow> bt_height (bt_plug t fs) \<le> bt_height (bt_plug t' fs)"
proof (induction fs arbitrary: t t')
  case (Cons f fs)
  have "bt_height (plug1 t f) \<le> bt_height (plug1 t' f)" using Cons.prems by (cases f) auto
  then show ?case using Cons.IH by simp
qed simp

lemma bt_plug_height: "bt_height t + length fs \<le> bt_height (bt_plug t fs)"
proof (induction fs arbitrary: t)
  case (Cons f fs)
  have "Suc (bt_height t) \<le> bt_height (plug1 t f)" by (cases f) auto
  then show ?case using Cons.IH [of "plug1 t f"] by simp
qed simp

lemma bt_plug_height_Suc:
  "bt_height t' \<le> Suc (bt_height t) \<Longrightarrow> bt_height (bt_plug t' fs) \<le> Suc (bt_height (bt_plug t fs))"
proof (induction fs arbitrary: t t')
  case (Cons f fs)
  have "bt_height (plug1 t' f) \<le> Suc (bt_height (plug1 t f))" using Cons.prems by (cases f) auto
  then show ?case using Cons.IH by simp
qed simp

lemma bt_walk_plug:
  "bt_walk K t fs = (s, gs) \<Longrightarrow> bt_plug s gs = bt_plug t fs"
  by (induction K t fs rule: bt_walk.induct) (auto split: if_splits)

lemma bt_walk_frames:
  "bt_walk K t fs = (s, gs) \<Longrightarrow> depth_ok t \<Longrightarrow> frames_ok fs \<Longrightarrow> depth_ok s \<and> frames_ok gs"
  by (induction K t fs rule: bt_walk.induct) (auto split: if_splits)

lemma bt_walk_key:
  "bt_walk K t fs = (Node n l r d, gs) \<Longrightarrow> n_K n = K"
  by (induction K t fs rule: bt_walk.induct) (auto split: if_splits)

definition below :: "u32 \<Rightarrow> bnode list \<Rightarrow> bool" where
  "below K ns \<longleftrightarrow> (\<forall>m\<in>set ns. n_K m < K)"

definition above :: "u32 \<Rightarrow> bnode list \<Rightarrow> bool" where
  "above K ns \<longleftrightarrow> (\<forall>m\<in>set ns. K < n_K m)"

lemma below_above_simps [simp]:
  "below K []" "above K []"
  "below K (m # ns) \<longleftrightarrow> n_K m < K \<and> below K ns" "above K (m # ns) \<longleftrightarrow> K < n_K m \<and> above K ns"
  "below K (ms @ ns) \<longleftrightarrow> below K ms \<and> below K ns" "above K (ms @ ns) \<longleftrightarrow> above K ms \<and> above K ns"
  by (auto simp: below_def above_def)

lemma bt_sorted_Node:
  "bt_sorted (Node n l r d) \<longleftrightarrow>
     bt_sorted l \<and> bt_sorted r \<and> below (n_K n) (bt_nodes l) \<and> above (n_K n) (bt_nodes r)"
  by (auto simp: bt_sorted_def sorted_wrt_append below_def above_def) (meson less_trans)+

lemma below_trans: "below K ns \<Longrightarrow> K \<le> L \<Longrightarrow> below L ns"
  by (auto simp: below_def)

lemma above_trans: "above K ns \<Longrightarrow> L \<le> K \<Longrightarrow> above L ns"
  by (auto simp: above_def)

lemma bt_walk_order:
  assumes "bt_walk K t fs = (s, gs)" and "bt_sorted t"
    and "below K (ctx_left fs)" and "above K (ctx_right fs)"
  shows "below K (ctx_left gs) \<and> above K (ctx_right gs)"
  using assms
proof (induction K t fs rule: bt_walk.induct)
  case (2 K n l r d fs)
  then show ?case
    by (auto simp: bt_sorted_Node split: if_splits dest: below_trans [of "n_K n" _ K]
        above_trans [of "n_K n" _ K])
qed auto

fun children_ok :: "bintree \<Rightarrow> bool" where
  "children_ok Nil = True"
| "children_ok (Node n l r d) = (depth_ok l \<and> depth_ok r)"

lemma depth_ok_children: "depth_ok t \<Longrightarrow> children_ok t"
  by (cases t) auto

lemma bt_balance_children:
  assumes "children_ok t" and "Suc (bt_height t) < 4294967296"
  shows "\<exists>t'. bt_balance t = Inr t' \<and> depth_ok t' \<and> bt_height t' \<le> bt_height t"
  using assms bt_balance_ok by (cases t) auto

lemma bt_backtrack_ok:
  assumes "children_ok t" and "frames_ok fs" and "length fs < k"
    and "Suc (bt_height (bt_plug t fs)) < 4294967296"
  shows "\<exists>t'. bt_backtrack k t fs = Inr t' \<and> depth_ok t' \<and> bt_height t' \<le> bt_height (bt_plug t fs)"
  using assms
proof (induction k t fs rule: bt_backtrack.induct)
  case (2 k t)
  then show ?case using bt_balance_children by simp
next
  case (3 k t f fs)
  have h: "Suc (bt_height t) < 4294967296"
    using "3.prems"(4) bt_plug_height [of t "f # fs"] by simp
  from bt_balance_children [OF "3.prems"(1) h] obtain s where
    s: "bt_balance t = Inr s" "depth_ok s" "bt_height s \<le> bt_height t" by blast
  have le: "bt_height (bt_plug (plug1 s f) fs) \<le> bt_height (bt_plug (plug1 t f) fs)"
    using bt_plug_height_mono [OF s(3), of "f # fs"] by simp
  have "children_ok (plug1 s f)" "frames_ok fs" using s(2) "3.prems"(2) by (cases f; simp)+
  then have "\<exists>t'. bt_backtrack k (plug1 s f) fs = Inr t' \<and> depth_ok t' \<and>
      bt_height t' \<le> bt_height (bt_plug (plug1 s f) fs)"
    using "3.prems" le by (intro "3.IH") auto
  with s(1) le show ?case by fastforce
qed simp

lemma bt_backtrack_nodes:
  "bt_backtrack k t fs = Inr t' \<Longrightarrow> bt_nodes t' = ctx_left fs @ bt_nodes t @ ctx_right fs"
proof (induction k t fs arbitrary: t' rule: bt_backtrack.induct)
  case (1 t fs)
  then show ?case using bt_plug_nodes [of t fs] by simp
next
  case (2 k t)
  then show ?case by (simp add: bt_balance_nodes)
next
  case (3 k t f fs)
  then obtain s where s: "bt_balance t = Inr s" "bt_backtrack k (plug1 s f) fs = Inr t'"
    by (auto simp: rbind_eq_Inr)
  from "3.IH" [OF s(2)] bt_balance_nodes [OF s(1)] show ?case by (cases f) simp_all
qed

section \<open>Insertion\<close>

text \<open>The list operations the tree operations implement: the nodes in key order.\<close>

definition nodes_less :: "u32 \<Rightarrow> bnode list \<Rightarrow> bnode list" where
  "nodes_less K ns = filter (\<lambda>m. n_K m < K) ns"

definition nodes_greater :: "u32 \<Rightarrow> bnode list \<Rightarrow> bnode list" where
  "nodes_greater K ns = filter (\<lambda>m. K < n_K m) ns"

definition nodes_at :: "u32 \<Rightarrow> bnode list \<Rightarrow> bnode list" where
  "nodes_at K ns = filter (\<lambda>m. n_K m = K) ns"

definition bt_map :: "bintree \<Rightarrow> u32 \<Rightarrow> u32 option" where
  "bt_map t = map_of (map (\<lambda>n. (n_K n, n_V n)) (bt_nodes t))"

lemma nodes_split:
  assumes "below K xs" and "above K zs" and "\<forall>m\<in>set ys. n_K m = K"
  shows "nodes_less K (xs @ ys @ zs) = xs" "nodes_greater K (xs @ ys @ zs) = zs"
    "nodes_at K (xs @ ys @ zs) = ys"
proof -
  have xs: "\<forall>m\<in>set xs. n_K m < K" and zs: "\<forall>m\<in>set zs. K < n_K m"
    using assms by (simp_all add: below_def above_def)
  have "filter (\<lambda>m. n_K m < K) xs = xs" "filter (\<lambda>m. n_K m < K) ys = []"
    "filter (\<lambda>m. n_K m < K) zs = []"
    using xs zs assms(3) by (auto simp: filter_empty_conv filter_id_conv dest: less_asym)
  then show "nodes_less K (xs @ ys @ zs) = xs" by (simp add: nodes_less_def)
  have "filter (\<lambda>m. K < n_K m) xs = []" "filter (\<lambda>m. K < n_K m) ys = []"
    "filter (\<lambda>m. K < n_K m) zs = zs"
    using xs zs assms(3) by (auto simp: filter_empty_conv filter_id_conv dest: less_asym)
  then show "nodes_greater K (xs @ ys @ zs) = zs" by (simp add: nodes_greater_def)
  have "filter (\<lambda>m. n_K m = K) xs = []" "filter (\<lambda>m. n_K m = K) ys = ys"
    "filter (\<lambda>m. n_K m = K) zs = []"
    using xs zs assms(3) by (auto simp: filter_empty_conv filter_id_conv)
  then show "nodes_at K (xs @ ys @ zs) = ys" by (simp add: nodes_at_def)
qed

lemma bt_walk_found:
  assumes "bt_walk K t [] = (Node m l r e, fs)" and "bt_sorted t"
  shows "n_K m = K" and "bt_nodes t = (ctx_left fs @ bt_nodes l) @ [m] @ (bt_nodes r @ ctx_right fs)"
    and "below K (ctx_left fs @ bt_nodes l)" and "above K (bt_nodes r @ ctx_right fs)"
proof -
  show K: "n_K m = K" by (rule bt_walk_key [OF assms(1)])
  have p: "bt_plug (Node m l r e) fs = t" using bt_walk_plug [OF assms(1)] by simp
  show nodes: "bt_nodes t = (ctx_left fs @ bt_nodes l) @ [m] @ (bt_nodes r @ ctx_right fs)"
    using bt_plug_nodes [of "Node m l r e" fs] unfolding p by simp
  from assms(2) nodes K show "below K (ctx_left fs @ bt_nodes l)" "above K (bt_nodes r @ ctx_right fs)"
    by (auto simp: bt_sorted_def sorted_wrt_append below_def above_def)
qed

lemma bt_walk_missing:
  assumes "bt_walk K t [] = (Nil, fs)" and "bt_sorted t"
  shows "bt_nodes t = ctx_left fs @ [] @ ctx_right fs"
    and "below K (ctx_left fs)" and "above K (ctx_right fs)"
  using bt_walk_plug [OF assms(1)] bt_plug_nodes [of Nil fs] bt_walk_order [OF assms] by auto

lemma bt_sorted_splice:
  assumes "sorted_wrt (\<lambda>a b. n_K a < n_K b) (xs @ ys @ zs)" and "below K xs" and "above K zs"
    and "n_K n = K"
  shows "sorted_wrt (\<lambda>a b. n_K a < n_K b) (xs @ [n] @ zs)"
  using assms by (fastforce simp: sorted_wrt_append below_def above_def)

text \<open>What a successful backtrack over a walk gives: the node \<open>n\<close> in place of the slot's
  root, everything else unchanged, and the invariant.\<close>

lemma bt_backtrack_walk:
  assumes inv: "bt_inv t" and w: "bt_walk (n_K n) t [] = (s, fs)" and h: "bt_height t < NARR"
    and c: "children_ok s'" "bt_nodes s' = pre @ n # post" "bt_height s' \<le> Suc (bt_height s)"
    and s: "(s = Nil \<and> pre = [] \<and> post = []) \<or>
            (\<exists>m l r e. s = Node m l r e \<and> pre = bt_nodes l \<and> post = bt_nodes r)"
  shows "\<exists>t'. bt_backtrack NARR s' fs = Inr t' \<and> bt_inv t' \<and> bt_height t' \<le> Suc (bt_height t) \<and>
    bt_nodes t' = nodes_less (n_K n) (bt_nodes t) @ n # nodes_greater (n_K n) (bt_nodes t)"
proof -
  have so: "bt_sorted t" and d: "depth_ok t" using inv by (auto simp: bt_inv_def)
  have p: "bt_plug s fs = t" using bt_walk_plug [OF w] by simp
  have fr: "frames_ok fs" using bt_walk_frames [OF w d] by simp
  have len: "length fs < NARR" using bt_plug_height [of s fs] h unfolding p by simp
  have hp: "bt_height (bt_plug s' fs) \<le> Suc (bt_height t)"
    using bt_plug_height_Suc [OF c(3), of fs] unfolding p .
  then have "Suc (bt_height (bt_plug s' fs)) < 4294967296" using h by (simp add: NARR_def)
  from bt_backtrack_ok [OF c(1) fr len this] obtain t' where
    t': "bt_backtrack NARR s' fs = Inr t'" "depth_ok t'" "bt_height t' \<le> Suc (bt_height t)"
    using hp by fastforce
  have nd: "bt_nodes t' = (ctx_left fs @ pre) @ n # (post @ ctx_right fs)"
    using bt_backtrack_nodes [OF t'(1)] c(2) by simp
  obtain ys where ys: "bt_nodes t = (ctx_left fs @ pre) @ ys @ (post @ ctx_right fs)"
    "\<forall>m\<in>set ys. n_K m = n_K n" "below (n_K n) (ctx_left fs @ pre)" "above (n_K n) (post @ ctx_right fs)"
    using s
  proof (elim disjE exE conjE)
    assume "s = Nil" "pre = []" "post = []"
    with bt_walk_missing [OF _ so] w show thesis by (intro that [of "[]"]) auto
  next
    fix m l r e
    assume e: "s = Node m l r e" "pre = bt_nodes l" "post = bt_nodes r"
    with bt_walk_found [OF _ so, of "n_K n" m l r e fs] w show thesis
      by (intro that [of "[m]"]) auto
  qed
  note parts = nodes_split [OF ys(3,4,2)]
  have "bt_sorted t'"
    using bt_sorted_splice [of "ctx_left fs @ pre" ys "post @ ctx_right fs" "n_K n" n] so ys(1,3,4) nd
    by (simp add: bt_sorted_def)
  then show ?thesis using t' nd parts unfolding ys(1) by (simp add: bt_inv_def)
qed

lemma find_node_split:
  assumes "below K xs" and "\<forall>m\<in>set ys. n_K m = K" and "above K zs"
  shows "find (\<lambda>m. n_K m = K) (xs @ ys @ zs) = (case ys of [] \<Rightarrow> None | m # _ \<Rightarrow> Some m)"
proof -
  have *: "find P us = None \<Longrightarrow> find P (us @ vs) = find P vs" for P and us vs :: "bnode list"
    by (induction us) (auto split: if_splits)
  have x: "find (\<lambda>m. n_K m = K) xs = None" and z: "find (\<lambda>m. n_K m = K) zs = None"
    using assms by (auto simp: find_None_iff below_def above_def)
  show ?thesis using assms(2) z by (subst * [OF x]) (cases ys; simp)
qed

text \<open>The node that a key names, and the map from keys to values the tree represents.\<close>

definition bt_node_at :: "bintree \<Rightarrow> u32 \<Rightarrow> bnode option" where
  "bt_node_at t K = find (\<lambda>m. n_K m = K) (bt_nodes t)"

lemma bt_map_node_at: "bt_map t K = map_option n_V (bt_node_at t K)"
proof -
  have "map_of (map (\<lambda>n. (n_K n, n_V n)) ns) K = map_option n_V (find (\<lambda>m. n_K m = K) ns)" for ns
    by (induction ns) auto
  then show ?thesis by (simp add: bt_map_def bt_node_at_def)
qed

lemma bt_node_at_walk:
  assumes "bt_sorted t"
  shows "bt_walk K t [] = (Nil, fs) \<Longrightarrow> bt_node_at t K = None"
    and "bt_walk K t [] = (Node m l r e, fs) \<Longrightarrow> bt_node_at t K = Some m"
proof -
  assume w: "bt_walk K t [] = (Nil, fs)"
  show "bt_node_at t K = None"
    using bt_walk_missing [OF w assms] find_node_split [of K "ctx_left fs" "[]" "ctx_right fs"]
    by (simp add: bt_node_at_def)
next
  assume w: "bt_walk K t [] = (Node m l r e, fs)"
  show "bt_node_at t K = Some m"
    using bt_walk_found [OF w assms]
      find_node_split [of K "ctx_left fs @ bt_nodes l" "[m]" "bt_nodes r @ ctx_right fs"]
    by (simp add: bt_node_at_def)
qed

lemma bt_node_at_Some:
  assumes "bt_sorted t"
  shows "bt_node_at t K = Some m \<longleftrightarrow> m \<in> set (bt_nodes t) \<and> n_K m = K"
proof -
  have "sorted_wrt (\<lambda>a b. n_K a < n_K b) ns \<Longrightarrow>
    find (\<lambda>m. n_K m = K) ns = Some m \<longleftrightarrow> m \<in> set ns \<and> n_K m = K" for ns
    by (induction ns) auto
  with assms show ?thesis by (simp add: bt_node_at_def bt_sorted_def)
qed

lemma bt_node_at_update:
  assumes "bt_sorted t" and "bt_sorted t'"
    and "bt_nodes t' = nodes_less (n_K n) (bt_nodes t) @ n # nodes_greater (n_K n) (bt_nodes t)"
  shows "bt_node_at t' = (bt_node_at t)(n_K n \<mapsto> n)"
proof
  fix K
  have set: "set (bt_nodes t') = {n} \<union> {m \<in> set (bt_nodes t). n_K m \<noteq> n_K n}"
    using assms(3) by (auto simp: nodes_less_def nodes_greater_def)
  have "bt_node_at t' K = Some m \<longleftrightarrow> ((bt_node_at t)(n_K n \<mapsto> n)) K = Some m" for m
    by (auto simp: bt_node_at_Some assms(1,2) set)
  then show "bt_node_at t' K = ((bt_node_at t)(n_K n \<mapsto> n)) K"
    by (metis not_Some_eq)
qed

lemma bt_put_eq:
  assumes "bt_inv t" and "bt_height t < NARR"
  shows "\<exists>t' it'. bt_put t (Some (n, d)) = Inr (t', it') \<and> bt_inv t' \<and>
    bt_height t' \<le> Suc (bt_height t) \<and> map_option fst it' = bt_node_at t (n_K n) \<and>
    bt_nodes t' = nodes_less (n_K n) (bt_nodes t) @ n # nodes_greater (n_K n) (bt_nodes t)"
proof -
  have so: "bt_sorted t" and dok: "depth_ok t" using assms by (auto simp: bt_inv_def)
  obtain s fs where w: "bt_walk (n_K n) t [] = (s, fs)" by fastforce
  show ?thesis
  proof (cases s)
    case Nil
    from bt_backtrack_walk [OF assms(1) w assms(2), of "Node n Nil Nil d" "[]" "[]"] Nil
    show ?thesis using w bt_node_at_walk(1) [OF so] by (fastforce simp: bt_put_def)
  next
    case (Node m l r e)
    have "depth_ok l" "depth_ok r" using bt_walk_frames [OF w dok] Node by auto
    with bt_backtrack_walk [OF assms(1) w assms(2), of "Node n l r e" "bt_nodes l" "bt_nodes r"] Node
    show ?thesis using w bt_node_at_walk(2) [OF so] by (fastforce simp: bt_put_def)
  qed
qed

lemma bt_insert_put:
  assumes "bt_sorted t" and "bt_node_at t (n_K n) = None"
  shows "bt_insert t (Some (n, d)) = bt_put t (Some (n, d))"
  using assms bt_node_at_walk [OF assms(1), of "n_K n"]
  by (auto simp: bt_insert_def bt_put_def split: bintree.splits prod.splits)

lemma bt_insert_present:
  assumes "bt_sorted t" and "bt_node_at t (n_K n) \<noteq> None"
  shows "bt_insert t (Some (n, d)) = Inr (t, Some (n, d))"
  using assms bt_node_at_walk [OF assms(1), of "n_K n"]
  by (auto simp: bt_insert_def split: bintree.splits prod.splits)

lemma bt_put_ip_put:
  assumes "bt_sorted t"
  shows "bt_put_ip t (Some (n, d)) =
    (case bt_node_at t (n_K n) of None \<Rightarrow> bt_put t (Some (n, d))
     | Some m \<Rightarrow> rbind (bt_put t (Some (m\<lparr>n_V := n_V n\<rparr>, d))) (\<lambda>(t', _). Inr (t', Some (n, d))))"
proof -
  obtain s fs where w: "bt_walk (n_K n) t [] = (s, fs)" by fastforce
  show ?thesis
  proof (cases s)
    case Nil
    then show ?thesis using w bt_node_at_walk(1) [OF assms] by (simp add: bt_put_ip_def bt_put_def)
  next
    case (Node m l r e)
    then have "n_K m = n_K n" "bt_node_at t (n_K n) = Some m"
      using w bt_walk_key bt_node_at_walk(2) [OF assms] by auto
    then show ?thesis using w Node by (simp add: bt_put_ip_def bt_put_def rbind_assoc)
  qed
qed

section \<open>Removal\<close>

fun rot_room :: "bintree \<Rightarrow> nat" where
  "rot_room Nil = 0"
| "rot_room (Node n l r d) = bt_height l + bt_height r"

text \<open>The walk of \<^verbatim>\<open>bt_remove\<close> ends at the node it started with, at a slot at most
  \<open>rot_room t\<close> levels further down; every depth on the way is kept correct.\<close>

lemma bt_remove_walk_ok:
  assumes "depth_ok t" and "frames_ok fs" and "t = Node n l r d"
    and "rot_room t < 4294967294"
  shows "\<exists>e s gs. bt_remove_walk t fs = Inr (Some (n, e), s, gs) \<and> depth_ok s \<and> frames_ok gs \<and>
    length gs \<le> length fs + rot_room t \<and>
    bt_height (bt_plug s gs) \<le> bt_height (bt_plug t fs) + rot_room t \<and>
    ctx_left gs @ bt_nodes s @ ctx_right gs = ctx_left fs @ bt_nodes l @ bt_nodes r @ ctx_right fs"
  using assms
proof (induction "rot_room t" arbitrary: t fs l r d rule: less_induct)
  case less
  note t = less.prems(3)
  have h1: "bt_height (bt_plug l fs) \<le> bt_height (bt_plug t fs)"
    and h2: "bt_height (bt_plug r fs) \<le> bt_height (bt_plug t fs)"
    using t by (auto intro: bt_plug_height_mono)
  consider (lnil) "l = Nil" | (rnil) "l \<noteq> Nil" "r = Nil"
    | (left) "l \<noteq> Nil" "r \<noteq> Nil" "bt_depth l \<le> bt_depth r"
    | (right) "l \<noteq> Nil" "r \<noteq> Nil" "\<not> bt_depth l \<le> bt_depth r" by blast
  then show ?case
  proof cases
    case lnil
    then show ?thesis using less.prems h2 by (auto simp: trans_le_add1)
  next
    case rnil
    then show ?thesis using less.prems h1 by (auto simp: trans_le_add1)
  next
    case left
    obtain x xl xr xd where r: "r = Node x xl xr xd" using left(2) by (cases r) auto
    let ?h = "bt_calcdepth (Node n l xl d)"
    let ?x = "bt_calcdepth (Node x ?h xr xd)"
    obtain hd' where hh: "?h = Node n l xl hd'" by simp
    obtain xd' where xx: "?x = Node x ?h xr xd'" by simp
    have "bt_height l + bt_height xl < 4294967294" "bt_height xl < bt_height r"
      using less.prems(4) t r by auto
    then have dh: "depth_ok ?h"
      using less.prems(1) t r by (intro depth_ok_calcdepth) auto
    have room: "rot_room ?h < rot_room t" using t r by simp
    have "frames_ok (LF x xr xd' # fs)" using less.prems t r by simp
    from less.hyps [OF room dh this hh] room less.prems(4) obtain e s gs where
      IH: "bt_remove_walk ?h (LF x xr xd' # fs) = Inr (Some (n, e), s, gs)" "depth_ok s" "frames_ok gs"
      "length gs \<le> Suc (length fs) + rot_room ?h"
      "bt_height (bt_plug s gs) \<le> bt_height (bt_plug (Node x ?h xr xd') fs) + rot_room ?h"
      "ctx_left gs @ bt_nodes s @ ctx_right gs =
         ctx_left fs @ bt_nodes l @ bt_nodes xl @ x # bt_nodes xr @ ctx_right fs"
      by auto
    have "bt_height (Node x ?h xr xd') \<le> Suc (bt_height t)" using t r by auto
    note up = bt_plug_height_Suc [OF this, of fs]
    have "bt_remove_walk t fs = bt_remove_walk ?h (LF x xr xd' # fs)"
      using t r left xx by simp
    with IH up room show ?thesis using t r by auto
  next
    case right
    obtain x xl xr xd where l: "l = Node x xl xr xd" using right(1) by (cases l) auto
    let ?h = "bt_calcdepth (Node n xr r d)"
    let ?x = "bt_calcdepth (Node x xl ?h xd)"
    obtain hd' where hh: "?h = Node n xr r hd'" by simp
    obtain xd' where xx: "?x = Node x xl ?h xd'" by simp
    have "bt_height xr + bt_height r < 4294967294" "bt_height xr < bt_height l"
      using less.prems(4) t l by auto
    then have dh: "depth_ok ?h"
      using less.prems(1) t l by (intro depth_ok_calcdepth) auto
    have room: "rot_room ?h < rot_room t" using t l by simp
    have "frames_ok (RF x xl xd' # fs)" using less.prems t l by simp
    from less.hyps [OF room dh this hh] room less.prems(4) obtain e s gs where
      IH: "bt_remove_walk ?h (RF x xl xd' # fs) = Inr (Some (n, e), s, gs)" "depth_ok s" "frames_ok gs"
      "length gs \<le> Suc (length fs) + rot_room ?h"
      "bt_height (bt_plug s gs) \<le> bt_height (bt_plug (Node x xl ?h xd') fs) + rot_room ?h"
      "ctx_left gs @ bt_nodes s @ ctx_right gs =
         ctx_left fs @ bt_nodes xl @ x # bt_nodes xr @ bt_nodes r @ ctx_right fs"
      by auto
    have "bt_height (Node x xl ?h xd') \<le> Suc (bt_height t)" using t l by auto
    note up = bt_plug_height_Suc [OF this, of fs]
    have "bt_remove_walk t fs = bt_remove_walk ?h (RF x xl xd' # fs)"
      using t l right xx by simp
    with IH up room show ?thesis using t l by auto
  qed
qed

lemma bt_remove_eq:
  assumes "bt_inv (Node n l r d)" and "bt_height (Node n l r d) \<le> NARR div 2"
  shows "\<exists>t' e. bt_remove (Node n l r d) it = Inr (t', Some (n, e)) \<and> bt_inv t' \<and>
    bt_nodes t' = bt_nodes l @ bt_nodes r"
proof -
  let ?t = "Node n l r d"
  have room: "rot_room ?t \<le> 62" "bt_height ?t \<le> 32" using assms(2) by (auto simp: NARR_def)
  from bt_remove_walk_ok [of ?t "[]" n l r d] assms room obtain e s gs where
    w: "bt_remove_walk ?t [] = Inr (Some (n, e), s, gs)" "depth_ok s" "frames_ok gs"
    "length gs \<le> rot_room ?t" "bt_height (bt_plug s gs) \<le> bt_height ?t + rot_room ?t"
    "ctx_left gs @ bt_nodes s @ ctx_right gs = bt_nodes l @ bt_nodes r"
    by (auto simp: bt_inv_def)
  have "length gs < NARR" "Suc (bt_height (bt_plug s gs)) < 4294967296"
    using w(4,5) room by (auto simp: NARR_def)
  from bt_backtrack_ok [OF depth_ok_children [OF w(2)] w(3) this] obtain t' where
    t': "bt_backtrack NARR s gs = Inr t'" "depth_ok t'" by blast
  have nd: "bt_nodes t' = bt_nodes l @ bt_nodes r" using bt_backtrack_nodes [OF t'(1)] w(6) by simp
  have "bt_sorted t'" using assms(1) nd by (auto simp: bt_inv_def bt_sorted_def sorted_wrt_append)
  with t' nd w(1) show ?thesis by (simp add: bt_remove_def bt_inv_def del: bt_remove_walk.simps)
qed

section \<open>Searching\<close>

lemma bt_lookup_from_walk:
  "bt_lookup_from K t fs =
     (case bt_walk K t fs of (Nil, gs) \<Rightarrow> None | (Node n l r d, gs) \<Rightarrow> Some (Node n l r d, gs))"
  by (induction K t fs rule: bt_walk.induct) auto

definition nodes_upto :: "u32 \<Rightarrow> bnode list \<Rightarrow> bnode list" where
  "nodes_upto K ns = filter (\<lambda>m. n_K m \<le> K) ns"

definition nodes_from :: "u32 \<Rightarrow> bnode list \<Rightarrow> bnode list" where
  "nodes_from K ns = filter (\<lambda>m. K \<le> n_K m) ns"

text \<open>\<open>slot_of t s fs n\<close>: the slot \<open>(s, fs)\<close> is in the tree \<open>t\<close> and holds the node \<open>n\<close>.\<close>

definition slot_of :: "bintree \<Rightarrow> bintree \<Rightarrow> frame list \<Rightarrow> bnode \<Rightarrow> bool" where
  "slot_of t s fs n \<longleftrightarrow> bt_plug s fs = t \<and> (\<exists>l r d. s = Node n l r d)"

lemma nodes_upto_split:
  assumes "below K xs" and "above K zs"
  shows "nodes_upto K (xs @ zs) = xs" "nodes_from K (xs @ zs) = zs"
proof -
  have "filter (\<lambda>m. n_K m \<le> K) xs = xs" "filter (\<lambda>m. n_K m \<le> K) zs = []"
    "filter (\<lambda>m. K \<le> n_K m) xs = []" "filter (\<lambda>m. K \<le> n_K m) zs = zs"
    using assms by (auto simp: below_def above_def filter_empty_conv filter_id_conv not_le)
  then show "nodes_upto K (xs @ zs) = xs" "nodes_from K (xs @ zs) = zs"
    by (simp_all add: nodes_upto_def nodes_from_def)
qed

lemma nodes_upto_found:
  assumes "below K xs" and "above K zs" and "n_K m = K"
  shows "nodes_upto K (xs @ m # zs) = xs @ [m]" "nodes_from K (xs @ m # zs) = m # zs"
  using nodes_upto_split [OF assms(1), of "[]"] nodes_upto_split [OF _ assms(2), of "[]"] assms(3)
  by (simp_all add: nodes_upto_def nodes_from_def)

text \<open>The loop of \<^verbatim>\<open>bt_floor\<close>: \<^verbatim>\<open>lowermost\<close> is the slot of the last node to the left of
  the path. \<open>floor_best\<close> says so of the pair it remembers.\<close>

definition floor_best :: "bintree \<Rightarrow> frame list \<Rightarrow> (bintree \<times> frame list) option \<Rightarrow> bool" where
  "floor_best t fs best = (case best of None \<Rightarrow> ctx_left fs = []
     | Some (s, gs) \<Rightarrow> ctx_left fs \<noteq> [] \<and> slot_of t s gs (last (ctx_left fs)))"

definition ceiling_best :: "bintree \<Rightarrow> frame list \<Rightarrow> (bintree \<times> frame list) option \<Rightarrow> bool" where
  "ceiling_best t fs best = (case best of None \<Rightarrow> ctx_right fs = []
     | Some (s, gs) \<Rightarrow> ctx_right fs \<noteq> [] \<and> slot_of t s gs (hd (ctx_right fs)))"

lemma bt_floor_from_walk:
  assumes "floor_best (bt_plug t fs) fs best"
  shows "\<exists>s gs. bt_walk K t fs = (s, gs) \<and>
    (case s of Nil \<Rightarrow> floor_best (bt_plug t fs) gs (bt_floor_from K best t fs)
     | Node n l r d \<Rightarrow> bt_floor_from K best t fs = Some (s, gs))"
  using assms
proof (induction K best t fs rule: bt_floor_from.induct)
  case (2 K best n l r d fs)
  consider "K < n_K n" | "n_K n < K" | "n_K n = K" by fastforce
  then show ?case
  proof cases
    case 1
    then have eq: "bt_walk K (Node n l r d) fs = bt_walk K l (LF n r d # fs)"
      "bt_floor_from K best (Node n l r d) fs = bt_floor_from K best l (LF n r d # fs)" by simp_all
    have "floor_best (bt_plug l (LF n r d # fs)) (LF n r d # fs) best"
      using "2.prems" by (simp add: floor_best_def cong: option.case_cong)
    from "2.IH"(1) [OF 1 this] show ?thesis unfolding eq by (simp cong: bintree.case_cong)
  next
    case 2
    then have eq: "bt_walk K (Node n l r d) fs = bt_walk K r (RF n l d # fs)"
      "bt_floor_from K best (Node n l r d) fs =
         bt_floor_from K (Some (Node n l r d, fs)) r (RF n l d # fs)" by auto
    have "floor_best (bt_plug r (RF n l d # fs)) (RF n l d # fs) (Some (Node n l r d, fs))"
      by (simp add: floor_best_def slot_of_def)
    from "2.IH"(2) [OF _ 2 this] 2 show ?thesis unfolding eq by (auto cong: bintree.case_cong)
  qed simp
qed simp

lemma bt_ceiling_from_walk:
  assumes "ceiling_best (bt_plug t fs) fs best"
  shows "\<exists>s gs. bt_walk K t fs = (s, gs) \<and>
    (case s of Nil \<Rightarrow> ceiling_best (bt_plug t fs) gs (bt_ceiling_from K best t fs)
     | Node n l r d \<Rightarrow> bt_ceiling_from K best t fs = Some (s, gs))"
  using assms
proof (induction K best t fs rule: bt_ceiling_from.induct)
  case (2 K best n l r d fs)
  consider "K < n_K n" | "n_K n < K" | "n_K n = K" by fastforce
  then show ?case
  proof cases
    case 1
    then have eq: "bt_walk K (Node n l r d) fs = bt_walk K l (LF n r d # fs)"
      "bt_ceiling_from K best (Node n l r d) fs =
         bt_ceiling_from K (Some (Node n l r d, fs)) l (LF n r d # fs)" by simp_all
    have "ceiling_best (bt_plug l (LF n r d # fs)) (LF n r d # fs) (Some (Node n l r d, fs))"
      by (simp add: ceiling_best_def slot_of_def)
    from "2.IH"(1) [OF 1 this] show ?thesis unfolding eq by (simp cong: bintree.case_cong)
  next
    case 2
    then have eq: "bt_walk K (Node n l r d) fs = bt_walk K r (RF n l d # fs)"
      "bt_ceiling_from K best (Node n l r d) fs = bt_ceiling_from K best r (RF n l d # fs)" by auto
    have "ceiling_best (bt_plug r (RF n l d # fs)) (RF n l d # fs) best"
      using "2.prems" by (simp add: ceiling_best_def cong: option.case_cong)
    from "2.IH"(2) [OF _ 2 this] 2 show ?thesis unfolding eq by (auto cong: bintree.case_cong)
  qed simp
qed simp

lemma slot_of_walk: "bt_walk K t [] = (Node n l r d, gs) \<Longrightarrow> slot_of t (Node n l r d) gs n"
  using bt_walk_plug [of K t "[]"] by (simp add: slot_of_def)

lemma bt_floor_eq:
  assumes "bt_sorted t"
  shows "case bt_floor t K of None \<Rightarrow> nodes_upto K (bt_nodes t) = []
    | Some (s, fs) \<Rightarrow> nodes_upto K (bt_nodes t) \<noteq> [] \<and> slot_of t s fs (last (nodes_upto K (bt_nodes t)))"
proof -
  obtain s gs where w: "bt_walk K t [] = (s, gs)" by fastforce
  from bt_floor_from_walk [of t "[]" None K] w
  have r: "case s of Nil \<Rightarrow> floor_best t gs (bt_floor t K) | Node n l r d \<Rightarrow> bt_floor t K = Some (s, gs)"
    by (simp add: floor_best_def bt_floor_def cong: bintree.case_cong)
  show ?thesis
  proof (cases s)
    case Nil
    with bt_walk_missing [OF _ assms] w nodes_upto_split [of K "ctx_left gs" "ctx_right gs"]
    have "nodes_upto K (bt_nodes t) = ctx_left gs" by simp
    with r Nil show ?thesis by (simp add: floor_best_def cong: option.case_cong)
  next
    case (Node n l r' d)
    with w have w': "bt_walk K t [] = (Node n l r' d, gs)" by simp
    from bt_walk_found [OF w' assms]
      nodes_upto_found(1) [of K "ctx_left gs @ bt_nodes l" "bt_nodes r' @ ctx_right gs" n]
    have "nodes_upto K (bt_nodes t) = (ctx_left gs @ bt_nodes l) @ [n]" by simp
    with r Node slot_of_walk [OF w'] show ?thesis by simp
  qed
qed

lemma bt_ceiling_eq:
  assumes "bt_sorted t"
  shows "case bt_ceiling t K of None \<Rightarrow> nodes_from K (bt_nodes t) = []
    | Some (s, fs) \<Rightarrow> nodes_from K (bt_nodes t) \<noteq> [] \<and> slot_of t s fs (hd (nodes_from K (bt_nodes t)))"
proof -
  obtain s gs where w: "bt_walk K t [] = (s, gs)" by fastforce
  from bt_ceiling_from_walk [of t "[]" None K] w
  have r: "case s of Nil \<Rightarrow> ceiling_best t gs (bt_ceiling t K) | Node n l r d \<Rightarrow> bt_ceiling t K = Some (s, gs)"
    by (simp add: ceiling_best_def bt_ceiling_def cong: bintree.case_cong)
  show ?thesis
  proof (cases s)
    case Nil
    with bt_walk_missing [OF _ assms] w nodes_upto_split [of K "ctx_left gs" "ctx_right gs"]
    have "nodes_from K (bt_nodes t) = ctx_right gs" by simp
    with r Nil show ?thesis by (simp add: ceiling_best_def cong: option.case_cong)
  next
    case (Node n l r' d)
    with w have w': "bt_walk K t [] = (Node n l r' d, gs)" by simp
    from bt_walk_found [OF w' assms]
      nodes_upto_found(2) [of K "ctx_left gs @ bt_nodes l" "bt_nodes r' @ ctx_right gs" n]
    have "nodes_from K (bt_nodes t) = n # (bt_nodes r' @ ctx_right gs)" by simp
    with r Node slot_of_walk [OF w'] show ?thesis by simp
  qed
qed

lemma bt_lookup_eq:
  assumes "bt_sorted t"
  shows "case bt_lookup t K of None \<Rightarrow> bt_node_at t K = None
    | Some (s, fs) \<Rightarrow> \<exists>n. bt_node_at t K = Some n \<and> slot_of t s fs n"
proof -
  obtain s gs where w: "bt_walk K t [] = (s, gs)" by fastforce
  then show ?thesis
    using bt_node_at_walk [OF assms, of K] slot_of_walk [of K t]
    by (cases s) (auto simp: bt_lookup_def bt_lookup_from_walk)
qed

section \<open>The interface of an index\<close>

text \<open>What a client of the tree relies on: an index that is well formed and has at most \<open>k\<close>
  levels takes another node as long as \<open>k\<close> is below a limit, and then maps the node's key to
  it. The client's law: a sequence of nodes no longer than the limit can be entered one by one, and
  the last node of each key is the one found.\<close>

locale key_index =
  fixes idx_ok :: "nat \<Rightarrow> 't \<Rightarrow> bool"
    and idx_at :: "'t \<Rightarrow> 'k \<Rightarrow> 'n option"
    and idx_put :: "'t \<Rightarrow> 'n \<Rightarrow> 't res"
    and idx_key :: "'n \<Rightarrow> 'k"
    and idx_limit :: nat
  assumes idx_put_ok: "idx_ok k t \<Longrightarrow> k < idx_limit \<Longrightarrow>
    \<exists>t'. idx_put t n = Inr t' \<and> idx_ok (Suc k) t' \<and> idx_at t' = (idx_at t)(idx_key n \<mapsto> n)"
begin

primrec put_all :: "'t \<Rightarrow> 'n list \<Rightarrow> 't res" where
  "put_all t [] = Inr t"
| "put_all t (n # ns) = rbind (idx_put t n) (\<lambda>t. put_all t ns)"

lemma put_all_ok:
  "idx_ok k t \<Longrightarrow> k + length ns \<le> idx_limit \<Longrightarrow>
    \<exists>t'. put_all t ns = Inr t' \<and> idx_ok (k + length ns) t' \<and>
      idx_at t' = idx_at t ++ map_of (rev (map (\<lambda>n. (idx_key n, n)) ns))"
proof (induction ns arbitrary: k t)
  case (Cons n ns)
  then obtain t1 where t1: "idx_put t n = Inr t1" "idx_ok (Suc k) t1"
    "idx_at t1 = (idx_at t)(idx_key n \<mapsto> n)"
    using idx_put_ok [of k t n] by auto
  have "(idx_at t)(idx_key n \<mapsto> n) = (\<lambda>a. if a = idx_key n then Some n else idx_at t a)" by auto
  with Cons.IH [OF t1(2)] Cons.prems(2) t1 show ?case by auto
qed simp

end

definition bt_put_tree :: "bintree \<Rightarrow> bnode \<Rightarrow> bintree res" where
  "bt_put_tree t n = rbind (bt_put t (Some (n, 0))) (\<lambda>(t', _). Inr t')"

interpretation bti: key_index "\<lambda>k t. bt_inv t \<and> bt_height t \<le> k" bt_node_at bt_put_tree n_K NARR
proof unfold_locales
  fix k t n
  assume a: "bt_inv t \<and> bt_height t \<le> k" "k < NARR"
  then have "bt_inv t" "bt_height t < NARR" by auto
  from bt_put_eq [OF this, of n 0] a
  show "\<exists>t'. bt_put_tree t n = Inr t' \<and> (bt_inv t' \<and> bt_height t' \<le> Suc k) \<and>
      bt_node_at t' = (bt_node_at t)(n_K n \<mapsto> n)"
    using bt_node_at_update by (fastforce simp: bt_put_tree_def bt_inv_def)
qed

section \<open>Properties\<close>

definition mk_node :: "u32 \<Rightarrow> u32 \<Rightarrow> bnode" where
  "mk_node K V = \<lparr>n_addr = K, n_K = K, n_V = V\<rparr>"

definition example_tree :: bintree where
  "example_tree = Node (mk_node 20 2) (Node (mk_node 10 1) Nil Nil 1) (Node (mk_node 30 3) Nil Nil 1) 2"

definition example_pair :: bintree where
  "example_pair = Node (mk_node 20 2) Nil (Node (mk_node 30 3) Nil Nil 1) 2"

lemma example_tree_inv: "bt_inv example_tree" "bt_height example_tree = 2"
  by (simp_all add: example_tree_def bt_inv_def bt_sorted_def mk_node_def)

text \<open>C17. \<^verbatim>\<open>bt_put\<close> on a well-formed tree of fewer than 64 levels does not fault, leaves a
  well-formed tree whose nodes in key order are the old ones with the new node in the place of its
  key, hands back the node it replaced, if any, and makes the tree deeper by at most one
  level.\<close>

theorem bt_put_correct:
  assumes "bt_inv t" and "bt_height t < NARR"
  shows "\<exists>t' it'. bt_put t (Some (n, d)) = Inr (t', it') \<and> bt_inv t' \<and>
    bt_height t' \<le> Suc (bt_height t) \<and>
    bt_nodes t' = nodes_less (n_K n) (bt_nodes t) @ n # nodes_greater (n_K n) (bt_nodes t) \<and>
    bt_node_at t' = (bt_node_at t)(n_K n \<mapsto> n) \<and> map_option fst it' = bt_node_at t (n_K n)"
proof -
  from bt_put_eq [OF assms, of n d] obtain t' it' where r: "bt_put t (Some (n, d)) = Inr (t', it')"
    "bt_inv t'" "bt_height t' \<le> Suc (bt_height t)" "map_option fst it' = bt_node_at t (n_K n)"
    "bt_nodes t' = nodes_less (n_K n) (bt_nodes t) @ n # nodes_greater (n_K n) (bt_nodes t)" by blast
  then have "bt_node_at t' = (bt_node_at t)(n_K n \<mapsto> n)"
    using assms(1) by (intro bt_node_at_update) (auto simp: bt_inv_def)
  with r show ?thesis by blast
qed

theorem bt_put_correct_witness:
  "\<exists>t' it'. bt_put example_tree (Some (mk_node 10 7, 0)) = Inr (t', it') \<and> bt_inv t' \<and>
    bt_node_at t' 10 = Some (mk_node 10 7) \<and> map_option fst it' = Some (mk_node 10 1)"
proof -
  have "bt_height example_tree < NARR" by (simp add: example_tree_inv NARR_def)
  from bt_put_correct [OF example_tree_inv(1) this, of "mk_node 10 7" 0]
  obtain t' it' where r: "bt_put example_tree (Some (mk_node 10 7, 0)) = Inr (t', it')" "bt_inv t'"
    "bt_node_at t' = (bt_node_at example_tree)(n_K (mk_node 10 7) \<mapsto> mk_node 10 7)"
    "map_option fst it' = bt_node_at example_tree (n_K (mk_node 10 7))" by blast
  moreover have "bt_node_at example_tree 10 = Some (mk_node 10 1)"
    by (simp add: bt_node_at_def example_tree_def mk_node_def)
  ultimately show ?thesis by (auto simp: mk_node_def)
qed

text \<open>C18. \<^verbatim>\<open>bt_insert\<close> and \<^verbatim>\<open>bt_put_ip\<close> against the map from keys to values. On a
  well-formed tree of fewer than 64 levels both succeed and keep the invariant. \<^verbatim>\<open>bt_insert\<close>
  leaves a key that is present as it is and gives the node back; \<^verbatim>\<open>bt_put_ip\<close> changes the
  value of a present key and gives the node back; both link the node in, and return null, when the
  key is new.\<close>

theorem bt_insert_put_ip_map:
  assumes "bt_inv t" and "bt_height t < NARR"
  shows "(\<exists>t' it'. bt_insert t (Some (n, d)) = Inr (t', it') \<and> bt_inv t' \<and>
      (bt_map t (n_K n) \<noteq> None \<longrightarrow> t' = t \<and> it' = Some (n, d)) \<and>
      (bt_map t (n_K n) = None \<longrightarrow> it' = None \<and> bt_map t' = (bt_map t)(n_K n \<mapsto> n_V n))) \<and>
    (\<exists>t' it'. bt_put_ip t (Some (n, d)) = Inr (t', it') \<and> bt_inv t' \<and>
      bt_map t' = (bt_map t)(n_K n \<mapsto> n_V n) \<and>
      it' = (if bt_map t (n_K n) = None then None else Some (n, d)))"
proof -
  have so: "bt_sorted t" using assms by (simp add: bt_inv_def)
  have put: "\<exists>t' it'. bt_put t (Some (m, d)) = Inr (t', it') \<and> bt_inv t' \<and>
      bt_map t' = (bt_map t)(n_K m \<mapsto> n_V m) \<and> map_option fst it' = bt_node_at t (n_K m)" for m
  proof -
    from bt_put_eq [OF assms, of m d] obtain t' it' where r: "bt_put t (Some (m, d)) = Inr (t', it')"
      "bt_inv t'" "map_option fst it' = bt_node_at t (n_K m)"
      "bt_nodes t' = nodes_less (n_K m) (bt_nodes t) @ m # nodes_greater (n_K m) (bt_nodes t)" by blast
    then have "bt_node_at t' = (bt_node_at t)(n_K m \<mapsto> m)"
      using assms(1) by (intro bt_node_at_update) (auto simp: bt_inv_def)
    with r show ?thesis by (auto simp: bt_map_node_at fun_eq_iff)
  qed
  show ?thesis
  proof (cases "bt_node_at t (n_K n)")
    case None
    with put [of n] show ?thesis
      by (auto simp: bt_insert_put [OF so] bt_put_ip_put [OF so] bt_map_node_at)
  next
    case (Some m)
    then have "n_K m = n_K n" using bt_node_at_Some [OF so] by auto
    with Some put [of "m\<lparr>n_V := n_V n\<rparr>"] assms(1) show ?thesis
      by (auto simp: bt_insert_present [OF so] bt_put_ip_put [OF so] bt_map_node_at)
  qed
qed

theorem bt_insert_put_ip_map_witness:
  "\<exists>t' it'. bt_put_ip example_tree (Some (mk_node 25 8, 0)) = Inr (t', it') \<and> bt_inv t' \<and>
    bt_map t' 25 = Some 8 \<and> bt_map t' 30 = Some 3 \<and> it' = None"
proof -
  have "bt_height example_tree < NARR" by (simp add: example_tree_inv NARR_def)
  note th = bt_insert_put_ip_map [OF example_tree_inv(1) this, of "mk_node 25 8" 0]
  have "bt_map example_tree 25 = None" "bt_map example_tree 30 = Some 3"
    by (simp_all add: bt_map_def example_tree_def mk_node_def)
  with conjunct2 [OF th] show ?thesis by (auto simp: mk_node_def)
qed

text \<open>C19. \<^verbatim>\<open>bt_remove\<close> on the slot of a well-formed tree of at most 32 levels terminates
  without a fault, hands out the node the slot held, leaves the other nodes in their order, keeps the
  invariant and deletes exactly the key of that node from the map.\<close>

theorem bt_remove_correct:
  assumes "bt_inv (Node n l r d)" and "bt_height (Node n l r d) \<le> NARR div 2"
  shows "\<exists>t' e. bt_remove (Node n l r d) it = Inr (t', Some (n, e)) \<and> bt_inv t' \<and>
    bt_nodes t' = bt_nodes l @ bt_nodes r \<and>
    bt_node_at t' = (bt_node_at (Node n l r d))(n_K n := None)"
proof -
  from bt_remove_eq [OF assms, of it] obtain t' e where r:
    "bt_remove (Node n l r d) it = Inr (t', Some (n, e))" "bt_inv t'" "bt_nodes t' = bt_nodes l @ bt_nodes r"
    by blast
  have so: "bt_sorted (Node n l r d)" "bt_sorted t'" using assms(1) r(2) by (auto simp: bt_inv_def)
  have "bt_node_at t' K = Some m \<longleftrightarrow> ((bt_node_at (Node n l r d))(n_K n := None)) K = Some m" for K m
    using so(1) by (auto simp: bt_node_at_Some [OF so(1)] bt_node_at_Some [OF so(2)] r(3) bt_sorted_Node
        below_def above_def)
  then have "bt_node_at t' = (bt_node_at (Node n l r d))(n_K n := None)"
    by (intro ext) (metis not_Some_eq)
  with r show ?thesis by blast
qed

theorem bt_remove_correct_witness:
  "\<exists>t' e. bt_remove example_tree None = Inr (t', Some (mk_node 20 2, e)) \<and> bt_inv t' \<and>
    bt_nodes t' = [mk_node 10 1, mk_node 30 3]"
  using bt_remove_correct [of "mk_node 20 2" "Node (mk_node 10 1) Nil Nil 1" "Node (mk_node 30 3) Nil Nil 1" 2
      None] example_tree_inv
  by (auto simp: example_tree_def [symmetric] NARR_def)

text \<open>C20. The searches return a slot of the tree: \<^verbatim>\<open>bt_lookup\<close> the one of the key,
  \<^verbatim>\<open>bt_floor\<close> the one of the greatest key not above it, \<^verbatim>\<open>bt_ceiling\<close> the one of the
  least key not below it, and null exactly when the tree has no such key.\<close>

theorem bt_search_correct:
  assumes "bt_sorted t"
  shows "(case bt_lookup t K of None \<Rightarrow> bt_node_at t K = None
      | Some (s, fs) \<Rightarrow> \<exists>n. bt_node_at t K = Some n \<and> slot_of t s fs n) \<and>
    (case bt_floor t K of None \<Rightarrow> nodes_upto K (bt_nodes t) = []
      | Some (s, fs) \<Rightarrow> nodes_upto K (bt_nodes t) \<noteq> [] \<and> slot_of t s fs (last (nodes_upto K (bt_nodes t)))) \<and>
    (case bt_ceiling t K of None \<Rightarrow> nodes_from K (bt_nodes t) = []
      | Some (s, fs) \<Rightarrow> nodes_from K (bt_nodes t) \<noteq> [] \<and> slot_of t s fs (hd (nodes_from K (bt_nodes t))))"
  by (intro conjI bt_lookup_eq bt_floor_eq bt_ceiling_eq assms)

theorem bt_search_correct_witness:
  "bt_sorted example_tree \<and> (\<exists>s fs. bt_floor example_tree 29 = Some (s, fs) \<and> slot_of example_tree s fs (mk_node 20 2))"
proof -
  have so: "bt_sorted example_tree" using example_tree_inv by (simp add: bt_inv_def)
  have "nodes_upto 29 (bt_nodes example_tree) = [mk_node 10 1, mk_node 20 2]"
    by (simp add: nodes_upto_def example_tree_def mk_node_def)
  with bt_search_correct [OF so, of 29] so show ?thesis by (auto split: option.splits)
qed

lemma bt_backtrack_numeral:
  "bt_backtrack (numeral w) t [] = bt_balance t"
  "bt_backtrack (numeral w) t (f # fs) =
     rbind (bt_balance t) (\<lambda>t. bt_backtrack (pred_numeral w) (plug1 t f) fs)"
  by (simp_all add: numeral_eq_Suc)

text \<open>Two limits of the balancing. Entering the keys 3, 1, 2 leaves a tree of three levels
  over three nodes: one single rotation turns a left-right path into a right-left path. And removing
  a node through the slot \<^verbatim>\<open>bt_lookup\<close> returned leaves the depths stored above that slot
  as they were, so that they are wrong afterwards.\<close>

theorem bt_balancing_limits:
  "(\<exists>t. bti.put_all Nil [mk_node 3 0, mk_node 1 0, mk_node 2 0] = Inr t \<and> bt_height t = 3) \<and>
   (\<exists>s fs s' n. bt_inv example_pair \<and> bt_lookup example_pair 30 = Some (s, fs) \<and>
     bt_remove s None = Inr (s', n) \<and> \<not> depth_ok (bt_plug s' fs))"
  by (simp add: bt_put_tree_def bt_put_def NARR_def bt_backtrack_numeral bt_max_def mk_node_def Let_def
      example_pair_def bt_inv_def bt_sorted_def bt_lookup_def bt_remove_def)

end
