(* ===== verification/Linked_Ring.thy ===== *)
theory Linked_Ring
  imports Kernel_Prelude
begin

text \<open>
  The doubly linked circular lists of the kernel: \<open>system/kern/kern_ring.c\<close> (rings whose
  nodes carry a data pointer: run queues and wait queues) and
  \<open>system/include/utils/list.h\<close> (the same without data: the children of a region mapper).

  The store is split by field, one function per field from node addresses to pointers; a null
  pointer is \<open>None\<close>, and following it is the fault \<open>Null_Deref\<close>. The predicate
  \<open>ring h l xs\<close> says that the head \<open>l\<close> links the nodes \<open>xs\<close>, in this order along
  \<^verbatim>\<open>next\<close>; the lemmas show that every operation of the C code is the list operation
  it means to be, and that it leaves every disjoint ring alone.
\<close>

section \<open>The store\<close>

record 'p links =
  nextp :: "'p \<Rightarrow> 'p option"
  prevp :: "'p \<Rightarrow> 'p option"

record ('p, 'd) ring_heap = "'p links" +
  datap :: "'p \<Rightarrow> 'd option"

definition get_next :: "('p, 'z) links_scheme \<Rightarrow> 'p option \<Rightarrow> 'p option res" where
  "get_next h p = rbind (deref p) (\<lambda>q. Inr (nextp h q))"

definition get_prev :: "('p, 'z) links_scheme \<Rightarrow> 'p option \<Rightarrow> 'p option res" where
  "get_prev h p = rbind (deref p) (\<lambda>q. Inr (prevp h q))"

definition set_next ::
  "'p option \<Rightarrow> 'p option \<Rightarrow> ('p, 'z) links_scheme \<Rightarrow> ('p, 'z) links_scheme res" where
  "set_next p v h = rbind (deref p) (\<lambda>q. Inr (h\<lparr>nextp := (nextp h)(q := v)\<rparr>))"

definition set_prev ::
  "'p option \<Rightarrow> 'p option \<Rightarrow> ('p, 'z) links_scheme \<Rightarrow> ('p, 'z) links_scheme res" where
  "set_prev p v h = rbind (deref p) (\<lambda>q. Inr (h\<lparr>prevp := (prevp h)(q := v)\<rparr>))"

section \<open>The operations of kern_ring.c\<close>

definition linked_ring_insert ::
  "('p, 'z) links_scheme \<Rightarrow> 'p option \<Rightarrow> 'p option \<Rightarrow> bool \<Rightarrow> ('p, 'z) links_scheme res" where
  "linked_ring_insert h list elem after =
     rbind (if after then rbind (get_next h list) (\<lambda>n. Inr (list, n))
            else rbind (get_prev h list) (\<lambda>p. Inr (p, list))) (\<lambda>(a, c).
     let b = elem in
     rbind (set_next a b h) (\<lambda>h.
     rbind (set_next b c h) (\<lambda>h.
     rbind (set_prev c b h) (\<lambda>h.
     set_prev b a h))))"

definition linked_ring_remove ::
  "('p, 'z) links_scheme \<Rightarrow> 'p option \<Rightarrow> ('p, 'z) links_scheme res" where
  "linked_ring_remove h elem =
     rbind (get_prev h elem) (\<lambda>a.
     rbind (get_next h elem) (\<lambda>c.
     rbind (set_next a c h) (\<lambda>h.
     set_prev c a h)))"

definition linked_ring_empty :: "('p, 'z) links_scheme \<Rightarrow> 'p option \<Rightarrow> int res" where
  "linked_ring_empty h list =
     rbind (get_next h list) (\<lambda>n. Inr (if n = list then -1 else 0))"

definition linked_ring_init ::
  "('p, 'z) links_scheme \<Rightarrow> 'p option \<Rightarrow> ('p, 'z) links_scheme res" where
  "linked_ring_init h list = rbind (set_next list list h) (set_prev list list)"

section \<open>The operations of utils/list.h\<close>

definition list_init ::
  "('p, 'z) links_scheme \<Rightarrow> 'p option \<Rightarrow> ('p, 'z) links_scheme res" where
  "list_init h lst = rbind (set_next lst lst h) (set_prev lst lst)"

definition list_clear ::
  "('p, 'z) links_scheme \<Rightarrow> 'p option \<Rightarrow> ('p, 'z) links_scheme res" where
  "list_clear h lst = rbind (set_next lst None h) (set_prev lst None)"

definition list_is_in_list :: "('p, 'z) links_scheme \<Rightarrow> 'p option \<Rightarrow> bool res" where
  "list_is_in_list h node =
     rbind (get_prev h node) (\<lambda>p. if p \<noteq> None
       then rbind (get_next h node) (\<lambda>n. Inr (n \<noteq> None)) else Inr False)"

definition list_add_after ::
  "('p, 'z) links_scheme \<Rightarrow> 'p option \<Rightarrow> 'p option \<Rightarrow> ('p, 'z) links_scheme res" where
  "list_add_after h a b =
     rbind (get_next h a) (\<lambda>c.
     rbind (set_next a b h) (\<lambda>h.
     rbind (set_next b c h) (\<lambda>h.
     rbind (set_prev c b h) (\<lambda>h.
     set_prev b a h))))"

definition list_add_before ::
  "('p, 'z) links_scheme \<Rightarrow> 'p option \<Rightarrow> 'p option \<Rightarrow> ('p, 'z) links_scheme res" where
  "list_add_before h c b =
     rbind (get_prev h c) (\<lambda>a.
     rbind (set_next a b h) (\<lambda>h.
     rbind (set_next b c h) (\<lambda>h.
     rbind (set_prev c b h) (\<lambda>h.
     set_prev b a h))))"

definition list_push_tail ::
  "('p, 'z) links_scheme \<Rightarrow> 'p option \<Rightarrow> 'p option \<Rightarrow> ('p, 'z) links_scheme res" where
  "list_push_tail h list item = list_add_before h list item"

definition list_push_head ::
  "('p, 'z) links_scheme \<Rightarrow> 'p option \<Rightarrow> 'p option \<Rightarrow> ('p, 'z) links_scheme res" where
  "list_push_head h list item = list_add_after h list item"

definition list_item_remove ::
  "('p, 'z) links_scheme \<Rightarrow> 'p option \<Rightarrow> ('p, 'z) links_scheme res" where
  "list_item_remove h elem =
     rbind (get_prev h elem) (\<lambda>a.
     rbind (get_next h elem) (\<lambda>c.
     rbind (set_next a c h) (\<lambda>h.
     set_prev c a h)))"

definition list_pop_tail ::
  "('p, 'z) links_scheme \<Rightarrow> 'p option \<Rightarrow> ('p option \<times> ('p, 'z) links_scheme) res" where
  "list_pop_tail h list =
     rbind (get_prev h list) (\<lambda>ret.
     if ret = list \<or> ret = None then Inr (None, h)
     else rbind (list_item_remove h ret) (\<lambda>h. Inr (ret, h)))"

definition list_pop_head ::
  "('p, 'z) links_scheme \<Rightarrow> 'p option \<Rightarrow> ('p option \<times> ('p, 'z) links_scheme) res" where
  "list_pop_head h list =
     rbind (get_next h list) (\<lambda>ret.
     if ret = list \<or> ret = None then Inr (None, h)
     else rbind (list_item_remove h ret) (\<lambda>h. Inr (ret, h)))"

section \<open>The abstraction: a head and the list of its nodes\<close>

fun linked :: "('p, 'z) links_scheme \<Rightarrow> 'p list \<Rightarrow> bool" where
  "linked h [] = True"
| "linked h [x] = True"
| "linked h (x # y # zs) =
     (nextp h x = Some y \<and> prevp h y = Some x \<and> linked h (y # zs))"

definition ring :: "('p, 'z) links_scheme \<Rightarrow> 'p \<Rightarrow> 'p list \<Rightarrow> bool" where
  "ring h l xs \<longleftrightarrow> distinct (l # xs) \<and> linked h (l # xs @ [l])"

lemmas links_access = get_next_def get_prev_def set_next_def set_prev_def

lemma linked_append: "linked h (xs @ y # ys) \<longleftrightarrow> linked h (xs @ [y]) \<and> linked h (y # ys)"
proof (induction xs)
  case (Cons x xs)
  then show ?case by (cases xs) auto
qed simp

lemma linked_cong:
  assumes "\<And>x. x \<in> set (butlast xs) \<Longrightarrow> nextp h x = nextp g x"
    and "\<And>x. x \<in> set (tl xs) \<Longrightarrow> prevp h x = prevp g x"
  shows "linked h xs = linked g xs"
  using assms
proof (induction h xs rule: linked.induct)
  case (3 h x y zs)
  from "3.prems" have "linked h (y # zs) = linked g (y # zs)"
    by (intro "3.IH") auto
  with "3.prems" show ?case by auto
qed auto

lemma linked_insert:
  assumes "linked h (A @ a # c # C)" and "distinct (A @ [a])" and "c \<notin> set C"
    and "c \<notin> set (tl (A @ [a]))" and "a \<notin> set (butlast (c # C))" and "b \<notin> set (A @ a # c # C)"
    and "nextp g = (nextp h)(a := Some b, b := Some c)"
    and "prevp g = (prevp h)(c := Some b, b := Some a)"
  shows "linked g (A @ a # b # c # C)"
proof -
  have h: "linked h (A @ [a])" "linked h (c # C)"
    using assms(1) linked_append [of h A a "c # C"] by auto
  have "linked g (A @ [a]) = linked h (A @ [a])"
    using assms by (intro linked_cong) (auto dest: in_set_butlastD list.set_sel(2) [rotated])
  moreover have "linked g (c # C) = linked h (c # C)"
    using assms by (intro linked_cong) (auto dest: in_set_butlastD split: if_splits)
  ultimately show ?thesis
    using h assms linked_append [of g A a "b # c # C"] by auto
qed

lemma linked_remove:
  assumes "linked h (A @ a # e # c # C)" and "distinct (A @ [a])" and "c \<notin> set C"
    and "c \<notin> set (tl (A @ [a]))" and "a \<notin> set (butlast (c # C))"
    and "nextp g = (nextp h)(a := Some c)"
    and "prevp g = (prevp h)(c := Some a)"
  shows "linked g (A @ a # c # C)"
proof -
  have h: "linked h (A @ [a])" "linked h (c # C)"
    using assms(1) linked_append [of h A a "e # c # C"] by auto
  have "linked g (A @ [a]) = linked h (A @ [a])"
    using assms by (intro linked_cong) auto
  moreover have "linked g (c # C) = linked h (c # C)"
    using assms by (intro linked_cong) (auto split: if_splits)
  ultimately show ?thesis
    using h assms linked_append [of g A a "c # C"] by auto
qed

text \<open>What insertion and removal do to the store, as one update.\<close>

definition splice_in :: "'p \<Rightarrow> 'p \<Rightarrow> 'p \<Rightarrow> ('p, 'z) links_scheme \<Rightarrow> ('p, 'z) links_scheme" where
  "splice_in a b c h =
     h\<lparr>nextp := (nextp h)(a := Some b, b := Some c),
       prevp := (prevp h)(c := Some b, b := Some a)\<rparr>"

definition splice_out :: "'p \<Rightarrow> 'p \<Rightarrow> ('p, 'z) links_scheme \<Rightarrow> ('p, 'z) links_scheme" where
  "splice_out a c h = h\<lparr>nextp := (nextp h)(a := Some c), prevp := (prevp h)(c := Some a)\<rparr>"

lemma splice_frame [simp]:
  "links.more (splice_in a b c h) = links.more h" "links.more (splice_out a c h) = links.more h"
  by (simp_all add: splice_in_def splice_out_def)

lemma splice_datap [simp]:
  "datap (splice_in a b c h) = datap h" "datap (splice_out a c h) = datap h"
  by (simp_all add: splice_in_def splice_out_def)

lemma ring_neighbours:
  assumes "ring h l xs"
  shows "nextp h l = Some (hd (xs @ [l]))" and "prevp h l = Some (last (l # xs))"
proof -
  from assms have "linked h (l # xs @ [l])" by (simp add: ring_def)
  then show "nextp h l = Some (hd (xs @ [l]))" by (cases xs) auto
  have "linked h ((butlast (l # xs)) @ last (l # xs) # [l])"
    using \<open>linked h (l # xs @ [l])\<close> append_butlast_last_id [of "l # xs"]
    by (metis append_Cons append_assoc list.distinct(1) self_append_conv2)
  then show "prevp h l = Some (last (l # xs))"
    using linked_append [of h "butlast (l # xs)" "last (l # xs)" "[l]"] by simp
qed

lemma ring_inner:
  assumes "ring h l (ys @ e # zs)"
  shows "prevp h e = Some (last (l # ys))" and "nextp h e = Some (hd (zs @ [l]))"
proof -
  from assms have *: "linked h ((l # ys) @ e # zs @ [l])" by (simp add: ring_def)
  then have "linked h (butlast (l # ys) @ last (l # ys) # [e])"
    using linked_append [of h "l # ys" e "zs @ [l]"] append_butlast_last_id [of "l # ys"]
    by (metis append_Cons append_assoc list.distinct(1) self_append_conv2)
  then show "prevp h e = Some (last (l # ys))"
    using linked_append [of h "butlast (l # ys)" "last (l # ys)" "[e]"] by simp
  from * have "linked h (e # zs @ [l])"
    using linked_append [of h "l # ys" e "zs @ [l]"] by simp
  then show "nextp h e = Some (hd (zs @ [l]))" by (cases zs) auto
qed

lemma ring_splice_in_front:
  assumes "ring h l xs" and "b \<notin> set (l # xs)"
  shows "ring (splice_in l b (hd (xs @ [l])) h) l (b # xs)"
proof -
  obtain c C where cC: "xs @ [l] = c # C" by (cases "xs @ [l]") auto
  have dist: "distinct (l # xs)" and lk: "linked h (l # xs @ [l])"
    using assms by (auto simp: ring_def)
  have bl: "butlast (c # C) = xs" using cC by (metis butlast_snoc)
  have sc: "set (c # C) = insert l (set xs)" unfolding cC [symmetric] by simp
  have "distinct (c # C)" using dist unfolding cC [symmetric] by simp
  moreover have "linked h ([] @ l # c # C)" using lk cC by simp
  ultimately have "linked (splice_in l b c h) ([] @ l # b # c # C)"
    using dist assms(2) bl sc
    by (intro linked_insert [of h "[]" l c C b]) (simp_all add: splice_in_def)
  then have "linked (splice_in l b c h) (l # b # xs @ [l])" using cC by simp
  then show ?thesis using cC dist assms(2) by (auto simp: ring_def)
qed

lemma ring_splice_in_back:
  assumes "ring h l xs" and "b \<notin> set (l # xs)"
  shows "ring (splice_in (last (l # xs)) b l h) l (xs @ [b])"
proof -
  define A a where "A = butlast (l # xs)" and "a = last (l # xs)"
  have Aa: "A @ [a] = l # xs" unfolding A_def a_def by simp
  have dist: "distinct (l # xs)" and lk: "linked h (l # xs @ [l])"
    using assms by (auto simp: ring_def)
  have "linked h (A @ a # l # [])"
    using lk Aa by (metis append_Cons append_assoc append_Nil)
  then have "linked (splice_in a b l h) (A @ a # b # l # [])"
  proof (rule linked_insert)
    show "distinct (A @ [a])" using dist Aa by simp
    show "l \<notin> set (tl (A @ [a]))" using dist Aa by simp
    have "set (A @ a # [l]) = insert l (set (A @ [a]))" by auto
    then show "b \<notin> set (A @ a # [l])" using assms(2) Aa by simp
  qed (simp_all add: splice_in_def)
  then have "linked (splice_in a b l h) ((A @ [a]) @ [b, l])" by simp
  then show ?thesis
    using dist assms(2) unfolding Aa by (auto simp: ring_def a_def simp del: last.simps)
qed

lemma ring_splice_out:
  assumes "ring h l (ys @ e # zs)"
  shows "ring (splice_out (last (l # ys)) (hd (zs @ [l])) h) l (ys @ zs)"
proof -
  define A a where "A = butlast (l # ys)" and "a = last (l # ys)"
  have Aa: "A @ [a] = l # ys" unfolding A_def a_def by simp
  obtain c C where cC: "zs @ [l] = c # C" by (cases "zs @ [l]") auto
  have dist: "distinct (l # ys @ e # zs)" and lk: "linked h ((l # ys) @ e # zs @ [l])"
    using assms by (auto simp: ring_def)
  have disj: "set ys \<inter> set (c # C) \<subseteq> {l}" "l \<notin> set ys" "distinct (c # C)"
    using dist unfolding cC [symmetric] by auto
  have "linked h (A @ a # e # c # C)"
    using lk Aa cC by (metis append_Cons append_assoc append_Nil)
  then have "linked (splice_out a c h) (A @ a # c # C)"
  proof (rule linked_remove)
    show "distinct (A @ [a])" using dist Aa by simp
    show "c \<notin> set C" using disj by simp
    show "c \<notin> set (tl (A @ [a]))" using disj Aa by auto
    have "a = l \<or> a \<in> set ys" using Aa by (metis a_def last_ConsR last_ConsL last_in_set)
    then have "a \<notin> set zs" using dist by auto
    then show "a \<notin> set (butlast (c # C))" using cC by (metis butlast_snoc)
  qed (simp_all add: splice_out_def)
  then have "linked (splice_out a c h) ((l # ys) @ zs @ [l])"
    unfolding cC Aa [symmetric] by simp
  moreover have "hd (zs @ [l]) = c" using cC by simp
  ultimately show ?thesis using dist by (simp add: ring_def a_def del: last.simps)
qed

lemma ring_frame_in:
  assumes "ring h m ys" and "a \<notin> set (m # ys)" and "b \<notin> set (m # ys)" and "c \<notin> set (m # ys)"
  shows "ring (splice_in a b c h) m ys"
proof -
  have "linked (splice_in a b c h) (m # ys @ [m]) = linked h (m # ys @ [m])"
    using assms by (intro linked_cong) (auto simp: splice_in_def butlast_append split: if_splits)
  with assms(1) show ?thesis by (simp add: ring_def)
qed

lemma ring_frame_out:
  assumes "ring h m ys" and "a \<notin> set (m # ys)" and "c \<notin> set (m # ys)"
  shows "ring (splice_out a c h) m ys"
proof -
  have "linked (splice_out a c h) (m # ys @ [m]) = linked h (m # ys @ [m])"
    using assms by (intro linked_cong) (auto simp: splice_out_def butlast_append split: if_splits)
  with assms(1) show ?thesis by (simp add: ring_def)
qed

section \<open>The C operations compute the splices\<close>

lemma linked_ring_insert_eq:
  assumes "ring h l xs"
  shows "linked_ring_insert h (Some l) (Some b) after =
    Inr (splice_in (if after then l else last (l # xs)) b (if after then hd (xs @ [l]) else l) h)"
  using ring_neighbours [OF assms]
  by (simp add: linked_ring_insert_def links_access splice_in_def Let_def)

lemma linked_ring_remove_eq:
  assumes "ring h l (ys @ e # zs)"
  shows "linked_ring_remove h (Some e) = Inr (splice_out (last (l # ys)) (hd (zs @ [l])) h)"
  using ring_inner [OF assms]
  by (simp add: linked_ring_remove_def links_access splice_out_def del: last.simps)

lemma linked_ring_remove_self:
  assumes "nextp h e = Some e" and "prevp h e = Some e"
  shows "linked_ring_remove h (Some e) = Inr h"
  using assms by (simp add: linked_ring_remove_def links_access fun_upd_idem)

lemma linked_ring_empty_eq:
  assumes "ring h l xs"
  shows "linked_ring_empty h (Some l) = Inr (if xs = [] then -1 else 0)"
  using assms ring_neighbours(1) [OF assms]
  by (cases xs) (auto simp: linked_ring_empty_def links_access ring_def)

lemma linked_ring_init_eq:
  "linked_ring_init h (Some l) =
     Inr (h\<lparr>nextp := (nextp h)(l := Some l), prevp := (prevp h)(l := Some l)\<rparr>)"
  by (simp add: linked_ring_init_def links_access)

lemma ring_init:
  "ring (h\<lparr>nextp := (nextp h)(l := Some l), prevp := (prevp h)(l := Some l)\<rparr>) l []"
  by (simp add: ring_def)

lemma ring_init_frame:
  assumes "ring h m ys" and "l \<notin> set (m # ys)"
  shows "ring (h\<lparr>nextp := (nextp h)(l := p), prevp := (prevp h)(l := q)\<rparr>) m ys"
proof -
  have "linked (h\<lparr>nextp := (nextp h)(l := p), prevp := (prevp h)(l := q)\<rparr>) (m # ys @ [m])
      = linked h (m # ys @ [m])"
    using assms by (intro linked_cong) (auto simp: butlast_append split: if_splits)
  with assms(1) show ?thesis by (simp add: ring_def)
qed

text \<open>The operations of \<open>list.h\<close> are those of \<open>kern_ring.c\<close> on nodes without data.\<close>

lemma list_add_after_eq: "list_add_after h a b = linked_ring_insert h a b True"
  by (cases a) (simp_all add: list_add_after_def linked_ring_insert_def links_access Let_def)

lemma list_add_before_eq: "list_add_before h c b = linked_ring_insert h c b False"
  by (cases c) (simp_all add: list_add_before_def linked_ring_insert_def links_access Let_def)

lemma list_item_remove_eq: "list_item_remove h e = linked_ring_remove h e"
  by (simp add: list_item_remove_def linked_ring_remove_def)

lemma list_init_eq: "list_init h l = linked_ring_init h l"
  by (simp add: list_init_def linked_ring_init_def)

lemmas list_ops = list_add_after_eq list_add_before_eq list_item_remove_eq list_init_eq
  list_push_tail_def list_push_head_def

lemma ring_rotate: "ring h l (ys @ e # zs) \<longleftrightarrow> ring h e (zs @ l # ys)"
proof -
  have "linked h (l # (ys @ e # zs) @ [l]) \<longleftrightarrow> linked h ((l # ys) @ [e]) \<and> linked h (e # zs @ [l])"
    using linked_append [of h "l # ys" e "zs @ [l]"] by simp
  moreover have "linked h (e # (zs @ l # ys) @ [e]) \<longleftrightarrow> linked h ((e # zs) @ [l]) \<and> linked h (l # ys @ [e])"
    using linked_append [of h "e # zs" l "ys @ [e]"] by simp
  ultimately show ?thesis by (auto simp: ring_def)
qed

section \<open>The interface: a queue of nodes\<close>

text \<open>
  What the scheduler, the wait queues and the region mapper rely on: a head holds a list of
  nodes, a node can be pushed at either end or unlinked from where it is, and heads whose nodes
  are elsewhere are not touched.
\<close>

locale node_queue =
  fixes push_front :: "'h \<Rightarrow> 'p \<Rightarrow> 'p \<Rightarrow> 'h res"
    and push_back :: "'h \<Rightarrow> 'p \<Rightarrow> 'p \<Rightarrow> 'h res"
    and unlink :: "'h \<Rightarrow> 'p \<Rightarrow> 'h res"
    and holds :: "'h \<Rightarrow> 'p \<Rightarrow> 'p list \<Rightarrow> bool"
  assumes push_front_ok: "holds h l xs \<Longrightarrow> b \<notin> set (l # xs) \<Longrightarrow>
      \<exists>h'. push_front h l b = Inr h' \<and> holds h' l (b # xs) \<and>
        (\<forall>m ys. holds h m ys \<longrightarrow> set (m # ys) \<inter> set (b # l # xs) = {} \<longrightarrow> holds h' m ys)"
    and push_back_ok: "holds h l xs \<Longrightarrow> b \<notin> set (l # xs) \<Longrightarrow>
      \<exists>h'. push_back h l b = Inr h' \<and> holds h' l (xs @ [b]) \<and>
        (\<forall>m ys. holds h m ys \<longrightarrow> set (m # ys) \<inter> set (b # l # xs) = {} \<longrightarrow> holds h' m ys)"
    and unlink_ok: "holds h l (ys @ e # zs) \<Longrightarrow>
      \<exists>h'. unlink h e = Inr h' \<and> holds h' l (ys @ zs) \<and>
        (\<forall>m us. holds h m us \<longrightarrow> set (m # us) \<inter> set (l # ys @ e # zs) = {} \<longrightarrow> holds h' m us)"
    and holds_distinct: "holds h l xs \<Longrightarrow> distinct (l # xs)"
begin

text \<open>First in, first out: what is pushed at the front leaves at the back in the order in
  which it came.\<close>

primrec push_all :: "'h \<Rightarrow> 'p \<Rightarrow> 'p list \<Rightarrow> 'h res" where
  "push_all h l [] = Inr h"
| "push_all h l (b # bs) = rbind (push_front h l b) (\<lambda>h. push_all h l bs)"

primrec unlink_all :: "'h \<Rightarrow> 'p list \<Rightarrow> 'h res" where
  "unlink_all h [] = Inr h"
| "unlink_all h (b # bs) = rbind (unlink h b) (\<lambda>h. unlink_all h bs)"

lemma push_all_ok:
  assumes "holds h l xs" and "distinct bs" and "set bs \<inter> set (l # xs) = {}"
  shows "\<exists>h'. push_all h l bs = Inr h' \<and> holds h' l (rev bs @ xs)"
  using assms
proof (induction bs arbitrary: h xs)
  case (Cons b bs)
  then obtain h1 where h1: "push_front h l b = Inr h1" "holds h1 l (b # xs)"
    using push_front_ok [of h l xs b] by auto
  have "set bs \<inter> set (l # b # xs) = {}" using Cons.prems by auto
  from Cons.IH [OF h1(2) _ this] Cons.prems(2) h1(1) show ?case by auto
qed simp

lemma unlink_back_all_ok:
  assumes "holds h l (xs @ rev bs)"
  shows "\<exists>h'. unlink_all h bs = Inr h' \<and> holds h' l xs"
  using assms
proof (induction bs arbitrary: h)
  case (Cons b bs)
  then obtain h1 where "unlink h b = Inr h1" "holds h1 l (xs @ rev bs)"
    using unlink_ok [of h l "xs @ rev bs" b "[]"] by auto
  with Cons.IH [of h1] show ?case by auto
qed simp

lemma fifo:
  assumes "holds h l []" and "distinct bs" and "l \<notin> set bs"
  shows "\<exists>h1 h2. push_all h l bs = Inr h1 \<and> holds h1 l (rev bs) \<and>
           unlink_all h1 bs = Inr h2 \<and> holds h2 l []"
  using push_all_ok [OF assms(1,2)] unlink_back_all_ok [of _ l "[]" bs] assms(3) by fastforce

lemma move_to_front:
  assumes "holds h l (ys @ e # zs)"
  shows "\<exists>h1 h2. unlink h e = Inr h1 \<and> push_front h1 l e = Inr h2 \<and> holds h2 l (e # ys @ zs)"
proof -
  obtain h1 where h1: "unlink h e = Inr h1" "holds h1 l (ys @ zs)"
    using unlink_ok [OF assms] by auto
  moreover have "e \<notin> set (l # ys @ zs)" using holds_distinct [OF assms] by auto
  ultimately show ?thesis using push_front_ok [OF h1(2)] by blast
qed

end

lemma linked_ring_insert_ok:
  assumes "ring h l xs" and "b \<notin> set (l # xs)"
  shows "\<exists>h'. linked_ring_insert h (Some l) (Some b) after = Inr h' \<and>
     ring h' l (if after then b # xs else xs @ [b]) \<and>
     links.more h' = links.more h \<and>
     (\<forall>m ys. ring h m ys \<longrightarrow> set (m # ys) \<inter> set (b # l # xs) = {} \<longrightarrow> ring h' m ys)"
proof -
  have "last (l # xs) \<in> set (l # xs)" by (rule last_in_set) simp
  moreover have "hd (xs @ [l]) \<in> set (l # xs)" by (cases xs) auto
  ultimately show ?thesis
    using linked_ring_insert_eq [OF assms(1), of b after] ring_splice_in_front [OF assms]
      ring_splice_in_back [OF assms]
    by (auto intro!: ring_frame_in simp del: last.simps)
qed

lemma linked_ring_remove_ok:
  assumes "ring h l (ys @ e # zs)"
  shows "\<exists>h'. linked_ring_remove h (Some e) = Inr h' \<and> ring h' l (ys @ zs) \<and>
     links.more h' = links.more h \<and>
     (\<forall>m us. ring h m us \<longrightarrow> set (m # us) \<inter> set (l # ys @ e # zs) = {} \<longrightarrow> ring h' m us)"
proof -
  have "last (l # ys) \<in> set (l # ys)" by (rule last_in_set) simp
  moreover have "hd (zs @ [l]) \<in> set (l # zs)" by (cases zs) auto
  ultimately show ?thesis
    using linked_ring_remove_eq [OF assms] ring_splice_out [OF assms]
    by (auto intro!: ring_frame_out simp del: last.simps)
qed

text \<open>A node that is inserted again while it is still linked: the nodes from it on, in the one or the other direction, form a
  cycle that never comes back to the head.\<close>

lemma linked_next_closed:
  assumes "linked h (x # xs)" and "x \<in> C" and "\<And>p p'. p \<in> C \<Longrightarrow> nextp h p = Some p' \<Longrightarrow> p' \<in> C"
  shows "set xs \<subseteq> C"
  using assms(1,2) by (induction xs arbitrary: x) (auto dest: assms(3))

lemma linked_prev_closed:
  assumes "linked h (xs @ [x])" and "x \<in> C" and "\<And>p p'. p \<in> C \<Longrightarrow> prevp h p = Some p' \<Longrightarrow> p' \<in> C"
  shows "set xs \<subseteq> C"
  using assms(1,2)
proof (induction xs arbitrary: x rule: rev_induct)
  case (snoc y ys)
  then have "linked h (ys @ [y])" "prevp h x = Some y" using linked_append [of h ys y "[x]"] by auto
  then show ?case using snoc.IH [of y] assms(3) [OF snoc.prems(2)] by auto
qed simp

lemma ring_no_next_trap:
  assumes "nextp h l = Some b" and "b \<in> C" and "l \<notin> C" and "\<And>p p'. p \<in> C \<Longrightarrow> nextp h p = Some p' \<Longrightarrow> p' \<in> C"
  shows "\<not> ring h l xs"
proof
  assume r: "ring h l xs"
  then have "hd (xs @ [l]) = b" "linked h (l # xs @ [l])" using ring_neighbours(1) [OF r] assms(1) by (simp_all add: ring_def)
  then obtain us where "xs = b # us" using assms(2,3) by (cases xs) auto
  with \<open>linked h (l # xs @ [l])\<close> show False using linked_next_closed [of h b "us @ [l]", OF _ assms(2,4)] assms(3) by simp
qed

lemma ring_no_prev_trap:
  assumes "prevp h l = Some b" and "b \<in> C" and "l \<notin> C" and "\<And>p p'. p \<in> C \<Longrightarrow> prevp h p = Some p' \<Longrightarrow> p' \<in> C"
  shows "\<not> ring h l xs"
proof
  assume r: "ring h l xs"
  then have b: "last (l # xs) = b" and lk: "linked h (l # xs @ [l])" using ring_neighbours(2) [OF r] assms(1) by (simp_all add: ring_def)
  then obtain us where us: "xs = us @ [b]" using assms(2,3) by (cases xs rule: rev_cases) auto
  have "linked h ((l # us) @ [b])" using lk us linked_append [of h "l # us" b "[l]"] by simp
  from linked_prev_closed [OF this assms(2,4)] show False using assms(3) by simp
qed

lemma linked_ring_insert_again:
  assumes r: "ring h l (ys @ b # zs)"
  shows "\<exists>h'. linked_ring_insert h (Some l) (Some b) after = Inr h' \<and> links.more h' = links.more h \<and> (\<forall>xs. \<not> ring h' l xs)"
proof -
  let ?a = "if after then l else last (b # zs)" and ?c = "if after then hd (ys @ [b]) else l"
  let ?h = "splice_in ?a b ?c h"
  have ins: "linked_ring_insert h (Some l) (Some b) after = Inr ?h"
    using linked_ring_insert_eq [OF r, of b after] by (cases ys) auto
  have d: "distinct (l # ys @ b # zs)" using r by (simp add: ring_def)
  have "\<not> ring ?h l xs" for xs
  proof (cases after)
    case True
    have "p' \<in> insert b (set ys)" if p: "p \<in> insert b (set ys)" and n: "nextp ?h p = Some p'" for p p'
    proof (cases "p = b")
      case True
      then show ?thesis using n \<open>after\<close> by (cases ys) (auto simp: splice_in_def)
    next
      case False
      then obtain us vs where ys: "ys = us @ p # vs" using p by (auto dest: split_list)
      have "p' = hd (vs @ b # zs @ [l])"
        using ring_inner(2) [of h l us p "vs @ b # zs"] r ys n False True d by (auto simp: splice_in_def)
      then show ?thesis using ys by (cases vs) auto
    qed
    then show ?thesis using d True by (intro ring_no_next_trap [of ?h l b "insert b (set ys)"]) (auto simp: splice_in_def)
  next
    case False
    have "p' \<in> insert b (set zs)" if p: "p \<in> insert b (set zs)" and n: "prevp ?h p = Some p'" for p p'
    proof (cases "p = b")
      case True
      then have "p' = last (b # zs)" using n \<open>\<not> after\<close> d by (auto simp: splice_in_def)
      then show ?thesis by auto
    next
      case False
      then obtain us vs where zs: "zs = us @ p # vs" using p by (auto dest: split_list)
      have "p' = last (l # ys @ b # us)"
        using ring_inner(1) [of h l "ys @ b # us" p vs] r zs n False \<open>\<not> after\<close> d by (auto simp: splice_in_def)
      then show ?thesis using zs by auto
    qed
    then show ?thesis using d False by (intro ring_no_prev_trap [of ?h l b "insert b (set zs)"]) (auto simp: splice_in_def)
  qed
  then show ?thesis using ins by (intro exI [of _ ?h]) (simp del: last.simps)
qed

text \<open>Insertion before an element of the ring.\<close>

lemma linked_ring_insert_before:
  assumes "ring h l (ys @ e # zs)" and "b \<notin> set (l # ys @ e # zs)"
  shows "\<exists>h'. linked_ring_insert h (Some e) (Some b) False = Inr h' \<and> ring h' l (ys @ b # e # zs) \<and>
    links.more h' = links.more h"
proof -
  have "ring h e (zs @ l # ys)" using assms(1) ring_rotate [of h l ys e zs] by simp
  moreover have "b \<notin> set (e # zs @ l # ys)" using assms(2) by auto
  ultimately obtain h' where "linked_ring_insert h (Some e) (Some b) False = Inr h'"
    "ring h' e ((zs @ l # ys) @ [b])" "links.more h' = links.more h"
    using linked_ring_insert_ok [of h e "zs @ l # ys" b False] by auto
  moreover from this(2) have "ring h' l ((ys @ [b]) @ e # zs)"
    using ring_rotate [of h' l "ys @ [b]" e zs] by simp
  ultimately show ?thesis by simp
qed

interpretation krq: node_queue
  "\<lambda>h l b. linked_ring_insert h (Some l) (Some b) True"
  "\<lambda>h l b. linked_ring_insert h (Some l) (Some b) False"
  "\<lambda>h e. linked_ring_remove h (Some e)" ring
proof (unfold_locales, goal_cases)
  case (1 h l xs b)
  then show ?case using linked_ring_insert_ok [of h l xs b True] by auto
next
  case (2 h l xs b)
  then show ?case using linked_ring_insert_ok [of h l xs b False] by auto
next
  case (3 h l ys e zs)
  from linked_ring_remove_ok [OF this] show ?case by auto
qed (simp add: ring_def)

interpretation ulq: node_queue
  "\<lambda>h l b. list_push_head h (Some l) (Some b)"
  "\<lambda>h l b. list_push_tail h (Some l) (Some b)"
  "\<lambda>h e. list_item_remove h (Some e)" ring
  unfolding list_ops by (rule krq.node_queue_axioms)

section \<open>A family of disjoint rings\<close>

text \<open>\<open>rings_ok h H q\<close>: every head of \<open>H\<close> holds its nodes \<open>q l\<close>, and no node is in two
  rings.\<close>

definition rings_ok :: "('p, 'z) links_scheme \<Rightarrow> 'p set \<Rightarrow> ('p \<Rightarrow> 'p list) \<Rightarrow> bool" where
  "rings_ok h H q \<longleftrightarrow> (\<forall>l\<in>H. ring h l (q l)) \<and>
     (\<forall>l\<in>H. \<forall>m\<in>H. l \<noteq> m \<longrightarrow> set (l # q l) \<inter> set (m # q m) = {})"

lemma rings_okD: "rings_ok h H q \<Longrightarrow> l \<in> H \<Longrightarrow> ring h l (q l)"
  by (simp add: rings_ok_def)

lemma rings_ok_disjoint:
  "rings_ok h H q \<Longrightarrow> l \<in> H \<Longrightarrow> m \<in> H \<Longrightarrow> l \<noteq> m \<Longrightarrow> set (l # q l) \<inter> set (m # q m) = {}"
  unfolding rings_ok_def by blast

lemma datap_more: "links.more h' = links.more h \<Longrightarrow> datap h' = datap h"
  by (cases h; cases h') simp

lemma ring_datap [simp]: "ring (datap_update f h) l xs = ring h l xs"
proof -
  have "linked (datap_update f h) ys = linked h ys" for ys by (intro linked_cong) simp_all
  then show ?thesis by (simp add: ring_def)
qed

lemma rings_ok_datap [simp]: "rings_ok (datap_update f h) H q = rings_ok h H q"
  by (simp add: rings_ok_def)

lemma rings_ok_insert:
  assumes ok: "rings_ok h H q" and l: "l \<in> H" and fresh: "\<forall>m\<in>H. b \<notin> set (m # q m)"
  shows "\<exists>h'. linked_ring_insert h (Some l) (Some b) after = Inr h' \<and> links.more h' = links.more h \<and>
    rings_ok h' H (q(l := (if after then b # q l else q l @ [b])))"
proof -
  let ?q = "q(l := (if after then b # q l else q l @ [b]))"
  from linked_ring_insert_ok [OF rings_okD [OF ok l], of b after] fresh l obtain h' where
    h': "linked_ring_insert h (Some l) (Some b) after = Inr h'" "ring h' l (?q l)"
    "links.more h' = links.more h"
    "\<And>m ys. ring h m ys \<Longrightarrow> set (m # ys) \<inter> set (b # l # q l) = {} \<Longrightarrow> ring h' m ys"
    by auto
  have "ring h' m (?q m)" if m: "m \<in> H" for m
  proof (cases "m = l")
    case False
    have "set (m # q m) \<inter> set (b # l # q l) = {}"
      using rings_ok_disjoint [OF ok m l False] fresh m by auto
    from h'(4) [OF rings_okD [OF ok m] this] False show ?thesis by simp
  qed (use h'(2) in simp)
  moreover have "set (m # ?q m) \<inter> set (n # ?q n) = {}" if "m \<in> H" "n \<in> H" "m \<noteq> n" for m n
    using rings_ok_disjoint [OF ok that] fresh that by (auto split: if_splits)
  ultimately show ?thesis using h'(1,3) by (auto simp: rings_ok_def)
qed

lemma rings_ok_remove:
  assumes ok: "rings_ok h H q" and l: "l \<in> H" and ql: "q l = ys @ e # zs"
  shows "\<exists>h'. linked_ring_remove h (Some e) = Inr h' \<and> links.more h' = links.more h \<and>
    rings_ok h' H (q(l := ys @ zs))"
proof -
  let ?q = "q(l := ys @ zs)"
  from linked_ring_remove_ok [of h l ys e zs] rings_okD [OF ok l] ql obtain h' where
    h': "linked_ring_remove h (Some e) = Inr h'" "ring h' l (ys @ zs)" "links.more h' = links.more h"
    "\<And>m us. ring h m us \<Longrightarrow> set (m # us) \<inter> set (l # q l) = {} \<Longrightarrow> ring h' m us"
    by auto
  have "ring h' m (?q m)" if m: "m \<in> H" for m
  proof (cases "m = l")
    case False
    from h'(4) [OF rings_okD [OF ok m] rings_ok_disjoint [OF ok m l False]] False show ?thesis by simp
  qed (use h'(2) in simp)
  moreover have "set (m # ?q m) \<inter> set (n # ?q n) = {}" if "m \<in> H" "n \<in> H" "m \<noteq> n" for m n
    using rings_ok_disjoint [OF ok that] ql by (auto split: if_splits)
  ultimately show ?thesis using h'(1,3) by (auto simp: rings_ok_def)
qed

section \<open>Properties\<close>

text \<open>A store with the ring \<open>0 \<rightarrow> 1 \<rightarrow> 2 \<rightarrow> 0\<close> and, beside it, the ring
  \<open>5 \<rightarrow> 6 \<rightarrow> 5\<close>.\<close>

definition example_rings :: "(nat, nat) ring_heap" where
  "example_rings =
     \<lparr>nextp = [0 \<mapsto> 1, 1 \<mapsto> 2, 2 \<mapsto> 0, 5 \<mapsto> 6, 6 \<mapsto> 5],
      prevp = [0 \<mapsto> 2, 1 \<mapsto> 0, 2 \<mapsto> 1, 5 \<mapsto> 6, 6 \<mapsto> 5],
      datap = [1 \<mapsto> 10, 2 \<mapsto> 20]\<rparr>"

lemma example_rings_ring: "ring example_rings 0 [1, 2]" "ring example_rings 5 [6]"
  by (simp_all add: ring_def example_rings_def)

text \<open>C36. The rings refine lists. On a well-formed ring \<^verbatim>\<open>linked_ring_insert\<close> of a
  node that is not in it never faults: with \<open>after\<close> set the new node becomes the first of the ring, otherwise
  the last. \<^verbatim>\<open>linked_ring_remove\<close> of a node of the ring never faults and takes exactly this node out, the order
  of the others unchanged. Both keep the data pointers and every ring that shares no node with this one.\<close>

theorem linked_ring_refines:
  fixes h :: "('p, 'd) ring_heap"
  assumes "ring h l xs"
  shows "(\<forall>b after. b \<notin> set (l # xs) \<longrightarrow> (\<exists>h'. linked_ring_insert h (Some l) (Some b) after = Inr h' \<and>
      ring h' l (if after then b # xs else xs @ [b]) \<and> datap h' = datap h \<and>
      (\<forall>m ys. ring h m ys \<longrightarrow> set (m # ys) \<inter> set (b # l # xs) = {} \<longrightarrow> ring h' m ys))) \<and>
    (\<forall>ys e zs. xs = ys @ e # zs \<longrightarrow> (\<exists>h'. linked_ring_remove h (Some e) = Inr h' \<and> ring h' l (ys @ zs) \<and> datap h' = datap h \<and>
      (\<forall>m us. ring h m us \<longrightarrow> set (m # us) \<inter> set (l # xs) = {} \<longrightarrow> ring h' m us)))"
proof (intro conjI allI impI)
  fix b after
  assume b: "b \<notin> set (l # xs)"
  from linked_ring_insert_ok [OF assms b, of after] obtain h' where
    "linked_ring_insert h (Some l) (Some b) after = Inr h'" "ring h' l (if after then b # xs else xs @ [b])"
    "\<forall>m ys. ring h m ys \<longrightarrow> set (m # ys) \<inter> set (b # l # xs) = {} \<longrightarrow> ring h' m ys"
    by blast
  moreover from this(1) have "datap h' = datap h"
    by (auto simp: linked_ring_insert_eq [OF assms] simp del: last.simps)
  ultimately show "\<exists>h'. linked_ring_insert h (Some l) (Some b) after = Inr h' \<and>
      ring h' l (if after then b # xs else xs @ [b]) \<and> datap h' = datap h \<and>
      (\<forall>m ys. ring h m ys \<longrightarrow> set (m # ys) \<inter> set (b # l # xs) = {} \<longrightarrow> ring h' m ys)" by blast
next
  fix ys e zs
  assume xs: "xs = ys @ e # zs"
  note r = assms [unfolded xs]
  from linked_ring_remove_ok [OF r] obtain h' where
    "linked_ring_remove h (Some e) = Inr h'" "ring h' l (ys @ zs)"
    "\<forall>m us. ring h m us \<longrightarrow> set (m # us) \<inter> set (l # xs) = {} \<longrightarrow> ring h' m us"
    unfolding xs by blast
  moreover from this(1) have "datap h' = datap h"
    by (auto simp: linked_ring_remove_eq [OF r] simp del: last.simps)
  ultimately show "\<exists>h'. linked_ring_remove h (Some e) = Inr h' \<and> ring h' l (ys @ zs) \<and> datap h' = datap h \<and>
      (\<forall>m us. ring h m us \<longrightarrow> set (m # us) \<inter> set (l # xs) = {} \<longrightarrow> ring h' m us)" by blast
qed

theorem linked_ring_refines_witness:
  "(\<exists>h'. linked_ring_insert example_rings (Some 0) (Some 3) False = Inr h' \<and> ring h' 0 [1, 2, 3] \<and> ring h' 5 [6]) \<and>
   (\<exists>h'. linked_ring_remove example_rings (Some 1) = Inr h' \<and> ring h' 0 [2] \<and> ring h' 5 [6])"
proof -
  have out: "(3 :: nat) \<notin> set [0, 1, 2]" and split: "[1, 2 :: nat] = [] @ 1 # [2]" by simp_all
  note t = linked_ring_refines [OF example_rings_ring(1)]
  from conjunct1 [OF t, rule_format, OF out, of False] obtain h1 where h1: "linked_ring_insert example_rings (Some 0) (Some 3) False = Inr h1" "ring h1 0 ([1, 2] @ [3])"
    "\<forall>m ys. ring example_rings m ys \<longrightarrow> set (m # ys) \<inter> set [3, 0, 1, 2] = {} \<longrightarrow> ring h1 m ys" by auto
  from conjunct2 [OF t, rule_format, OF split] obtain h2 where h2: "linked_ring_remove example_rings (Some 1) = Inr h2" "ring h2 0 ([] @ [2])"
    "\<forall>m us. ring example_rings m us \<longrightarrow> set (m # us) \<inter> set [0, 1, 2] = {} \<longrightarrow> ring h2 m us" by auto
  have "ring h1 5 [6]" "ring h2 5 [6]" using h1(3) h2(3) example_rings_ring(2) by auto
  with h1(1,2) h2(1,2) show ?thesis by auto
qed

text \<open>The pops of \<open>list.h\<close>: on an empty list they return the null pointer and change
  nothing; otherwise they return the node at their end of the list and unlink it.\<close>

theorem list_pop_refines:
  assumes "ring h l xs"
  shows "(\<exists>h'. list_pop_head h (Some l) = Inr (if xs = [] then None else Some (hd xs), h') \<and>
           ring h' l (tl xs)) \<and>
         (\<exists>h'. list_pop_tail h (Some l) = Inr (if xs = [] then None else Some (last xs), h') \<and>
           ring h' l (butlast xs))"
proof
  note nb = ring_neighbours [OF assms]
  have d: "distinct (l # xs)" using assms by (simp add: ring_def)
  show "\<exists>h'. list_pop_head h (Some l) = Inr (if xs = [] then None else Some (hd xs), h') \<and>
      ring h' l (tl xs)"
  proof (cases xs)
    case Nil
    with nb assms show ?thesis by (auto simp: list_pop_head_def links_access)
  next
    case (Cons x zs)
    then obtain h' where "list_item_remove h (Some x) = Inr h'" "ring h' l zs"
      using ulq.unlink_ok [of h l "[]" x zs] assms by auto
    with nb d Cons show ?thesis by (auto simp: list_pop_head_def links_access)
  qed
  show "\<exists>h'. list_pop_tail h (Some l) = Inr (if xs = [] then None else Some (last xs), h') \<and>
      ring h' l (butlast xs)"
  proof (cases xs rule: rev_cases)
    case Nil
    with nb assms show ?thesis by (auto simp: list_pop_tail_def links_access)
  next
    case (snoc ys x)
    then obtain h' where "list_item_remove h (Some x) = Inr h'" "ring h' l ys"
      using ulq.unlink_ok [of h l ys x "[]"] assms by auto
    with nb d snoc show ?thesis by (auto simp: list_pop_tail_def links_access)
  qed
qed

theorem list_pop_refines_witness:
  "(\<exists>h'. list_pop_head example_rings (Some 0) = Inr (Some 1, h') \<and> ring h' 0 [2]) \<and>
   (\<exists>h'. list_pop_tail example_rings (Some 0) = Inr (Some 2, h') \<and> ring h' 0 [1])"
  using list_pop_refines [OF example_rings_ring(1)] by simp

end
