(* ===== verification/Spinlock.thy ===== *)
theory Spinlock
  imports Kernel_Prelude
begin

text \<open>
  The spin lock of \<open>system/include/sys/kspinlock.h\<close>: a byte that is 0 when free.
  \<^verbatim>\<open>kernlock_try_lock\<close> atomically exchanges it for \<open>-1\<close> and returns what was
  there; \<^verbatim>\<open>kernlock_lock\<close> repeats that until it read 0.

  Two views. The functions of the other components run one at a time between taking and giving
  back their lock; for them \<open>kernlock_lock\<close> either takes a free lock or is the fault
  \<open>Spin_Forever\<close>, because no other code runs that could free it. The relation
  \<open>spin_step\<close> interleaves the exchanges of any number of CPUs and shows mutual exclusion.
\<close>

section \<open>The lock\<close>

type_synonym kspinlock_t = "8 word"

definition kernlock_try_lock :: "kspinlock_t \<Rightarrow> kspinlock_t \<times> kspinlock_t" where
  "kernlock_try_lock l = (l, -1)"

definition kernlock_unlock :: "kspinlock_t \<Rightarrow> kspinlock_t" where
  "kernlock_unlock l = 0"

definition kernlock_init :: "kspinlock_t \<Rightarrow> kspinlock_t" where
  "kernlock_init l = 0"

definition kernlock_lock :: "kspinlock_t \<Rightarrow> kspinlock_t res" where
  "kernlock_lock l =
     (let (old, new) = kernlock_try_lock l in if old = 0 then Inr new else Inl Spin_Forever)"

text \<open>The loop of \<^verbatim>\<open>kernlock_lock\<close>, cut off after \<open>n\<close> exchanges.\<close>

fun kernlock_spin :: "nat \<Rightarrow> kspinlock_t \<Rightarrow> kspinlock_t option" where
  "kernlock_spin 0 l = None"
| "kernlock_spin (Suc n) l =
     (let (old, new) = kernlock_try_lock l in if old = 0 then Some new else kernlock_spin n new)"

lemma kernlock_lock_simps [simp]:
  "kernlock_lock 0 = Inr (-1)" "l \<noteq> 0 \<Longrightarrow> kernlock_lock l = Inl Spin_Forever"
  by (simp_all add: kernlock_lock_def kernlock_try_lock_def)

lemma kernlock_unlock_simp [simp]: "kernlock_unlock l = 0" "kernlock_init l = 0"
  by (simp_all add: kernlock_unlock_def kernlock_init_def)

lemma kernlock_lock_eq_Inr: "kernlock_lock l = Inr l' \<longleftrightarrow> l = 0 \<and> l' = -1"
  by (auto simp: kernlock_lock_def kernlock_try_lock_def)

section \<open>Several CPUs\<close>

datatype spin_pc = Outside | Spinning | Inside

record spin_sys =
  lockw :: kspinlock_t
  pcs :: "nat \<Rightarrow> spin_pc"

inductive spin_step :: "spin_sys \<Rightarrow> spin_sys \<Rightarrow> bool" where
  call: "pcs s c = Outside \<Longrightarrow> spin_step s (s\<lparr>pcs := (pcs s)(c := Spinning)\<rparr>)"
| exchange: "pcs s c = Spinning \<Longrightarrow> kernlock_try_lock (lockw s) = (old, new) \<Longrightarrow>
     spin_step s (s\<lparr>lockw := new, pcs := (pcs s)(c := (if old = 0 then Inside else Spinning))\<rparr>)"
| release: "pcs s c = Inside \<Longrightarrow>
     spin_step s (s\<lparr>lockw := kernlock_unlock (lockw s), pcs := (pcs s)(c := Outside)\<rparr>)"

definition spin_start :: spin_sys where
  "spin_start = \<lparr>lockw = kernlock_init 1, pcs = (\<lambda>_. Outside)\<rparr>"

inductive spin_reachable :: "spin_sys \<Rightarrow> bool" where
  start: "spin_reachable spin_start"
| step: "spin_reachable s \<Longrightarrow> spin_step s t \<Longrightarrow> spin_reachable t"

definition spin_inv :: "spin_sys \<Rightarrow> bool" where
  "spin_inv s \<longleftrightarrow>
     (\<forall>c d. pcs s c = Inside \<longrightarrow> pcs s d = Inside \<longrightarrow> c = d) \<and>
     ((\<exists>c. pcs s c = Inside) \<longleftrightarrow> lockw s \<noteq> 0)"

lemma spin_step_inv: "spin_step s t \<Longrightarrow> spin_inv s \<Longrightarrow> spin_inv t"
proof (induction rule: spin_step.induct)
  case (call s c)
  then have "(\<lambda>d. ((pcs s)(c := Spinning)) d = Inside) = (\<lambda>d. pcs s d = Inside)" by auto
  with call.prems show ?case by (simp add: spin_inv_def fun_eq_iff del: fun_upd_apply)
next
  case (exchange s c old new)
  show ?case
  proof (cases "lockw s = 0")
    case True
    with exchange.prems have "\<And>d. pcs s d \<noteq> Inside" by (auto simp: spin_inv_def)
    with True exchange.hyps show ?thesis by (auto simp: spin_inv_def kernlock_try_lock_def)
  next
    case False
    with exchange.hyps have "(pcs s)(c := (if old = 0 then Inside else Spinning)) = pcs s"
      by (auto simp: kernlock_try_lock_def)
    moreover have "new \<noteq> 0" using exchange.hyps by (auto simp: kernlock_try_lock_def)
    ultimately show ?thesis using False exchange.prems by (simp add: spin_inv_def)
  qed
next
  case (release s c)
  then have "\<And>d. pcs s d = Inside \<Longrightarrow> d = c" by (auto simp: spin_inv_def)
  then show ?case by (auto simp: spin_inv_def)
qed

lemma spin_reachable_inv: "spin_reachable s \<Longrightarrow> spin_inv s"
proof (induction rule: spin_reachable.induct)
  case start
  show ?case by (simp add: spin_inv_def spin_start_def)
next
  case (step s t)
  then show ?case by (blast intro: spin_step_inv)
qed

text \<open>The exchange of one CPU, as a step.\<close>

definition spin_exchange :: "nat \<Rightarrow> spin_sys \<Rightarrow> spin_sys \<Rightarrow> bool" where
  "spin_exchange c s s' \<longleftrightarrow> pcs s c = Spinning \<and> (\<exists>old new. kernlock_try_lock (lockw s) = (old, new) \<and>
     s' = s\<lparr>lockw := new, pcs := (pcs s)(c := (if old = 0 then Inside else Spinning))\<rparr>)"

lemma spin_exchange_step: "spin_exchange c s s' \<Longrightarrow> spin_step s s'"
  by (auto simp: spin_exchange_def intro: spin_step.exchange)

lemma spin_exchange_free:
  assumes "lockw s = 0" and "pcs s c = Spinning"
  shows "(\<exists>s'. spin_exchange c s s') \<and> (\<forall>s'. spin_exchange c s s' \<longrightarrow> pcs s' c = Inside)"
  using assms by (auto simp: spin_exchange_def kernlock_try_lock_def)

lemma kernlock_spin_held: "l \<noteq> 0 \<Longrightarrow> kernlock_spin n l = None"
  by (induction n arbitrary: l) (auto simp: kernlock_try_lock_def)

section \<open>Properties\<close>

text \<open>C16. Mutual exclusion: however the CPUs interleave their exchanges, at most one of them
  is between \<^verbatim>\<open>kernlock_lock\<close> and \<^verbatim>\<open>kernlock_unlock\<close>, and the lock byte is
  non-zero exactly while one is.\<close>

theorem kernlock_mutual_exclusion:
  assumes "spin_reachable s"
  shows "(pcs s c = Inside \<and> pcs s d = Inside \<longrightarrow> c = d) \<and>
    ((\<exists>c. pcs s c = Inside) \<longleftrightarrow> lockw s \<noteq> 0)"
  using spin_reachable_inv [OF assms] by (auto simp: spin_inv_def)

theorem kernlock_mutual_exclusion_witness:
  "\<exists>s. spin_reachable s \<and> pcs s 1 = Inside \<and> lockw s \<noteq> 0"
proof -
  let ?s1 = "spin_start\<lparr>pcs := (pcs spin_start)(1 := Spinning)\<rparr>"
  let ?s2 = "?s1\<lparr>lockw := -1, pcs := (pcs ?s1)(1 := Inside)\<rparr>"
  have "spin_reachable ?s1"
    by (rule spin_reachable.step [OF spin_reachable.start], rule spin_step.call)
      (simp add: spin_start_def)
  moreover have "spin_step ?s1 ?s2"
    using spin_step.exchange [of ?s1 1 0 "-1"]
    by (simp add: spin_start_def kernlock_try_lock_def)
  ultimately have r: "spin_reachable ?s2" by (rule spin_reachable.step)
  from kernlock_mutual_exclusion [OF r, of 1 1] have "lockw ?s2 \<noteq> 0" by auto
  with r show ?thesis by (intro exI [of _ ?s2]) simp
qed

text \<open>C39. A waiting CPU gets the lock. In every reachable state in which a CPU \<open>c\<close> spins: while the lock is free,
  the next exchange of \<open>c\<close> takes it. While it is held, exactly one other CPU is between
  \<^verbatim>\<open>kernlock_lock\<close> and \<^verbatim>\<open>kernlock_unlock\<close>; no number of exchanges of \<open>c\<close> alone ends the loop, and
  the \<^verbatim>\<open>kernlock_unlock\<close> of that CPU leads to a state in which the next exchange of \<open>c\<close> takes the
  lock.\<close>

theorem kernlock_progress:
  assumes "spin_reachable s" and "pcs s c = Spinning"
  shows "if lockw s = 0 then kernlock_spin 1 (lockw s) = Some (-1) \<and> kernlock_lock (lockw s) = Inr (-1) \<and>
      (\<forall>s'. spin_exchange c s s' \<longrightarrow> pcs s' c = Inside) \<and> (\<exists>s'. spin_exchange c s s')
    else (\<forall>n. kernlock_spin n (lockw s) = None) \<and> kernlock_lock (lockw s) = Inl Spin_Forever \<and>
      (\<exists>!d. pcs s d = Inside) \<and>
      (\<forall>d t. pcs s d = Inside \<and> t = s\<lparr>lockw := kernlock_unlock (lockw s), pcs := (pcs s)(d := Outside)\<rparr> \<longrightarrow>
        spin_step s t \<and> pcs t c = Spinning \<and> (\<exists>t'. spin_exchange c t t') \<and> (\<forall>t'. spin_exchange c t t' \<longrightarrow> pcs t' c = Inside))"
proof (cases "lockw s = 0")
  case True
  then show ?thesis using spin_exchange_free [OF True assms(2)] by (simp add: kernlock_try_lock_def)
next
  case False
  from spin_reachable_inv [OF assms(1)] False have one: "\<exists>!d. pcs s d = Inside" by (auto simp: spin_inv_def)
  have "spin_step s t \<and> pcs t c = Spinning \<and> (\<exists>t'. spin_exchange c t t') \<and> (\<forall>t'. spin_exchange c t t' \<longrightarrow> pcs t' c = Inside)"
    if "pcs s d = Inside" "t = s\<lparr>lockw := kernlock_unlock (lockw s), pcs := (pcs s)(d := Outside)\<rparr>" for d t
  proof -
    have t: "pcs t c = Spinning" "lockw t = 0" using that assms(2) by auto
    show ?thesis using spin_exchange_free [OF t(2,1)] t(1) spin_step.release [OF that(1)] that(2) by blast
  qed
  then show ?thesis using False one kernlock_spin_held by simp
qed

theorem kernlock_progress_witness:
  "\<exists>s. spin_reachable s \<and> pcs s 1 = Spinning \<and> lockw s \<noteq> 0 \<and>
     (\<exists>t t'. spin_step s t \<and> spin_exchange 1 t t' \<and> pcs t' 1 = Inside)"
proof -
  let ?s1 = "spin_start\<lparr>pcs := (pcs spin_start)(0 := Spinning)\<rparr>"
  let ?s2 = "?s1\<lparr>lockw := -1, pcs := (pcs ?s1)(0 := Inside)\<rparr>"
  let ?s3 = "?s2\<lparr>pcs := (pcs ?s2)(1 := Spinning)\<rparr>"
  have "spin_reachable ?s1"
    by (rule spin_reachable.step [OF spin_reachable.start], rule spin_step.call) (simp add: spin_start_def)
  moreover have "spin_step ?s1 ?s2" using spin_step.exchange [of ?s1 0 0 "-1"] by (simp add: spin_start_def kernlock_try_lock_def)
  ultimately have "spin_reachable ?s2" by (rule spin_reachable.step)
  then have r: "spin_reachable ?s3" by (rule spin_reachable.step, intro spin_step.call) (simp add: spin_start_def)
  have p: "pcs ?s3 1 = Spinning" "pcs ?s3 0 = Inside" "lockw ?s3 \<noteq> 0" by simp_all
  from kernlock_progress [OF r p(1)] p(2,3) have
    "\<exists>t t'. spin_step ?s3 t \<and> spin_exchange 1 t t' \<and> pcs t' 1 = Inside" by (simp del: fun_upd_apply) blast
  with r p(1,3) show ?thesis by blast
qed

end
