(* ===== verification/Kmem_Interface.thy ===== *)
theory Kmem_Interface
  imports Kernel_Prelude
begin

text \<open>
  What the kernel's allocators rely on from \<^verbatim>\<open>vm_kalloc_ll\<close>
  (\<open>system/include/vm/vm_top.h\<close>): it takes a size and returns either null or a chunk
  of whole pages, by its first address and its size, that no earlier call handed out.
  The definitions of the allocators take it as an argument, of type \<open>'v kalloc\<close>; the
  locale states the contract. A second locale adds what a call gets while there is enough memory,
  and what it shows on the terminal. The theory \<open>Kmem\<close> interprets both on the model of
  \<open>system/vm/kmem_util2.c\<close>.
\<close>

type_synonym 'v kalloc = "'v \<Rightarrow> u32 \<Rightarrow> ((u32 \<times> u32) option \<times> 'v) res"

definition chunk :: "u32 \<Rightarrow> u32 \<Rightarrow> nat set" where
  "chunk b s = {unat b ..< unat b + unat s}"

definition chunk_ok :: "u32 \<Rightarrow> u32 \<Rightarrow> bool" where
  "chunk_ok b s \<longleftrightarrow> 0 < unat b \<and> 4096 \<le> unat s \<and> 4096 dvd unat b \<and> 4096 dvd unat s \<and>
     unat b + unat s < 4294967296"

locale kernel_memory =
  fixes kalloc :: "'v kalloc"
    and mem_ok :: "'v \<Rightarrow> bool"
    and taken :: "'v \<Rightarrow> nat set"
  assumes kalloc_ok: "mem_ok v \<Longrightarrow> \<exists>r v'. kalloc v n = Inr (r, v') \<and> mem_ok v' \<and>
    (case r of None \<Rightarrow> taken v' = taken v
     | Some (b, s) \<Rightarrow> chunk_ok b s \<and> chunk b s \<inter> taken v = {} \<and> taken v' = taken v \<union> chunk b s)"
begin

lemma kalloc_cases:
  assumes "mem_ok v"
  obtains v' where "kalloc v n = Inr (None, v')" "mem_ok v'" "taken v' = taken v"
  | b s v' where "kalloc v n = Inr (Some (b, s), v')" "mem_ok v'" "chunk_ok b s"
      "chunk b s \<inter> taken v = {}" "taken v' = taken v \<union> chunk b s"
proof -
  from kalloc_ok [OF assms, of n] obtain r v' where *: "kalloc v n = Inr (r, v')" "mem_ok v'"
    "case r of None \<Rightarrow> taken v' = taken v
     | Some (b, s) \<Rightarrow> chunk_ok b s \<and> chunk b s \<inter> taken v = {} \<and> taken v' = taken v \<union> chunk b s"
    by blast
  then show thesis using that by (cases r) auto
qed

end

text \<open>The number of pages a request amounts to: rounded up, and 0 when the rounding wraps.\<close>

definition kmem_request :: "u32 \<Rightarrow> nat" where
  "kmem_request req = (if unat req + 4095 < 4294967296 then (unat req + 4095) div 4096 else 0)"

text \<open>\<open>avail\<close> counts the pages that can still be had; \<open>view\<close> is what the terminal shows, to
  which a call for \<open>k\<close> pages adds \<open>say k\<close>.\<close>

locale kernel_supply = kernel_memory kalloc mem_ok taken
  for kalloc :: "'v kalloc" and mem_ok :: "'v \<Rightarrow> bool" and taken :: "'v \<Rightarrow> nat set" +
  fixes avail :: "'v \<Rightarrow> nat"
    and view :: "'v \<Rightarrow> 'c"
    and say :: "nat \<Rightarrow> 'c \<Rightarrow> 'c"
  assumes kalloc_supply: "mem_ok v \<Longrightarrow> 0 < kmem_request n \<Longrightarrow> kmem_request n \<le> avail v \<Longrightarrow>
    \<exists>b v'. kalloc v n = Inr (Some (b, of_nat (4096 * kmem_request n)), v') \<and>
      avail v' = avail v - kmem_request n \<and> view v' = say (kmem_request n) (view v)"
begin

lemma kalloc_enough:
  assumes "mem_ok v" and "0 < kmem_request n" and "kmem_request n \<le> avail v"
  obtains b s v' where "kalloc v n = Inr (Some (b, s), v')" "mem_ok v'" "chunk_ok b s" "chunk b s \<inter> taken v = {}"
    "taken v' = taken v \<union> chunk b s" "s = of_nat (4096 * kmem_request n)" "avail v' = avail v - kmem_request n"
    "view v' = say (kmem_request n) (view v)"
proof -
  from kalloc_supply [OF assms] obtain b v' where b: "kalloc v n = Inr (Some (b, of_nat (4096 * kmem_request n)), v')"
    "avail v' = avail v - kmem_request n" "view v' = say (kmem_request n) (view v)" by blast
  from assms(1) show thesis
    by (cases rule: kalloc_cases [where n = n]) (use b that in auto)
qed

end

end
