(* ===== verification/Kern_Stacks.thy ===== *)
theory Kern_Stacks
  imports Spinlock Kmem_Interface
begin

text \<open>
  The kernel stacks of \<open>system/kern/kern_stacks.c\<close>: stacks of 16K taken from
  \<^verbatim>\<open>vm_kalloc_ll\<close>, each with its \<^verbatim>\<open>struct kernel_stack\<close> at its upper end, and a free
  list of released stacks under a spin lock.

  The store of the structures is a function from addresses to records; the state of the memory
  below \<^verbatim>\<open>vm_kalloc_ll\<close> is the field \<open>vmst\<close>. The loop of \<^verbatim>\<open>calc_size\<close> is a
  partial function: for a size above \<open>2^31\<close> it does not end.
\<close>

section \<open>The state and the operations\<close>

record kernel_stack =
  st_tail :: "u32 option"
  st_sp :: u32

record 'v stacks_state =
  stacks :: "u32 option"
  stacks_sl :: kspinlock_t
  kstacks :: "u32 \<Rightarrow> kernel_stack"
  vmst :: 'v

partial_function (option) calc_size_from :: "u32 \<Rightarrow> u32 \<Rightarrow> u32 option" where
  "calc_size_from num sz = (if num < sz then calc_size_from (push_bit 1 num) sz else Some num)"

definition calc_size :: "u32 \<Rightarrow> u32 option" where
  "calc_size sz = calc_size_from 1 sz"

definition hal_stack_grows_downward :: int where
  "hal_stack_grows_downward = -1"

text \<open>\<^verbatim>\<open>sizeof(struct kernel_stack)\<close>: two words.\<close>

definition sizeof_kernel_stack :: u32 where
  "sizeof_kernel_stack = 8"

definition kernel_stacks_init :: "'v stacks_state \<Rightarrow> 'v stacks_state" where
  "kernel_stacks_init m = m\<lparr>stacks := None, stacks_sl := kernlock_init (stacks_sl m)\<rparr>"

text \<open>The value \<^verbatim>\<open>kernel_cpu_init_stack\<close> stores in \<^verbatim>\<open>CPU_LOCAL_STACK\<close>.\<close>

definition kernel_cpu_init_stack ::
  "'v kalloc \<Rightarrow> 'v stacks_state \<Rightarrow> (u32 \<times> 'v stacks_state) res" where
  "kernel_cpu_init_stack kalloc m =
     rbind (kalloc (vmst m) (push_bit 14 1)) (\<lambda>(r, v).
     case r of None \<Rightarrow> Inl (Panic ''Failed to allocate cpu stack for CPU'')
     | Some (begin, sz) \<Rightarrow>
         Inr (if hal_stack_grows_downward \<noteq> 0 then begin + sz else begin, m\<lparr>vmst := v\<rparr>))"

definition kernel_stack_new ::
  "'v kalloc \<Rightarrow> 'v stacks_state \<Rightarrow> (u32 option \<times> 'v stacks_state) res" where
  "kernel_stack_new kalloc m =
     (case calc_size sizeof_kernel_stack of None \<Rightarrow> Inl No_Return
      | Some base \<Rightarrow>
     rbind (kalloc (vmst m) (push_bit 14 1)) (\<lambda>(r, v).
     let m = m\<lparr>vmst := v\<rparr> in
     case r of None \<Rightarrow> Inr (None, m)
     | Some (begin, sz) \<Rightarrow>
         (let sz = sz - base;
              (kstack, sp) = (if hal_stack_grows_downward \<noteq> 0 then (begin + sz, begin + sz)
                              else (begin, begin + base))
          in Inr (Some kstack,
               m\<lparr>kstacks := (kstacks m)(kstack := (kstacks m kstack)\<lparr>st_sp := sp\<rparr>)\<rparr>))))"

definition kernel_stack_allocate ::
  "'v kalloc \<Rightarrow> 'v stacks_state \<Rightarrow> (u32 option \<times> 'v stacks_state) res" where
  "kernel_stack_allocate kalloc m =
     rbind (kernlock_lock (stacks_sl m)) (\<lambda>sl.
     let m = m\<lparr>stacks_sl := sl\<rparr>;
         kstack = stacks m;
         m = (case kstack of None \<Rightarrow> m | Some k \<Rightarrow> m\<lparr>stacks := st_tail (kstacks m k)\<rparr>);
         m = m\<lparr>stacks_sl := kernlock_unlock (stacks_sl m)\<rparr>
     in if kstack = None then kernel_stack_new kalloc m else Inr (kstack, m))"

definition kernel_stack_release ::
  "u32 option \<Rightarrow> 'v stacks_state \<Rightarrow> 'v stacks_state res" where
  "kernel_stack_release kstack m =
     (case kstack of None \<Rightarrow> Inr m
      | Some k \<Rightarrow>
     rbind (kernlock_lock (stacks_sl m)) (\<lambda>sl.
     let m = m\<lparr>stacks_sl := sl\<rparr>;
         m = m\<lparr>kstacks := (kstacks m)(k := (kstacks m k)\<lparr>st_tail := stacks m\<rparr>)\<rparr>;
         m = m\<lparr>stacks := kstack\<rparr>
     in Inr (m\<lparr>stacks_sl := kernlock_unlock (stacks_sl m)\<rparr>)))"

section \<open>The loop of calc_size\<close>

lemma calc_size_step:
  assumes "k < 31"
  shows "push_bit 1 (2 ^ k :: u32) = 2 ^ Suc k" "unat (2 ^ k :: u32) = 2 ^ k"
  using assms by (simp_all add: push_bit_eq_mult unat_pow2_u32 mult.commute)

lemma calc_size_from_ok:
  assumes "unat sz \<le> 2147483648" and "k \<le> 31" and "k = 0 \<or> 2 ^ (k - 1) < unat sz"
  shows "\<exists>j\<le>31. calc_size_from (2 ^ k) sz = Some (2 ^ j) \<and> unat sz \<le> 2 ^ j \<and>
    (j = 0 \<or> 2 ^ (j - 1) < unat sz)"
  using assms(2,3)
proof (induction "31 - k" arbitrary: k)
  case 0
  then have "k = 31" by simp
  then have "\<not> (2 ^ k :: u32) < sz" using assms(1) by (simp add: word_less_nat_alt)
  then show ?case using 0 assms(1) \<open>k = 31\<close> by (subst calc_size_from.simps) auto
next
  case (Suc x)
  then have k: "k < 31" by simp
  show ?case
  proof (cases "(2 ^ k :: u32) < sz")
    case True
    then have lt: "2 ^ k < unat sz" using calc_size_step(2) [OF k] by (simp add: word_less_nat_alt)
    have "calc_size_from (2 ^ k) sz = calc_size_from (2 ^ Suc k) sz"
      using True calc_size_step(1) [OF k] by (subst calc_size_from.simps) (simp only: if_True)
    with Suc.hyps(1) [of "Suc k"] Suc.hyps(2) k lt show ?thesis by simp
  next
    case False
    then have "unat sz \<le> 2 ^ k" using calc_size_step(2) [OF k] by (simp add: word_less_nat_alt)
    then show ?thesis using Suc.prems False by (subst calc_size_from.simps) auto
  qed
qed

lemma calc_size_from_diverges:
  assumes "2147483648 < unat sz" and "num = 0 \<or> (\<exists>k\<le>31. num = 2 ^ k)"
  shows "calc_size_from num sz = None"
proof -
  have step: "push_bit 1 num' = (0 :: u32) \<or> (\<exists>k\<le>31. push_bit 1 num' = (2 ^ k :: u32))"
    if "num' = 0 \<or> (\<exists>k\<le>31. num' = 2 ^ k)" for num' :: u32
  proof -
    consider "num' = 0" | k where "k < 31" "num' = 2 ^ k" | "num' = 2 ^ 31"
      using \<open>num' = 0 \<or> (\<exists>k\<le>31. num' = 2 ^ k)\<close> by (metis le_neq_implies_less)
    then show ?thesis
    proof cases
      case 2
      then show ?thesis using calc_size_step(1) [of k] by (intro disjI2 exI [of _ "Suc k"]) simp
    qed (simp_all add: push_bit_eq_mult)
  qed
  have le: "unat num' \<le> 2147483648" if "num' = 0 \<or> (\<exists>k\<le>31. num' = (2 ^ k :: u32))" for num'
  proof -
    have "(2 :: nat) ^ k \<le> 2 ^ 31" if "k \<le> 31" for k :: nat using that by (intro power_increasing) auto
    with that show ?thesis by (auto simp: unat_pow2_u32)
  qed
  let ?P = "\<lambda>num sz y :: u32. (num = 0 \<or> (\<exists>k\<le>31. num = 2 ^ k)) \<longrightarrow> 2147483648 < unat sz \<longrightarrow> False"
  have "?P num sz y" if "calc_size_from num sz = Some y" for y
  proof (rule calc_size_from.raw_induct [where P = ?P, OF _ that])
    fix f :: "u32 \<Rightarrow> u32 \<Rightarrow> u32 option" and num sz y
    assume IH: "\<And>a b c. f a b = Some c \<Longrightarrow> ?P a b c"
      and r: "(if num < sz then f (push_bit 1 num) sz else Some num) = Some y"
    show "?P num sz y"
    proof (intro impI)
      assume n: "num = 0 \<or> (\<exists>k\<le>31. num = 2 ^ k)" and big: "2147483648 < unat sz"
      then have "num < sz" using le [OF n] by (simp add: word_less_nat_alt)
      with r have "f (push_bit 1 num) sz = Some y" by simp
      with IH step [OF n] big show False by blast
    qed
  qed
  with assms show ?thesis by (cases "calc_size_from num sz") auto
qed

lemma calc_size_8: "calc_size sizeof_kernel_stack = Some 8"
  unfolding calc_size_def sizeof_kernel_stack_def
  by (subst calc_size_from.simps, simp)+

section \<open>The free list\<close>

fun stack_chain :: "(u32 \<Rightarrow> kernel_stack) \<Rightarrow> u32 option \<Rightarrow> u32 list \<Rightarrow> bool" where
  "stack_chain f p [] = (p = None)"
| "stack_chain f p (x # xs) = (p = Some x \<and> stack_chain f (st_tail (f x)) xs)"

lemma stack_chain_frame:
  "y \<notin> set xs \<Longrightarrow> stack_chain (f(y := s)) p xs = stack_chain f p xs"
  by (induction xs arbitrary: p) auto

lemma stack_chain_sp:
  "stack_chain (f(y := (f y)\<lparr>st_sp := sp\<rparr>)) p xs = stack_chain f p xs"
  by (induction xs arbitrary: p) auto

text \<open>The stacks in the free list: a function of the state, since a chain of links is the only one from its
  start.\<close>

definition stack_free :: "'v stacks_state \<Rightarrow> u32 set" where
  "stack_free m = {k. \<exists>xs. stack_chain (kstacks m) (stacks m) xs \<and> k \<in> set xs}"

lemma stack_chain_unique: "stack_chain f p xs \<Longrightarrow> stack_chain f p ys \<Longrightarrow> ys = xs"
proof (induction xs arbitrary: p ys)
  case Nil
  then show ?case by (cases ys) auto
next
  case (Cons x xs)
  then show ?case by (cases ys) auto
qed

lemma stack_free_eq: "stack_chain (kstacks m) (stacks m) xs \<Longrightarrow> stack_free m = set xs"
  unfolding stack_free_def by (blast dest: stack_chain_unique)

lemma stack_free_vmst [simp]: "stack_free (m\<lparr>vmst := v\<rparr>) = stack_free m" "stack_free (m\<lparr>stacks_sl := l\<rparr>) = stack_free m"
  by (simp_all add: stack_free_def)

text \<open>The contract of a pool of objects that its users take and give back one by one: \<open>L\<close> is
  a set of objects handed out and not yet given back, \<open>pool_free\<close> are exactly the objects the pool can hand out without new memory. An
  allocation may add objects \<open>N\<close> nobody had; it fails only when there is nothing to hand out. What is given back is free
  again, so that nothing is lost between the two. \<^verbatim>\<open>thread_allocate\<close> relies on it.\<close>

locale object_pool =
  fixes pool_alloc :: "'m \<Rightarrow> ('k option \<times> 'm) res"
    and pool_release :: "'k option \<Rightarrow> 'm \<Rightarrow> 'm res"
    and pool :: "'m \<Rightarrow> 'k set \<Rightarrow> bool"
    and pool_free :: "'m \<Rightarrow> 'k set"
  assumes pool_alloc_ok: "pool m L \<Longrightarrow> \<exists>r m'. pool_alloc m = Inr (r, m') \<and>
      (case r of None \<Rightarrow> pool m' L | Some k \<Rightarrow> k \<notin> L \<and> pool m' (insert k L))"
    and pool_release_ok: "pool m L \<Longrightarrow> k \<in> L \<Longrightarrow>
      \<exists>m'. pool_release (Some k) m = Inr m' \<and> pool m' (L - {k})"
    and pool_release_null: "pool_release None m = Inr m"
    and pool_free_live: "pool m L \<Longrightarrow> pool_free m \<inter> L = {}"
    and pool_alloc_free: "pool m L \<Longrightarrow> pool_alloc m = Inr (r, m') \<Longrightarrow> \<exists>N. N \<inter> (pool_free m \<union> L) = {} \<and>
      (case r of None \<Rightarrow> pool_free m = {} \<and> N = {} \<and> pool_free m' = {}
       | Some k \<Rightarrow> k \<in> pool_free m \<union> N \<and> pool_free m' = pool_free m \<union> N - {k})"
    and pool_release_free: "pool m L \<Longrightarrow> k \<in> L \<Longrightarrow> pool_release (Some k) m = Inr m' \<Longrightarrow> pool_free m' = insert k (pool_free m)"
begin

lemma pool_release_opt:
  assumes "pool m L" and "set_option p \<subseteq> L"
  shows "\<exists>m'. pool_release p m = Inr m' \<and> pool m' (L - set_option p) \<and> pool_free m' = set_option p \<union> pool_free m"
proof (cases p)
  case None
  then show ?thesis using assms pool_release_null by simp
next
  case (Some k)
  then have "k \<in> L" using assms(2) by simp
  with pool_release_ok [OF assms(1)] obtain m' where "pool_release (Some k) m = Inr m'" "pool m' (L - {k})" by blast
  with pool_release_free [OF assms(1) \<open>k \<in> L\<close>] Some show ?thesis by simp
qed

lemma pool_alloc_opt:
  assumes "pool m L"
  shows "\<exists>r m'. pool_alloc m = Inr (r, m') \<and> set_option r \<inter> L = {} \<and> pool m' (set_option r \<union> L)"
  using pool_alloc_ok [OF assms] by (fastforce split: option.splits)

text \<open>Taking two objects and giving both back leaves the pool's users with what they had, and every object that was free or
  was taken in between is free.\<close>

lemma pool_round_trip:
  assumes "pool m L"
  shows "\<exists>a b m1 m2 m3 m4. pool_alloc m = Inr (a, m1) \<and> pool_alloc m1 = Inr (b, m2) \<and>
    pool_release a m2 = Inr m3 \<and> pool_release b m3 = Inr m4 \<and> pool m4 L \<and> pool_free m \<union> set_option a \<union> set_option b \<subseteq> pool_free m4"
proof -
  obtain a m1 where a: "pool_alloc m = Inr (a, m1)" "set_option a \<inter> L = {}" "pool m1 (set_option a \<union> L)"
    using pool_alloc_opt [OF assms] by blast
  obtain b m2 where b: "pool_alloc m1 = Inr (b, m2)" "set_option b \<inter> (set_option a \<union> L) = {}"
    "pool m2 (set_option b \<union> (set_option a \<union> L))"
    using pool_alloc_opt [OF a(3)] by blast
  obtain m3 where c: "pool_release a m2 = Inr m3"
    "pool m3 (set_option b \<union> (set_option a \<union> L) - set_option a)" "pool_free m3 = set_option a \<union> pool_free m2"
    using pool_release_opt [OF b(3), of a] by blast
  have "set_option b \<union> (set_option a \<union> L) - set_option a = set_option b \<union> L" using a(2) b(2) by auto
  with c(2) obtain m4 where d: "pool_release b m3 = Inr m4" "pool m4 (set_option b \<union> L - set_option b)"
    "pool_free m4 = set_option b \<union> pool_free m3"
    using pool_release_opt [of m3 "set_option b \<union> L" b] by auto
  have "set_option b \<union> L - set_option b = L" using b(2) by auto
  moreover have "pool_free m - set_option a \<subseteq> pool_free m1" "pool_free m1 - set_option b \<subseteq> pool_free m2"
    using pool_alloc_free [OF assms a(1)] pool_alloc_free [OF a(3) b(1)] by (auto split: option.splits)
  ultimately show ?thesis using a(1) b(1) c(1,3) d by auto
qed

end

text \<open>The stacks of \<open>kern_stacks.c\<close> are such a pool over any kernel memory: the free list has
  no repetition, holds no stack that is handed out, and every stack lies in memory that
  \<^verbatim>\<open>vm_kalloc_ll\<close> returned.\<close>

definition stack_pool ::
  "('v \<Rightarrow> bool) \<Rightarrow> ('v \<Rightarrow> nat set) \<Rightarrow> 'v stacks_state \<Rightarrow> u32 set \<Rightarrow> bool" where
  "stack_pool mem_ok taken m L \<longleftrightarrow> (\<exists>xs. stack_chain (kstacks m) (stacks m) xs \<and> distinct xs \<and>
     set xs \<inter> L = {} \<and> (\<forall>k\<in>set xs \<union> L. unat k \<in> taken (vmst m)) \<and> stacks_sl m = 0 \<and> mem_ok (vmst m))"

lemma kernel_stack_release_pool:
  assumes "stack_pool mem_ok taken m L" and "k \<in> L"
  shows "\<exists>m'. kernel_stack_release (Some k) m = Inr m' \<and> stack_pool mem_ok taken m' (L - {k}) \<and>
    stacks m' = Some k \<and> stack_free m' = insert k (stack_free m)"
proof -
  from assms(1) obtain xs where xs: "stack_chain (kstacks m) (stacks m) xs" "distinct xs" "set xs \<inter> L = {}"
    "\<forall>k\<in>set xs \<union> L. unat k \<in> taken (vmst m)" "stacks_sl m = 0" "mem_ok (vmst m)"
    by (auto simp: stack_pool_def)
  let ?m = "m\<lparr>stacks := Some k, stacks_sl := 0,
      kstacks := (kstacks m)(k := (kstacks m k)\<lparr>st_tail := stacks m\<rparr>)\<rparr>"
  have "kernel_stack_release (Some k) m = Inr ?m"
    using xs(5) by (simp add: kernel_stack_release_def)
  moreover have "k \<notin> set xs" using xs(3) assms(2) by blast
  then have "stack_pool mem_ok taken ?m (L - {k})"
    unfolding stack_pool_def using xs assms(2)
    by (intro exI [of _ "k # xs"]) (auto simp: stack_chain_frame)
  moreover have "stack_free ?m = set (k # xs)" using xs(1) \<open>k \<notin> set xs\<close> by (intro stack_free_eq) (simp add: stack_chain_frame)
  ultimately show ?thesis using stack_free_eq [OF xs(1)] by simp
qed

context kernel_memory
begin

lemma kernel_stack_new_pool:
  assumes "stack_pool mem_ok taken m L"
  shows "\<exists>r m'. kernel_stack_new kalloc m = Inr (r, m') \<and>
    (case r of None \<Rightarrow> stack_pool mem_ok taken m' L
     | Some k \<Rightarrow> k \<notin> L \<union> stack_free m \<and> stack_pool mem_ok taken m' (insert k L) \<and> st_sp (kstacks m' k) = k) \<and>
    stack_free m' = stack_free m"
proof -
  from assms obtain xs where xs: "stack_chain (kstacks m) (stacks m) xs" "distinct xs" "set xs \<inter> L = {}"
    "\<forall>k\<in>set xs \<union> L. unat k \<in> taken (vmst m)" "stacks_sl m = 0" "mem_ok (vmst m)"
    by (auto simp: stack_pool_def)
  from xs(6) show ?thesis
  proof (cases rule: kalloc_cases [where n = "push_bit 14 1"])
    case (1 v')
    have "kernel_stack_new kalloc m = Inr (None, m\<lparr>vmst := v'\<rparr>)"
      using 1(1) by (simp add: kernel_stack_new_def calc_size_8 del: push_bit_of_1)
    moreover have "stack_pool mem_ok taken (m\<lparr>vmst := v'\<rparr>) L"
      using xs 1 by (auto simp: stack_pool_def)
    ultimately show ?thesis by simp
  next
    case (2 b s v')
    let ?k = "b + (s - 8)"
    let ?m = "m\<lparr>vmst := v', kstacks := (kstacks m)(?k := (kstacks m ?k)\<lparr>st_sp := ?k\<rparr>)\<rparr>"
    have r: "kernel_stack_new kalloc m = Inr (Some ?k, ?m)"
      using 2(1) by (simp add: kernel_stack_new_def calc_size_8 hal_stack_grows_downward_def Let_def
          del: push_bit_of_1)
    have s8: "unat (s - 8) = unat s - 8"
      using 2(3) by (subst unat_sub_u32) (auto simp: chunk_ok_def word_le_nat_alt)
    have "unat ?k = unat b + (unat s - 8)"
      using 2(3) s8 by (subst unat_add_u32) (auto simp: chunk_ok_def)
    then have k: "unat ?k \<in> chunk b s" using 2(3) by (auto simp: chunk_def chunk_ok_def)
    then have new: "unat ?k \<notin> taken (vmst m)" using 2(4) by auto
    then have fresh: "?k \<notin> set xs \<union> L" using xs(4) by blast
    have "stack_pool mem_ok taken ?m (insert ?k L)"
      unfolding stack_pool_def using xs 2(2,5) k fresh
      by (intro exI [of _ xs]) (auto simp: stack_chain_sp)
    moreover have "stack_free ?m = set xs" using xs(1) by (intro stack_free_eq) (simp add: stack_chain_sp)
    ultimately show ?thesis using r fresh stack_free_eq [OF xs(1)] by simp
  qed
qed

lemma kernel_stack_allocate_pool:
  assumes "stack_pool mem_ok taken m L"
  shows "\<exists>r m'. kernel_stack_allocate kalloc m = Inr (r, m') \<and>
    (case r of None \<Rightarrow> stack_pool mem_ok taken m' L
     | Some k \<Rightarrow> k \<notin> L \<and> stack_pool mem_ok taken m' (insert k L)) \<and>
    stack_free m' = stack_free m - set_option r \<and> (stack_free m = {} \<or> set_option r \<inter> stack_free m \<noteq> {})"
proof -
  from assms obtain xs where xs: "stack_chain (kstacks m) (stacks m) xs" "distinct xs" "set xs \<inter> L = {}"
    "\<forall>k\<in>set xs \<union> L. unat k \<in> taken (vmst m)" "stacks_sl m = 0" "mem_ok (vmst m)"
    by (auto simp: stack_pool_def)
  show ?thesis
  proof (cases xs)
    case Nil
    then have "kernel_stack_allocate kalloc m = kernel_stack_new kalloc (m\<lparr>stacks_sl := 0\<rparr>)"
      using xs by (simp add: kernel_stack_allocate_def)
    moreover have "stack_pool mem_ok taken (m\<lparr>stacks_sl := 0\<rparr>) L" using xs by (auto simp: stack_pool_def)
    ultimately show ?thesis
      using kernel_stack_new_pool [of "m\<lparr>stacks_sl := 0\<rparr>" L] stack_free_eq [OF xs(1)] Nil by (fastforce split: option.splits)
  next
    case (Cons k ys)
    let ?m = "m\<lparr>stacks := st_tail (kstacks m k), stacks_sl := 0\<rparr>"
    have "kernel_stack_allocate kalloc m = Inr (Some k, ?m)"
      using xs Cons by (simp add: kernel_stack_allocate_def)
    moreover have "stack_pool mem_ok taken ?m (insert k L)"
      unfolding stack_pool_def using xs Cons by (intro exI [of _ ys]) auto
    moreover have "k \<notin> L" using xs(3) Cons by auto
    moreover have "stack_free ?m = set ys" using xs(1) Cons by (intro stack_free_eq) auto
    then have "stack_free ?m = stack_free m - {k}" using stack_free_eq [OF xs(1)] xs(2) Cons by auto
    moreover have "k \<in> stack_free m" using stack_free_eq [OF xs(1)] Cons by simp
    ultimately show ?thesis by auto
  qed
qed

end

sublocale kernel_memory \<subseteq> stk: object_pool
  "kernel_stack_allocate kalloc" kernel_stack_release "stack_pool mem_ok taken" stack_free
proof unfold_locales
  fix m :: "'v stacks_state" and L
  assume p: "stack_pool mem_ok taken m L"
  show "\<exists>r m'. kernel_stack_allocate kalloc m = Inr (r, m') \<and>
    (case r of None \<Rightarrow> stack_pool mem_ok taken m' L
     | Some k \<Rightarrow> k \<notin> L \<and> stack_pool mem_ok taken m' (insert k L))"
    using kernel_stack_allocate_pool [OF p] by blast
  show "stack_free m \<inter> L = {}" using p stack_free_eq [of m] by (auto simp: stack_pool_def)
  show "\<exists>N. N \<inter> (stack_free m \<union> L) = {} \<and> (case r of None \<Rightarrow> stack_free m = {} \<and> N = {} \<and> stack_free m' = {}
       | Some k \<Rightarrow> k \<in> stack_free m \<union> N \<and> stack_free m' = stack_free m \<union> N - {k})"
    if "kernel_stack_allocate kalloc m = Inr (r, m')" for r m'
  proof -
    from kernel_stack_allocate_pool [OF p] that have *: "\<forall>k. r = Some k \<longrightarrow> k \<notin> L" "stack_free m' = stack_free m - set_option r"
      "stack_free m = {} \<or> set_option r \<inter> stack_free m \<noteq> {}" by (auto split: option.splits)
    then show ?thesis by (cases r) (auto intro!: exI [of _ "set_option r - stack_free m"])
  qed
  show "stack_free m' = insert k (stack_free m)" if "k \<in> L" "kernel_stack_release (Some k) m = Inr m'" for k m'
    using kernel_stack_release_pool [OF p that(1)] that(2) by auto
  show "k \<in> L \<Longrightarrow> \<exists>m'. kernel_stack_release (Some k) m = Inr m' \<and>
      stack_pool mem_ok taken m' (L - {k})" for k
    using kernel_stack_release_pool [OF p] by blast
next
  fix m :: "'v stacks_state"
  show "kernel_stack_release None m = Inr m" by (simp add: kernel_stack_release_def)
qed

text \<open>While there is memory, a stack is to be had.\<close>

context kernel_supply
begin

lemma stack_request: "kmem_request (push_bit 14 1) = 4"
  by (simp add: kmem_request_def push_bit_eq_mult)

lemma cpu_stack_supply:
  assumes "mem_ok (vmst m)" and "4 \<le> avail (vmst m)"
  obtains sp v' where "kernel_cpu_init_stack kalloc m = Inr (sp, m\<lparr>vmst := v'\<rparr>)" "mem_ok v'" "taken (vmst m) \<subseteq> taken v'"
    "avail v' = avail (vmst m) - 4" "view v' = say 4 (view (vmst m))" "\<exists>r. kalloc (vmst m) (push_bit 14 1) = Inr (r, v')"
  by (rule kalloc_enough [OF assms(1), of "push_bit 14 1"])
    (use assms(2) in \<open>simp_all add: stack_request kernel_cpu_init_stack_def that del: push_bit_of_1\<close>)

lemma stack_allocate_supply:
  assumes p: "stack_pool mem_ok taken m L" and n: "stacks m = None" and a: "4 \<le> avail (vmst m)"
  obtains k m' where "kernel_stack_allocate kalloc m = Inr (Some k, m')" "stack_pool mem_ok taken m' (insert k L)" "k \<notin> L"
    "stacks m' = None" "avail (vmst m') = avail (vmst m) - 4" "view (vmst m') = say 4 (view (vmst m))"
proof -
  have ok: "mem_ok (vmst m)" "stacks_sl m = 0" using p by (auto simp: stack_pool_def)
  obtain b s v' where v: "kalloc (vmst m) (push_bit 14 1) = Inr (Some (b, s), v')" "avail v' = avail (vmst m) - 4"
    "view v' = say 4 (view (vmst m))"
    by (rule kalloc_enough [OF ok(1), of "push_bit 14 1"]) (use a in \<open>simp_all add: stack_request del: push_bit_of_1\<close>)
  obtain k m' where "kernel_stack_allocate kalloc m = Inr (Some k, m')" "stacks m' = None" "vmst m' = v'"
    using v(1) ok(2) n
    by (simp add: kernel_stack_allocate_def kernel_stack_new_def calc_size_8 hal_stack_grows_downward_def Let_def del: push_bit_of_1)
  with kernel_stack_allocate_pool [OF p] v(2,3) that show thesis by auto
qed

lemma stack_allocate_enough:
  assumes p: "stack_pool mem_ok taken m L" and a: "4 + n \<le> avail (vmst m)"
  obtains k m' where "kernel_stack_allocate kalloc m = Inr (Some k, m')" "stack_pool mem_ok taken m' (insert k L)" "n \<le> avail (vmst m')"
proof (cases "stacks m")
  case None
  have "4 \<le> avail (vmst m)" using a by simp
  with that a show thesis by (elim stack_allocate_supply [OF p None]) auto
next
  case (Some k)
  have "stacks_sl m = 0" using p by (auto simp: stack_pool_def)
  then obtain m' where "kernel_stack_allocate kalloc m = Inr (Some k, m')" "vmst m' = vmst m"
    using Some by (simp add: kernel_stack_allocate_def)
  with kernel_stack_allocate_pool [OF p] a that show thesis by auto
qed

end

section \<open>Properties\<close>

text \<open>\<^verbatim>\<open>calc_size\<close> of a size up to \<open>2^31\<close> ends and is the least power of two not
  below it; for a larger size the shifted number wraps to zero and the loop does not end.\<close>

theorem calc_size_least_power:
  "if unat sz \<le> 2147483648
   then \<exists>k\<le>31. calc_size sz = Some (2 ^ k) \<and> unat sz \<le> 2 ^ k \<and> (k = 0 \<or> 2 ^ (k - 1) < unat sz)
   else calc_size sz = None"
proof -
  have "(1 :: u32) = 0 \<or> (\<exists>k\<le>31. (1 :: u32) = 2 ^ k)" by (intro disjI2 exI [of _ 0]) simp
  then show ?thesis
    using calc_size_from_ok [of sz 0] calc_size_from_diverges [of sz 1]
    by (simp add: calc_size_def)
qed

end
