(* ===== verification/Threads.thy ===== *)
theory Threads
  imports Linked_Ring Kern_Stacks
begin

text \<open>
  Threads and CPUs: \<open>system/kern/kern_thread.c\<close> with \<open>system/include/sys/thread.h\<close>,
  \<open>system/include/sys/cpu.h\<close> and the functions of \<open>system/arch/i686/hal.c\<close> that
  a thread switch calls; and the state the scheduler and the wait queues share with them.

  Threads, schedulers, CPUs and wait queues are named by numbers; a pointer to one is an
  option. The ring nodes that are embedded in them (\<^verbatim>\<open>t_queue_entry\<close>,
  \<^verbatim>\<open>t_wait_entry\<close>, \<^verbatim>\<open>sched_run_ring[i]\<close>, \<^verbatim>\<open>sched_blocked\<close>,
  \<^verbatim>\<open>wq_threads\<close>) are the addresses \<open>ring_ptr\<close> of one ring store; the data pointer of a
  node names a thread. \<open>this_cpu\<close> is the CPU the code runs on (\<^verbatim>\<open>%gs:0\<close>).
  \<^verbatim>\<open>CPU_LOCAL_TLS\<close> points to the \<^verbatim>\<open>t_storage\<close> array of a thread and is modelled by
  that thread. \<^verbatim>\<open>ltr\<close> works on the busy bit of the CPU's task state segment.
\<close>

section \<open>State\<close>

datatype ring_ptr =
    Run_Ring nat nat
  | Sched_Blocked nat
  | T_Queue_Entry nat
  | T_Wait_Entry nat
  | Wq_Threads nat

record thread =
  t_current_cpu :: "nat option"
  t_storage :: "u32 list"
  t_istacks :: "u32 list"
  t_istobjs :: "u32 option list"
  t_stateflags :: u32
  t_priority :: u32
  t_nonpreempt :: u32
  t_wait_queue :: "nat option"

definition THREAD_SF_INTSTACK_2 :: u32 where "THREAD_SF_INTSTACK_2 = 1"
definition THREAD_SF_PREEMPT :: u32 where "THREAD_SF_PREEMPT = 2"
definition THREAD_SF_LOCK_SCHED :: u32 where "THREAD_SF_LOCK_SCHED = 4"
definition THREAD_SF_QUEUE_WAIT :: u32 where "THREAD_SF_QUEUE_WAIT = 8"

lemmas thread_flags = THREAD_SF_INTSTACK_2_def THREAD_SF_PREEMPT_def THREAD_SF_LOCK_SCHED_def
  THREAD_SF_QUEUE_WAIT_def

record scheduler =
  sched_run_decay :: "u32 list"
  sched_idle :: "nat option"
  sched_thread_count :: u32
  sched_lock :: kspinlock_t

text \<open>The fields of the task state segment that \<^verbatim>\<open>hal_after_thread_switch\<close> writes.\<close>

record taskstate =
  esp0 :: u32
  ss0 :: u16
  iomb :: u16

text \<open>\<open>cpu_tss_busy\<close> is the busy bit in the type of the descriptor of the task state segment, \<open>task_register\<close> the
  selector the processor has loaded.\<close>

record cpu =
  cpu_current_thread :: "nat option"
  CPU_LOCAL_TLS :: "nat option"
  cpu_tss :: taskstate
  cpu_tss_busy :: bool
  task_register :: u16
  cpu_scheduler :: "nat option"

record world =
  rings :: "(ring_ptr, nat) ring_heap"
  threads :: "nat \<Rightarrow> thread"
  schedulers :: "nat \<Rightarrow> scheduler"
  cpus :: "nat \<Rightarrow> cpu"
  this_cpu :: nat

definition get_thread :: "world \<Rightarrow> nat option \<Rightarrow> thread res" where
  "get_thread w p = rbind (deref p) (\<lambda>t. Inr (threads w t))"

definition upd_thread :: "nat option \<Rightarrow> (thread \<Rightarrow> thread) \<Rightarrow> world \<Rightarrow> world res" where
  "upd_thread p f w = rbind (deref p) (\<lambda>t. Inr (w\<lparr>threads := (threads w)(t := f (threads w t))\<rparr>))"

definition upd_cpu :: "nat \<Rightarrow> (cpu \<Rightarrow> cpu) \<Rightarrow> world \<Rightarrow> world" where
  "upd_cpu c f w = w\<lparr>cpus := (cpus w)(c := f (cpus w c))\<rparr>"

definition set_flags :: "nat option \<Rightarrow> u32 \<Rightarrow> world \<Rightarrow> world res" where
  "set_flags p f w = upd_thread p (\<lambda>t. t\<lparr>t_stateflags := t_stateflags t OR f\<rparr>) w"

definition clear_flags :: "nat option \<Rightarrow> u32 \<Rightarrow> world \<Rightarrow> world res" where
  "clear_flags p f w = upd_thread p (\<lambda>t. t\<lparr>t_stateflags := t_stateflags t AND NOT f\<rparr>) w"

section \<open>The operations\<close>

definition SEG_KDATA :: u16 where
  "SEG_KDATA = 2"

definition kernel_get_current_cpu :: "world \<Rightarrow> nat" where
  "kernel_get_current_cpu w = this_cpu w"

definition SEG_TSS :: u16 where
  "SEG_TSS = 6"

text \<open>\<^verbatim>\<open>ltr\<close> marks the descriptor as busy; on one that is, the processor raises a general protection
  fault.\<close>

definition ltr :: "u16 \<Rightarrow> world \<Rightarrow> world res" where
  "ltr sel w =
     (if cpu_tss_busy (cpus w (this_cpu w)) then Inl Protection_Fault
      else Inr (upd_cpu (this_cpu w) (\<lambda>c. c\<lparr>cpu_tss_busy := True, task_register := sel\<rparr>) w))"

definition hal_after_thread_switch :: "world \<Rightarrow> world res" where
  "hal_after_thread_switch w =
     rbind (get_thread w (CPU_LOCAL_TLS (cpus w (this_cpu w)))) (\<lambda>t.
     let w = upd_cpu (this_cpu w) (\<lambda>c. c\<lparr>cpu_tss :=
       (cpu_tss c)\<lparr>ss0 := push_bit 3 SEG_KDATA, esp0 := t_storage t ! 0, iomb := 0xFFFF\<rparr>\<rparr>) w
     in ltr (push_bit 3 SEG_TSS) w)"

definition kernel_get_current_thread :: "world \<Rightarrow> nat option" where
  "kernel_get_current_thread w = cpu_current_thread (cpus w (kernel_get_current_cpu w))"

definition kernel_set_current_thread :: "nat option \<Rightarrow> world \<Rightarrow> world res" where
  "kernel_set_current_thread thread w =
     (let cpu = kernel_get_current_cpu w;
          w = upd_cpu cpu (\<lambda>c. c\<lparr>cpu_current_thread := thread\<rparr>) w
      in rbind (deref thread) (\<lambda>_.
     let w = upd_cpu cpu (\<lambda>c. c\<lparr>CPU_LOCAL_TLS := thread\<rparr>) w in
     rbind (upd_thread thread (\<lambda>t. t\<lparr>t_current_cpu := Some cpu\<rparr>) w) hal_after_thread_switch))"

definition thread_update_int_stack :: "nat option \<Rightarrow> world \<Rightarrow> world res" where
  "thread_update_int_stack thread w =
     rbind (get_thread w thread) (\<lambda>t.
     let sp = (if t_stateflags t AND THREAD_SF_INTSTACK_2 \<noteq> 0 then t_istacks t ! 1
               else t_istacks t ! 0)
     in upd_thread thread (\<lambda>t. t\<lparr>t_storage := (t_storage t)[0 := sp]\<rparr>) w)"

definition thread_enter_syscall :: "world \<Rightarrow> world res" where
  "thread_enter_syscall w =
     (let thread = cpu_current_thread (cpus w (kernel_get_current_cpu w)) in
      rbind (set_flags thread THREAD_SF_INTSTACK_2 w) (\<lambda>w.
      rbind (upd_thread thread (\<lambda>t. t\<lparr>t_storage := (t_storage t)[0 := t_istacks t ! 1]\<rparr>) w)
        hal_after_thread_switch))"

definition thread_exit_syscall :: "world \<Rightarrow> world res" where
  "thread_exit_syscall w =
     (let thread = cpu_current_thread (cpus w (kernel_get_current_cpu w)) in
      rbind (clear_flags thread THREAD_SF_INTSTACK_2 w) (\<lambda>w.
      rbind (upd_thread thread (\<lambda>t. t\<lparr>t_storage := (t_storage t)[0 := t_istacks t ! 0]\<rparr>) w)
        hal_after_thread_switch))"

text \<open>\<^verbatim>\<open>thread_template\<close> after \<^verbatim>\<open>thread_init\<close>: a static variable, zero but for
  the priority.\<close>

definition thread_template :: thread where
  "thread_template =
     \<lparr>t_current_cpu = None, t_storage = [0, 0, 0, 0], t_istacks = [0, 0], t_istobjs = [None, None],
      t_stateflags = 0, t_priority = 16, t_nonpreempt = 0, t_wait_queue = None\<rparr>"

text \<open>The copy of the template also zeroes the two ring nodes embedded in the thread.\<close>

definition copy_template :: "nat \<Rightarrow> world \<Rightarrow> world" where
  "copy_template t w = w\<lparr>threads := (threads w)(t := thread_template),
     rings := (rings w)\<lparr>
       nextp := (nextp (rings w))(T_Queue_Entry t := None, T_Wait_Entry t := None),
       prevp := (prevp (rings w))(T_Queue_Entry t := None, T_Wait_Entry t := None),
       datap := (datap (rings w))(T_Queue_Entry t := None, T_Wait_Entry t := None)\<rparr>\<rparr>"

text \<open>\<^verbatim>\<open>thread_allocate\<close>. \<open>zal\<close> and \<open>zfr\<close> are \<^verbatim>\<open>zalloc(thread_zone)\<close> and
  \<^verbatim>\<open>zfree\<close>, on the memory below the stacks.\<close>

definition thread_allocate ::
  "('v \<Rightarrow> (nat option \<times> 'v) res) \<Rightarrow> (nat option \<Rightarrow> 'v \<Rightarrow> 'v res) \<Rightarrow> 'v kalloc \<Rightarrow>
   'v stacks_state \<Rightarrow> world \<Rightarrow> (nat option \<times> 'v stacks_state \<times> world) res" where
  "thread_allocate zal zfr kalloc m w =
     rbind (zal (vmst m)) (\<lambda>(thr, v).
     let m = m\<lparr>vmst := v\<rparr> in
     case thr of None \<Rightarrow> Inr (None, m, w)
     | Some t \<Rightarrow>
         let w = copy_template t w in
         rbind (kernel_stack_allocate kalloc m) (\<lambda>(s0, m).
         rbind (kernel_stack_allocate kalloc m) (\<lambda>(s1, m).
         let w = w\<lparr>threads := (threads w)(t := (threads w t)\<lparr>t_istobjs := [s0, s1]\<rparr>)\<rparr> in
         if s0 = None \<or> s1 = None then
           rbind (kernel_stack_release s0 m) (\<lambda>m.
           rbind (kernel_stack_release s1 m) (\<lambda>m.
           rbind (zfr thr (vmst m)) (\<lambda>v. Inr (None, m\<lparr>vmst := v\<rparr>, w))))
         else
           let istacks = [st_sp (kstacks m (the s0)), st_sp (kstacks m (the s1))];
               w = w\<lparr>threads := (threads w)(t := (threads w t)\<lparr>t_istacks := istacks,
                      t_storage := (t_storage (threads w t))[0 := istacks ! 0]\<rparr>)\<rparr>
           in rbind (linked_ring_init (rings w) (Some (T_Queue_Entry t))) (\<lambda>h.
              Inr (thr, m, w\<lparr>rings := h\<rparr>)))))"

section \<open>Access lemmas\<close>

lemma thread_access [simp]:
  "get_thread w (Some t) = Inr (threads w t)" "get_thread w None = Inl Null_Deref"
  "upd_thread (Some t) f w = Inr (w\<lparr>threads := (threads w)(t := f (threads w t))\<rparr>)"
  "upd_thread None f w = Inl Null_Deref"
  by (simp_all add: get_thread_def upd_thread_def)

lemma flags_access [simp]:
  "set_flags (Some t) f w =
     Inr (w\<lparr>threads := (threads w)(t := (threads w t)\<lparr>t_stateflags := t_stateflags (threads w t) OR f\<rparr>)\<rparr>)"
  "clear_flags (Some t) f w =
     Inr (w\<lparr>threads := (threads w)(t := (threads w t)\<lparr>t_stateflags := t_stateflags (threads w t) AND NOT f\<rparr>)\<rparr>)"
  "set_flags None f w = Inl Null_Deref" "clear_flags None f w = Inl Null_Deref"
  by (simp_all add: set_flags_def clear_flags_def)

lemma upd_cpu_fields [simp]:
  "rings (upd_cpu c f w) = rings w" "threads (upd_cpu c f w) = threads w"
  "schedulers (upd_cpu c f w) = schedulers w" "this_cpu (upd_cpu c f w) = this_cpu w"
  "cpus (upd_cpu c f w) = (cpus w)(c := f (cpus w c))"
  by (simp_all add: upd_cpu_def)

lemma word_bit_set: "k < 32 \<Longrightarrow> f = 2 ^ k \<Longrightarrow> (x :: u32) AND f \<noteq> 0 \<longleftrightarrow> bit x k"
  by (simp add: and_exp_eq_0_iff_not_bit)

lemma flag_clear [simp]: "((x :: u32) AND NOT f) AND f = 0" "((x :: u32) OR f) AND f = f"
  "((x :: u32) OR f) AND NOT f = x AND NOT f"
  by (auto simp: bit_eq_iff bit_simps)

lemma kernel_set_current_thread_ok:
  "\<not> cpu_tss_busy (cpus w (this_cpu w)) \<Longrightarrow> kernel_set_current_thread (Some t) w = Inr (w\<lparr>
     threads := (threads w)(t := (threads w t)\<lparr>t_current_cpu := Some (this_cpu w)\<rparr>),
     cpus := (cpus w)(this_cpu w := (cpus w (this_cpu w))\<lparr>cpu_current_thread := Some t, CPU_LOCAL_TLS := Some t,
       cpu_tss := (cpu_tss (cpus w (this_cpu w)))\<lparr>ss0 := 16, esp0 := t_storage (threads w t) ! 0, iomb := 0xFFFF\<rparr>,
       cpu_tss_busy := True, task_register := 48\<rparr>)\<rparr>)"
  by (simp add: kernel_set_current_thread_def kernel_get_current_cpu_def hal_after_thread_switch_def ltr_def SEG_TSS_def
      upd_cpu_def SEG_KDATA_def Let_def)

section \<open>Allocating a thread\<close>

text \<open>A thread takes its record from a zone and its stacks from the stack pool, and both draw on one
  memory. The locale states what that takes: the zone is a pool of objects over the state that
  \<^verbatim>\<open>vm_kalloc_ll\<close> works on, neither disturbs the other, and the zone never gives memory
  back.\<close>

lemma stack_pool_vmst:
  assumes "stack_pool mem_ok taken m L" and "mem_ok v" and "taken (vmst m) \<subseteq> taken v"
  shows "stack_pool mem_ok taken (m\<lparr>vmst := v\<rparr>) L"
  using assms unfolding stack_pool_def by fastforce

lemma stack_release_vmst: "kernel_stack_release p m = Inr m' \<Longrightarrow> vmst m' = vmst m"
  by (cases p; cases "kernlock_lock (stacks_sl m)") (auto simp: kernel_stack_release_def Let_def)

locale thread_memory = kernel_memory kalloc mem_ok taken + tz: object_pool zal zfr zpool zspare
  for kalloc :: "'v kalloc" and mem_ok :: "'v \<Rightarrow> bool" and taken :: "'v \<Rightarrow> nat set"
    and zal :: "'v \<Rightarrow> (nat option \<times> 'v) res" and zfr :: "nat option \<Rightarrow> 'v \<Rightarrow> 'v res"
    and zpool :: "'v \<Rightarrow> nat set \<Rightarrow> bool" and zspare :: "'v \<Rightarrow> nat set" +
  assumes zpool_mem_ok: "zpool v T \<Longrightarrow> mem_ok v"
    and kalloc_zpool: "kalloc v n = Inr (r, v') \<Longrightarrow> zpool v T \<Longrightarrow> zpool v' T"
    and kalloc_zspare: "kalloc v n = Inr (r, v') \<Longrightarrow> zpool v T \<Longrightarrow> zspare v' = zspare v"
    and zal_taken: "zal v = Inr (q, v') \<Longrightarrow> zpool v T \<Longrightarrow> taken v \<subseteq> taken v'"
    and zfr_taken: "zfr p v = Inr v' \<Longrightarrow> zpool v T \<Longrightarrow> taken v \<subseteq> taken v'"
begin

lemma stack_allocate_zpool:
  assumes "kernel_stack_allocate kalloc m = Inr (r, m')" and "zpool (vmst m) T"
  shows "zpool (vmst m') T" "zspare (vmst m') = zspare (vmst m)"
proof -
  have new: "zpool (vmst m') T \<and> zspare (vmst m') = zspare (vmst k)" if "kernel_stack_new kalloc k = Inr (r, m')" "zpool (vmst k) T" for k
    using that kalloc_zpool [of "vmst k" "push_bit 14 1" _ _ T] kalloc_zspare [of "vmst k" "push_bit 14 1" _ _ T]
    by (auto simp: kernel_stack_new_def calc_size_8 res_inv Let_def hal_stack_grows_downward_def
        split: option.splits prod.splits)
  have "zpool (vmst m') T \<and> zspare (vmst m') = zspare (vmst m)"
  proof (cases "stacks m")
    case None
    then show ?thesis
      using assms new [of "m\<lparr>stacks_sl := 0\<rparr>"]
      by (auto simp: kernel_stack_allocate_def res_inv Let_def kernlock_unlock_def)
  next
    case (Some k)
    then show ?thesis using assms by (auto simp: kernel_stack_allocate_def res_inv Let_def)
  qed
  then show "zpool (vmst m') T" "zspare (vmst m') = zspare (vmst m)" by simp_all
qed

text \<open>The three allocations of a call, and what they leave to the pools.\<close>

lemma thread_allocate_takes:
  assumes p: "stack_pool mem_ok taken m L" and z: "zpool (vmst m) T"
  obtains thr v s0 m0 s1 m1 where "zal (vmst m) = Inr (thr, v)" "kernel_stack_allocate kalloc (m\<lparr>vmst := v\<rparr>) = Inr (s0, m0)"
    "kernel_stack_allocate kalloc m0 = Inr (s1, m1)" "set_option thr \<inter> T = {}" "zpool v (set_option thr \<union> T)"
    "stack_pool mem_ok taken (m\<lparr>vmst := v\<rparr>) L" "set_option s0 \<inter> L = {}" "set_option s1 \<inter> (set_option s0 \<union> L) = {}"
    "stack_pool mem_ok taken m1 (set_option s1 \<union> (set_option s0 \<union> L))" "zpool (vmst m1) (set_option thr \<union> T)"
    "stack_free m1 = stack_free m - set_option s0 - set_option s1" "zspare (vmst m1) = zspare v"
    "zspare (vmst m) - set_option thr \<subseteq> zspare v"
proof -
  obtain thr v where zal: "zal (vmst m) = Inr (thr, v)" "set_option thr \<inter> T = {}" "zpool v (set_option thr \<union> T)"
    using tz.pool_alloc_opt [OF z] by blast
  note p1 = stack_pool_vmst [OF p zpool_mem_ok [OF zal(3)] zal_taken [OF zal(1) z]]
  obtain s0 m0 where a: "kernel_stack_allocate kalloc (m\<lparr>vmst := v\<rparr>) = Inr (s0, m0)"
    "set_option s0 \<inter> L = {}" "stack_pool mem_ok taken m0 (set_option s0 \<union> L)"
    using stk.pool_alloc_opt [OF p1] by blast
  obtain s1 m1 where b: "kernel_stack_allocate kalloc m0 = Inr (s1, m1)"
    "set_option s1 \<inter> (set_option s0 \<union> L) = {}" "stack_pool mem_ok taken m1 (set_option s1 \<union> (set_option s0 \<union> L))"
    using stk.pool_alloc_opt [OF a(3)] by blast
  have f: "stack_free m0 = stack_free m - set_option s0" "stack_free m1 = stack_free m0 - set_option s1"
    using kernel_stack_allocate_pool [OF p1] a(1) kernel_stack_allocate_pool [OF a(3)] b(1) by auto
  have z2: "zpool (vmst m0) (set_option thr \<union> T)" "zspare (vmst m0) = zspare v"
    using stack_allocate_zpool [OF a(1)] zal(3) by simp_all
  have "zspare (vmst m) - set_option thr \<subseteq> zspare v" using tz.pool_alloc_free [OF z zal(1)] by (auto split: option.splits)
  with that [OF zal(1) a(1) b(1) zal(2,3) p1 a(2) b(2,3)] stack_allocate_zpool [OF b(1) z2(1)] f z2(2) show thesis by simp
qed

text \<open>A failed allocation gives back every stack and the thread it took; a successful one holds a new
  thread and two new stacks.\<close>

lemma thread_allocate_pools:
  assumes p: "stack_pool mem_ok taken m L" and z: "zpool (vmst m) T"
  shows "\<exists>thr v s0 m0 s1 m1 r m' w'. zal (vmst m) = Inr (thr, v) \<and> kernel_stack_allocate kalloc (m\<lparr>vmst := v\<rparr>) = Inr (s0, m0) \<and>
    kernel_stack_allocate kalloc m0 = Inr (s1, m1) \<and> thread_allocate zal zfr kalloc m w = Inr (r, m', w') \<and>
    r = (if s0 = None \<or> s1 = None then None else thr) \<and>
    (case r of None \<Rightarrow> stack_pool mem_ok taken m' L \<and> zpool (vmst m') T \<and> zspare (vmst m) \<union> set_option thr \<subseteq> zspare (vmst m') \<and>
         stack_free m' = (if thr = None then stack_free m else stack_free m \<union> set_option s0 \<union> set_option s1)
     | Some t \<Rightarrow> \<exists>a b. a \<noteq> b \<and> a \<notin> L \<and> b \<notin> L \<and> stack_pool mem_ok taken m' (insert b (insert a L)) \<and>
         t \<notin> T \<and> zpool (vmst m') (insert t T) \<and> stack_free m' = stack_free m - {a, b} \<and> zspare (vmst m) - {t} \<subseteq> zspare (vmst m') \<and>
         t_istobjs (threads w' t) = [Some a, Some b] \<and>
         t_istacks (threads w' t) = [st_sp (kstacks m' a), st_sp (kstacks m' b)] \<and>
         t_storage (threads w' t) ! 0 = st_sp (kstacks m' a) \<and> ring (rings w') (T_Queue_Entry t) [])"
proof -
  obtain thr v s0 m0 s1 m1 where t: "zal (vmst m) = Inr (thr, v)" "kernel_stack_allocate kalloc (m\<lparr>vmst := v\<rparr>) = Inr (s0, m0)"
    "kernel_stack_allocate kalloc m0 = Inr (s1, m1)" "set_option thr \<inter> T = {}" "zpool v (set_option thr \<union> T)"
    "stack_pool mem_ok taken (m\<lparr>vmst := v\<rparr>) L" "set_option s0 \<inter> L = {}" "set_option s1 \<inter> (set_option s0 \<union> L) = {}"
    "stack_pool mem_ok taken m1 (set_option s1 \<union> (set_option s0 \<union> L))" "zpool (vmst m1) (set_option thr \<union> T)"
    "stack_free m1 = stack_free m - set_option s0 - set_option s1" "zspare (vmst m1) = zspare v"
    "zspare (vmst m) - set_option thr \<subseteq> zspare v"
    by (rule thread_allocate_takes [OF p z])
  consider (no_thread) "thr = None" | (failed) t where "thr = Some t" "s0 = None \<or> s1 = None"
    | (made) t a b where "thr = Some t" "s0 = Some a" "s1 = Some b" by (cases thr; cases s0; cases s1) auto
  then have "\<exists>r m' w'. thread_allocate zal zfr kalloc m w = Inr (r, m', w') \<and> r = (if s0 = None \<or> s1 = None then None else thr) \<and>
    (case r of None \<Rightarrow> stack_pool mem_ok taken m' L \<and> zpool (vmst m') T \<and> zspare (vmst m) \<union> set_option thr \<subseteq> zspare (vmst m') \<and>
         stack_free m' = (if thr = None then stack_free m else stack_free m \<union> set_option s0 \<union> set_option s1)
     | Some t \<Rightarrow> \<exists>a b. a \<noteq> b \<and> a \<notin> L \<and> b \<notin> L \<and> stack_pool mem_ok taken m' (insert b (insert a L)) \<and>
         t \<notin> T \<and> zpool (vmst m') (insert t T) \<and> stack_free m' = stack_free m - {a, b} \<and> zspare (vmst m) - {t} \<subseteq> zspare (vmst m') \<and>
         t_istobjs (threads w' t) = [Some a, Some b] \<and>
         t_istacks (threads w' t) = [st_sp (kstacks m' a), st_sp (kstacks m' b)] \<and>
         t_storage (threads w' t) ! 0 = st_sp (kstacks m' a) \<and> ring (rings w') (T_Queue_Entry t) [])"
  proof cases
    case no_thread
    then have "thread_allocate zal zfr kalloc m w = Inr (None, m\<lparr>vmst := v\<rparr>, w)" using t(1) by (simp add: thread_allocate_def)
    then show ?thesis using no_thread t(5,6,13)
      by (intro exI [of _ None] exI [of _ "m\<lparr>vmst := v\<rparr>"] exI [of _ w]) simp
  next
    case (failed x)
    obtain m4 where c: "kernel_stack_release s0 m1 = Inr m4" "stack_free m4 = set_option s0 \<union> stack_free m1"
      "stack_pool mem_ok taken m4 (set_option s1 \<union> (set_option s0 \<union> L) - set_option s0)"
      using stk.pool_release_opt [OF t(9), of s0] by blast
    moreover have "set_option s1 \<union> (set_option s0 \<union> L) - set_option s0 = set_option s1 \<union> L" using t(7,8) by auto
    ultimately obtain m5 where d: "kernel_stack_release s1 m4 = Inr m5" "stack_free m5 = set_option s1 \<union> stack_free m4"
      "stack_pool mem_ok taken m5 (set_option s1 \<union> L - set_option s1)"
      using stk.pool_release_opt [of m4 "set_option s1 \<union> L" s1] by auto
    have L: "set_option s1 \<union> L - set_option s1 = L" using t(8) by auto
    have z5: "zpool (vmst m5) (insert x T)" "zspare (vmst m5) = zspare v"
      using t(10,12) failed(1) stack_release_vmst [OF c(1)] stack_release_vmst [OF d(1)] by simp_all
    from tz.pool_release_ok [OF z5(1), of x] obtain v' where
      v': "zfr (Some x) (vmst m5) = Inr v'" "zpool v' (insert x T - {x})" by auto
    have sp: "zspare v' = insert x (zspare v)" using tz.pool_release_free [OF z5(1) _ v'(1)] z5(2) by simp
    have p5: "stack_pool mem_ok taken (m5\<lparr>vmst := v'\<rparr>) L"
      using stack_pool_vmst [OF d(3) zpool_mem_ok [OF v'(2)] zfr_taken [OF v'(1) z5(1)]] L by simp
    have zT: "zpool v' T" using v'(2) t(4) failed(1) by simp
    obtain w' where run: "thread_allocate zal zfr kalloc m w = Inr (None, m5\<lparr>vmst := v'\<rparr>, w')"
      using t(1-3) c(1) d(1) v'(1) failed by (simp add: thread_allocate_def Let_def)
    have free: "stack_free (m5\<lparr>vmst := v'\<rparr>) = stack_free m \<union> set_option s0 \<union> set_option s1" using c(2) d(2) t(11) by auto
    have spare: "zspare (vmst m) \<union> set_option thr \<subseteq> zspare v'" using t(13) sp failed(1) by auto
    show ?thesis using run p5 zT free spare failed
      by (intro exI [of _ None] exI [of _ "m5\<lparr>vmst := v'\<rparr>"] exI [of _ w']) simp
  next
    case (made x a b)
    have k: "a \<noteq> b" "a \<notin> L" "b \<notin> L" "stack_pool mem_ok taken m1 (insert b (insert a L))" "x \<notin> T" "zpool (vmst m1) (insert x T)"
      "stack_free m1 = stack_free m - {a, b}" "zspare (vmst m) - {x} \<subseteq> zspare (vmst m1)"
      using t(4,7-13) made by (auto simp: insert_commute)
    obtain w' where w': "thread_allocate zal zfr kalloc m w = Inr (Some x, m1, w')" "t_istobjs (threads w' x) = [Some a, Some b]"
      "t_istacks (threads w' x) = [st_sp (kstacks m1 a), st_sp (kstacks m1 b)]"
      "t_storage (threads w' x) ! 0 = st_sp (kstacks m1 a)" "ring (rings w') (T_Queue_Entry x) []"
      using t(1-3) made
      by (simp add: thread_allocate_def Let_def copy_template_def thread_template_def linked_ring_init_def links_access ring_def)
    have "(if s0 = None \<or> s1 = None then None else thr) = Some x" using made by simp
    then show ?thesis using w' k by (intro exI [of _ "Some x"] exI [of _ m1] exI [of _ w'], unfold option.case) metis
  qed
  with t(1-3) show ?thesis by blast
qed

end

text \<open>A thread that has never run: no flag set, preemptible, with its four words of storage.\<close>

definition new_thread :: "thread \<Rightarrow> bool" where
  "new_thread t \<longleftrightarrow> t_stateflags t = 0 \<and> t_nonpreempt t = 0 \<and> length (t_storage t) = 4"

text \<open>While there is memory, a thread is to be had, once its record is.\<close>

locale thread_supply = thread_memory kalloc mem_ok taken zal zfr zpool zspare + kernel_supply kalloc mem_ok taken avail view say
  for kalloc :: "'v kalloc" and mem_ok :: "'v \<Rightarrow> bool" and taken :: "'v \<Rightarrow> nat set"
    and zal :: "'v \<Rightarrow> (nat option \<times> 'v) res" and zfr :: "nat option \<Rightarrow> 'v \<Rightarrow> 'v res" and zpool :: "'v \<Rightarrow> nat set \<Rightarrow> bool"
    and zspare :: "'v \<Rightarrow> nat set" and avail :: "'v \<Rightarrow> nat" and view :: "'v \<Rightarrow> 'c" and say :: "nat \<Rightarrow> 'c \<Rightarrow> 'c"
begin

lemma thread_allocate_supply:
  assumes p: "stack_pool mem_ok taken m L" and n: "stacks m = None" and z: "zpool (vmst m) T"
    and r: "zal (vmst m) = Inr (Some t, v)" and a: "8 \<le> avail v"
  shows "\<exists>a b m' w'. thread_allocate zal zfr kalloc m w = Inr (Some t, m', w') \<and>
    a \<noteq> b \<and> a \<notin> L \<and> b \<notin> L \<and> stack_pool mem_ok taken m' (insert b (insert a L)) \<and>
    t \<notin> T \<and> zpool (vmst m') (insert t T) \<and> t_istobjs (threads w' t) = [Some a, Some b] \<and>
    t_istacks (threads w' t) = [st_sp (kstacks m' a), st_sp (kstacks m' b)] \<and> ring (rings w') (T_Queue_Entry t) [] \<and>
    avail (vmst m') = avail v - 8 \<and> view (vmst m') = say 4 (say 4 (view v)) \<and>
    cpus w' = cpus w \<and> this_cpu w' = this_cpu w \<and> schedulers w' = schedulers w \<and> new_thread (threads w' t) \<and>
    t_storage (threads w' t) ! 0 = st_sp (kstacks m' a) \<and> t_priority (threads w' t) = 16 \<and>
    stack_free m' = {} \<and> zspare (vmst m') = zspare v \<and>
    (\<exists>s0 m2 s1. kernel_stack_allocate kalloc (m\<lparr>vmst := v\<rparr>) = Inr (s0, m2) \<and> kernel_stack_allocate kalloc m2 = Inr (s1, m'))"
proof -
  have z1: "zpool v (insert t T)" using tz.pool_alloc_ok [OF z] r by auto
  have p1: "stack_pool mem_ok taken (m\<lparr>vmst := v\<rparr>) L"
    by (rule stack_pool_vmst [OF p zpool_mem_ok [OF z1] zal_taken [OF r z]])
  obtain ka m2 where ka: "kernel_stack_allocate kalloc (m\<lparr>vmst := v\<rparr>) = Inr (Some ka, m2)" "stack_pool mem_ok taken m2 (insert ka L)"
    "stacks m2 = None" "avail (vmst m2) = avail v - 4" "view (vmst m2) = say 4 (view v)"
    by (rule stack_allocate_supply [OF p1]) (use n a in auto)
  obtain kb m3 where kb: "kernel_stack_allocate kalloc m2 = Inr (Some kb, m3)"
    "avail (vmst m3) = avail (vmst m2) - 4" "view (vmst m3) = say 4 (view (vmst m2))" "stacks m3 = None"
    by (rule stack_allocate_supply [OF ka(2,3)]) (use ka(4) a in auto)
  obtain w' where w': "thread_allocate zal zfr kalloc m w = Inr (Some t, m3, w')"
    "cpus w' = cpus w" "this_cpu w' = this_cpu w" "schedulers w' = schedulers w" "new_thread (threads w' t)"
    "t_priority (threads w' t) = 16"
    using r ka(1) kb(1)
    by (simp add: thread_allocate_def Let_def copy_template_def thread_template_def linked_ring_init_def links_access new_thread_def)
  have "zpool (vmst m2) (insert t T)" using stack_allocate_zpool(1) [OF ka(1)] z1 by simp
  then have "zspare (vmst m3) = zspare v" using stack_allocate_zpool(2) [OF ka(1)] stack_allocate_zpool(2) [OF kb(1)] z1 by simp
  moreover have "stack_free m3 = {}" using stack_free_eq [of m3 "[]"] kb(4) by simp
  ultimately show ?thesis using thread_allocate_pools [OF p z, of w] w' ka(1,4,5) kb r by auto
qed

lemma thread_allocate_enough:
  assumes p: "stack_pool mem_ok taken m L" and z: "zpool (vmst m) T" and r: "zal (vmst m) = Inr (Some t, v)" and a: "8 \<le> avail v"
  shows "\<exists>m' w'. thread_allocate zal zfr kalloc m w = Inr (Some t, m', w')"
proof -
  have z1: "zpool v (insert t T)" using tz.pool_alloc_ok [OF z] r by auto
  have p1: "stack_pool mem_ok taken (m\<lparr>vmst := v\<rparr>) L"
    by (rule stack_pool_vmst [OF p zpool_mem_ok [OF z1] zal_taken [OF r z]])
  obtain ka m2 where ka: "kernel_stack_allocate kalloc (m\<lparr>vmst := v\<rparr>) = Inr (Some ka, m2)" "stack_pool mem_ok taken m2 (insert ka L)"
    "4 \<le> avail (vmst m2)" by (rule stack_allocate_enough [OF p1, of 4]) (use a in auto)
  obtain kb m3 where kb: "kernel_stack_allocate kalloc m2 = Inr (Some kb, m3)"
    by (rule stack_allocate_enough [OF ka(2), of 0]) (use ka(3) in auto)
  show ?thesis using thread_allocate_pools [OF p z, of w] r ka(1) kb by auto
qed

end

section \<open>Properties\<close>

text \<open>System calls switch the interrupt stack: for a current thread whose storage is the CPU's thread-local storage,
  \<^verbatim>\<open>thread_enter_syscall\<close> puts the second interrupt stack into the thread-local storage and into the task state
  segment, \<^verbatim>\<open>thread_exit_syscall\<close> the first; the flag tells which, so that
  \<^verbatim>\<open>thread_update_int_stack\<close> agrees with both. But each loads the task register, so that either one works only
  while the task state segment has never been loaded, and the other one then faults.\<close>

theorem syscall_stacks:
  assumes "cpu_current_thread (cpus w (this_cpu w)) = Some t" and "CPU_LOCAL_TLS (cpus w (this_cpu w)) = Some t"
    and "length (t_storage (threads w t)) = 4"
  shows "if cpu_tss_busy (cpus w (this_cpu w)) then thread_enter_syscall w = Inl Protection_Fault \<and> thread_exit_syscall w = Inl Protection_Fault
    else (\<exists>w1. thread_enter_syscall w = Inr w1 \<and> esp0 (cpu_tss (cpus w1 (this_cpu w))) = t_istacks (threads w t) ! 1 \<and>
        thread_update_int_stack (Some t) w1 = Inr w1 \<and> thread_exit_syscall w1 = Inl Protection_Fault) \<and>
      (\<exists>w2. thread_exit_syscall w = Inr w2 \<and> esp0 (cpu_tss (cpus w2 (this_cpu w))) = t_istacks (threads w t) ! 0 \<and>
        thread_update_int_stack (Some t) w2 = Inr w2 \<and> thread_enter_syscall w2 = Inl Protection_Fault)"
proof -
  let ?t = "threads w t"
  have "0 < length (t_storage ?t)" using assms(3) by simp
  then have st: "(t_storage ?t)[0 := x, 0 := y] = (t_storage ?t)[0 := y]" "(t_storage ?t)[0 := x] ! 0 = x" for x y by simp_all
  show ?thesis
    using assms(1,2)
    by (simp add: thread_enter_syscall_def thread_exit_syscall_def hal_after_thread_switch_def ltr_def
        kernel_get_current_cpu_def upd_cpu_def thread_update_int_stack_def st Let_def)
      (simp add: THREAD_SF_INTSTACK_2_def)
qed

definition example_thread :: thread where
  "example_thread = thread_template\<lparr>t_istacks := [1000, 2000]\<rparr>"

definition example_world :: world where
  "example_world =
     \<lparr>rings = \<lparr>nextp = \<lambda>_. None, prevp = \<lambda>_. None, datap = \<lambda>_. None\<rparr>,
      threads = (\<lambda>_. example_thread),
      schedulers = (\<lambda>_. \<lparr>sched_run_decay = replicate 32 0, sched_idle = None, sched_thread_count = 0, sched_lock = 0\<rparr>),
      cpus = (\<lambda>_. \<lparr>cpu_current_thread = Some 0, CPU_LOCAL_TLS = Some 0,
        cpu_tss = \<lparr>esp0 = 0, ss0 = 0, iomb = 0\<rparr>, cpu_tss_busy = False, task_register = 0, cpu_scheduler = Some 0\<rparr>),
      this_cpu = 0\<rparr>"

end
