(* ===== verification/Sched.thy ===== *)
theory Sched
  imports Threads
begin

text \<open>
  The scheduler, \<open>system/kern/kern_sched.c\<close>: 32 run rings per CPU, a decaying value per
  ring, a ring of blocked threads, and the operations that insert, remove, move and switch threads.

  The operations run under the scheduler's spin lock on one CPU and are functions on \<open>world\<close>;
  the compiler fences around the flag \<^verbatim>\<open>THREAD_SF_LOCK_SCHED\<close> have no counterpart. The
  decaying values are C's \<^verbatim>\<open>signed int\<close>: words read with \<open>sint\<close>, and decrementing the
  least one is undefined. The jump to \<^verbatim>\<open>restart\<close> takes fuel. \<^verbatim>\<open>sched_runnable\<close>
  is modelled as it is defined: it is true of an \<^emph>\<open>empty\<close> ring.
\<close>

section \<open>The state's accessors\<close>

definition SCHED_NRQS :: nat where
  "SCHED_NRQS = 32"

definition sched_prios :: "u32 list" where
  "sched_prios = [1, 5, 11, 19, 28, 38, 49, 60, 72, 84, 97, 110, 123, 137, 151, 165, 180, 195,
     210, 225, 240, 256, 272, 288, 304, 320, 337, 354, 371, 388, 405, 422]"

definition upd_sched :: "nat \<Rightarrow> (scheduler \<Rightarrow> scheduler) \<Rightarrow> world \<Rightarrow> world" where
  "upd_sched s f w = w\<lparr>schedulers := (schedulers w)(s := f (schedulers w s))\<rparr>"

definition set_decay :: "nat \<Rightarrow> nat \<Rightarrow> u32 \<Rightarrow> world \<Rightarrow> world" where
  "set_decay s i v w = upd_sched s (\<lambda>c. c\<lparr>sched_run_decay := (sched_run_decay c)[i := v]\<rparr>) w"

definition ring_insert :: "ring_ptr option \<Rightarrow> ring_ptr option \<Rightarrow> bool \<Rightarrow> world \<Rightarrow> world res" where
  "ring_insert list elem after w =
     rbind (linked_ring_insert (rings w) list elem after) (\<lambda>h. Inr (w\<lparr>rings := h\<rparr>))"

definition ring_remove :: "ring_ptr option \<Rightarrow> world \<Rightarrow> world res" where
  "ring_remove elem w = rbind (linked_ring_remove (rings w) elem) (\<lambda>h. Inr (w\<lparr>rings := h\<rparr>))"

section \<open>The operations\<close>

definition sched_elem :: "nat option \<Rightarrow> world \<Rightarrow> (ring_ptr option \<times> world) res" where
  "sched_elem thread w =
     rbind (deref thread) (\<lambda>t. Inr (Some (T_Queue_Entry t),
       w\<lparr>rings := (rings w)\<lparr>datap := (datap (rings w))(T_Queue_Entry t := Some t)\<rparr>\<rparr>))"

definition sched_is_suspended :: "world \<Rightarrow> nat option \<Rightarrow> bool res" where
  "sched_is_suspended w thread =
     rbind (get_thread w thread) (\<lambda>t.
     Inr (t_stateflags t AND THREAD_SF_QUEUE_WAIT \<noteq> 0 \<and> t_wait_queue t \<noteq> None))"

definition sched_runnable :: "world \<Rightarrow> nat \<Rightarrow> nat \<Rightarrow> int res" where
  "sched_runnable w s i = linked_ring_empty (rings w) (Some (Run_Ring s i))"

text \<open>The loop over the priorities: \<open>mi\<close> and \<open>mdecay\<close> are the best priority so far
  and its decaying value.\<close>

fun sched_scan :: "nat \<Rightarrow> nat list \<Rightarrow> int \<Rightarrow> u32 \<Rightarrow> world \<Rightarrow> (int \<times> world) res" where
  "sched_scan s [] mi mdecay w = Inr (mi, w)"
| "sched_scan s (i # is) mi mdecay w =
     rbind (sched_runnable w s i) (\<lambda>r.
     if r = 0 then sched_scan s is mi mdecay (set_decay s i (sched_prios ! i) w)
     else let d = sched_run_decay (schedulers w s) ! i in
       if d = 0x80000000 then Inl Undefined
       else let w = set_decay s i (d - 1) w in
         if mi < 0 \<or> sint (d - 1) < sint mdecay then sched_scan s is (int i) (d - 1) w
         else sched_scan s is mi mdecay w)"

fun sched_schedule_next :: "nat \<Rightarrow> nat \<Rightarrow> world \<Rightarrow> (nat option \<times> world) res" where
  "sched_schedule_next 0 s w = Inl No_Return"
| "sched_schedule_next (Suc fuel) s w =
     rbind (sched_scan s [0..<SCHED_NRQS] (-1) 0 w) (\<lambda>(mi, w).
     if mi < 0 then Inr (None, w)
     else
       let w = set_decay s (nat mi) (sched_prios ! nat mi) w in
       rbind (get_prev (rings w) (Some (Run_Ring s (nat mi)))) (\<lambda>elem.
       rbind (ring_remove elem w) (\<lambda>w.
       rbind (deref elem) (\<lambda>e.
       let current = datap (rings w) e in
       rbind (sched_is_suspended w current) (\<lambda>suspended.
       if suspended then
         rbind (sched_elem current w) (\<lambda>(el, w).
         rbind (ring_insert (Some (Sched_Blocked s)) el False w) (\<lambda>w.
         sched_schedule_next fuel s w))
       else Inr (current, w))))))"

definition sched_schedule_idle :: "nat \<Rightarrow> world \<Rightarrow> nat option" where
  "sched_schedule_idle s w = sched_idle (schedulers w s)"

definition sched_reenqueue :: "nat \<Rightarrow> nat option \<Rightarrow> world \<Rightarrow> world res" where
  "sched_reenqueue s thread w =
     (if thread = sched_idle (schedulers w s) then Inr w
      else
      rbind (sched_is_suspended w thread) (\<lambda>suspended.
      if suspended then
        rbind (sched_elem thread w) (\<lambda>(el, w). ring_insert (Some (Sched_Blocked s)) el False w)
      else
      rbind (get_thread w thread) (\<lambda>t.
      let i = unat (t_priority t) mod SCHED_NRQS in
      rbind (sched_runnable w s i) (\<lambda>r.
      let w = (if r = 0 then set_decay s i (sched_prios ! i) w else w) in
      rbind (sched_elem thread w) (\<lambda>(el, w).
      ring_insert (Some (Run_Ring s i)) el True w)))))"

definition lock_sched :: "nat option \<Rightarrow> world \<Rightarrow> world res" where
  "lock_sched sp w =
     rbind (deref sp) (\<lambda>s.
     rbind (kernlock_lock (sched_lock (schedulers w s))) (\<lambda>l.
     Inr (upd_sched s (\<lambda>c. c\<lparr>sched_lock := l\<rparr>) w)))"

definition unlock_sched :: "nat \<Rightarrow> world \<Rightarrow> world" where
  "unlock_sched s w = upd_sched s (\<lambda>c. c\<lparr>sched_lock := kernlock_unlock (sched_lock c)\<rparr>) w"

text \<open>\<^verbatim>\<open>sched_instanciate\<close>: \<open>scheduler\<close> is what \<^verbatim>\<open>zalloc(sched_zone)\<close> returned. The
  \<^verbatim>\<open>memset\<close> zeroes the 32 run rings and the ring of blocked threads; the loop initialises the
  run rings only.\<close>

definition memset_scheduler :: "nat \<Rightarrow> world \<Rightarrow> world" where
  "memset_scheduler s w =
     (let own = (\<lambda>p. p = Sched_Blocked s \<or> (\<exists>i\<in>set [0..<SCHED_NRQS]. p = Run_Ring s i)) in
      w\<lparr>schedulers := (schedulers w)(s := \<lparr>sched_run_decay = replicate SCHED_NRQS 0, sched_idle = None,
          sched_thread_count = 0, sched_lock = 0\<rparr>),
        rings := \<lparr>nextp = (\<lambda>p. if own p then None else nextp (rings w) p),
          prevp = (\<lambda>p. if own p then None else prevp (rings w) p),
          datap = (\<lambda>p. if own p then None else datap (rings w) p)\<rparr>\<rparr>)"

fun sched_init_rings :: "nat \<Rightarrow> nat list \<Rightarrow> world \<Rightarrow> world res" where
  "sched_init_rings s [] w = Inr w"
| "sched_init_rings s (i # is) w =
     (let w = set_decay s i (sched_prios ! i) w in
      rbind (linked_ring_init (rings w) (Some (Run_Ring s i))) (\<lambda>h.
      sched_init_rings s is (w\<lparr>rings := h\<rparr>)))"

definition sched_instanciate :: "nat option \<Rightarrow> nat \<Rightarrow> world \<Rightarrow> world res" where
  "sched_instanciate scheduler cpu w =
     (case scheduler of None \<Rightarrow> Inl (Panic ''Can't allocate the scheduler core.'')
      | Some s \<Rightarrow>
          let w = memset_scheduler s w;
              w = upd_sched s (\<lambda>c. c\<lparr>sched_lock := kernlock_init (sched_lock c)\<rparr>) w;
              w = upd_sched s (\<lambda>c. c\<lparr>sched_thread_count := 1\<rparr>) w
          in rbind (sched_init_rings s [0..<SCHED_NRQS] w) (\<lambda>w.
             Inr (upd_cpu cpu (\<lambda>c. c\<lparr>cpu_scheduler := scheduler\<rparr>) w)))"

definition sched_insert :: "nat \<Rightarrow> nat option \<Rightarrow> world \<Rightarrow> world res" where
  "sched_insert cpu thread w =
     (let myself = kernel_get_current_thread w;
          scheduler = cpu_scheduler (cpus w cpu)
      in
      rbind (upd_thread thread (\<lambda>t. t\<lparr>t_current_cpu := Some cpu\<rparr>) w) (\<lambda>w.
      rbind (set_flags myself THREAD_SF_LOCK_SCHED w) (\<lambda>w.
      rbind (lock_sched scheduler w) (\<lambda>w.
      rbind (deref scheduler) (\<lambda>s.
      rbind (sched_reenqueue s thread w) (\<lambda>w.
      let w = upd_sched s (\<lambda>c. c\<lparr>sched_thread_count := sched_thread_count c + 1\<rparr>) w;
          w = unlock_sched s w
      in clear_flags myself THREAD_SF_LOCK_SCHED w))))))"

definition sched_remove :: "nat \<Rightarrow> nat \<Rightarrow> world \<Rightarrow> (nat option \<times> world) res" where
  "sched_remove fuel cpu w =
     (let myself = kernel_get_current_thread w;
          scheduler = cpu_scheduler (cpus w cpu)
      in
      rbind (set_flags myself THREAD_SF_LOCK_SCHED w) (\<lambda>w.
      rbind (lock_sched scheduler w) (\<lambda>w.
      rbind (deref scheduler) (\<lambda>s.
      rbind (sched_schedule_next fuel s w) (\<lambda>(thread, w).
      let w = (if thread \<noteq> None
               then upd_sched s (\<lambda>c. c\<lparr>sched_thread_count := sched_thread_count c - 1\<rparr>) w else w);
          w = unlock_sched s w
      in
      rbind (clear_flags myself THREAD_SF_LOCK_SCHED w) (\<lambda>w.
      rbind (if thread \<noteq> None then upd_thread thread (\<lambda>t. t\<lparr>t_current_cpu := None\<rparr>) w
             else Inr w) (\<lambda>w.
      Inr (thread, w))))))))"

definition sched_actualize :: "nat option \<Rightarrow> world \<Rightarrow> world res" where
  "sched_actualize thread w =
     rbind (get_thread w thread) (\<lambda>t.
     case t_current_cpu t of None \<Rightarrow> Inr w
     | Some cpu \<Rightarrow>
         let scheduler = cpu_scheduler (cpus w cpu);
             myself = kernel_get_current_thread w
         in
         rbind (set_flags myself THREAD_SF_LOCK_SCHED w) (\<lambda>w.
         rbind (lock_sched scheduler w) (\<lambda>w.
         rbind (deref scheduler) (\<lambda>s.
         rbind (get_thread w thread) (\<lambda>t.
         rbind (deref thread) (\<lambda>tid.
         rbind (if t_stateflags t AND THREAD_SF_PREEMPT \<noteq> 0 then
                  rbind (ring_remove (Some (T_Queue_Entry tid)) w) (\<lambda>w.
                  sched_reenqueue s thread w)
                else Inr w) (\<lambda>w.
         clear_flags myself THREAD_SF_LOCK_SCHED (unlock_sched s w))))))))"

definition sched_preempt :: "nat \<Rightarrow> world \<Rightarrow> world res" where
  "sched_preempt fuel w =
     (let scheduler = cpu_scheduler (cpus w (kernel_get_current_cpu w));
          othr = kernel_get_current_thread w
      in
      rbind (get_thread w othr) (\<lambda>ot.
      if t_stateflags ot AND THREAD_SF_LOCK_SCHED \<noteq> 0 then Inr w
      else if t_nonpreempt ot \<noteq> 0 then Inr w
      else
      rbind (lock_sched scheduler w) (\<lambda>w.
      rbind (deref scheduler) (\<lambda>s.
      rbind (sched_schedule_next fuel s w) (\<lambda>(nthr, w).
      rbind (if nthr = None then
               rbind (sched_is_suspended w othr) (\<lambda>suspended.
               Inr (if \<not> suspended then othr else sched_schedule_idle s w))
             else Inr nthr) (\<lambda>nthr.
      rbind (if othr \<noteq> nthr then
               rbind (clear_flags nthr THREAD_SF_PREEMPT w) (\<lambda>w.
               rbind (kernel_set_current_thread nthr w) (\<lambda>w.
               rbind (set_flags othr THREAD_SF_PREEMPT w) (\<lambda>w.
               sched_reenqueue s othr w)))
             else Inr w) (\<lambda>w.
      Inr (unlock_sched s w))))))))"

section \<open>Decaying values\<close>

lemma upd_sched_fields [simp]:
  "rings (upd_sched s f w) = rings w" "threads (upd_sched s f w) = threads w"
  "cpus (upd_sched s f w) = cpus w" "this_cpu (upd_sched s f w) = this_cpu w"
  "schedulers (upd_sched s f w) = (schedulers w)(s := f (schedulers w s))"
  by (simp_all add: upd_sched_def)

lemma upd_sched_same [simp]:
  "upd_sched s f (upd_sched s g w) = upd_sched s (\<lambda>c. f (g c)) w"
  by (simp add: upd_sched_def)

lemma length_sched_prios [simp]: "length sched_prios = 32"
  by (simp add: sched_prios_def)

lemma sched_prios_pos: "i < 32 \<Longrightarrow> 1 \<le> sint (sched_prios ! i) \<and> sint (sched_prios ! i) \<le> 422"
proof -
  have "\<forall>p\<in>set sched_prios. 1 \<le> sint p \<and> sint p \<le> 422" by (simp add: sched_prios_def)
  then show "i < 32 \<Longrightarrow> ?thesis" using nth_mem [of i sched_prios] by simp
qed

text \<open>What the scan does to the decaying values, for the priorities \<open>is\<close> of which \<open>R\<close> tells
  whether the test \<^verbatim>\<open>sched_runnable\<close> holds.\<close>

fun scan_decays :: "(nat \<Rightarrow> bool) \<Rightarrow> nat list \<Rightarrow> u32 list \<Rightarrow> u32 list" where
  "scan_decays R [] ds = ds"
| "scan_decays R (i # is) ds = scan_decays R is (ds[i := (if R i then ds ! i - 1 else sched_prios ! i)])"

lemma length_scan_decays [simp]: "length (scan_decays R is ds) = length ds"
  by (induction R "is" ds rule: scan_decays.induct) auto

lemma scan_decays_nth:
  assumes "distinct is" and "\<forall>i\<in>set is. i < length ds" and "j < length ds"
  shows "scan_decays R is ds ! j =
    (if j \<in> set is then if R j then ds ! j - 1 else sched_prios ! j else ds ! j)"
  using assms
proof (induction R "is" ds rule: scan_decays.induct)
  case (2 R i "is" ds)
  then show ?case by (cases "j = i") auto
qed simp

text \<open>The scan finds the first of the tested priorities with the least decremented value, unless
  the one it started with is at least as good.\<close>

lemma sched_scan_ok:
  assumes "\<forall>i\<in>set is. linked_ring_empty (rings w) (Some (Run_Ring s i)) = Inr (if R i then -1 else 0)"
    and "distinct is" and "\<forall>i\<in>set is. i < length (sched_run_decay (schedulers w s))"
    and "\<forall>i\<in>set is. R i \<longrightarrow> sched_run_decay (schedulers w s) ! i \<noteq> 0x80000000"
  shows "\<exists>mi'. sched_scan s is mi md w =
      Inr (mi', upd_sched s (\<lambda>c. c\<lparr>sched_run_decay := scan_decays R is (sched_run_decay c)\<rparr>) w) \<and>
    (let v = (\<lambda>i. sint (sched_run_decay (schedulers w s) ! i - 1)) in
     mi' = mi \<and> (\<forall>i\<in>set is. R i \<longrightarrow> 0 \<le> mi \<and> sint md \<le> v i) \<or>
     (\<exists>k\<in>set is. R k \<and> mi' = int k \<and> (\<forall>i\<in>set is. R i \<longrightarrow> v k \<le> v i) \<and> (mi < 0 \<or> v k < sint md)))"
  using assms
proof (induction "is" arbitrary: mi md w)
  case Nil
  then show ?case by (simp add: upd_sched_def)
next
  case (Cons i "is")
  let ?ds = "sched_run_decay (schedulers w s)"
  let ?v = "\<lambda>i. sint (?ds ! i - 1)"
  let ?w = "set_decay s i (if R i then ?ds ! i - 1 else sched_prios ! i) w"
  have ds': "sched_run_decay (schedulers ?w s) = ?ds[i := (if R i then ?ds ! i - 1 else sched_prios ! i)]"
    by (simp add: set_decay_def)
  have v': "sint (sched_run_decay (schedulers ?w s) ! j - 1) = ?v j" if "j \<in> set is" for j
    using that Cons.prems(2) unfolding ds' by (metis distinct.simps(2) nth_list_update_neq)
  have IH: "\<exists>mi'. sched_scan s is m d ?w =
      Inr (mi', upd_sched s (\<lambda>c. c\<lparr>sched_run_decay := scan_decays R is (sched_run_decay c)\<rparr>) ?w) \<and>
      (mi' = m \<and> (\<forall>j\<in>set is. R j \<longrightarrow> 0 \<le> m \<and> sint d \<le> ?v j) \<or>
       (\<exists>k\<in>set is. R k \<and> mi' = int k \<and> (\<forall>j\<in>set is. R j \<longrightarrow> ?v k \<le> ?v j) \<and> (m < 0 \<or> ?v k < sint d)))" for m d
  proof -
    have "\<forall>j\<in>set is. linked_ring_empty (rings ?w) (Some (Run_Ring s j)) = Inr (if R j then -1 else 0)"
      "distinct is" "\<forall>j\<in>set is. j < length (sched_run_decay (schedulers ?w s))"
      "\<forall>j\<in>set is. R j \<longrightarrow> sched_run_decay (schedulers ?w s) ! j \<noteq> 0x80000000"
      using Cons.prems by (auto simp: set_decay_def nth_list_update)
    from Cons.IH [OF this, of m d] show ?thesis by (simp add: Let_def v' cong: ball_cong bex_cong)
  qed
  have fin: "upd_sched s (\<lambda>c. c\<lparr>sched_run_decay := scan_decays R is (sched_run_decay c)\<rparr>) ?w =
      upd_sched s (\<lambda>c. c\<lparr>sched_run_decay := scan_decays R (i # is) (sched_run_decay c)\<rparr>) w"
    by (simp add: set_decay_def upd_sched_def)
  have run: "sched_runnable w s i = Inr (if R i then -1 else 0)"
    using Cons.prems(1) by (simp add: sched_runnable_def)
  consider (no) "\<not> R i" | (better) "R i" "mi < 0 \<or> ?v i < sint md" | (worse) "R i" "\<not> (mi < 0 \<or> ?v i < sint md)"
    by blast
  then show ?case
  proof cases
    case no
    then have "sched_scan s (i # is) mi md w = sched_scan s is mi md ?w" using run by simp
    then show ?thesis using IH [of mi md] no unfolding fin Let_def by auto
  next
    case better
    then have "sched_scan s (i # is) mi md w = sched_scan s is (int i) (?ds ! i - 1) ?w"
      using run Cons.prems(4) by (auto simp: Let_def)
    then show ?thesis using IH [of "int i" "?ds ! i - 1"] better unfolding fin Let_def by fastforce
  next
    case worse
    then have "sched_scan s (i # is) mi md w = sched_scan s is mi md ?w"
      using run Cons.prems(4) by (auto simp: Let_def)
    then show ?thesis using IH [of mi md] worse unfolding fin Let_def by fastforce
  qed
qed

text \<open>The invariant of the decaying values: at most \<open>31 - k\<close> of the 32 values are at or below
  \<open>-k\<close>. A value is decremented only in a scan, and the scan's least value is reset.\<close>

definition low_decays :: "u32 list \<Rightarrow> nat \<Rightarrow> nat set" where
  "low_decays ds k = {i. i < 32 \<and> sint (ds ! i) \<le> - int k}"

definition decay_inv :: "u32 list \<Rightarrow> bool" where
  "decay_inv ds \<longleftrightarrow> length ds = 32 \<and> (\<forall>i<32. sint (ds ! i) \<le> 422) \<and>
     (\<forall>k\<le>31. card (low_decays ds k) \<le> 31 - k)"

lemma low_decays_finite [simp]: "finite (low_decays ds k)"
  by (simp add: low_decays_def)

lemma decay_inv_bounds:
  assumes "decay_inv ds" and "i < 32"
  shows "-30 \<le> sint (ds ! i) \<and> sint (ds ! i) \<le> 422"
proof -
  have "card (low_decays ds 31) = 0" using assms(1) by (auto simp: decay_inv_def)
  then have "i \<notin> low_decays ds 31" by simp
  with assms show ?thesis by (auto simp: low_decays_def decay_inv_def)
qed

lemma decay_inv_not_min: "decay_inv ds \<Longrightarrow> i < 32 \<Longrightarrow> ds ! i \<noteq> 0x80000000"
  using decay_inv_bounds [of ds i] by auto

lemma decay_inv_reset:
  assumes "decay_inv ds" and "i < 32"
  shows "decay_inv (ds[i := sched_prios ! i])"
proof -
  have "low_decays (ds[i := sched_prios ! i]) k \<subseteq> low_decays ds k" for k
    using sched_prios_pos [OF assms(2)] assms by (auto simp: low_decays_def decay_inv_def nth_list_update)
  then have "card (low_decays (ds[i := sched_prios ! i]) k) \<le> card (low_decays ds k)" for k
    by (intro card_mono) auto
  then show ?thesis
    using assms sched_prios_pos [OF assms(2)]
    by (fastforce simp: decay_inv_def nth_list_update intro: order_trans)
qed

lemma decay_inv_prios: "decay_inv sched_prios"
proof -
  have "low_decays sched_prios k = {}" for k using sched_prios_pos by (force simp: low_decays_def)
  then show ?thesis using sched_prios_pos by (auto simp: decay_inv_def)
qed

lemma decay_inv_scan:
  assumes inv: "decay_inv ds" and m: "m < 32" "R m"
    and least: "\<forall>i<32. R i \<longrightarrow> sint (ds ! m - 1) \<le> sint (ds ! i - 1)"
  shows "decay_inv ((scan_decays R [0..<32] ds)[m := sched_prios ! m])"
proof -
  let ?ds = "(scan_decays R [0..<32] ds)[m := sched_prios ! m]"
  have len: "length ds = 32" using inv by (simp add: decay_inv_def)
  have dec: "sint (ds ! i - 1) = sint (ds ! i) - 1" if "i < 32" for i
    using decay_inv_bounds [OF inv that] by (intro sint_minus_1_u32) simp
  have nth: "?ds ! i = (if i = m \<or> \<not> R i then sched_prios ! i else ds ! i - 1)" if "i < 32" for i
    using that m len scan_decays_nth [of "[0..<32]" ds i R] by (simp add: nth_list_update)
  have high: "sint (?ds ! i) \<le> 422" if "i < 32" for i
    using nth [OF that] sched_prios_pos [OF that] dec [OF that] decay_inv_bounds [OF inv that] by auto
  have low: "card (low_decays ?ds k) \<le> 31 - k" if k: "k \<le> 31" for k
  proof -
    have sub: "low_decays ?ds k \<subseteq> low_decays ds (k - 1) - {m}" if "1 \<le> k"
    proof
      fix i
      assume i: "i \<in> low_decays ?ds k"
      then have "i < 32" "sint (?ds ! i) \<le> - int k" by (auto simp: low_decays_def)
      then have "i \<noteq> m" "R i" "sint (ds ! i) - 1 \<le> - int k"
        using nth [of i] dec [of i] sched_prios_pos [of i] \<open>1 \<le> k\<close> by (auto split: if_splits)
      then show "i \<in> low_decays ds (k - 1) - {m}" using \<open>i < 32\<close> \<open>1 \<le> k\<close> by (auto simp: low_decays_def)
    qed
    have mem: "m \<in> low_decays ds (k - 1)" if "1 \<le> k" "low_decays ?ds k \<noteq> {}"
    proof -
      from that obtain i where i: "i < 32" "sint (?ds ! i) \<le> - int k" by (auto simp: low_decays_def)
      then have "R i" "sint (ds ! i) - 1 \<le> - int k"
        using nth [of i] dec [of i] sched_prios_pos [of i] \<open>1 \<le> k\<close> by (auto split: if_splits)
      with least i(1) dec m(1) have "sint (ds ! m) - 1 \<le> - int k" by fastforce
      then show ?thesis using m(1) \<open>1 \<le> k\<close> by (auto simp: low_decays_def)
    qed
    show ?thesis
    proof (cases "k = 0")
      case True
      have "low_decays ?ds 0 \<subseteq> {..<32} - {m}"
        using nth [of m] m sched_prios_pos [of m] by (auto simp: low_decays_def)
      then have "card (low_decays ?ds 0) \<le> card ({..<32} - {m})" by (intro card_mono) auto
      then show ?thesis using m(1) True by simp
    next
      case False
      then have k1: "1 \<le> k" by simp
      have "card (low_decays ds (k - 1)) \<le> 31 - (k - 1)" using inv k by (auto simp: decay_inv_def)
      moreover have "card (low_decays ?ds k) \<le> card (low_decays ds (k - 1) - {m})"
        using sub [OF k1] by (intro card_mono) auto
      ultimately show ?thesis using mem [OF k1] k1 by (cases "low_decays ?ds k = {}") auto
    qed
  qed
  show ?thesis using high low len by (simp add: decay_inv_def)
qed

section \<open>The rings of the scheduler\<close>

text \<open>\<open>sched_rings w H q\<close>: the heads \<open>H\<close> hold the nodes \<open>q\<close>, no head has a data pointer,
  and the data pointer of a node names its thread.\<close>

fun node_thread :: "ring_ptr \<Rightarrow> nat option" where
  "node_thread (T_Queue_Entry t) = Some t"
| "node_thread (T_Wait_Entry t) = Some t"
| "node_thread p = None"

definition sched_rings :: "world \<Rightarrow> ring_ptr set \<Rightarrow> (ring_ptr \<Rightarrow> ring_ptr list) \<Rightarrow> bool" where
  "sched_rings w H q \<longleftrightarrow> rings_ok (rings w) H q \<and>
     (\<forall>l\<in>H. node_thread l = None \<and> datap (rings w) l = None \<and>
       (\<forall>e\<in>set (q l). node_thread e \<noteq> None \<and> datap (rings w) e = node_thread e))"

definition run_heads :: "nat \<Rightarrow> ring_ptr set" where
  "run_heads s = {Run_Ring s i | i. i < 32}"

lemma sched_rings_cong:
  "rings w' = rings w \<Longrightarrow> sched_rings w' H q = sched_rings w H q"
  by (simp add: sched_rings_def)

lemma sched_rings_insert:
  assumes ok: "sched_rings w H q" and l: "l \<in> H" and fresh: "\<forall>m\<in>H. b \<notin> set (q m)"
    and b: "node_thread b = Some t"
  shows "\<exists>w'. ring_insert (Some l) (Some b) after
      (w\<lparr>rings := (rings w)\<lparr>datap := (datap (rings w))(b := Some t)\<rparr>\<rparr>) = Inr w' \<and>
    sched_rings w' H (q(l := (if after then b # q l else q l @ [b]))) \<and>
    threads w' = threads w \<and> schedulers w' = schedulers w \<and> cpus w' = cpus w \<and> this_cpu w' = this_cpu w"
proof -
  let ?h = "(rings w)\<lparr>datap := (datap (rings w))(b := Some t)\<rparr>"
  have "b \<notin> H" using ok b by (auto simp: sched_rings_def)
  with fresh have fr: "\<forall>m\<in>H. b \<notin> set (m # q m)" by auto
  have "rings_ok ?h H q" using ok by (simp add: sched_rings_def)
  from rings_ok_insert [OF this l fr, of after] obtain h' where
    h': "linked_ring_insert ?h (Some l) (Some b) after = Inr h'" "links.more h' = links.more ?h"
    "rings_ok h' H (q(l := (if after then b # q l else q l @ [b])))" by blast
  have "datap h' = (datap (rings w))(b := Some t)" using datap_more [OF h'(2)] by simp
  then have "\<forall>m\<in>H. datap h' m = datap (rings w) m \<and>
      (\<forall>e\<in>set (q m). datap h' e = datap (rings w) e) \<and> datap h' b = Some t"
    using \<open>b \<notin> H\<close> fresh by auto
  with ok b h'(3) have "sched_rings (w\<lparr>rings := h'\<rparr>) H (q(l := (if after then b # q l else q l @ [b])))"
    unfolding sched_rings_def by (simp split: if_splits)
  with h'(1) show ?thesis by (simp add: ring_insert_def)
qed

lemma sched_rings_remove:
  assumes ok: "sched_rings w H q" and l: "l \<in> H" and ql: "q l = ys @ e # zs"
  shows "\<exists>w'. ring_remove (Some e) w = Inr w' \<and> sched_rings w' H (q(l := ys @ zs)) \<and>
    threads w' = threads w \<and> schedulers w' = schedulers w \<and> cpus w' = cpus w \<and> this_cpu w' = this_cpu w"
proof -
  have "rings_ok (rings w) H q" using ok by (simp add: sched_rings_def)
  from rings_ok_remove [where q = q, OF this l ql] obtain h' where h': "linked_ring_remove (rings w) (Some e) = Inr h'"
    "links.more h' = links.more (rings w)" "rings_ok h' H (q(l := ys @ zs))" by blast
  have "datap h' = datap (rings w)" by (rule datap_more [OF h'(2)])
  moreover have "\<forall>e\<in>set ys \<union> set zs. node_thread e \<noteq> None \<and> datap (rings w) e = node_thread e"
    using ok l ql unfolding sched_rings_def by (metis Un_iff set_append set_subset_Cons subsetD)
  ultimately have "sched_rings (w\<lparr>rings := h'\<rparr>) H (q(l := ys @ zs))"
    using ok h'(3) unfolding sched_rings_def by simp
  with h'(1) show ?thesis by (simp add: ring_remove_def)
qed

lemma sched_rings_empty:
  assumes "sched_rings w H q" and "l \<in> H"
  shows "linked_ring_empty (rings w) (Some l) = Inr (if q l = [] then -1 else 0)"
proof -
  have "ring (rings w) l (q l)" using assms by (auto simp: sched_rings_def intro: rings_okD)
  then show ?thesis by (rule linked_ring_empty_eq)
qed

lemma run_heads_mem: "run_heads s \<subseteq> H \<Longrightarrow> i < 32 \<Longrightarrow> Run_Ring s i \<in> H"
  by (auto simp: run_heads_def)

lemma sched_is_suspended_eq:
  "sched_is_suspended w (Some t) = Inr (t_stateflags (threads w t) AND THREAD_SF_QUEUE_WAIT \<noteq> 0 \<and>
     t_wait_queue (threads w t) \<noteq> None)"
  by (simp add: sched_is_suspended_def)

abbreviation thread_ring :: "nat \<Rightarrow> world \<Rightarrow> nat \<Rightarrow> nat" where
  "thread_ring s w t \<equiv> unat (t_priority (threads w t)) mod 32"

text \<open>Enqueueing a runnable thread that is in no ring: it comes to the front of the ring of its
  priority.\<close>

lemma sched_reenqueue_runnable:
  assumes ok: "sched_rings w H q" and H: "run_heads s \<subseteq> H" and fresh: "\<forall>m\<in>H. T_Queue_Entry t \<notin> set (q m)"
    and t: "Some t \<noteq> sched_idle (schedulers w s)" "sched_is_suspended w (Some t) = Inr False"
  shows "\<exists>w'. sched_reenqueue s (Some t) w = Inr w' \<and>
    sched_rings w' H (q(Run_Ring s (thread_ring s w t) := T_Queue_Entry t # q (Run_Ring s (thread_ring s w t)))) \<and>
    threads w' = threads w \<and> cpus w' = cpus w \<and> this_cpu w' = this_cpu w \<and>
    schedulers w' = (schedulers w)(s := (schedulers w s)\<lparr>sched_run_decay :=
      (if q (Run_Ring s (thread_ring s w t)) \<noteq> [] then (sched_run_decay (schedulers w s))
         [thread_ring s w t := sched_prios ! thread_ring s w t] else sched_run_decay (schedulers w s))\<rparr>)"
proof -
  let ?i = "thread_ring s w t"
  have l: "Run_Ring s ?i \<in> H" by (intro run_heads_mem [OF H]) simp
  define w1 where "w1 = (if q (Run_Ring s ?i) \<noteq> [] then set_decay s ?i (sched_prios ! ?i) w else w)"
  have w1: "rings w1 = rings w" "threads w1 = threads w" "cpus w1 = cpus w" "this_cpu w1 = this_cpu w"
    by (simp_all add: w1_def set_decay_def)
  have ok1: "sched_rings w1 H q" using ok sched_rings_cong [OF w1(1)] by simp
  have "node_thread (T_Queue_Entry t) = Some t" by simp
  from sched_rings_insert [OF ok1 l fresh this, of True] obtain w' where
    w': "ring_insert (Some (Run_Ring s ?i)) (Some (T_Queue_Entry t)) True
      (w1\<lparr>rings := (rings w1)\<lparr>datap := (datap (rings w1))(T_Queue_Entry t := Some t)\<rparr>\<rparr>) = Inr w'"
    "sched_rings w' H (q(Run_Ring s ?i := T_Queue_Entry t # q (Run_Ring s ?i)))"
    "threads w' = threads w1" "schedulers w' = schedulers w1" "cpus w' = cpus w1" "this_cpu w' = this_cpu w1"
    by auto
  have "sched_reenqueue s (Some t) w = Inr w'"
    using t sched_rings_empty [OF ok l] w'(1)
    by (auto simp: sched_reenqueue_def sched_runnable_def SCHED_NRQS_def sched_elem_def w1_def Let_def)
  moreover have "schedulers w1 = (schedulers w)(s := (schedulers w s)\<lparr>sched_run_decay :=
      (if q (Run_Ring s ?i) \<noteq> [] then (sched_run_decay (schedulers w s))[?i := sched_prios ! ?i]
       else sched_run_decay (schedulers w s))\<rparr>)"
    by (simp add: w1_def set_decay_def fun_upd_idem)
  ultimately show ?thesis using w' w1 by simp
qed

text \<open>The ring of blocked threads takes a suspended thread at its back, provided it was
  initialised.\<close>

lemma sched_reenqueue_suspended:
  assumes ok: "sched_rings w H q" and l: "Sched_Blocked s \<in> H" and fresh: "\<forall>m\<in>H. T_Queue_Entry t \<notin> set (q m)"
    and t: "Some t \<noteq> sched_idle (schedulers w s)" "sched_is_suspended w (Some t) = Inr True"
  shows "\<exists>w'. sched_reenqueue s (Some t) w = Inr w' \<and>
    sched_rings w' H (q(Sched_Blocked s := q (Sched_Blocked s) @ [T_Queue_Entry t])) \<and>
    threads w' = threads w \<and> cpus w' = cpus w \<and> this_cpu w' = this_cpu w \<and> schedulers w' = schedulers w"
proof -
  have "node_thread (T_Queue_Entry t) = Some t" by simp
  from sched_rings_insert [OF ok l fresh this, of False] t show ?thesis
    by (auto simp: sched_reenqueue_def sched_elem_def)
qed

text \<open>What enqueueing a thread means for the rings: the idle thread is not enqueued, a suspended thread goes to the back of the
  ring of blocked threads, any other to the front of the run ring of its priority.\<close>

definition enqueued :: "nat \<Rightarrow> world \<Rightarrow> nat \<Rightarrow> (ring_ptr \<Rightarrow> ring_ptr list) \<Rightarrow> ring_ptr \<Rightarrow> ring_ptr list" where
  "enqueued s w t q =
     (if Some t = sched_idle (schedulers w s) then q
      else if sched_is_suspended w (Some t) = Inr True then q(Sched_Blocked s := q (Sched_Blocked s) @ [T_Queue_Entry t])
      else q(Run_Ring s (thread_ring s w t) := T_Queue_Entry t # q (Run_Ring s (thread_ring s w t))))"

lemma sched_reenqueue_ok:
  assumes ok: "sched_rings w H q" and H: "run_heads s \<subseteq> H" and fresh: "\<forall>m\<in>H. T_Queue_Entry t \<notin> set (q m)"
    and b: "sched_is_suspended w (Some t) = Inr True \<longrightarrow> Sched_Blocked s \<in> H"
  shows "\<exists>w'. sched_reenqueue s (Some t) w = Inr w' \<and> sched_rings w' H (enqueued s w t q) \<and>
    threads w' = threads w \<and> cpus w' = cpus w \<and> this_cpu w' = this_cpu w \<and>
    sched_thread_count (schedulers w' s) = sched_thread_count (schedulers w s)"
proof -
  consider (idle) "Some t = sched_idle (schedulers w s)"
    | (susp) "Some t \<noteq> sched_idle (schedulers w s)" "sched_is_suspended w (Some t) = Inr True"
    | (run) "Some t \<noteq> sched_idle (schedulers w s)" "sched_is_suspended w (Some t) = Inr False"
    by (auto simp: sched_is_suspended_eq)
  then show ?thesis
  proof cases
    case idle
    then show ?thesis using ok by (simp add: sched_reenqueue_def enqueued_def)
  next
    case susp
    then show ?thesis using sched_reenqueue_suspended [OF ok _ fresh susp] b by (auto simp: enqueued_def)
  next
    case run
    then show ?thesis using sched_reenqueue_runnable [OF ok H fresh run] by (auto simp: enqueued_def)
  qed
qed

lemma sched_rings_removed:
  assumes ok: "sched_rings w H q" and l: "l \<in> H" "q l = ys @ e # zs"
  shows "\<forall>m\<in>H. e \<notin> set ((q(l := ys @ zs)) m)"
proof
  fix m
  assume m: "m \<in> H"
  have rk: "rings_ok (rings w) H q" using ok by (simp add: sched_rings_def)
  have "distinct (q l)" using rings_okD [OF rk l(1)] by (simp add: ring_def)
  moreover have "m \<noteq> l \<Longrightarrow> e \<notin> set (q m)"
    using rings_ok_disjoint [OF rk m l(1)] l(2) by auto
  ultimately show "e \<notin> set ((q(l := ys @ zs)) m)" using l(2) by auto
qed

lemma enqueued_cong:
  "sched_idle (schedulers w' s) = sched_idle (schedulers w s) \<Longrightarrow> sched_is_suspended w' (Some t) = sched_is_suspended w (Some t) \<Longrightarrow>
    t_priority (threads w' t) = t_priority (threads w t) \<Longrightarrow> enqueued s w' t q = enqueued s w t q"
  by (simp add: enqueued_def)

lemma scan_run_rings:
  assumes ok: "sched_rings w H q" and H: "run_heads s \<subseteq> H" and inv: "decay_inv (sched_run_decay (schedulers w s))"
  defines "R \<equiv> \<lambda>i. q (Run_Ring s i) = []"
  shows "\<exists>mi. sched_scan s [0..<SCHED_NRQS] (-1) 0 w =
      Inr (mi, upd_sched s (\<lambda>c. c\<lparr>sched_run_decay := scan_decays R [0..<32] (sched_run_decay c)\<rparr>) w) \<and>
    (mi = -1 \<and> (\<forall>i<32. \<not> R i) \<or>
     (\<exists>k<32. R k \<and> mi = int k \<and> (\<forall>i<32. R i \<longrightarrow>
        sint (sched_run_decay (schedulers w s) ! k - 1) \<le> sint (sched_run_decay (schedulers w s) ! i - 1))))"
proof -
  let ?ds = "sched_run_decay (schedulers w s)"
  have len: "length ?ds = 32" using inv by (simp add: decay_inv_def)
  have "\<forall>i\<in>set [0..<32]. linked_ring_empty (rings w) (Some (Run_Ring s i)) = Inr (if R i then -1 else 0)"
    using sched_rings_empty [OF ok run_heads_mem [OF H]] by (simp add: R_def)
  from sched_scan_ok [OF this, of "-1" 0] len decay_inv_not_min [OF inv]
  show ?thesis by (fastforce simp: SCHED_NRQS_def Let_def)
qed

text \<open>The choice of the next thread, as it is written: the only rings it considers are the empty
  ones.\<close>

lemma sched_schedule_next_eq:
  assumes ok: "sched_rings w H q" and H: "run_heads s \<subseteq> H" and inv: "decay_inv (sched_run_decay (schedulers w s))"
  shows "sched_schedule_next (Suc fuel) s w =
    (if \<exists>i<32. q (Run_Ring s i) = [] then Inl Null_Deref
     else Inr (None, upd_sched s (\<lambda>c. c\<lparr>sched_run_decay := sched_prios\<rparr>) w))"
proof -
  let ?R = "\<lambda>i. q (Run_Ring s i) = []"
  let ?w = "upd_sched s (\<lambda>c. c\<lparr>sched_run_decay := scan_decays ?R [0..<32] (sched_run_decay c)\<rparr>) w"
  have len: "length (sched_run_decay (schedulers w s)) = 32" using inv by (simp add: decay_inv_def)
  obtain mi where scan: "sched_scan s [0..<SCHED_NRQS] (-1) 0 w = Inr (mi, ?w)"
    and mi: "mi = -1 \<and> (\<forall>i<32. \<not> ?R i) \<or> (\<exists>k<32. ?R k \<and> mi = int k)"
    using scan_run_rings [OF ok H inv] by blast
  from mi show ?thesis
  proof (elim disjE conjE exE)
    assume m: "mi = -1" and all: "\<forall>i<32. \<not> ?R i"
    have "scan_decays ?R [0..<32] (sched_run_decay (schedulers w s)) = sched_prios"
      using all len by (intro nth_equalityI) (auto simp: scan_decays_nth)
    then have "?w = upd_sched s (\<lambda>c. c\<lparr>sched_run_decay := sched_prios\<rparr>) w" by (simp add: upd_sched_def)
    then show ?thesis using scan m all by auto
  next
    fix k
    assume k: "k < 32" "?R k" "mi = int k"
    let ?w' = "set_decay s k (sched_prios ! k) ?w"
    have l: "Run_Ring s k \<in> H" by (rule run_heads_mem [OF H k(1)])
    have r: "ring (rings w) (Run_Ring s k) []"
      using ok l k(2) rings_okD [of "rings w" H q] by (fastforce simp: sched_rings_def)
    have links: "prevp (rings ?w') (Run_Ring s k) = Some (Run_Ring s k)"
      "nextp (rings ?w') (Run_Ring s k) = Some (Run_Ring s k)"
      "datap (rings ?w') (Run_Ring s k) = None"
      using r ok l by (auto simp: set_decay_def ring_def sched_rings_def)
    have rm: "ring_remove (Some (Run_Ring s k)) ?w' = Inr ?w'"
      using linked_ring_remove_self [OF links(2,1)] by (simp add: ring_remove_def)
    show ?thesis
      using scan k links rm by (auto simp: get_prev_def sched_is_suspended_def)
  qed
qed

section \<open>The operations under the lock\<close>

lemma lock_sched_flag:
  "(x OR THREAD_SF_LOCK_SCHED) AND THREAD_SF_QUEUE_WAIT = x AND THREAD_SF_QUEUE_WAIT"
  "(x OR THREAD_SF_LOCK_SCHED) AND THREAD_SF_PREEMPT = x AND THREAD_SF_PREEMPT"
  by (simp_all add: thread_flags bit.conj_disj_distrib2)

lemma lock_sched_ok:
  "sched_lock (schedulers w s) = 0 \<Longrightarrow>
     lock_sched (Some s) w = Inr (upd_sched s (\<lambda>c. c\<lparr>sched_lock := -1\<rparr>) w)"
  by (simp add: lock_sched_def)

text \<open>The state in which an operation works: the caller's flag set and the lock taken.\<close>

definition sched_locked :: "nat \<Rightarrow> nat \<Rightarrow> world \<Rightarrow> world" where
  "sched_locked me s w = upd_sched s (\<lambda>c. c\<lparr>sched_lock := -1\<rparr>)
     (w\<lparr>threads := (threads w)(me := (threads w me)\<lparr>t_stateflags := t_stateflags (threads w me) OR THREAD_SF_LOCK_SCHED\<rparr>)\<rparr>)"

lemma sched_locked_fields [simp]:
  "rings (sched_locked me s w) = rings w" "cpus (sched_locked me s w) = cpus w"
  "this_cpu (sched_locked me s w) = this_cpu w"
  "sched_idle (schedulers (sched_locked me s w) s) = sched_idle (schedulers w s)"
  "sched_run_decay (schedulers (sched_locked me s w) s) = sched_run_decay (schedulers w s)"
  "sched_thread_count (schedulers (sched_locked me s w) s) = sched_thread_count (schedulers w s)"
  by (simp_all add: sched_locked_def)

lemma sched_locked_thread [simp]:
  "t_priority (threads (sched_locked me s w) t) = t_priority (threads w t)"
  "t_current_cpu (threads (sched_locked me s w) t) = t_current_cpu (threads w t)"
  "t_wait_queue (threads (sched_locked me s w) t) = t_wait_queue (threads w t)"
  "t_stateflags (threads (sched_locked me s w) t) AND THREAD_SF_QUEUE_WAIT =
     t_stateflags (threads w t) AND THREAD_SF_QUEUE_WAIT"
  "t_stateflags (threads (sched_locked me s w) t) AND THREAD_SF_PREEMPT =
     t_stateflags (threads w t) AND THREAD_SF_PREEMPT"
  by (simp_all add: sched_locked_def lock_sched_flag)

lemma sched_is_suspended_locked [simp]:
  "sched_is_suspended (sched_locked me s w) (Some t) = sched_is_suspended w (Some t)"
  by (simp add: sched_is_suspended_eq)

lemma sched_insert_run:
  assumes "kernel_get_current_thread w = Some me" and "cpu_scheduler (cpus w c) = Some s"
    and "sched_lock (schedulers w s) = 0"
    and w1: "w1 = sched_locked me s (w\<lparr>threads := (threads w)(t := (threads w t)\<lparr>t_current_cpu := Some c\<rparr>)\<rparr>)"
  shows "sched_insert c (Some t) w = rbind (sched_reenqueue s (Some t) w1) (\<lambda>w2.
     clear_flags (Some me) THREAD_SF_LOCK_SCHED
       (unlock_sched s (upd_sched s (\<lambda>c. c\<lparr>sched_thread_count := sched_thread_count c + 1\<rparr>) w2)))"
proof -
  have "set_flags (Some me) THREAD_SF_LOCK_SCHED (w\<lparr>threads := (threads w)(t := (threads w t)\<lparr>t_current_cpu := Some c\<rparr>)\<rparr>)
      = Inr w0 \<Longrightarrow> lock_sched (Some s) w0 = Inr w1" for w0
    using assms by (auto simp: lock_sched_ok sched_locked_def)
  then show ?thesis using assms by (auto simp: sched_insert_def)
qed

lemma sched_actualize_run:
  assumes "kernel_get_current_thread w = Some me" and "t_current_cpu (threads w t) = Some c"
    and "cpu_scheduler (cpus w c) = Some s" and "sched_lock (schedulers w s) = 0"
  shows "sched_actualize (Some t) w =
    rbind (if t_stateflags (threads w t) AND THREAD_SF_PREEMPT \<noteq> 0 then
             rbind (ring_remove (Some (T_Queue_Entry t)) (sched_locked me s w)) (sched_reenqueue s (Some t))
           else Inr (sched_locked me s w))
      (\<lambda>w. clear_flags (Some me) THREAD_SF_LOCK_SCHED (unlock_sched s w))"
proof -
  have "set_flags (Some me) THREAD_SF_LOCK_SCHED w = Inr w0 \<Longrightarrow>
      lock_sched (Some s) w0 = Inr (sched_locked me s w)" for w0
    using assms by (auto simp: lock_sched_ok sched_locked_def)
  then show ?thesis using assms
    by (auto simp: sched_actualize_def)
qed

lemma sched_remove_run:
  assumes "kernel_get_current_thread w = Some me" and "cpu_scheduler (cpus w c) = Some s"
    and "sched_lock (schedulers w s) = 0"
    and "sched_schedule_next fuel s (sched_locked me s w) = Inr (None, w1)"
  shows "sched_remove fuel c w = rbind (clear_flags (Some me) THREAD_SF_LOCK_SCHED (unlock_sched s w1)) (\<lambda>w. Inr (None, w))"
proof -
  have "set_flags (Some me) THREAD_SF_LOCK_SCHED w = Inr w0 \<Longrightarrow>
      lock_sched (Some s) w0 = Inr (sched_locked me s w)" for w0
    using assms by (auto simp: lock_sched_ok sched_locked_def)
  then show ?thesis using assms by (auto simp: sched_remove_def)
qed

text \<open>Preemption on well-formed rings. The scan never finds a thread, so that a thread that is not suspended goes on, and a
  suspended one is replaced by the idle thread if the rest of the call succeeds.\<close>

lemma sched_reenqueue_cpus: "sched_reenqueue s p w = Inr w' \<Longrightarrow> cpus w' = cpus w \<and> this_cpu w' = this_cpu w"
  by (auto simp: sched_reenqueue_def sched_elem_def ring_insert_def set_decay_def res_inv Let_def split: if_splits)

lemma set_current_thread_current:
  "kernel_set_current_thread p w = Inr w' \<Longrightarrow> kernel_get_current_thread w' = p \<and> this_cpu w' = this_cpu w"
  by (auto simp: kernel_set_current_thread_def hal_after_thread_switch_def ltr_def upd_cpu_def res_inv Let_def
      kernel_get_current_thread_def kernel_get_current_cpu_def get_thread_def upd_thread_def split: if_splits)

lemma sched_preempt_branches:
  assumes ok: "sched_rings w H q" and H: "run_heads s \<subseteq> H" and inv: "decay_inv (sched_run_decay (schedulers w s))"
    and c: "kernel_get_current_thread w = Some me" "cpu_scheduler (cpus w (this_cpu w)) = Some s"
      "sched_lock (schedulers w s) = 0"
  shows "if t_stateflags (threads w me) AND THREAD_SF_LOCK_SCHED \<noteq> 0 \<or> t_nonpreempt (threads w me) \<noteq> 0
    then sched_preempt (Suc fuel) w = Inr w
    else if \<exists>i<32. q (Run_Ring s i) = [] then sched_preempt (Suc fuel) w = Inl Null_Deref
    else if sched_is_suspended w (Some me) = Inr False
    then sched_preempt (Suc fuel) w = Inr (upd_sched s (\<lambda>c. c\<lparr>sched_run_decay := sched_prios\<rparr>) w)
    else \<forall>w'. sched_preempt (Suc fuel) w = Inr w' \<longrightarrow> kernel_get_current_thread w' = sched_idle (schedulers w s)"
proof -
  let ?w2 = "upd_sched s (\<lambda>c. c\<lparr>sched_lock := -1\<rparr>) w" and ?idle = "sched_idle (schedulers w s)"
  have ok2: "sched_rings ?w2 H q" using ok sched_rings_cong [of ?w2 w] by simp
  have inv2: "decay_inv (sched_run_decay (schedulers ?w2 s))" using inv by simp
  note nxt2 = sched_schedule_next_eq [OF ok2 H inv2, of fuel]
  obtain ds idle n where sc: "schedulers w s =
      \<lparr>sched_run_decay = ds, sched_idle = idle, sched_thread_count = n, sched_lock = 0\<rparr>"
    using c(3) by (cases "schedulers w s") simp
  have free: "if t_stateflags (threads w me) AND THREAD_SF_LOCK_SCHED \<noteq> 0 \<or> t_nonpreempt (threads w me) \<noteq> 0
      then sched_preempt (Suc fuel) w = Inr w
      else if \<exists>i<32. q (Run_Ring s i) = [] then sched_preempt (Suc fuel) w = Inl Null_Deref
      else sched_is_suspended w (Some me) = Inr False \<longrightarrow>
        sched_preempt (Suc fuel) w = Inr (upd_sched s (\<lambda>c. c\<lparr>sched_run_decay := sched_prios\<rparr>) w)"
    using c nxt2 lock_sched_ok [OF c(3)]
    by (auto simp add: sched_preempt_def kernel_get_current_cpu_def sched_is_suspended_eq unlock_sched_def upd_sched_def
        Let_def sc del: sched_schedule_next.simps)
  have "kernel_get_current_thread w' = ?idle"
    if p: "t_stateflags (threads w me) AND THREAD_SF_LOCK_SCHED = 0" "t_nonpreempt (threads w me) = 0"
      "\<not> (\<exists>i<32. q (Run_Ring s i) = [])" "sched_is_suspended w (Some me) = Inr True" "sched_preempt (Suc fuel) w = Inr w'" for w'
  proof -
    let ?w3 = "upd_sched s (\<lambda>c. c\<lparr>sched_run_decay := sched_prios\<rparr>) ?w2"
    have n: "sched_schedule_next (Suc fuel) s ?w2 = Inr (None, ?w3)" using nxt2 p(3) by auto
    have i: "sched_schedule_idle s ?w3 = ?idle" "sched_is_suspended ?w3 (Some me) = Inr True"
      using p(4) by (simp_all add: sched_schedule_idle_def sched_is_suspended_eq)
    have run: "sched_preempt (Suc fuel) w = rbind (if Some me \<noteq> ?idle then
          rbind (clear_flags ?idle THREAD_SF_PREEMPT ?w3) (\<lambda>w. rbind (kernel_set_current_thread ?idle w) (\<lambda>w.
          rbind (set_flags (Some me) THREAD_SF_PREEMPT w) (\<lambda>w. sched_reenqueue s (Some me) w))) else Inr ?w3) (\<lambda>w. Inr (unlock_sched s w))"
      using p(1,2) c lock_sched_ok [OF c(3)] n i
      by (simp add: sched_preempt_def Let_def kernel_get_current_cpu_def del: sched_schedule_next.simps upd_sched_same)
    show ?thesis
    proof (cases "Some me = ?idle")
      case True
      then have "w' = unlock_sched s ?w3" using run p(5) by simp
      then have "kernel_get_current_thread w' = kernel_get_current_thread w"
        by (simp add: unlock_sched_def kernel_get_current_thread_def kernel_get_current_cpu_def)
      then show ?thesis using c(1) True by simp
    next
      case False
      then obtain w4 w5 w6 w7 where w: "w' = unlock_sched s w4" "kernel_set_current_thread ?idle w5 = Inr w6"
        "set_flags (Some me) THREAD_SF_PREEMPT w6 = Inr w7" "sched_reenqueue s (Some me) w7 = Inr w4"
        using p(5) [unfolded run] by (simp only: if_True simp_thms res_inv) blast
      have "kernel_get_current_thread w' = kernel_get_current_thread w6"
        using w(1,3) sched_reenqueue_cpus [OF w(4)]
        by (auto simp: unlock_sched_def kernel_get_current_thread_def kernel_get_current_cpu_def)
      then show ?thesis using set_current_thread_current [OF w(2)] by simp
    qed
  qed
  with free show ?thesis by (auto simp: sched_is_suspended_eq split: if_splits)
qed

lemma sched_preempt_eq:
  assumes "sched_rings w H q" and "run_heads s \<subseteq> H" and "decay_inv (sched_run_decay (schedulers w s))"
    and "kernel_get_current_thread w = Some me" "cpu_scheduler (cpus w (this_cpu w)) = Some s"
      "sched_lock (schedulers w s) = 0" "sched_is_suspended w (Some me) = Inr False"
  shows "sched_preempt (Suc fuel) w =
    (if t_stateflags (threads w me) AND THREAD_SF_LOCK_SCHED \<noteq> 0 \<or> t_nonpreempt (threads w me) \<noteq> 0 then Inr w
     else if \<exists>i<32. q (Run_Ring s i) = [] then Inl Null_Deref
     else Inr (upd_sched s (\<lambda>c. c\<lparr>sched_run_decay := sched_prios\<rparr>) w))"
  using sched_preempt_branches [OF assms(1-6), of fuel] assms(7) by (simp only: split: if_splits) blast+

section \<open>A new scheduler\<close>

lemma sched_init_rings_eq:
  assumes "set is \<subseteq> {..<32}" and "length (sched_run_decay (schedulers w s)) = 32" and "distinct is"
  shows "\<exists>w'. sched_init_rings s is w = Inr w' \<and> threads w' = threads w \<and> cpus w' = cpus w \<and>
    nextp (rings w') = (\<lambda>p. if p \<in> Run_Ring s ` set is then Some p else nextp (rings w) p) \<and>
    prevp (rings w') = (\<lambda>p. if p \<in> Run_Ring s ` set is then Some p else prevp (rings w) p) \<and>
    datap (rings w') = datap (rings w) \<and>
    schedulers w' = (schedulers w)(s := (schedulers w s)\<lparr>sched_run_decay :=
      scan_decays (\<lambda>_. False) is (sched_run_decay (schedulers w s))\<rparr>)"
  using assms
proof (induction "is" arbitrary: w)
  case Nil
  then show ?case by (simp add: fun_upd_idem)
next
  case (Cons i "is")
  let ?w = "(set_decay s i (sched_prios ! i) w)\<lparr>rings :=
      (rings w)\<lparr>nextp := (nextp (rings w))(Run_Ring s i := Some (Run_Ring s i)),
                prevp := (prevp (rings w))(Run_Ring s i := Some (Run_Ring s i))\<rparr>\<rparr>"
  have step: "sched_init_rings s (i # is) w = sched_init_rings s is ?w"
    by (simp add: linked_ring_init_eq set_decay_def)
  have "set is \<subseteq> {..<32}" "length (sched_run_decay (schedulers ?w s)) = 32" "distinct is"
    using Cons.prems by (auto simp: set_decay_def)
  from Cons.IH [OF this] show ?case
    unfolding step by (elim exE conjE, intro exI conjI) (auto simp: set_decay_def fun_eq_iff)
qed

lemma sched_instanciate_ok:
  "\<exists>w'. sched_instanciate (Some s) c w = Inr w' \<and> sched_rings w' (run_heads s) (\<lambda>_. []) \<and>
    schedulers w' s = \<lparr>sched_run_decay = sched_prios, sched_idle = None, sched_thread_count = 1, sched_lock = 0\<rparr> \<and>
    cpu_scheduler (cpus w' c) = Some s \<and> threads w' = threads w \<and>
    nextp (rings w') (Sched_Blocked s) = None \<and> prevp (rings w') (Sched_Blocked s) = None"
proof -
  let ?w = "upd_sched s (\<lambda>c. c\<lparr>sched_thread_count := 1\<rparr>) (upd_sched s
      (\<lambda>c. c\<lparr>sched_lock := kernlock_init (sched_lock c)\<rparr>) (memset_scheduler s w))"
  have len: "length (sched_run_decay (schedulers ?w s)) = 32" by (simp add: memset_scheduler_def Let_def SCHED_NRQS_def)
  have "set [0..<SCHED_NRQS] \<subseteq> {..<32}" "distinct [0..<SCHED_NRQS]" by (auto simp: SCHED_NRQS_def)
  from sched_init_rings_eq [OF this(1) len this(2)] obtain w' where
    w': "sched_init_rings s [0..<SCHED_NRQS] ?w = Inr w'" "threads w' = threads ?w" "cpus w' = cpus ?w"
    "nextp (rings w') = (\<lambda>p. if p \<in> Run_Ring s ` set [0..<SCHED_NRQS] then Some p else nextp (rings ?w) p)"
    "prevp (rings w') = (\<lambda>p. if p \<in> Run_Ring s ` set [0..<SCHED_NRQS] then Some p else prevp (rings ?w) p)"
    "datap (rings w') = datap (rings ?w)"
    "schedulers w' = (schedulers ?w)(s := (schedulers ?w s)\<lparr>sched_run_decay :=
      scan_decays (\<lambda>_. False) [0..<SCHED_NRQS] (sched_run_decay (schedulers ?w s))\<rparr>)" by blast
  have prios: "scan_decays (\<lambda>_. False) [0..<SCHED_NRQS] (sched_run_decay (schedulers ?w s)) = sched_prios"
    using len by (intro nth_equalityI) (auto simp: scan_decays_nth SCHED_NRQS_def)
  let ?v = "upd_cpu c (\<lambda>c. c\<lparr>cpu_scheduler := Some s\<rparr>) w'"
  have "sched_instanciate (Some s) c w = Inr ?v" using w'(1) by (simp add: sched_instanciate_def)
  moreover have "ring (rings ?v) l []" if "l \<in> run_heads s" for l
    using that w'(4,5) by (auto simp: run_heads_def ring_def SCHED_NRQS_def)
  then have "sched_rings ?v (run_heads s) (\<lambda>_. [])"
    by (auto simp: sched_rings_def rings_ok_def w'(6) run_heads_def memset_scheduler_def SCHED_NRQS_def)
  ultimately show ?thesis
    using w'(2-5,7) prios by (auto simp: memset_scheduler_def Let_def SCHED_NRQS_def)
qed

section \<open>Example states\<close>

lemma sched_init_rings_cpus:
  "sched_init_rings s is v = Inr v' \<Longrightarrow> cpus v' = cpus v \<and> this_cpu v' = this_cpu v"
  by (induction s "is" v arbitrary: v' rule: sched_init_rings.induct)
    (auto simp: res_inv set_decay_def Let_def)

lemma sched_instanciate_current:
  assumes "sched_instanciate (Some s) c w = Inr w'"
  shows "kernel_get_current_thread w' = kernel_get_current_thread w" "this_cpu w' = this_cpu w"
    "CPU_LOCAL_TLS (cpus w' c) = CPU_LOCAL_TLS (cpus w c)" "cpu_tss (cpus w' c) = cpu_tss (cpus w c)" "cpu_tss_busy (cpus w' c) = cpu_tss_busy (cpus w c)"
proof -
  obtain w1 where i: "sched_init_rings s [0..<SCHED_NRQS] (upd_sched s (\<lambda>c. c\<lparr>sched_thread_count := 1\<rparr>) (upd_sched s
      (\<lambda>c. c\<lparr>sched_lock := kernlock_init (sched_lock c)\<rparr>) (memset_scheduler s w))) = Inr w1"
    "w' = upd_cpu c (\<lambda>c. c\<lparr>cpu_scheduler := Some s\<rparr>) w1"
    using assms by (auto simp: sched_instanciate_def res_inv)
  from sched_init_rings_cpus [OF i(1)] have "cpus w1 = cpus w \<and> this_cpu w1 = this_cpu w"
    by (simp add: memset_scheduler_def Let_def)
  then show "kernel_get_current_thread w' = kernel_get_current_thread w" "this_cpu w' = this_cpu w"
    "CPU_LOCAL_TLS (cpus w' c) = CPU_LOCAL_TLS (cpus w c)" "cpu_tss (cpus w' c) = cpu_tss (cpus w c)" "cpu_tss_busy (cpus w' c) = cpu_tss_busy (cpus w c)"
    using i(2) by (simp_all add: kernel_get_current_thread_def kernel_get_current_cpu_def)
qed

text \<open>A new scheduler on CPU 0, with thread 0 running.\<close>

lemma example_sched_new:
  obtains w where "sched_instanciate (Some 0) 0 example_world = Inr w" "sched_rings w (run_heads 0) (\<lambda>_. [])"
    "schedulers w 0 = \<lparr>sched_run_decay = sched_prios, sched_idle = None, sched_thread_count = 1, sched_lock = 0\<rparr>"
    "cpu_scheduler (cpus w 0) = Some 0" "threads w = threads example_world"
    "kernel_get_current_thread w = Some 0" "prevp (rings w) (Sched_Blocked 0) = None"
  using sched_instanciate_ok [of 0 0 example_world] sched_instanciate_current [of 0 0 example_world]
  by (auto simp: kernel_get_current_thread_def kernel_get_current_cpu_def example_world_def)

text \<open>The same, with a preempted thread 1 of priority 16 enqueued.\<close>

lemma example_sched_busy:
  obtains w where "sched_rings w (run_heads 0) ((\<lambda>_. [])(Run_Ring 0 16 := [T_Queue_Entry 1]))"
    "kernel_get_current_thread w = Some 0" "cpu_scheduler (cpus w 0) = Some 0"
    "sched_lock (schedulers w 0) = 0" "sched_idle (schedulers w 0) = None"
    "threads w 1 = example_thread\<lparr>t_current_cpu := Some 0, t_stateflags := THREAD_SF_PREEMPT, t_priority := 3\<rparr>"
proof -
  obtain w where w: "sched_rings w (run_heads 0) (\<lambda>_. [])"
    "schedulers w 0 = \<lparr>sched_run_decay = sched_prios, sched_idle = None, sched_thread_count = 1, sched_lock = 0\<rparr>"
    "cpu_scheduler (cpus w 0) = Some 0" "threads w = threads example_world" "kernel_get_current_thread w = Some 0"
    by (rule example_sched_new)
  have tr: "thread_ring 0 w 1 = 16" "sched_is_suspended w (Some 1) = Inr False"
    using w(4) by (simp_all add: sched_is_suspended_eq example_world_def example_thread_def thread_template_def)
  from sched_reenqueue_runnable [OF w(1), of 0 1] w(2) tr obtain v where v:
    "sched_rings v (run_heads 0) ((\<lambda>_. [])(Run_Ring 0 16 := [T_Queue_Entry 1]))"
    "cpus v = cpus w" "this_cpu v = this_cpu w" "sched_lock (schedulers v 0) = 0" "sched_idle (schedulers v 0) = None"
    by auto
  let ?x = "v\<lparr>threads := (threads v)(1 := example_thread\<lparr>t_current_cpu := Some 0,
      t_stateflags := THREAD_SF_PREEMPT, t_priority := 3\<rparr>)\<rparr>"
  have "sched_rings ?x (run_heads 0) ((\<lambda>_. [])(Run_Ring 0 16 := [T_Queue_Entry 1]))"
    using v(1) sched_rings_cong [of ?x v] by simp
  then show thesis
    using v w(3,5) by (intro that [of ?x]) (simp_all add: kernel_get_current_thread_def kernel_get_current_cpu_def)
qed

section \<open>Properties\<close>

text \<open>C21. \<^verbatim>\<open>sched_insert\<close> of a thread that is in no ring, on a CPU whose scheduler is not locked and has
  well-formed rings (that of the blocked threads only has to be well formed if the thread is suspended): it does not fault. The scheduler's idle
  thread is put into no ring, a suspended thread goes to the back of the ring of blocked threads, any other thread to the front of
  the run ring of its priority; every other ring is as before. In each case the thread is counted and assigned to the CPU, the
  lock is free again and the caller's flag \<^verbatim>\<open>THREAD_SF_LOCK_SCHED\<close> is clear.\<close>

theorem sched_insert_correct:
  assumes ok: "sched_rings w H q" and H: "run_heads s \<subseteq> H" and fresh: "\<forall>m\<in>H. T_Queue_Entry t \<notin> set (q m)"
    and c: "kernel_get_current_thread w = Some me" "cpu_scheduler (cpus w c) = Some s" "sched_lock (schedulers w s) = 0"
    and b: "sched_is_suspended w (Some t) = Inr True \<longrightarrow> Sched_Blocked s \<in> H"
  shows "\<exists>w'. sched_insert c (Some t) w = Inr w' \<and>
    sched_rings w' H
      (if Some t = sched_idle (schedulers w s) then q
       else if sched_is_suspended w (Some t) = Inr True then q(Sched_Blocked s := q (Sched_Blocked s) @ [T_Queue_Entry t])
       else q(Run_Ring s (thread_ring s w t) := T_Queue_Entry t # q (Run_Ring s (thread_ring s w t)))) \<and>
    sched_thread_count (schedulers w' s) = sched_thread_count (schedulers w s) + 1 \<and>
    sched_lock (schedulers w' s) = 0 \<and> t_current_cpu (threads w' t) = Some c \<and>
    t_stateflags (threads w' me) AND THREAD_SF_LOCK_SCHED = 0"
  unfolding enqueued_def [symmetric]
proof -
  let ?w0 = "w\<lparr>threads := (threads w)(t := (threads w t)\<lparr>t_current_cpu := Some c\<rparr>)\<rparr>"
  let ?w1 = "sched_locked me s ?w0"
  have "sched_rings ?w1 H q" using ok sched_rings_cong [of ?w1 w] by simp
  moreover have susp: "sched_is_suspended ?w1 (Some t) = sched_is_suspended w (Some t)" by (simp add: sched_is_suspended_eq)
  moreover have "enqueued s ?w1 t q = enqueued s w t q" using susp by (intro enqueued_cong) simp_all
  ultimately obtain w2 where w2: "sched_reenqueue s (Some t) ?w1 = Inr w2" "sched_rings w2 H (enqueued s w t q)"
    "threads w2 = threads ?w1" "sched_thread_count (schedulers w2 s) = sched_thread_count (schedulers ?w1 s)"
    using sched_reenqueue_ok [of ?w1 H q s t] H fresh b by auto
  let ?w' = "(unlock_sched s (upd_sched s (\<lambda>c. c\<lparr>sched_thread_count := sched_thread_count c + 1\<rparr>) w2))
    \<lparr>threads := (threads w2)(me := (threads w2 me)\<lparr>t_stateflags := t_stateflags (threads w2 me) AND NOT THREAD_SF_LOCK_SCHED\<rparr>)\<rparr>"
  have "sched_insert c (Some t) w = Inr ?w'"
    using w2(1) sched_insert_run [OF c refl, of t] by (simp add: unlock_sched_def)
  moreover have "sched_rings ?w' H (enqueued s w t q)"
    using w2(2) sched_rings_cong [of ?w' w2] by (simp add: unlock_sched_def)
  moreover have "t_current_cpu (threads ?w' t) = Some c" using w2(3) by (simp add: sched_locked_def)
  ultimately show "\<exists>w'. sched_insert c (Some t) w = Inr w' \<and> sched_rings w' H (enqueued s w t q) \<and>
      sched_thread_count (schedulers w' s) = sched_thread_count (schedulers w s) + 1 \<and>
      sched_lock (schedulers w' s) = 0 \<and> t_current_cpu (threads w' t) = Some c \<and>
      t_stateflags (threads w' me) AND THREAD_SF_LOCK_SCHED = 0"
    using w2(4) by (intro exI [of _ ?w']) (simp add: unlock_sched_def)
qed

theorem sched_insert_correct_witness:
  "\<exists>w w'. sched_instanciate (Some 0) 0 example_world = Inr w \<and> sched_insert 0 (Some 1) w = Inr w' \<and>
    sched_rings w' (run_heads 0) ((\<lambda>_. [])(Run_Ring 0 16 := [T_Queue_Entry 1])) \<and>
    sched_thread_count (schedulers w' 0) = 2"
proof -
  obtain w where w: "sched_instanciate (Some 0) 0 example_world = Inr w" "sched_rings w (run_heads 0) (\<lambda>_. [])"
    "schedulers w 0 = \<lparr>sched_run_decay = sched_prios, sched_idle = None, sched_thread_count = 1, sched_lock = 0\<rparr>"
    "cpu_scheduler (cpus w 0) = Some 0" "threads w = threads example_world" "kernel_get_current_thread w = Some 0"
    by (rule example_sched_new)
  have tr: "thread_ring 0 w 1 = 16" "sched_is_suspended w (Some 1) = Inr False"
    using w(5) by (simp_all add: sched_is_suspended_eq example_world_def example_thread_def thread_template_def)
  have "\<exists>w'. sched_insert 0 (Some 1) w = Inr w' \<and>
    sched_rings w' (run_heads 0) ((\<lambda>_. [])(Run_Ring 0 (thread_ring 0 w 1) := [T_Queue_Entry 1])) \<and>
    sched_thread_count (schedulers w' 0) = sched_thread_count (schedulers w 0) + 1"
    using sched_insert_correct [OF w(2), of 0 1 0 0] w(3,4,6) tr(2) by auto
  with w(1,3) tr(1) show ?thesis by auto
qed

text \<open>C22. \<^verbatim>\<open>sched_actualize\<close> on a thread that is assigned to a CPU whose scheduler is not locked and has
  well-formed rings. A thread that is not preempted, such as the running one, stays where it is: no ring changes. A preempted
  thread, which is in some ring, leaves the place it has there and is enqueued again: nowhere if it is the
  scheduler's idle thread, at the back of the ring of blocked threads if it is suspended, otherwise at the front of the run ring of its
  priority. Either way the lock is free afterwards and the number of threads is unchanged.\<close>

theorem sched_actualize_correct:
  assumes ok: "sched_rings w H q" and H: "run_heads s \<subseteq> H"
    and c: "kernel_get_current_thread w = Some me" "t_current_cpu (threads w t) = Some c"
      "cpu_scheduler (cpus w c) = Some s" "sched_lock (schedulers w s) = 0"
    and l: "t_stateflags (threads w t) AND THREAD_SF_PREEMPT \<noteq> 0 \<longrightarrow> l \<in> H \<and> q l = ys @ T_Queue_Entry t # zs \<and>
      (sched_is_suspended w (Some t) = Inr True \<longrightarrow> Sched_Blocked s \<in> H)"
  shows "\<exists>w'. sched_actualize (Some t) w = Inr w' \<and> sched_lock (schedulers w' s) = 0 \<and>
    sched_thread_count (schedulers w' s) = sched_thread_count (schedulers w s) \<and>
    sched_rings w' H (let q1 = q(l := ys @ zs); r = Run_Ring s (thread_ring s w t) in
      if t_stateflags (threads w t) AND THREAD_SF_PREEMPT = 0 then q
      else if Some t = sched_idle (schedulers w s) then q1
      else if sched_is_suspended w (Some t) = Inr True then q1(Sched_Blocked s := q1 (Sched_Blocked s) @ [T_Queue_Entry t])
      else q1(r := T_Queue_Entry t # q1 r))"
proof -
  let ?w1 = "sched_locked me s w"
  have ok1: "sched_rings ?w1 H q" using ok sched_rings_cong [of ?w1 w] by simp
  define fin where "fin v = (unlock_sched s v)\<lparr>threads := (threads v)(me := (threads v me)\<lparr>t_stateflags :=
      t_stateflags (threads v me) AND NOT THREAD_SF_LOCK_SCHED\<rparr>)\<rparr>" for v
  have fin: "clear_flags (Some me) THREAD_SF_LOCK_SCHED (unlock_sched s v) = Inr (fin v)"
    "rings (fin v) = rings v" "sched_lock (schedulers (fin v) s) = 0"
    "sched_thread_count (schedulers (fin v) s) = sched_thread_count (schedulers v s)" for v
    by (simp_all add: fin_def unlock_sched_def)
  note run = sched_actualize_run [OF c]
  show ?thesis
  proof (cases "t_stateflags (threads w t) AND THREAD_SF_PREEMPT = 0")
    case True
    then show ?thesis using run fin ok1 sched_rings_cong [OF fin(2)] by simp
  next
    case False
    have l: "l \<in> H" "q l = ys @ T_Queue_Entry t # zs"
      and b: "sched_is_suspended w (Some t) = Inr True \<longrightarrow> Sched_Blocked s \<in> H" using assms(7) False by auto
    obtain w2 where w2: "ring_remove (Some (T_Queue_Entry t)) ?w1 = Inr w2" "sched_rings w2 H (q(l := ys @ zs))"
      "threads w2 = threads ?w1" "schedulers w2 = schedulers ?w1"
      using sched_rings_remove [OF ok1 l] by blast
    have susp: "sched_is_suspended w2 (Some t) = sched_is_suspended w (Some t)" using w2(3) by (simp add: sched_is_suspended_eq)
    have "\<forall>m\<in>H. T_Queue_Entry t \<notin> set ((q(l := ys @ zs)) m)" by (rule sched_rings_removed [OF ok l])
    then obtain w3 where w3: "sched_reenqueue s (Some t) w2 = Inr w3" "sched_rings w3 H (enqueued s w2 t (q(l := ys @ zs)))"
      "sched_thread_count (schedulers w3 s) = sched_thread_count (schedulers w2 s)"
      using sched_reenqueue_ok [OF w2(2) H, of t] b susp by auto
    have "enqueued s w2 t (q(l := ys @ zs)) = enqueued s w t (q(l := ys @ zs))"
      using susp w2(3,4) by (intro enqueued_cong) simp_all
    then show ?thesis using run False w2(1,4) w3 fin sched_rings_cong [OF fin(2)] by (simp add: enqueued_def Let_def)
  qed
qed

theorem sched_actualize_correct_witness:
  "\<exists>w w'. sched_rings w (run_heads 0) ((\<lambda>_. [])(Run_Ring 0 16 := [T_Queue_Entry 1])) \<and>
    sched_actualize (Some 1) w = Inr w' \<and>
    sched_rings w' (run_heads 0) ((\<lambda>_. [])(Run_Ring 0 3 := [T_Queue_Entry 1]))"
proof -
  let ?q = "(\<lambda>_. [])(Run_Ring 0 16 := [T_Queue_Entry 1])"
  obtain w where w: "sched_rings w (run_heads 0) ?q"
    "kernel_get_current_thread w = Some 0" "cpu_scheduler (cpus w 0) = Some 0"
    "sched_lock (schedulers w 0) = 0" "sched_idle (schedulers w 0) = None"
    "threads w 1 = example_thread\<lparr>t_current_cpu := Some 0, t_stateflags := THREAD_SF_PREEMPT, t_priority := 3\<rparr>"
    by (rule example_sched_busy)
  have t: "t_current_cpu (threads w 1) = Some 0" "sched_is_suspended w (Some 1) = Inr False"
    using w(6) by (simp_all add: sched_is_suspended_eq example_thread_def thread_template_def thread_flags)
  have l: "t_stateflags (threads w 1) AND THREAD_SF_PREEMPT \<noteq> 0 \<longrightarrow> Run_Ring 0 16 \<in> run_heads 0 \<and>
      ?q (Run_Ring 0 16) = [] @ T_Queue_Entry 1 # [] \<and> (sched_is_suspended w (Some 1) = Inr True \<longrightarrow> Sched_Blocked 0 \<in> run_heads 0)"
    using t(2) by (simp add: run_heads_def)
  have q: "?q(Run_Ring 0 16 := [] @ []) = (\<lambda>_. [])" by auto
  have "thread_ring 0 w 1 = 3" "t_stateflags (threads w 1) AND THREAD_SF_PREEMPT \<noteq> 0"
    using w(6) by (simp_all add: thread_flags)
  with sched_actualize_correct [OF w(1) subset_refl w(2) t(1) w(3,4) l] w(1,5) t(2) show ?thesis
    unfolding q by (auto simp: Let_def)
qed

text \<open>C23. The decaying values never overflow: the scan over the priorities followed by the reset
  of the one it chose keeps the invariant that at most \<open>31 - k\<close> of them are at or below
  \<open>-k\<close>, whichever rings are empty, so that all of them stay between \<open>-30\<close> and
  \<open>422\<close>; the scan does not fault, and what it chooses has the least decremented value among the rings
  it considers.\<close>

theorem sched_decays_bounded:
  assumes "sched_rings w H q" and "run_heads s \<subseteq> H" and "decay_inv (sched_run_decay (schedulers w s))"
  shows "\<exists>mi w'. sched_scan s [0..<SCHED_NRQS] (-1) 0 w = Inr (mi, w') \<and>
    (let w'' = (if mi < 0 then w' else set_decay s (nat mi) (sched_prios ! nat mi) w') in
     decay_inv (sched_run_decay (schedulers w'' s)) \<and>
     (\<forall>i<32. -30 \<le> sint (sched_run_decay (schedulers w'' s) ! i) \<and>
       sint (sched_run_decay (schedulers w'' s) ! i) \<le> 422)) \<and>
    (\<forall>i<32. 0 \<le> mi \<and> q (Run_Ring s i) = [] \<longrightarrow>
       sint (sched_run_decay (schedulers w' s) ! nat mi) \<le> sint (sched_run_decay (schedulers w' s) ! i))"
proof -
  let ?R = "\<lambda>i. q (Run_Ring s i) = []" and ?ds = "sched_run_decay (schedulers w s)"
  let ?ds' = "scan_decays ?R [0..<32] ?ds"
  let ?w = "upd_sched s (\<lambda>c. c\<lparr>sched_run_decay := scan_decays ?R [0..<32] (sched_run_decay c)\<rparr>) w"
  have len: "length ?ds = 32" using assms(3) by (simp add: decay_inv_def)
  have nth: "?ds' ! i = (if ?R i then ?ds ! i - 1 else sched_prios ! i)" if "i < 32" for i
    using scan_decays_nth [of "[0..<32]" ?ds i ?R] that len by simp
  obtain mi where mi: "sched_scan s [0..<SCHED_NRQS] (-1) 0 w = Inr (mi, ?w)"
    "mi = -1 \<and> (\<forall>i<32. \<not> ?R i) \<or> (\<exists>k<32. ?R k \<and> mi = int k \<and> (\<forall>i<32. ?R i \<longrightarrow>
        sint (?ds ! k - 1) \<le> sint (?ds ! i - 1)))"
    using scan_run_rings [OF assms] by blast
  have inv: "decay_inv (if mi < 0 then ?ds' else ?ds'[nat mi := sched_prios ! nat mi])"
    using mi(2)
  proof (elim disjE conjE exE)
    assume "mi = -1" "\<forall>i<32. \<not> ?R i"
    moreover from this have "?ds' = sched_prios" using nth len by (intro nth_equalityI) auto
    ultimately show ?thesis using decay_inv_prios by simp
  qed (use decay_inv_scan [OF assms(3)] in auto)
  define w'' where "w'' = (if mi < 0 then ?w else set_decay s (nat mi) (sched_prios ! nat mi) ?w)"
  have "decay_inv (sched_run_decay (schedulers w'' s))" using inv by (simp add: w''_def set_decay_def split: if_splits)
  moreover from decay_inv_bounds [OF this] have "\<forall>i<32. -30 \<le> sint (sched_run_decay (schedulers w'' s) ! i) \<and>
       sint (sched_run_decay (schedulers w'' s) ! i) \<le> 422" by blast
  moreover have "\<forall>i<32. 0 \<le> mi \<and> ?R i \<longrightarrow> sint (?ds' ! nat mi) \<le> sint (?ds' ! i)" using mi(2) nth by auto
  ultimately show ?thesis
    using mi(1) by (intro exI [of _ mi] exI [of _ ?w]) (simp add: Let_def w''_def)
qed

theorem sched_decays_bounded_witness:
  "\<exists>w mi w'. sched_instanciate (Some 0) 0 example_world = Inr w \<and>
    sched_scan 0 [0..<SCHED_NRQS] (-1) 0 w = Inr (mi, w')"
proof -
  obtain w where w: "sched_instanciate (Some 0) 0 example_world = Inr w" "sched_rings w (run_heads 0) (\<lambda>_. [])"
    "schedulers w 0 = \<lparr>sched_run_decay = sched_prios, sched_idle = None, sched_thread_count = 1, sched_lock = 0\<rparr>"
    by (rule example_sched_new)
  have "decay_inv (sched_run_decay (schedulers w 0))" using w(3) decay_inv_prios by simp
  from sched_decays_bounded [OF w(2) subset_refl this] w(1) show ?thesis by blast
qed

text \<open>C34. No thread of a run ring is ever dispatched. \<^verbatim>\<open>sched_runnable\<close> is
  \<^verbatim>\<open>linked_ring_empty\<close>, which is true of empty rings: while one run ring is empty, the
  scheduler takes the head of an empty ring for an element and follows its null data pointer; when
  none is empty, it reports that there is no thread. So \<^verbatim>\<open>sched_remove\<close> on a scheduler that is not locked and
  whose run rings are well formed faults or returns that there is no thread, and \<^verbatim>\<open>sched_preempt\<close> on it does
  nothing for a thread that modifies a scheduler or is not preemptible, faults while one run ring is empty, and otherwise
  only resets the decaying values and stays with the running thread if that is not suspended; if it is suspended, the call, when it
  succeeds, leaves the idle thread current.\<close>

theorem sched_never_dispatches:
  assumes ok: "sched_rings w H q" and H: "run_heads s \<subseteq> H" and inv: "decay_inv (sched_run_decay (schedulers w s))"
    and c: "kernel_get_current_thread w = Some me" "cpu_scheduler (cpus w (this_cpu w)) = Some s"
      "sched_lock (schedulers w s) = 0"
  shows "(if \<exists>i<32. q (Run_Ring s i) = [] then sched_remove (Suc fuel) (this_cpu w) w = Inl Null_Deref
     else \<exists>w'. sched_remove (Suc fuel) (this_cpu w) w = Inr (None, w')) \<and>
    (if t_stateflags (threads w me) AND THREAD_SF_LOCK_SCHED \<noteq> 0 \<or> t_nonpreempt (threads w me) \<noteq> 0
     then sched_preempt (Suc fuel) w = Inr w
     else if \<exists>i<32. q (Run_Ring s i) = [] then sched_preempt (Suc fuel) w = Inl Null_Deref
     else if sched_is_suspended w (Some me) = Inr False
     then sched_preempt (Suc fuel) w = Inr (upd_sched s (\<lambda>c. c\<lparr>sched_run_decay := sched_prios\<rparr>) w)
     else \<forall>w'. sched_preempt (Suc fuel) w = Inr w' \<longrightarrow> kernel_get_current_thread w' = sched_idle (schedulers w s))"
proof (rule conjI [OF _ sched_preempt_branches [OF assms]])
  let ?w1 = "sched_locked me s w"
  have ok1: "sched_rings ?w1 H q" using ok sched_rings_cong [of ?w1 w] by simp
  have inv1: "decay_inv (sched_run_decay (schedulers ?w1 s))" using inv by simp
  note nxt = sched_schedule_next_eq [OF ok1 H inv1, of fuel]
  have pre: "set_flags (Some me) THREAD_SF_LOCK_SCHED w = Inr w0 \<Longrightarrow> lock_sched (Some s) w0 = Inr ?w1" for w0
    using c by (auto simp: lock_sched_ok sched_locked_def)
  show "if \<exists>i<32. q (Run_Ring s i) = [] then sched_remove (Suc fuel) (this_cpu w) w = Inl Null_Deref
     else \<exists>w'. sched_remove (Suc fuel) (this_cpu w) w = Inr (None, w')"
  proof (cases "\<exists>i<32. q (Run_Ring s i) = []")
    case True
    then show ?thesis using c pre nxt by (auto simp: sched_remove_def simp del: sched_schedule_next.simps)
  next
    case False
    then show ?thesis using sched_remove_run [OF c] nxt by (auto simp: unlock_sched_def simp del: sched_schedule_next.simps)
  qed
qed

theorem sched_never_dispatches_witness:
  "\<exists>w. sched_instanciate (Some 0) 0 example_world = Inr w \<and> sched_preempt 1 w = Inl Null_Deref"
proof -
  obtain w where w: "sched_instanciate (Some 0) 0 example_world = Inr w" "sched_rings w (run_heads 0) (\<lambda>_. [])"
    "schedulers w 0 = \<lparr>sched_run_decay = sched_prios, sched_idle = None, sched_thread_count = 1, sched_lock = 0\<rparr>"
    "cpu_scheduler (cpus w 0) = Some 0" "threads w = threads example_world" "kernel_get_current_thread w = Some 0"
    by (rule example_sched_new)
  have cpu: "this_cpu w = 0"
    using w(1) sched_init_rings_cpus
    by (auto simp: sched_instanciate_def res_inv memset_scheduler_def Let_def example_world_def)
  have inv: "decay_inv (sched_run_decay (schedulers w 0))" using w(3) decay_inv_prios by simp
  have lock: "sched_lock (schedulers w 0) = 0" and c: "cpu_scheduler (cpus w (this_cpu w)) = Some 0"
    using w(3-5) cpu by (simp_all add: sched_is_suspended_eq example_world_def example_thread_def thread_template_def)
  have "t_stateflags (threads w 0) AND THREAD_SF_LOCK_SCHED = 0" "t_nonpreempt (threads w 0) = 0"
    using w(5) by (simp_all add: example_world_def example_thread_def thread_template_def)
  moreover have "\<exists>i :: nat. i < 32" by (rule exI [of _ 0]) simp
  ultimately show ?thesis
    using sched_never_dispatches [OF w(2) subset_refl inv w(6) c lock, of 0] w(1) by auto
qed

text \<open>A new scheduler has 32 empty, well-formed run rings and its lock free, but the ring of
  blocked threads is left zeroed: the first suspended thread that is enqueued dereferences its null
  link.\<close>

theorem sched_instanciate_blocked_ring:
  "\<exists>w'. sched_instanciate (Some s) c w = Inr w' \<and> sched_rings w' (run_heads s) (\<lambda>_. []) \<and>
    decay_inv (sched_run_decay (schedulers w' s)) \<and> sched_lock (schedulers w' s) = 0 \<and>
    (\<forall>t. sched_is_suspended w' (Some t) = Inr True \<longrightarrow> sched_reenqueue s (Some t) w' = Inl Null_Deref)"
proof -
  obtain w' where w': "sched_instanciate (Some s) c w = Inr w'" "sched_rings w' (run_heads s) (\<lambda>_. [])"
    "schedulers w' s = \<lparr>sched_run_decay = sched_prios, sched_idle = None, sched_thread_count = 1, sched_lock = 0\<rparr>"
    "prevp (rings w') (Sched_Blocked s) = None"
    using sched_instanciate_ok [of s c w] by blast
  then show ?thesis
    using decay_inv_prios
    by (intro exI [of _ w']) (simp add: sched_reenqueue_def sched_elem_def ring_insert_def linked_ring_insert_def
        links_access)
qed

theorem sched_instanciate_blocked_ring_witness:
  "\<exists>w'. sched_instanciate (Some 0) 0
      (example_world\<lparr>threads := \<lambda>_. example_thread\<lparr>t_stateflags := THREAD_SF_QUEUE_WAIT, t_wait_queue := Some 0\<rparr>\<rparr>) = Inr w' \<and>
    sched_reenqueue 0 (Some 1) w' = Inl Null_Deref"
proof -
  let ?w = "example_world\<lparr>threads := \<lambda>_. example_thread\<lparr>t_stateflags := THREAD_SF_QUEUE_WAIT, t_wait_queue := Some 0\<rparr>\<rparr>"
  obtain w' where w': "sched_instanciate (Some 0) 0 ?w = Inr w'"
    "\<forall>t. sched_is_suspended w' (Some t) = Inr True \<longrightarrow> sched_reenqueue 0 (Some t) w' = Inl Null_Deref"
    using sched_instanciate_blocked_ring [of 0 0 ?w] by blast
  have "threads w' = threads ?w" using w'(1) sched_instanciate_ok [of 0 0 ?w] by auto
  then have "sched_is_suspended w' (Some 1) = Inr True" by (simp add: sched_is_suspended_eq thread_flags)
  with w' show ?thesis by blast
qed

end
