(* ===== verification/Field_Invariant.thy ===== *)
theory Field_Invariant
  imports Sched
begin

text \<open>
  Invariants of the records of threads and schedulers. A condition on single records that the
  assignments of a switch keep (\<open>switch_invariant\<close>) is kept by the operations of the scheduler
  on existing threads, whatever the rings look like; one that the other assignments of
  \<open>kern_thread.c\<close> and \<open>kern_sched.c\<close> keep too (\<open>field_invariant\<close>) is kept by every
  operation. \<open>Wait_Queue\<close> adds the wait queues and sequences of operations. The lengths of the
  records' arrays (\<open>thread_shape\<close>, \<open>sched_shape\<close>) are a condition of the second kind, the storage of
  each thread is one of the first.
\<close>

text \<open>Steps that only read.\<close>

lemma read_bind: "(\<And>x. res_post (f x) Q) \<Longrightarrow> res_post (rbind m f) Q"
  by (rule res_post_bind [OF res_post_True])

lemmas reads = read_bind [where m = "deref p" for p] read_bind [where m = "get_thread w p" for w p]
  read_bind [where m = "sched_is_suspended w p" for w p] read_bind [where m = "sched_runnable w s i" for w s i]
  read_bind [where m = "get_prev h p" for h p] read_bind [where m = "linked_ring_init h p" for h p]

locale switch_invariant =
  fixes tok :: "nat \<Rightarrow> thread \<Rightarrow> bool" and sok :: "scheduler \<Rightarrow> bool" and cok :: "nat \<Rightarrow> cpu \<Rightarrow> bool"
  assumes tok_flags: "tok i t \<Longrightarrow> tok i (t\<lparr>t_stateflags := f\<rparr>)"
    and tok_cpu: "tok i t \<Longrightarrow> tok i (t\<lparr>t_current_cpu := c\<rparr>)"
    and sok_decay: "sok c' \<Longrightarrow> sok (c'\<lparr>sched_run_decay := (sched_run_decay c')[j := v]\<rparr>)"
    and sok_lock: "sok c' \<Longrightarrow> sok (c'\<lparr>sched_lock := l\<rparr>)"
    and sok_count: "sok c' \<Longrightarrow> sok (c'\<lparr>sched_thread_count := n\<rparr>)"
    and cok_thread: "cok k x \<Longrightarrow> cok k (x\<lparr>cpu_current_thread := Some a, CPU_LOCAL_TLS := Some b\<rparr>)"
    and cok_tss: "cok k x \<Longrightarrow> cok k (x\<lparr>cpu_tss := s\<rparr>)"
    and cok_ltr: "cok k x \<Longrightarrow> cok k (x\<lparr>cpu_tss_busy := True, task_register := r\<rparr>)"
begin

definition all_ok :: "world \<Rightarrow> bool" where
  "all_ok w \<longleftrightarrow> (\<forall>t. tok t (threads w t)) \<and> (\<forall>s. sok (schedulers w s)) \<and> (\<forall>c. cok c (cpus w c))"

lemma all_ok_fields [simp]: "all_ok (w\<lparr>rings := h\<rparr>) = all_ok w" "all_ok (w\<lparr>this_cpu := k\<rparr>) = all_ok w"
  by (simp_all add: all_ok_def)

lemma all_ok_upd [intro]: "all_ok w \<Longrightarrow> tok t x \<Longrightarrow> all_ok (w\<lparr>threads := (threads w)(t := x)\<rparr>)"
  by (simp add: all_ok_def)

lemma all_ok_thread: "all_ok w \<Longrightarrow> tok t (threads w t)"
  by (simp add: all_ok_def)

lemma all_ok_cpu: "all_ok w \<Longrightarrow> (\<And>x. cok c x \<Longrightarrow> cok c (f x)) \<Longrightarrow> all_ok (upd_cpu c f w)"
  by (simp add: all_ok_def)

lemma all_ok_sched [simp, intro]: "all_ok w \<Longrightarrow> all_ok (set_decay s i v w)" "all_ok w \<Longrightarrow> all_ok (unlock_sched s w)"
  "all_ok w \<Longrightarrow> all_ok (upd_sched s (\<lambda>c. c\<lparr>sched_thread_count := g c\<rparr>) w)" "all_ok w \<Longrightarrow> all_ok (upd_sched s (\<lambda>c. c\<lparr>sched_lock := l\<rparr>) w)"
  by (simp_all add: all_ok_def set_decay_def unlock_sched_def sok_decay sok_lock sok_count)

lemma keeps_upd_thread:
  assumes "all_ok w" and "\<And>i t. tok i t \<Longrightarrow> tok i (f t)"
  shows "res_post (upd_thread p f w) all_ok"
  using assms all_ok_thread by (cases p) auto

lemma keeps_flags: "all_ok w \<Longrightarrow> res_post (set_flags p f w) all_ok" "all_ok w \<Longrightarrow> res_post (clear_flags p f w) all_ok"
  unfolding set_flags_def clear_flags_def by (rule keeps_upd_thread; simp add: tok_flags)+

lemma keeps_rings: "all_ok w \<Longrightarrow> res_post (ring_insert l e a w) all_ok" "all_ok w \<Longrightarrow> res_post (ring_remove e w) all_ok"
  "all_ok w \<Longrightarrow> res_post (sched_elem t w) (\<lambda>(_, w). all_ok w)"
  by (auto simp: res_post_def ring_insert_def ring_remove_def sched_elem_def res_inv)

lemma keeps_lock: "all_ok w \<Longrightarrow> res_post (lock_sched sp w) all_ok"
  by (auto simp: res_post_def lock_sched_def res_inv)

lemma keeps_ltr: "all_ok w \<Longrightarrow> res_post (ltr sel w) all_ok"
  by (simp add: res_post_def ltr_def all_ok_cpu cok_ltr)

lemma keeps_after_switch: "all_ok w \<Longrightarrow> res_post (hal_after_thread_switch w) all_ok"
  unfolding hal_after_thread_switch_def Let_def by (auto intro!: reads keeps_ltr all_ok_cpu cok_tss)

lemma keeps_set_current: "all_ok w \<Longrightarrow> res_post (kernel_set_current_thread p w) all_ok"
proof (cases p)
  case (Some t)
  assume w: "all_ok w"
  have "kernel_set_current_thread p w = rbind (upd_thread (Some t) (\<lambda>t. t\<lparr>t_current_cpu := Some (this_cpu w)\<rparr>)
      (upd_cpu (this_cpu w) (\<lambda>c. c\<lparr>cpu_current_thread := Some t, CPU_LOCAL_TLS := Some t\<rparr>) w)) hal_after_thread_switch"
    using Some by (simp add: kernel_set_current_thread_def kernel_get_current_cpu_def upd_cpu_def Let_def)
  moreover have "all_ok (upd_cpu (this_cpu w) (\<lambda>c. c\<lparr>cpu_current_thread := Some t, CPU_LOCAL_TLS := Some t\<rparr>) w)"
    using w by (intro all_ok_cpu cok_thread)
  ultimately show ?thesis by (simp only:) (rule res_post_bind [OF keeps_upd_thread keeps_after_switch], simp_all add: tok_cpu)
qed (simp add: kernel_set_current_thread_def)

lemma keeps_scan: "all_ok w \<Longrightarrow> res_post (sched_scan s is mi md w) (\<lambda>(_, w). all_ok w)"
proof (induction s "is" mi md w rule: sched_scan.induct)
  case (2 s i "is" mi mdecay w)
  then show ?case by (auto intro!: reads simp: Let_def)
qed simp

lemma keeps_enqueue:
  assumes "all_ok w"
  shows "res_post (rbind (sched_elem t w) (\<lambda>(el, w). ring_insert l el a w)) all_ok"
  by (rule res_post_bind [OF keeps_rings(3) [OF assms]]) (auto intro: keeps_rings(1))

lemma keeps_reenqueue: "all_ok w \<Longrightarrow> res_post (sched_reenqueue s p w) all_ok"
  unfolding sched_reenqueue_def Let_def
  by (auto intro!: res_post_if reads keeps_enqueue)

lemma keeps_schedule_next: "all_ok w \<Longrightarrow> res_post (sched_schedule_next fuel s w) (\<lambda>(_, w). all_ok w)"
proof (induction fuel arbitrary: w)
  case (Suc fuel)
  have again: "res_post (rbind (sched_elem c v) (\<lambda>(el, w). rbind (ring_insert l el a w) (sched_schedule_next fuel s))) (\<lambda>(_, w). all_ok w)"
    if "all_ok v" for c v l a
    by (rule res_post_bind [OF keeps_rings(3) [OF that]]) (auto intro!: res_post_bind [OF keeps_rings(1)] Suc.IH)
  have rest: "res_post (rbind (deref e) (\<lambda>e. rbind (sched_is_suspended v (datap (rings v) e)) (\<lambda>b.
      if b then rbind (sched_elem (datap (rings v) e) v) (\<lambda>(el, w). rbind (ring_insert (Some (Sched_Blocked s)) el False w) (sched_schedule_next fuel s))
      else Inr (datap (rings v) e, v)))) (\<lambda>(_, w). all_ok w)" if "all_ok v" for e v
    using that again by (auto intro!: res_post_if reads)
  show ?case
    unfolding sched_schedule_next.simps(2) Let_def
    by (rule res_post_bind [OF keeps_scan [OF Suc.prems]])
      (auto intro!: reads res_post_bind [OF keeps_rings(2)] rest)
qed simp

lemma keeps_actualize: "all_ok w \<Longrightarrow> res_post (sched_actualize p w) all_ok"
proof -
  assume w: "all_ok w"
  have requeue: "res_post (if b then rbind (ring_remove e v) (\<lambda>w. sched_reenqueue s p w) else Inr v) all_ok" if "all_ok v" for b e s v
    using that by (auto intro!: res_post_bind [OF keeps_rings(2)] keeps_reenqueue)
  have unlock: "res_post (clear_flags q f (unlock_sched s v)) all_ok" if "all_ok v" for q f s v
    using that by (intro keeps_flags) auto
  show ?thesis
    unfolding sched_actualize_def Let_def using w
    by (auto intro!: reads res_post_bind [OF keeps_flags(1)] res_post_bind [OF keeps_lock]
        res_post_bind [OF requeue] unlock split: option.splits)
qed

lemma keeps_insert: "all_ok w \<Longrightarrow> res_post (sched_insert c p w) all_ok"
  unfolding sched_insert_def Let_def
  by (rule res_post_bind [OF keeps_upd_thread], assumption, simp add: tok_cpu, rule res_post_bind [OF keeps_flags(1)], assumption,
      rule res_post_bind [OF keeps_lock], assumption, rule read_bind, rule res_post_bind [OF keeps_reenqueue], assumption,
      rule keeps_flags) auto

lemma keeps_remove: "all_ok w \<Longrightarrow> res_post (sched_remove fuel c w) (\<lambda>(_, w). all_ok w)"
proof -
  assume w: "all_ok w"
  have cpu: "res_post (if b then upd_thread q (\<lambda>t. t\<lparr>t_current_cpu := None\<rparr>) v else Inr v) all_ok" if "all_ok v" for b q v
    using that by (auto intro!: keeps_upd_thread tok_cpu)
  show ?thesis
    unfolding sched_remove_def Let_def using w
    by (auto intro!: res_post_bind [OF keeps_flags(1)] res_post_bind [OF keeps_lock] reads
        res_post_bind [OF keeps_schedule_next] res_post_bind [OF keeps_flags(2)] res_post_bind [OF cpu])
qed

lemma keeps_switch:
  assumes "all_ok w"
  shows "res_post (if othr \<noteq> nthr then
      rbind (clear_flags nthr THREAD_SF_PREEMPT w) (\<lambda>w.
      rbind (kernel_set_current_thread nthr w) (\<lambda>w.
      rbind (set_flags othr THREAD_SF_PREEMPT w) (\<lambda>w.
      sched_reenqueue s othr w)))
    else Inr w) all_ok"
  using assms
  by (auto intro!: res_post_bind [OF keeps_flags(2)] res_post_bind [OF keeps_set_current] res_post_bind [OF keeps_flags(1)] keeps_reenqueue)

lemma keeps_preempt: "all_ok w \<Longrightarrow> res_post (sched_preempt fuel w) all_ok"
proof -
  assume w: "all_ok w"
  have fin: "res_post (rbind q (\<lambda>nthr. rbind (if othr \<noteq> nthr then
      rbind (clear_flags nthr THREAD_SF_PREEMPT v) (\<lambda>w.
      rbind (kernel_set_current_thread nthr w) (\<lambda>w.
      rbind (set_flags othr THREAD_SF_PREEMPT w) (\<lambda>w.
      sched_reenqueue s othr w)))
    else Inr v) (\<lambda>w. Inr (unlock_sched s w)))) all_ok" if "all_ok v" for q othr s v
    by (rule read_bind, rule res_post_bind [OF keeps_switch [OF that]]) auto
  show ?thesis
    unfolding sched_preempt_def Let_def using w
    by (auto intro!: reads res_post_if res_post_bind [OF keeps_lock] res_post_bind [OF keeps_schedule_next] fin)
qed

end

text \<open>Threads that are created, woken or enter a system call, and new schedulers.\<close>

locale field_invariant = switch_invariant +
  assumes tok_queue: "tok i t \<Longrightarrow> tok i (t\<lparr>t_wait_queue := None\<rparr>)"
    and tok_storage: "tok i t \<Longrightarrow> tok i (t\<lparr>t_storage := (t_storage t)[0 := sp]\<rparr>)"
    and tok_stacks: "tok i t \<Longrightarrow> tok i (t\<lparr>t_istobjs := [a, b]\<rparr>)" "tok i t \<Longrightarrow> tok i (t\<lparr>t_istacks := [x, y]\<rparr>)"
    and tok_template: "tok i thread_template"
    and cok_sched: "cok k x' \<Longrightarrow> cok k (x'\<lparr>cpu_scheduler := p\<rparr>)"
    and sok_zero: "sok \<lparr>sched_run_decay = replicate 32 0, sched_idle = None, sched_thread_count = 0, sched_lock = 0\<rparr>"
begin

lemma keeps_syscall: "all_ok w \<Longrightarrow> res_post (thread_enter_syscall w) all_ok" "all_ok w \<Longrightarrow> res_post (thread_exit_syscall w) all_ok"
  unfolding thread_enter_syscall_def thread_exit_syscall_def Let_def
  by (rule res_post_bind [OF keeps_flags(1)], assumption, rule res_post_bind [OF keeps_upd_thread keeps_after_switch], simp_all add: tok_storage)
    (rule res_post_bind [OF keeps_flags(2)], assumption, rule res_post_bind [OF keeps_upd_thread keeps_after_switch], simp_all add: tok_storage)

lemma keeps_int_stack: "all_ok w \<Longrightarrow> res_post (thread_update_int_stack p w) all_ok"
  unfolding thread_update_int_stack_def Let_def
  by (rule read_bind, rule keeps_upd_thread) (simp_all add: tok_storage)

lemma keeps_init_rings: "all_ok w \<Longrightarrow> res_post (sched_init_rings s is w) all_ok"
  by (induction s "is" w rule: sched_init_rings.induct) (auto simp: Let_def intro!: reads)

lemma keeps_instanciate: "all_ok w \<Longrightarrow> res_post (sched_instanciate p c w) all_ok"
proof -
  assume w: "all_ok w"
  have "all_ok (memset_scheduler s w)" for s using w sok_zero by (simp add: all_ok_def memset_scheduler_def Let_def SCHED_NRQS_def)
  then have "all_ok (upd_sched s (\<lambda>c. c\<lparr>sched_lock := 0, sched_thread_count := 1\<rparr>) (memset_scheduler s w))" for s
    by (simp add: all_ok_def sok_count sok_lock)
  then show ?thesis
    by (auto simp: sched_instanciate_def Let_def split: option.splits intro!: res_post_bind [OF keeps_init_rings] all_ok_cpu cok_sched)
qed

lemma keeps_thread_allocate:
  assumes "all_ok w"
  shows "res_post (thread_allocate zal zfr ka m w) (\<lambda>(_, _, w). all_ok w)"
proof -
  have new: "all_ok (copy_template t w)" for t using assms tok_template by (simp add: all_ok_def copy_template_def)
  have full: "tok i (u\<lparr>t_istobjs := [a, b], t_istacks := [x, y], t_storage := (t_storage u)[0 := x]\<rparr>)" if "tok i u" for i u a b x y
    using tok_storage [OF tok_stacks(2) [OF tok_stacks(1) [OF that]], where sp = x] by simp
  from new assms show ?thesis
    unfolding res_post_def thread_allocate_def all_ok_def
    by (auto simp: res_inv Let_def linked_ring_init_def split: option.splits if_splits intro!: full tok_stacks(1))
qed

end

section \<open>The lengths of the arrays\<close>

definition thread_shape :: "thread \<Rightarrow> bool" where
  "thread_shape t \<longleftrightarrow> length (t_storage t) = 4 \<and> length (t_istacks t) = 2 \<and> length (t_istobjs t) = 2"

definition sched_shape :: "scheduler \<Rightarrow> bool" where
  "sched_shape c \<longleftrightarrow> length (sched_run_decay c) = 32"

interpretation shape: field_invariant "\<lambda>_. thread_shape" sched_shape "\<lambda>_ _. True"
  by unfold_locales (simp_all add: thread_shape_def sched_shape_def thread_template_def)

interpretation nw: field_invariant "\<lambda>_ t. t_wait_queue t = None" "\<lambda>_. True" "\<lambda>_ _. True"
  by unfold_locales (simp_all add: thread_template_def)

text \<open>The scheduler never writes the storage of a thread, where \<^verbatim>\<open>__i686_switch\<close> keeps its context.\<close>

interpretation store: switch_invariant "\<lambda>t x. t_storage x = S t" "\<lambda>_. True" "\<lambda>_ _. True" for S
  by unfold_locales simp_all

lemma sched_preempt_storage:
  assumes "sched_preempt fuel w = Inr w'"
  shows "t_storage (threads w' t) = t_storage (threads w t)"
proof -
  have "store.all_ok (\<lambda>t. t_storage (threads w t)) w" by (simp add: store.all_ok_def)
  from store.keeps_preempt [OF this, of fuel] assms show ?thesis by (simp add: store.all_ok_def)
qed

text \<open>Once the task register of a CPU is loaded, the descriptor of its task state segment stays busy, and there is a current
  thread.\<close>

definition cpu_loaded :: "cpu \<Rightarrow> bool" where
  "cpu_loaded x \<longleftrightarrow> cpu_tss_busy x \<and> cpu_current_thread x \<noteq> None \<and> CPU_LOCAL_TLS x \<noteq> None"

interpretation loaded: field_invariant "\<lambda>_ _. True" "\<lambda>_. True" "\<lambda>k x. k = c \<longrightarrow> cpu_loaded x" for c
  by unfold_locales (simp_all add: cpu_loaded_def)

text \<open>Then no operation that loads it again returns.\<close>

lemma loaded_faults:
  assumes "cpu_loaded (cpus w (this_cpu w))"
  shows "kernel_set_current_thread (Some t) w = Inl Protection_Fault" "thread_enter_syscall w = Inl Protection_Fault"
    "thread_exit_syscall w = Inl Protection_Fault"
  using assms
  by (auto simp: cpu_loaded_def kernel_set_current_thread_def thread_enter_syscall_def thread_exit_syscall_def hal_after_thread_switch_def ltr_def
      kernel_get_current_cpu_def upd_cpu_def Let_def)

end
