(* ===== verification/Zone_Alloc.thy ===== *)
theory Zone_Alloc
  imports Kern_Stacks
begin

text \<open>
  The zone allocator, \<open>system/kern/zalloc.c\<close>: zones of buffers of one size, each with a free
  list that is threaded through the first word of the free buffers; in a buffer that is handed out
  this word points to its zone, and the caller gets the address behind it.

  The store has two parts: \<open>zmem\<close>, the first words of the buffers, by address, and
  \<open>zones\<close>, the \<^verbatim>\<open>struct zone\<close>s, by address. A null pointer is the address 0. The memory
  below the zones is the field \<open>zvm\<close>; \<open>kalloc\<close> and \<open>kcrit\<close> are
  \<^verbatim>\<open>vm_kalloc_ll\<close> and \<^verbatim>\<open>vm_alloc_critical\<close>. The loops of
  \<^verbatim>\<open>calc_bufsize\<close> and \<^verbatim>\<open>_zcram\<close> are partial functions: the second does not end for a
  buffer size of 0.
\<close>

section \<open>State\<close>

record zone =
  zn_bufsize :: size_t
  zn_freelist :: u32
  zn_name :: string
  zn_count :: u32
  zn_memtype :: u32
  zn_lock :: kspinlock_t

record 'v zstate =
  zmem :: "u32 \<Rightarrow> u32"
  zones :: "u32 \<Rightarrow> zone"
  zone_zone :: u32
  zvm :: 'v

definition ZONE_AUTO_REFILL :: u32 where "ZONE_AUTO_REFILL = 1"
definition ZONE_AR_CRITICAL :: u32 where "ZONE_AR_CRITICAL = 2"
definition BUF_LINE :: u32 where "BUF_LINE = 128"
definition sizeof_Pointer :: u32 where "sizeof_Pointer = 4"
definition sizeof_zone :: u32 where "sizeof_zone = 24"

definition upd_zone :: "u32 \<Rightarrow> (zone \<Rightarrow> zone) \<Rightarrow> 'v zstate \<Rightarrow> 'v zstate" where
  "upd_zone z f m = m\<lparr>zones := (zones m)(z := f (zones m z))\<rparr>"

definition set_zmem :: "u32 \<Rightarrow> u32 \<Rightarrow> 'v zstate \<Rightarrow> 'v zstate" where
  "set_zmem p v m = m\<lparr>zmem := (zmem m)(p := v)\<rparr>"

definition lock_zone :: "u32 \<Rightarrow> 'v zstate \<Rightarrow> 'v zstate res" where
  "lock_zone z m =
     rbind (require (z \<noteq> 0) Null_Deref) (\<lambda>_.
     rbind (kernlock_lock (zn_lock (zones m z))) (\<lambda>l. Inr (upd_zone z (\<lambda>c. c\<lparr>zn_lock := l\<rparr>) m)))"

definition unlock_zone :: "u32 \<Rightarrow> 'v zstate \<Rightarrow> 'v zstate" where
  "unlock_zone z m = upd_zone z (\<lambda>c. c\<lparr>zn_lock := kernlock_unlock (zn_lock c)\<rparr>) m"

section \<open>The operations\<close>

partial_function (option) calc_bufsize_loop :: "u32 \<Rightarrow> u32 \<Rightarrow> u32 \<Rightarrow> u32 option" where
  "calc_bufsize_loop num mul sz =
     (if num < sz then
        if num < BUF_LINE then calc_bufsize_loop (push_bit 1 mul) (push_bit 1 mul) sz
        else calc_bufsize_loop (num + mul) mul sz
      else Some num)"

definition calc_bufsize :: "u32 \<Rightarrow> u32 option" where
  "calc_bufsize sz = calc_bufsize_loop 0 1 (sz + sizeof_Pointer)"

definition remove_top :: "u32 \<Rightarrow> 'v zstate \<Rightarrow> u32 \<times> 'v zstate" where
  "remove_top zone m =
     (let top = zn_freelist (zones m zone) in
      if top \<noteq> 0 then
        let m = upd_zone zone (\<lambda>c. c\<lparr>zn_freelist := zmem m top\<rparr>) m;
            m = set_zmem top zone m;
            m = upd_zone zone (\<lambda>c. c\<lparr>zn_count := zn_count c - 1\<rparr>) m
        in (top + sizeof_Pointer, m)
      else (top, m))"

definition cram_one :: "u32 \<Rightarrow> u32 \<Rightarrow> 'v zstate \<Rightarrow> 'v zstate" where
  "cram_one zone mem m =
     (let m = set_zmem mem (zn_freelist (zones m zone)) m;
          m = upd_zone zone (\<lambda>c. c\<lparr>zn_freelist := mem\<rparr>) m
      in upd_zone zone (\<lambda>c. c\<lparr>zn_count := zn_count c + 1\<rparr>) m)"

partial_function (option) zcram_loop :: "u32 \<Rightarrow> u32 \<Rightarrow> u32 \<Rightarrow> u32 \<Rightarrow> 'v zstate \<Rightarrow> 'v zstate option" where
  "zcram_loop bufsize zone mem sz m =
     (if bufsize \<le> sz then zcram_loop bufsize zone (mem + bufsize) (sz - bufsize) (cram_one zone mem m)
      else Some m)"

definition zcram_internal :: "u32 \<Rightarrow> u32 \<Rightarrow> u32 \<Rightarrow> 'v zstate \<Rightarrow> 'v zstate res" where
  "zcram_internal zone mem sz m =
     (if mem = 0 then Inl (Panic ''zcram: memory at zero'')
      else case zcram_loop (zn_bufsize (zones m zone)) zone mem sz m of
        None \<Rightarrow> Inl No_Return | Some m' \<Rightarrow> Inr m')"

definition zcram :: "u32 \<Rightarrow> u32 \<Rightarrow> u32 \<Rightarrow> 'v zstate \<Rightarrow> 'v zstate res" where
  "zcram zone mem sz m =
     rbind (lock_zone zone m) (\<lambda>m.
     rbind (zcram_internal zone mem sz m) (\<lambda>m.
     Inr (unlock_zone zone m)))"

definition vm_refill :: "'v \<Rightarrow> 'v" where
  "vm_refill v = v"

definition zrefill_internal ::
  "'v kalloc \<Rightarrow> 'v kalloc \<Rightarrow> u32 \<Rightarrow> u32 \<Rightarrow> u32 \<Rightarrow> 'v zstate \<Rightarrow> 'v zstate res" where
  "zrefill_internal kalloc kcrit zone mn num m =
     (if zn_count (zones m zone) < mn then
        let sz = zn_bufsize (zones m zone) * num in
        rbind (if zn_memtype (zones m zone) AND ZONE_AR_CRITICAL \<noteq> 0
               then kcrit (vm_refill (zvm m)) sz else kalloc (zvm m) sz) (\<lambda>(r, v).
        let m = m\<lparr>zvm := v\<rparr> in
        case r of None \<Rightarrow> Inr m
        | Some (begin, sz) \<Rightarrow> zcram_internal zone begin sz m)
      else Inr m)"

definition zrefill ::
  "'v kalloc \<Rightarrow> 'v kalloc \<Rightarrow> u32 \<Rightarrow> u32 \<Rightarrow> u32 \<Rightarrow> 'v zstate \<Rightarrow> 'v zstate res" where
  "zrefill kalloc kcrit zone mn num m =
     rbind (lock_zone zone m) (\<lambda>m.
     rbind (zrefill_internal kalloc kcrit zone mn num m) (\<lambda>m.
     Inr (unlock_zone zone m)))"

definition zalloc :: "'v kalloc \<Rightarrow> 'v kalloc \<Rightarrow> u32 \<Rightarrow> 'v zstate \<Rightarrow> (u32 \<times> 'v zstate) res" where
  "zalloc kalloc kcrit zone m =
     (if zone = 0 then Inl (Panic ''zalloc: null zone'')
      else
      rbind (lock_zone zone m) (\<lambda>m.
      rbind (if zn_memtype (zones m zone) AND ZONE_AUTO_REFILL \<noteq> 0
             then zrefill_internal kalloc kcrit zone 32 32 m else Inr m) (\<lambda>m.
      let (ret, m) = remove_top zone m in
      Inr (ret, unlock_zone zone m))))"

definition zfree :: "u32 \<Rightarrow> 'v zstate \<Rightarrow> 'v zstate res" where
  "zfree object m =
     (if object = 0 then Inr m
      else
      let object = object - sizeof_Pointer;
          zone = zmem m object
      in
      rbind (lock_zone zone m) (\<lambda>m.
      let m = set_zmem object (zn_freelist (zones m zone)) m;
          m = upd_zone zone (\<lambda>c. c\<lparr>zn_freelist := object\<rparr>) m;
          m = upd_zone zone (\<lambda>c. c\<lparr>zn_count := zn_count c + 1\<rparr>) m
      in Inr (unlock_zone zone m)))"

definition zcount :: "u32 \<Rightarrow> 'v zstate \<Rightarrow> u32 res" where
  "zcount zone m = rbind (require (zone \<noteq> 0) Null_Deref) (\<lambda>_. Inr (zn_count (zones m zone)))"

definition zbufsize :: "u32 \<Rightarrow> 'v zstate \<Rightarrow> u32 res" where
  "zbufsize zone m = rbind (require (zone \<noteq> 0) Null_Deref) (\<lambda>_. Inr (zn_bufsize (zones m zone)))"

text \<open>\<open>s_zone_zone\<close> and \<open>szz_buf\<close> are the addresses of the two static variables.\<close>

definition zone_bootstrap :: "u32 \<Rightarrow> u32 \<Rightarrow> 'v zstate \<Rightarrow> 'v zstate res" where
  "zone_bootstrap s_zone_zone szz_buf m =
     (case calc_bufsize sizeof_zone of None \<Rightarrow> Inl No_Return
      | Some bs \<Rightarrow>
     let m = upd_zone s_zone_zone (\<lambda>c. c\<lparr>zn_bufsize := bs, zn_freelist := 0, zn_name := ''zone'',
               zn_count := 0, zn_lock := kernlock_init (zn_lock c)\<rparr>) m
     in rbind (zcram_internal s_zone_zone szz_buf (push_bit 16 1) m) (\<lambda>m.
        Inr (m\<lparr>zone_zone := s_zone_zone\<rparr>)))"

definition zinit ::
  "'v kalloc \<Rightarrow> 'v kalloc \<Rightarrow> u32 \<Rightarrow> u32 \<Rightarrow> string option \<Rightarrow> 'v zstate \<Rightarrow> (u32 \<times> 'v zstate) res" where
  "zinit kalloc kcrit sz memtype name m =
     (if zone_zone m = 0 then Inl (Panic ''zinit: no zone_zone'')
      else
      rbind (zalloc kalloc kcrit (zone_zone m) m) (\<lambda>(z, m).
      if z = 0 then Inl (Panic ''zinit'')
      else case calc_bufsize sz of None \<Rightarrow> Inl No_Return
      | Some bs \<Rightarrow>
          Inr (z, upd_zone z (\<lambda>c. c\<lparr>zn_bufsize := bs, zn_freelist := 0, zn_memtype := memtype,
            zn_name := (case name of Some n \<Rightarrow> n | None \<Rightarrow> ''(null)''),
            zn_lock := kernlock_init (zn_lock c)\<rparr>) m)))"

section \<open>The size of a buffer\<close>

lemma calc_bufsize_lines:
  assumes "128 \<le> unat num" and "unat sz \<le> 4294967168" and "128 dvd unat num"
    and "unat num < unat sz + 128"
  shows "\<exists>n. calc_bufsize_loop num 128 sz = Some n \<and> unat sz \<le> unat n \<and> 128 dvd unat n \<and> unat n < unat sz + 128"
  using assms
proof (induction "unat sz - unat num" arbitrary: num rule: less_induct)
  case less
  show ?case
  proof (cases "num < sz")
    case True
    then have lt: "unat num < unat sz" by (simp add: word_less_nat_alt)
    have add: "unat (num + 128) = unat num + 128" using lt less.prems(2) by (subst unat_add_u32) auto
    have "calc_bufsize_loop num 128 sz = calc_bufsize_loop (num + 128) 128 sz"
      using True less.prems(1) by (subst calc_bufsize_loop.simps) (simp add: BUF_LINE_def word_less_nat_alt)
    with less.hyps [of "num + 128"] lt add less.prems show ?thesis by auto
  next
    case False
    then have "unat sz \<le> unat num" by (simp add: word_less_nat_alt)
    then show ?thesis using False less.prems by (subst calc_bufsize_loop.simps) auto
  qed
qed

lemma calc_bufsize_powers:
  assumes "unat sz \<le> 4294967168" and "k \<le> 7" and "2 ^ k < 2 * unat sz"
  shows "\<exists>n. calc_bufsize_loop (2 ^ k) (2 ^ k) sz = Some n \<and> unat sz \<le> unat n \<and>
    (128 dvd unat n \<and> unat n < unat sz + 128 \<or> (\<exists>j\<le>7. unat n = 2 ^ j \<and> unat n < 2 * unat sz))"
  using assms(2,3)
proof (induction "7 - k" arbitrary: k)
  case 0
  then have k: "k = 7" by simp
  show ?case
  proof (cases "unat sz \<le> 128")
    case True
    then have "\<not> (128 :: u32) < sz" by (simp add: word_less_nat_alt)
    then have "calc_bufsize_loop (2 ^ k) (2 ^ k) sz = Some 128"
      unfolding k by (subst calc_bufsize_loop.simps) simp
    then show ?thesis using True 0 k by (intro exI [of _ 128]) (auto intro: exI [of _ 7])
  next
    case False
    with calc_bufsize_lines [of 128 sz] assms(1) show ?thesis unfolding k by auto
  qed
next
  case (Suc x)
  then have k: "k < 7" by simp
  have pow: "unat (2 ^ k :: u32) = 2 ^ k" using k by (intro unat_pow2_u32) simp
  have "(2 :: nat) ^ k \<le> 2 ^ 6" using k by (intro power_increasing) auto
  then have line: "(2 ^ k :: u32) < BUF_LINE" using pow by (simp add: BUF_LINE_def word_less_nat_alt)
  show ?case
  proof (cases "(2 ^ k :: u32) < sz")
    case True
    then have lt: "2 ^ k < unat sz" using pow by (simp add: word_less_nat_alt)
    have "calc_bufsize_loop (2 ^ k) (2 ^ k) sz = calc_bufsize_loop (2 ^ Suc k) (2 ^ Suc k) sz"
      using True line calc_size_step(1) [of k] k
      by (subst calc_bufsize_loop.simps) (simp only: if_True)
    with Suc.hyps(1) [of "Suc k"] Suc.hyps(2) k lt show ?thesis by simp
  next
    case False
    then have "unat sz \<le> 2 ^ k" using pow by (simp add: word_less_nat_alt)
    then show ?thesis
      using False pow k Suc.prems(2) by (subst calc_bufsize_loop.simps) (auto intro!: exI [of _ k])
  qed
qed

lemma calc_bufsize_ok:
  assumes "unat sz + 4 \<le> 4294967168"
  shows "\<exists>n. calc_bufsize sz = Some n \<and> unat sz + 4 \<le> unat n \<and>
    (128 dvd unat n \<and> unat n < unat sz + 132 \<or> (\<exists>j\<le>7. unat n = 2 ^ j \<and> unat n < 2 * (unat sz + 4)))"
proof -
  let ?s = "sz + sizeof_Pointer"
  have s: "unat ?s = unat sz + 4"
    using assms unfolding sizeof_Pointer_def by (subst unat_add_u32) auto
  have "calc_bufsize sz = calc_bufsize_loop (2 ^ 1) (2 ^ 1) ?s"
    unfolding calc_bufsize_def
    by (subst calc_bufsize_loop.simps) (use s in \<open>simp add: BUF_LINE_def word_less_nat_alt\<close>)
  with calc_bufsize_powers [of ?s 1] s assms show ?thesis by auto
qed

section \<open>The free list\<close>

fun free_chain :: "(u32 \<Rightarrow> u32) \<Rightarrow> u32 \<Rightarrow> u32 list \<Rightarrow> bool" where
  "free_chain f p [] = (p = 0)"
| "free_chain f p (x # xs) = (p = x \<and> x \<noteq> 0 \<and> free_chain f (f x) xs)"

lemma free_chain_frame:
  "y \<notin> set xs \<Longrightarrow> free_chain (f(y := v)) p xs = free_chain f p xs"
  by (induction xs arbitrary: p) auto

lemma free_chain_nonzero: "free_chain f p xs \<Longrightarrow> 0 \<notin> set xs"
  by (induction xs arbitrary: p) auto

lemma free_chain_null: "free_chain f p xs \<Longrightarrow> p = 0 \<longleftrightarrow> xs = []"
  by (cases xs) auto

lemma free_chain_head: "free_chain f p xs \<Longrightarrow> p \<noteq> 0 \<Longrightarrow> p \<in> set xs"
  by (cases xs) auto

lemma free_chain_unique: "free_chain f p xs \<Longrightarrow> free_chain f p ys \<Longrightarrow> ys = xs"
proof (induction xs arbitrary: p ys)
  case Nil
  then show ?case by (cases ys) auto
next
  case (Cons x xs)
  then show ?case by (cases ys) auto
qed

text \<open>The objects a zone can hand out without new memory, by the address the caller gets.\<close>

definition zone_free :: "u32 \<Rightarrow> 'v zstate \<Rightarrow> u32 set" where
  "zone_free z m = {k. \<exists>xs. free_chain (zmem m) (zn_freelist (zones m z)) xs \<and> k - 4 \<in> set xs}"

lemma zone_free_eq:
  assumes "free_chain (zmem m) (zn_freelist (zones m z)) xs"
  shows "zone_free z m = (\<lambda>c. c + 4) ` set xs"
proof -
  have "zone_free z m = {k. k - 4 \<in> set xs}" unfolding zone_free_def using assms by (blast dest: free_chain_unique)
  also have "{k. k - 4 \<in> set xs} = (\<lambda>c. c + 4) ` set xs"
  proof (intro equalityI subsetI)
    fix k
    assume "k \<in> {k. k - 4 \<in> set xs}"
    then show "k \<in> (\<lambda>c. c + 4) ` set xs" by (intro image_eqI [of _ _ "k - 4"]) auto
  qed auto
  finally show ?thesis .
qed

text \<open>\<open>zone_ok\<close>: a zone's free list and its counter.\<close>

definition zone_ok :: "'v zstate \<Rightarrow> u32 \<Rightarrow> u32 list \<Rightarrow> bool" where
  "zone_ok m z xs \<longleftrightarrow> free_chain (zmem m) (zn_freelist (zones m z)) xs \<and> distinct xs \<and>
     zn_count (zones m z) = of_nat (length xs)"

lemma zone_ops [simp]:
  "zmem (upd_zone z f m) = zmem m" "zones (upd_zone z f m) = (zones m)(z := f (zones m z))"
  "zvm (upd_zone z f m) = zvm m" "zone_zone (upd_zone z f m) = zone_zone m"
  "zmem (set_zmem p v m) = (zmem m)(p := v)" "zones (set_zmem p v m) = zones m" "zvm (set_zmem p v m) = zvm m"
  "zone_zone (set_zmem p v m) = zone_zone m"
  by (simp_all add: upd_zone_def set_zmem_def)

lemma zone_free_fields [simp]:
  "zone_free z (m\<lparr>zvm := v\<rparr>) = zone_free z m" "zone_free z (upd_zone z (\<lambda>c. c\<lparr>zn_lock := l c\<rparr>) m) = zone_free z m"
  "zone_free z (unlock_zone z m) = zone_free z m"
  by (simp_all add: zone_free_def unlock_zone_def)

lemma zone_ok_free:
  assumes "zone_ok m z xs"
  shows "zone_free z m = (\<lambda>c. c + 4) ` set xs" "card (zone_free z m) = length xs" "finite (zone_free z m)"
proof -
  show eq: "zone_free z m = (\<lambda>c. c + 4) ` set xs" using assms by (intro zone_free_eq) (simp add: zone_ok_def)
  have "inj_on (\<lambda>c :: u32. c + 4) (set xs)" by (simp add: inj_on_def)
  then show "card (zone_free z m) = length xs" using assms by (simp add: eq card_image zone_ok_def distinct_card)
  show "finite (zone_free z m)" by (simp add: eq)
qed

lemma cram_one_ok:
  assumes "zone_ok m z xs" and "c \<noteq> 0" and "c \<notin> set xs"
  shows "zone_ok (cram_one z c m) z (c # xs)"
  using assms by (auto simp: zone_ok_def cram_one_def Let_def free_chain_frame add.commute)

lemma cram_one_frame [simp]:
  "zmem (cram_one z c m) = (zmem m)(c := zn_freelist (zones m z))"
  "zvm (cram_one z c m) = zvm m" "zn_bufsize (zones (cram_one z c m) z) = zn_bufsize (zones m z)"
  "zn_lock (zones (cram_one z c m) z) = zn_lock (zones m z)"
  "zn_memtype (zones (cram_one z c m) z) = zn_memtype (zones m z)"
  "y \<noteq> z \<Longrightarrow> zones (cram_one z c m) y = zones m y" "zone_zone (cram_one z c m) = zone_zone m"
  by (simp_all add: cram_one_def Let_def)

text \<open>The buffers that \<open>_zcram\<close> cuts out of a chunk of memory.\<close>

definition cram_list :: "nat \<Rightarrow> nat \<Rightarrow> nat \<Rightarrow> u32 list" where
  "cram_list b s bs = map (\<lambda>i. of_nat (b + i * bs)) [0..<s div bs]"

lemma cram_list_simps:
  "s < bs \<Longrightarrow> cram_list b s bs = []"
  "0 < bs \<Longrightarrow> bs \<le> s \<Longrightarrow> cram_list b s bs = of_nat b # cram_list (b + bs) (s - bs) bs"
proof -
  show "s < bs \<Longrightarrow> cram_list b s bs = []" by (simp add: cram_list_def)
  assume "0 < bs" "bs \<le> s"
  then have "s div bs = Suc ((s - bs) div bs)" by (simp add: le_div_geq)
  then show "cram_list b s bs = of_nat b # cram_list (b + bs) (s - bs) bs"
    by (simp add: cram_list_def map_upt_Suc algebra_simps del: upt_Suc)
qed

lemma cram_list_mem:
  assumes "c \<in> set (cram_list b s bs)" and "b + s < 4294967296" and "0 < bs"
  shows "b \<le> unat c \<and> unat c + bs \<le> b + s"
proof -
  obtain i where i: "i < s div bs" "c = of_nat (b + i * bs)" using assms(1) by (auto simp: cram_list_def)
  have "Suc i \<le> s div bs" using i(1) by simp
  then have "i * bs + bs \<le> s" using assms(3) by (simp only: less_eq_div_iff_mult_less_eq) simp
  then have "unat c = b + i * bs" unfolding i(2) using assms(2) by (intro unat_of_nat_u32) linarith
  with \<open>i * bs + bs \<le> s\<close> show ?thesis by simp
qed

lemma zcram_loop_ok:
  assumes "0 < unat bs" and "unat mem + unat sz < 4294967296" and "0 < unat mem" and "zone_ok m z xs"
    and "set (cram_list (unat mem) (unat sz) (unat bs)) \<inter> set xs = {}"
  shows "\<exists>m'. zcram_loop bs z mem sz m = Some m' \<and>
    zone_ok m' z (rev (cram_list (unat mem) (unat sz) (unat bs)) @ xs) \<and>
    (\<forall>c. c \<notin> set (cram_list (unat mem) (unat sz) (unat bs)) \<longrightarrow> zmem m' c = zmem m c) \<and>
    zvm m' = zvm m \<and> zn_bufsize (zones m' z) = zn_bufsize (zones m z) \<and>
    zn_lock (zones m' z) = zn_lock (zones m z) \<and> zn_memtype (zones m' z) = zn_memtype (zones m z) \<and>
    (\<forall>y. y \<noteq> z \<longrightarrow> zones m' y = zones m y) \<and> zone_zone m' = zone_zone m"
  using assms(2-)
proof (induction "unat sz" arbitrary: mem sz m xs rule: less_induct)
  case less
  show ?case
  proof (cases "bs \<le> sz")
    case False
    then have "cram_list (unat mem) (unat sz) (unat bs) = []"
      by (intro cram_list_simps(1)) (simp add: word_le_nat_alt)
    then show ?thesis using False less.prems by (subst zcram_loop.simps) auto
  next
    case True
    then have le: "unat bs \<le> unat sz" by (simp add: word_le_nat_alt)
    have sub: "unat (sz - bs) = unat sz - unat bs" by (rule unat_sub_u32 [OF True])
    have add: "unat (mem + bs) = unat mem + unat bs" using le less.prems(1) by (intro unat_add_u32) simp
    have cl: "cram_list (unat mem) (unat sz) (unat bs) =
        mem # cram_list (unat (mem + bs)) (unat (sz - bs)) (unat bs)"
      using cram_list_simps(2) [OF assms(1) le, of "unat mem"] sub add by simp
    let ?tl = "cram_list (unat (mem + bs)) (unat (sz - bs)) (unat bs)"
    have "mem \<notin> set xs" "mem \<noteq> 0" using less.prems(2,4) cl by auto
    then have ok1: "zone_ok (cram_one z mem m) z (mem # xs)" by (intro cram_one_ok less.prems(3))
    have lo: "\<forall>c\<in>set ?tl. unat mem < unat c"
      using cram_list_mem [of _ "unat (mem + bs)" "unat (sz - bs)" "unat bs"] assms(1) less.prems(1) add sub le by fastforce
    then have "set ?tl \<inter> set (mem # xs) = {}" using less.prems(4) cl by auto
    from less.hyps [of "sz - bs" "mem + bs", OF _ _ _ ok1 this] sub add le assms(1) less.prems(1,2)
    obtain m' where m': "zcram_loop bs z (mem + bs) (sz - bs) (cram_one z mem m) = Some m'"
      "zone_ok m' z (rev ?tl @ mem # xs)" "\<forall>c. c \<notin> set ?tl \<longrightarrow> zmem m' c = zmem (cram_one z mem m) c"
      "zvm m' = zvm m" "zn_bufsize (zones m' z) = zn_bufsize (zones m z)"
      "zn_lock (zones m' z) = zn_lock (zones m z)" "zn_memtype (zones m' z) = zn_memtype (zones m z)"
      "\<forall>y. y \<noteq> z \<longrightarrow> zones m' y = zones m y" "zone_zone m' = zone_zone m" by auto
    have "zcram_loop bs z mem sz m = Some m'" using True m'(1) by (subst zcram_loop.simps) simp
    with m' cl show ?thesis by (intro exI [of _ m']) auto
  qed
qed

section \<open>Zones as pools\<close>

text \<open>\<open>zone_pool z m L\<close>: the free list of the zone \<open>z\<close> is well formed; the objects \<open>L\<close>
  that are handed out are not in it and their hidden word names the zone; all buffers lie in memory
  that came from \<^verbatim>\<open>vm_kalloc_ll\<close>.\<close>

definition zone_pool ::
  "('v \<Rightarrow> bool) \<Rightarrow> ('v \<Rightarrow> nat set) \<Rightarrow> u32 \<Rightarrow> 'v zstate \<Rightarrow> u32 set \<Rightarrow> bool" where
  "zone_pool mem_ok taken z m L \<longleftrightarrow> (\<exists>xs. zone_ok m z xs \<and> z \<noteq> 0 \<and>
     4 < unat (zn_bufsize (zones m z)) \<and> mem_ok (zvm m) \<and>
     (\<forall>c\<in>set xs. unat c + 4 < 4294967296 \<and> unat c \<in> taken (zvm m)) \<and>
     (\<forall>k\<in>L. k - 4 \<notin> set xs \<and> k \<noteq> 0 \<and> k \<noteq> 4 \<and> zmem m (k - 4) = z \<and> unat (k - 4) + 4 < 4294967296 \<and>
       unat (k - 4) \<in> taken (zvm m)))"

lemma zone_poolE:
  assumes "zone_pool mem_ok taken z m L"
  obtains xs where "zone_ok m z xs" "z \<noteq> 0" "4 < unat (zn_bufsize (zones m z))" "mem_ok (zvm m)"
    "\<forall>c\<in>set xs. unat c + 4 < 4294967296 \<and> unat c \<in> taken (zvm m)"
    "\<forall>k\<in>L. k - 4 \<notin> set xs \<and> k \<noteq> 0 \<and> k \<noteq> 4 \<and> zmem m (k - 4) = z \<and> unat (k - 4) + 4 < 4294967296 \<and>
       unat (k - 4) \<in> taken (zvm m)"
  using assms unfolding zone_pool_def by blast

lemma remove_top_pool:
  assumes "zone_pool mem_ok taken z m L"
  shows "\<exists>r m'. remove_top z m = (r, m') \<and>
    (if r = 0 then m' = m else r \<notin> L \<and> zone_pool mem_ok taken z m' (insert r L)) \<and>
    zn_lock (zones m' z) = zn_lock (zones m z) \<and> zvm m' = zvm m \<and>
    (if r = 0 then zone_free z m = {} else r \<in> zone_free z m \<and> zone_free z m' = zone_free z m - {r})"
proof -
  from assms obtain xs where xs: "zone_ok m z xs" "z \<noteq> 0"
    "4 < unat (zn_bufsize (zones m z))" "mem_ok (zvm m)"
    "\<forall>c\<in>set xs. unat c + 4 < 4294967296 \<and> unat c \<in> taken (zvm m)"
    "\<forall>k\<in>L. k - 4 \<notin> set xs \<and> k \<noteq> 0 \<and> k \<noteq> 4 \<and> zmem m (k - 4) = z \<and> unat (k - 4) + 4 < 4294967296 \<and>
       unat (k - 4) \<in> taken (zvm m)"
    by (rule zone_poolE)
  show ?thesis
  proof (cases xs)
    case Nil
    then show ?thesis using xs(1) zone_ok_free(1) [OF xs(1)] by (simp add: zone_ok_def remove_top_def)
  next
    case (Cons c ys)
    let ?m = "snd (remove_top z m)"
    have top: "zn_freelist (zones m z) = c" "c \<noteq> 0" "free_chain (zmem m) (zmem m c) ys" "c \<notin> set ys" "distinct ys"
      using xs(1) Cons by (auto simp: zone_ok_def)
    have r: "remove_top z m = (c + 4, ?m)" using top by (simp add: remove_top_def Let_def sizeof_Pointer_def)
    have f: "zmem ?m = (zmem m)(c := z)" "zvm ?m = zvm m" "zn_lock (zones ?m z) = zn_lock (zones m z)"
      "zn_bufsize (zones ?m z) = zn_bufsize (zones m z)" "zn_freelist (zones ?m z) = zmem m c"
      "zn_count (zones ?m z) = zn_count (zones m z) - 1"
      using top by (simp_all add: remove_top_def Let_def)
    have "zn_count (zones m z) - 1 = of_nat (length ys)" using xs(1) Cons by (simp add: zone_ok_def)
    then have ok: "zone_ok ?m z ys" using top f by (simp add: zone_ok_def free_chain_frame)
    have c4: "unat (c + 4) = unat c + 4" using xs(5) Cons by (subst unat_add_u32) auto
    then have "unat (c + 4) \<noteq> 0" by simp
    then have "c + 4 \<noteq> 0" by auto
    moreover have "c + 4 \<noteq> 4" using top(2) by simp
    moreover have "c + 4 \<notin> L" using xs(6) Cons by force
    moreover have "\<forall>k\<in>insert (c + 4) L. k - 4 \<notin> set ys \<and> k \<noteq> 0 \<and> k \<noteq> 4 \<and> zmem ?m (k - 4) = z \<and>
        unat (k - 4) + 4 < 4294967296 \<and> unat (k - 4) \<in> taken (zvm ?m)"
      using xs(5,6) Cons top f(1,2) \<open>c + 4 \<noteq> 0\<close> \<open>c + 4 \<noteq> 4\<close> by auto
    moreover have "\<forall>x\<in>set ys. unat x + 4 < 4294967296 \<and> unat x \<in> taken (zvm ?m)" using xs(5) Cons f(2) by simp
    moreover have "mem_ok (zvm ?m)" "4 < unat (zn_bufsize (zones ?m z))" using xs(3,4) f by simp_all
    ultimately have "zone_pool mem_ok taken z ?m (insert (c + 4) L)"
      using ok xs(2) unfolding zone_pool_def by (intro exI [of _ ys] conjI)
    moreover have "c + 4 \<in> zone_free z m" "zone_free z ?m = zone_free z m - {c + 4}"
      using zone_ok_free(1) [OF xs(1)] zone_ok_free(1) [OF ok] Cons top(4) by auto
    ultimately show ?thesis using r f(2,3) \<open>c + 4 \<noteq> 0\<close> \<open>c + 4 \<notin> L\<close>
      by (intro exI [of _ "c + 4"] exI [of _ ?m]) simp
  qed
qed

text \<open>Giving an object back puts its buffer on top of the free list.\<close>

lemma zfree_pool:
  assumes p: "zone_pool mem_ok taken z m L" and l: "zn_lock (zones m z) = 0" and k: "k \<in> L"
    and inj: "\<forall>j\<in>L. j \<noteq> k \<longrightarrow> j - 4 \<noteq> k - 4"
  shows "\<exists>m'. zfree k m = Inr m' \<and> zone_pool mem_ok taken z m' (L - {k}) \<and> zn_lock (zones m' z) = 0 \<and>
    zn_freelist (zones m' z) = k - 4 \<and> zn_count (zones m' z) = zn_count (zones m z) + 1 \<and>
    zone_free z m' = insert k (zone_free z m)"
proof -
  from p obtain xs where xs: "zone_ok m z xs" "z \<noteq> 0" "4 < unat (zn_bufsize (zones m z))" "mem_ok (zvm m)"
    "\<forall>c\<in>set xs. unat c + 4 < 4294967296 \<and> unat c \<in> taken (zvm m)"
    "\<forall>k\<in>L. k - 4 \<notin> set xs \<and> k \<noteq> 0 \<and> k \<noteq> 4 \<and> zmem m (k - 4) = z \<and> unat (k - 4) + 4 < 4294967296 \<and>
       unat (k - 4) \<in> taken (zvm m)"
    by (rule zone_poolE)
  have k': "k \<noteq> 0" "k - 4 \<noteq> 0" "k - 4 \<notin> set xs" "zmem m (k - 4) = z" using xs(6) k by auto
  let ?m = "unlock_zone z (cram_one z (k - 4) (upd_zone z (\<lambda>c. c\<lparr>zn_lock := -1\<rparr>) m))"
  have r: "zfree k m = Inr ?m"
    using k' xs(2) l by (simp add: zfree_def lock_zone_def sizeof_Pointer_def cram_one_def Let_def)
  have "zone_ok (upd_zone z (\<lambda>c. c\<lparr>zn_lock := -1\<rparr>) m) z xs" using xs(1) by (simp add: zone_ok_def)
  from cram_one_ok [OF this k'(2,3)] have ok: "zone_ok ?m z ((k - 4) # xs)" by (simp add: unlock_zone_def zone_ok_def)
  have free: "zone_free z ?m = insert k (zone_free z m)" using zone_ok_free(1) [OF ok] zone_ok_free(1) [OF xs(1)] by simp
  note ok
  moreover have "\<forall>c\<in>set ((k - 4) # xs). unat c + 4 < 4294967296 \<and> unat c \<in> taken (zvm ?m)"
    using xs(5,6) k by (auto simp: unlock_zone_def)
  moreover have "\<forall>j\<in>L - {k}. j - 4 \<notin> set ((k - 4) # xs) \<and> j \<noteq> 0 \<and> j \<noteq> 4 \<and> zmem ?m (j - 4) = z \<and>
      unat (j - 4) + 4 < 4294967296 \<and> unat (j - 4) \<in> taken (zvm ?m)"
    using xs(6) inj by (auto simp: unlock_zone_def)
  moreover have "4 < unat (zn_bufsize (zones ?m z))" "mem_ok (zvm ?m)" using xs(3,4) by (simp_all add: unlock_zone_def)
  ultimately have "zone_pool mem_ok taken z ?m (L - {k})"
    using xs(2) unfolding zone_pool_def by (intro exI [of _ "(k - 4) # xs"] conjI)
  moreover have "zn_lock (zones ?m z) = 0" "zn_freelist (zones ?m z) = k - 4" "zn_count (zones ?m z) = zn_count (zones m z) + 1"
    by (simp_all add: unlock_zone_def cram_one_def Let_def)
  ultimately show ?thesis using r free by blast
qed

lemma zfree_zvm: "zfree k m = Inr m' \<Longrightarrow> zvm m' = zvm m"
  by (auto simp: zfree_def lock_zone_def unlock_zone_def Let_def res_inv split: if_splits)

lemma zone_pool_zvm:
  assumes "zone_pool mem_ok taken z m L" and "mem_ok v" and "taken (zvm m) \<subseteq> taken v"
  shows "zone_pool mem_ok taken z (m\<lparr>zvm := v\<rparr>) L"
  using assms by (elim zone_poolE) (auto simp: zone_pool_def zone_ok_def)

lemma zone_pool_lock: "zone_pool mem_ok taken z (upd_zone z (\<lambda>c. c\<lparr>zn_lock := l\<rparr>) m) L = zone_pool mem_ok taken z m L"
  by (simp add: zone_pool_def zone_ok_def)

text \<open>A zone takes its memory from one of two allocators, both over the same memory.\<close>

locale zone_memory = kernel_memory kalloc mem_ok taken + crit: kernel_memory kcrit mem_ok taken
  for kalloc :: "'v kalloc" and kcrit :: "'v kalloc" and mem_ok :: "'v \<Rightarrow> bool" and taken :: "'v \<Rightarrow> nat set"
begin

lemma refill_cases:
  assumes "mem_ok v"
  obtains v' where "(if c then kcrit (vm_refill v) n else kalloc v n) = Inr (None, v')" "mem_ok v'" "taken v' = taken v"
  | b s v' where "(if c then kcrit (vm_refill v) n else kalloc v n) = Inr (Some (b, s), v')" "mem_ok v'" "chunk_ok b s"
      "chunk b s \<inter> taken v = {}" "taken v' = taken v \<union> chunk b s"
proof (cases c)
  case True
  from assms show thesis by (cases rule: crit.kalloc_cases [where n = n]) (use True that in \<open>auto simp: vm_refill_def\<close>)
next
  case False
  from assms show thesis by (cases rule: kalloc_cases [where n = n]) (use False that in auto)
qed

text \<open>What a call on zone \<open>z\<close> leaves alone: the other zones, the memory that was not handed out, and,
  while the free list is empty, the memory that was.\<close>

definition zone_frame :: "u32 \<Rightarrow> 'v zstate \<Rightarrow> 'v zstate \<Rightarrow> bool" where
  "zone_frame z m m' \<longleftrightarrow> zone_zone m' = zone_zone m \<and> (\<forall>y. y \<noteq> z \<longrightarrow> zones m' y = zones m y) \<and>
     taken (zvm m) \<subseteq> taken (zvm m') \<and> (\<forall>c. unat c \<notin> taken (zvm m') \<longrightarrow> zmem m' c = zmem m c) \<and>
     (zn_freelist (zones m z) = 0 \<longrightarrow> (\<forall>c. unat c \<in> taken (zvm m) \<longrightarrow> zmem m' c = zmem m c))"

text \<open>Refilling: new memory is disjoint from everything in the pool.\<close>

lemma zrefill_pool:
  assumes "zone_pool mem_ok taken z m L"
  shows "\<exists>m'. zrefill_internal kalloc kcrit z mn num m = Inr m' \<and> zone_pool mem_ok taken z m' L \<and>
    zn_lock (zones m' z) = zn_lock (zones m z) \<and> taken (zvm m) \<subseteq> taken (zvm m') \<and>
    zone_zone m' = zone_zone m \<and> (\<forall>y. y \<noteq> z \<longrightarrow> zones m' y = zones m y) \<and>
    (\<forall>c. unat c \<notin> taken (zvm m') - taken (zvm m) \<longrightarrow> zmem m' c = zmem m c) \<and>
    (zn_freelist (zones m' z) = zn_freelist (zones m z) \<or> unat (zn_freelist (zones m' z)) \<in> taken (zvm m') - taken (zvm m)) \<and>
    (\<exists>N. zone_free z m' = zone_free z m \<union> N \<and> N \<inter> (zone_free z m \<union> L) = {} \<and> (zn_count (zones m z) < mn \<or> N = {}))"
proof (cases "zn_count (zones m z) < mn")
  case False
  then show ?thesis using assms by (simp add: zrefill_internal_def)
next
  case True
  from assms obtain xs where xs: "zone_ok m z xs" "z \<noteq> 0" "4 < unat (zn_bufsize (zones m z))" "mem_ok (zvm m)"
    "\<forall>c\<in>set xs. unat c + 4 < 4294967296 \<and> unat c \<in> taken (zvm m)"
    "\<forall>k\<in>L. k - 4 \<notin> set xs \<and> k \<noteq> 0 \<and> k \<noteq> 4 \<and> zmem m (k - 4) = z \<and> unat (k - 4) + 4 < 4294967296 \<and>
       unat (k - 4) \<in> taken (zvm m)"
    by (rule zone_poolE)
  let ?bs = "zn_bufsize (zones m z)"
  let ?c = "zn_memtype (zones m z) AND ZONE_AR_CRITICAL \<noteq> 0"
  from xs(4) show ?thesis
  proof (cases rule: refill_cases [where n = "?bs * num" and c = ?c])
    case (1 v)
    have "zone_pool mem_ok taken z (m\<lparr>zvm := v\<rparr>) L"
      using xs 1(2,3) unfolding zone_pool_def by (intro exI [of _ xs]) (simp add: zone_ok_def)
    with True 1(1,3) show ?thesis by (simp add: zrefill_internal_def Let_def exI [of _ "{}"])
  next
    case (2 b s v)
    let ?m = "m\<lparr>zvm := v\<rparr>" and ?cs = "cram_list (unat b) (unat s) (unat ?bs)"
    have bs: "0 < unat b" "unat b + unat s < 4294967296" "0 < unat ?bs" using 2(3) xs(3) by (auto simp: chunk_ok_def)
    have cs: "unat b \<le> unat c \<and> unat c + unat ?bs \<le> unat b + unat s" if "c \<in> set ?cs" for c
      using cram_list_mem [OF that] bs by simp
    then have new: "unat c \<in> chunk b s" if "c \<in> set ?cs" for c
      using cs [OF that] bs(3) by (auto simp: chunk_def)
    then have dis: "set ?cs \<inter> set xs = {}" "\<forall>k\<in>L. k - 4 \<notin> set ?cs" using 2(4) xs(5,6) by fastforce+
    have "zone_ok ?m z xs" using xs(1) by (simp add: zone_ok_def)
    from zcram_loop_ok [OF bs(3,2,1) this dis(1)] obtain m' where m': "zcram_loop ?bs z b s ?m = Some m'"
      "zone_ok m' z (rev ?cs @ xs)" "\<forall>c. c \<notin> set ?cs \<longrightarrow> zmem m' c = zmem ?m c" "zvm m' = zvm ?m"
      "zn_bufsize (zones m' z) = zn_bufsize (zones ?m z)" "zn_lock (zones m' z) = zn_lock (zones ?m z)"
      "\<forall>y. y \<noteq> z \<longrightarrow> zones m' y = zones ?m y" "zone_zone m' = zone_zone ?m" by blast
    have "\<forall>c\<in>set (rev ?cs @ xs). unat c + 4 < 4294967296 \<and> unat c \<in> taken (zvm m')"
      using cs new xs(3,5) bs(2) 2(5) m'(4) by fastforce
    moreover have "\<forall>k\<in>L. k - 4 \<notin> set (rev ?cs @ xs) \<and> k \<noteq> 0 \<and> k \<noteq> 4 \<and> zmem m' (k - 4) = z \<and>
        unat (k - 4) + 4 < 4294967296 \<and> unat (k - 4) \<in> taken (zvm m')"
      using xs(6) dis(2) m'(3,4) 2(5) by auto
    moreover have "4 < unat (zn_bufsize (zones m' z))" "mem_ok (zvm m')" using xs(3) m'(4,5) 2(2) by simp_all
    ultimately have "zone_pool mem_ok taken z m' L"
      using m'(2) xs(2) unfolding zone_pool_def by (intro exI [of _ "rev ?cs @ xs"] conjI)
    moreover have "b \<noteq> 0" using bs(1) by auto
    then have "zrefill_internal kalloc kcrit z mn num m = Inr m'"
      using True 2(1) m'(1) by (simp add: zrefill_internal_def zcram_internal_def Let_def)
    moreover have "zmem m' c = zmem m c" if "unat c \<notin> taken v - taken (zvm m)" for c
    proof -
      have "c \<notin> set ?cs" using new 2(4,5) that by blast
      then show ?thesis using m'(3) by simp
    qed
    moreover have "zn_freelist (zones m' z) = zn_freelist (zones m z) \<or> unat (zn_freelist (zones m' z)) \<in> taken v - taken (zvm m)"
    proof (cases "rev ?cs")
      case Nil
      then have "zone_ok m' z xs" using m'(2) by simp
      then show ?thesis using xs(1) by (cases xs) (auto simp: zone_ok_def)
    next
      case (Cons c cs)
      then have "zn_freelist (zones m' z) = c" "c \<in> set ?cs"
        using m'(2) set_rev [of ?cs] by (auto simp: zone_ok_def simp del: set_rev)
      then show ?thesis using new [of c] 2(4,5) by auto
    qed
    moreover have "\<exists>N. zone_free z m' = zone_free z m \<union> N \<and> N \<inter> (zone_free z m \<union> L) = {}"
    proof (intro exI conjI)
      show "zone_free z m' = zone_free z m \<union> (\<lambda>c. c + 4) ` set ?cs"
        using zone_ok_free(1) [OF m'(2)] zone_ok_free(1) [OF xs(1)] by auto
      show "(\<lambda>c. c + 4) ` set ?cs \<inter> (zone_free z m \<union> L) = {}"
        using zone_ok_free(1) [OF xs(1)] dis by auto
    qed
    ultimately show ?thesis using True 2(5) m'(4,6,7,8) by (intro exI [of _ m']) auto
  qed
qed

lemma zalloc_pool:
  assumes p: "zone_pool mem_ok taken z m L" and l: "zn_lock (zones m z) = 0"
  shows "\<exists>r m'. zalloc kalloc kcrit z m = Inr (r, m') \<and> zn_lock (zones m' z) = 0 \<and>
    (if r = 0 then zone_pool mem_ok taken z m' L else r \<notin> L \<and> zone_pool mem_ok taken z m' (insert r L)) \<and>
    zone_frame z m m' \<and> (\<exists>N. N \<inter> (zone_free z m \<union> L) = {} \<and>
      (N \<noteq> {} \<longrightarrow> zn_memtype (zones m z) AND ZONE_AUTO_REFILL \<noteq> 0 \<and> zn_count (zones m z) < 32) \<and>
      (if r = 0 then zone_free z m = {} \<and> N = {} \<and> zone_free z m' = {}
       else r \<in> zone_free z m \<union> N \<and> zone_free z m' = zone_free z m \<union> N - {r}))"
proof -
  let ?m1 = "upd_zone z (\<lambda>c. c\<lparr>zn_lock := -1\<rparr>) m"
  have z: "z \<noteq> 0" using p by (auto simp: zone_pool_def)
  have p1: "zone_pool mem_ok taken z ?m1 L" using p by (simp add: zone_pool_lock)
  obtain m2 where m2: "(if zn_memtype (zones ?m1 z) AND ZONE_AUTO_REFILL \<noteq> 0
        then zrefill_internal kalloc kcrit z 32 32 ?m1 else Inr ?m1) = Inr m2" "zone_pool mem_ok taken z m2 L"
    "taken (zvm m) \<subseteq> taken (zvm m2)" "zone_zone m2 = zone_zone m" "\<forall>y. y \<noteq> z \<longrightarrow> zones m2 y = zones ?m1 y"
    "\<forall>c. unat c \<notin> taken (zvm m2) - taken (zvm m) \<longrightarrow> zmem m2 c = zmem m c"
    "zn_freelist (zones m2 z) = zn_freelist (zones m z) \<or> unat (zn_freelist (zones m2 z)) \<in> taken (zvm m2) - taken (zvm m)"
    "\<exists>N. zone_free z m2 = zone_free z m \<union> N \<and> N \<inter> (zone_free z m \<union> L) = {} \<and>
      (N \<noteq> {} \<longrightarrow> zn_memtype (zones m z) AND ZONE_AUTO_REFILL \<noteq> 0 \<and> zn_count (zones m z) < 32)"
    using zrefill_pool [OF p1, of 32 32] p1
    by (cases "zn_memtype (zones ?m1 z) AND ZONE_AUTO_REFILL \<noteq> 0") auto
  obtain r m3 where m3: "remove_top z m2 = (r, m3)"
    "if r = 0 then m3 = m2 else r \<notin> L \<and> zone_pool mem_ok taken z m3 (insert r L)" "zvm m3 = zvm m2"
    "if r = 0 then zone_free z m2 = {} else r \<in> zone_free z m2 \<and> zone_free z m3 = zone_free z m2 - {r}"
    using remove_top_pool [OF m2(2)] by blast
  from m2(8) obtain N where N: "zone_free z m2 = zone_free z m \<union> N" "N \<inter> (zone_free z m \<union> L) = {}"
    "N \<noteq> {} \<longrightarrow> zn_memtype (zones m z) AND ZONE_AUTO_REFILL \<noteq> 0 \<and> zn_count (zones m z) < 32" by blast
  have "if r = 0 then zone_free z m = {} \<and> N = {} \<and> zone_free z (unlock_zone z m3) = {}
      else r \<in> zone_free z m \<union> N \<and> zone_free z (unlock_zone z m3) = zone_free z m \<union> N - {r}"
    using m3(2,4) N(1) by (auto split: if_splits)
  with N(2,3) have free: "\<exists>N. N \<inter> (zone_free z m \<union> L) = {} \<and>
      (N \<noteq> {} \<longrightarrow> zn_memtype (zones m z) AND ZONE_AUTO_REFILL \<noteq> 0 \<and> zn_count (zones m z) < 32) \<and>
      (if r = 0 then zone_free z m = {} \<and> N = {} \<and> zone_free z (unlock_zone z m3) = {}
       else r \<in> zone_free z m \<union> N \<and> zone_free z (unlock_zone z m3) = zone_free z m \<union> N - {r})" by blast
  have top: "zn_freelist (zones m2 z) \<noteq> 0 \<longrightarrow> unat (zn_freelist (zones m2 z)) \<in> taken (zvm m2)"
    using m2(2) by (elim zone_poolE) (auto simp: zone_ok_def dest: free_chain_head)
  have f3: "zone_zone m3 = zone_zone m2" "\<forall>y. y \<noteq> z \<longrightarrow> zones m3 y = zones m2 y"
    "zmem m3 = (if zn_freelist (zones m2 z) = 0 then zmem m2 else (zmem m2)(zn_freelist (zones m2 z) := z))"
    using m3(1) by (auto simp: remove_top_def Let_def split: if_splits)
  have "zone_frame z m (unlock_zone z m3)"
    unfolding zone_frame_def using m2(3-7) f3 m3(3) top by (auto simp: unlock_zone_def)
  moreover have "zalloc kalloc kcrit z m = Inr (r, unlock_zone z m3)"
    using z l m2(1) m3(1) by (simp add: zalloc_def lock_zone_def)
  moreover have "zone_pool mem_ok taken z (unlock_zone z m3) L' = zone_pool mem_ok taken z m3 L'" for L'
    by (simp add: unlock_zone_def zone_pool_def zone_ok_def)
  moreover have "zn_lock (zones (unlock_zone z m3) z) = 0" by (simp add: unlock_zone_def)
  moreover have "if r = 0 then zone_pool mem_ok taken z (unlock_zone z m3) L
      else r \<notin> L \<and> zone_pool mem_ok taken z (unlock_zone z m3) (insert r L)"
    using m2(2) m3(2) calculation(3) by (simp split: if_splits)
  ultimately show ?thesis using free by blast
qed

end

text \<open>As options: \<open>null_opt\<close> reads the address 0 as the null pointer.\<close>

definition null_opt :: "u32 \<Rightarrow> u32 option" where
  "null_opt p = (if p = 0 then None else Some p)"

definition zalloc_opt :: "'v kalloc \<Rightarrow> 'v kalloc \<Rightarrow> u32 \<Rightarrow> 'v zstate \<Rightarrow> (u32 option \<times> 'v zstate) res" where
  "zalloc_opt kalloc kcrit z m = rbind (zalloc kalloc kcrit z m) (\<lambda>(r, m). Inr (null_opt r, m))"

definition zfree_opt :: "u32 option \<Rightarrow> 'v zstate \<Rightarrow> 'v zstate res" where
  "zfree_opt k m = zfree (case k of None \<Rightarrow> 0 | Some p \<Rightarrow> p) m"

definition zone_idle ::
  "('v \<Rightarrow> bool) \<Rightarrow> ('v \<Rightarrow> nat set) \<Rightarrow> u32 \<Rightarrow> 'v zstate \<Rightarrow> u32 set \<Rightarrow> bool" where
  "zone_idle mem_ok taken z m L \<longleftrightarrow> zone_pool mem_ok taken z m L \<and> zn_lock (zones m z) = 0"

text \<open>Every zone over a kernel memory is a pool of objects.\<close>

sublocale zone_memory \<subseteq> zon: object_pool
  "zalloc_opt kalloc kcrit z" zfree_opt "zone_idle mem_ok taken z" "zone_free z" for z
proof unfold_locales
  fix m :: "'v zstate" and L
  assume p: "zone_idle mem_ok taken z m L"
  then obtain r m' where r: "zalloc kalloc kcrit z m = Inr (r, m')" "zn_lock (zones m' z) = 0"
    "if r = 0 then zone_pool mem_ok taken z m' L else r \<notin> L \<and> zone_pool mem_ok taken z m' (insert r L)"
    using zalloc_pool [of z m L] by (auto simp: zone_idle_def)
  then show "\<exists>r m'. zalloc_opt kalloc kcrit z m = Inr (r, m') \<and>
    (case r of None \<Rightarrow> zone_idle mem_ok taken z m' L
     | Some k \<Rightarrow> k \<notin> L \<and> zone_idle mem_ok taken z m' (insert k L))"
    by (cases "r = 0") (auto simp: zalloc_opt_def null_opt_def zone_idle_def)
next
  fix m :: "'v zstate" and L k
  assume p: "zone_idle mem_ok taken z m L" and k: "k \<in> L"
  have "\<forall>j\<in>L. j \<noteq> k \<longrightarrow> j - 4 \<noteq> k - 4" by simp
  with p k zfree_pool [of mem_ok taken z m L k]
  show "\<exists>m'. zfree_opt (Some k) m = Inr m' \<and> zone_idle mem_ok taken z m' (L - {k})"
    by (auto simp: zone_idle_def zfree_opt_def)
next
  fix m :: "'v zstate"
  show "zfree_opt None m = Inr m" by (simp add: zfree_opt_def zfree_def)
next
  fix m :: "'v zstate" and L
  assume "zone_idle mem_ok taken z m L"
  then have "zone_pool mem_ok taken z m L" by (simp add: zone_idle_def)
  then obtain xs where xs: "zone_ok m z xs" "\<forall>k\<in>L. k - 4 \<notin> set xs" unfolding zone_pool_def by blast
  then show "zone_free z m \<inter> L = {}" using zone_ok_free(1) [OF xs(1)] by auto
next
  fix m m' :: "'v zstate" and L r
  assume p: "zone_idle mem_ok taken z m L" and run: "zalloc_opt kalloc kcrit z m = Inr (r, m')"
  then obtain q where q: "zalloc kalloc kcrit z m = Inr (q, m')" "r = null_opt q" by (auto simp: zalloc_opt_def res_inv)
  with zalloc_pool [of z m L] p obtain N where "N \<inter> (zone_free z m \<union> L) = {}"
    "if q = 0 then zone_free z m = {} \<and> N = {} \<and> zone_free z m' = {}
     else q \<in> zone_free z m \<union> N \<and> zone_free z m' = zone_free z m \<union> N - {q}" by (auto simp: zone_idle_def)
  with q(2) show "\<exists>N. N \<inter> (zone_free z m \<union> L) = {} \<and> (case r of None \<Rightarrow> zone_free z m = {} \<and> N = {} \<and> zone_free z m' = {}
       | Some k \<Rightarrow> k \<in> zone_free z m \<union> N \<and> zone_free z m' = zone_free z m \<union> N - {k})"
    by (intro exI [of _ N]) (auto simp: null_opt_def split: if_splits)
next
  fix m m' :: "'v zstate" and L k
  assume p: "zone_idle mem_ok taken z m L" and k: "k \<in> L" and run: "zfree_opt (Some k) m = Inr m'"
  with zfree_pool [of mem_ok taken z m L k] show "zone_free z m' = insert k (zone_free z m)"
    by (auto simp: zone_idle_def zfree_opt_def)
qed

text \<open>While there is memory, a zone that refills itself hands out an object.\<close>

locale zone_supply = zone_memory kalloc kcrit mem_ok taken + kernel_supply kalloc mem_ok taken avail view say
  for kalloc :: "'v kalloc" and kcrit :: "'v kalloc" and mem_ok :: "'v \<Rightarrow> bool" and taken :: "'v \<Rightarrow> nat set"
    and avail :: "'v \<Rightarrow> nat" and view :: "'v \<Rightarrow> 'c" and say :: "nat \<Rightarrow> 'c \<Rightarrow> 'c"
begin

lemma zrefill_supply:
  assumes p: "zone_pool mem_ok taken z m L" and c: "zn_count (zones m z) < mn"
    and a: "zn_memtype (zones m z) AND ZONE_AR_CRITICAL = 0"
    and k: "0 < kmem_request (zn_bufsize (zones m z) * num)" "kmem_request (zn_bufsize (zones m z) * num) \<le> avail (zvm m)"
    and b: "unat (zn_bufsize (zones m z)) \<le> 4096 * kmem_request (zn_bufsize (zones m z) * num)"
  shows "\<exists>m'. zrefill_internal kalloc kcrit z mn num m = Inr m' \<and> zn_freelist (zones m' z) \<noteq> 0 \<and>
    card (zone_free z m') = card (zone_free z m) +
      4096 * kmem_request (zn_bufsize (zones m z) * num) div unat (zn_bufsize (zones m z)) \<and>
    avail (zvm m') = avail (zvm m) - kmem_request (zn_bufsize (zones m z) * num) \<and>
    view (zvm m') = say (kmem_request (zn_bufsize (zones m z) * num)) (view (zvm m))"
proof -
  from p obtain xs where xs: "zone_ok m z xs" "4 < unat (zn_bufsize (zones m z))" "mem_ok (zvm m)"
    "\<forall>c\<in>set xs. unat c + 4 < 4294967296 \<and> unat c \<in> taken (zvm m)" by (rule zone_poolE)
  let ?bs = "zn_bufsize (zones m z)" and ?k = "kmem_request (zn_bufsize (zones m z) * num)"
  obtain q s v where q: "kalloc (zvm m) (?bs * num) = Inr (Some (q, s), v)" "chunk_ok q s" "chunk q s \<inter> taken (zvm m) = {}"
    "s = of_nat (4096 * ?k)" "avail v = avail (zvm m) - ?k" "view v = say ?k (view (zvm m))"
    by (rule kalloc_enough [OF xs(3) k])
  let ?cs = "cram_list (unat q) (unat s) (unat ?bs)"
  have "4096 * ?k < 4294967296" using unat_u32_lt [of "?bs * num"] by (auto simp: kmem_request_def)
  then have s: "unat s = 4096 * ?k" unfolding q(4) by (rule unat_of_nat_u32)
  have bs: "0 < unat ?bs" "unat q + unat s < 4294967296" "0 < unat q" using q(2) xs(2) by (auto simp: chunk_ok_def)
  have "unat c \<in> chunk q s" if "c \<in> set ?cs" for c
    using cram_list_mem [OF that bs(2,1)] bs(1) by (auto simp: chunk_def)
  then have "set ?cs \<inter> set xs = {}" using q(3) xs(4) by fastforce
  moreover have "zone_ok (m\<lparr>zvm := v\<rparr>) z xs" using xs(1) by (simp add: zone_ok_def)
  ultimately obtain m' where m': "zcram_loop ?bs z q s (m\<lparr>zvm := v\<rparr>) = Some m'" "zone_ok m' z (rev ?cs @ xs)" "zvm m' = v"
    using zcram_loop_ok [OF bs] by fastforce
  have "?cs \<noteq> []" using b bs(1) s by (simp add: cram_list_simps(2))
  then have "zn_freelist (zones m' z) \<noteq> 0" using m'(2) by (auto simp: zone_ok_def dest!: free_chain_null)
  moreover have "card (zone_free z m') = card (zone_free z m) + 4096 * ?k div unat ?bs"
    using zone_ok_free(2) [OF m'(2)] zone_ok_free(2) [OF xs(1)] by (simp add: cram_list_def s)
  moreover have "q \<noteq> 0" using bs(3) by auto
  ultimately show ?thesis
    using c a q(1,5,6) m'(1,3) by (intro exI [of _ m']) (simp add: zrefill_internal_def zcram_internal_def Let_def)
qed

lemma zalloc_supply:
  assumes p: "zone_pool mem_ok taken z m L" and l: "zn_lock (zones m z) = 0" and c: "zn_count (zones m z) < 32"
    and a: "zn_memtype (zones m z) = ZONE_AUTO_REFILL"
    and k: "0 < kmem_request (zn_bufsize (zones m z) * 32)" "kmem_request (zn_bufsize (zones m z) * 32) \<le> avail (zvm m)"
    and b: "unat (zn_bufsize (zones m z)) \<le> 4096 * kmem_request (zn_bufsize (zones m z) * 32)"
  obtains r m' where "zalloc kalloc kcrit z m = Inr (r, m')" "r \<noteq> 0" "r \<notin> L" "zone_idle mem_ok taken z m' (insert r L)"
    "zone_frame z m m'" "avail (zvm m') = avail (zvm m) - kmem_request (zn_bufsize (zones m z) * 32)"
    "view (zvm m') = say (kmem_request (zn_bufsize (zones m z) * 32)) (view (zvm m))"
    "card (zone_free z m') + 1 = card (zone_free z m) + 4096 * kmem_request (zn_bufsize (zones m z) * 32) div unat (zn_bufsize (zones m z))"
proof -
  let ?m1 = "upd_zone z (\<lambda>c. c\<lparr>zn_lock := -1\<rparr>) m" and ?k = "kmem_request (zn_bufsize (zones m z) * 32)"
  have z: "z \<noteq> 0" using p by (auto simp: zone_pool_def)
  have p1: "zone_pool mem_ok taken z ?m1 L" using p by (simp add: zone_pool_lock)
  obtain m2 where m2: "zrefill_internal kalloc kcrit z 32 32 ?m1 = Inr m2" "zn_freelist (zones m2 z) \<noteq> 0"
    "avail (zvm m2) = avail (zvm m) - ?k" "view (zvm m2) = say ?k (view (zvm m))"
    "card (zone_free z m2) = card (zone_free z m) + 4096 * ?k div unat (zn_bufsize (zones m z))"
    using zrefill_supply [OF p1, of 32 32] c a k b by (auto simp: ZONE_AUTO_REFILL_def ZONE_AR_CRITICAL_def)
  have p2: "zone_pool mem_ok taken z m2 L" using zrefill_pool [OF p1, of 32 32] m2(1) by auto
  then have "unat (zn_freelist (zones m2 z)) + 4 < 4294967296"
    using m2(2) by (elim zone_poolE) (auto simp: zone_ok_def dest: free_chain_head)
  then have "unat (zn_freelist (zones m2 z) + 4) \<noteq> 0" by (subst unat_add_u32) auto
  then have top: "zn_freelist (zones m2 z) + 4 \<noteq> 0" by (metis unat_0)
  have run: "zalloc kalloc kcrit z m = Inr (zn_freelist (zones m2 z) + 4, unlock_zone z (snd (remove_top z m2)))"
    using z l a m2(1,2) by (simp add: zalloc_def lock_zone_def ZONE_AUTO_REFILL_def remove_top_def Let_def sizeof_Pointer_def)
  have "zvm (unlock_zone z (snd (remove_top z m2))) = zvm m2" by (simp add: unlock_zone_def remove_top_def Let_def)
  moreover have "card (zone_free z (unlock_zone z (snd (remove_top z m2)))) + 1 = card (zone_free z m2)"
  proof -
    obtain xs where "zone_ok m2 z xs" using p2 by (rule zone_poolE)
    then have "finite (zone_free z m2)" by (rule zone_ok_free)
    moreover have "fst (remove_top z m2) \<noteq> 0" using m2(2) top by (simp add: remove_top_def Let_def sizeof_Pointer_def)
    ultimately obtain r where "r \<in> zone_free z m2" "zone_free z (snd (remove_top z m2)) = zone_free z m2 - {r}"
      using remove_top_pool [OF p2] by auto
    then show ?thesis using \<open>finite (zone_free z m2)\<close> card_Suc_Diff1 [of "zone_free z m2" r] by simp
  qed
  ultimately show thesis using that [OF run top] zalloc_pool [OF p l] run top m2(3,4,5) by (auto simp: zone_idle_def)
qed

lemma zalloc_enough:
  assumes p: "zone_pool mem_ok taken z m L" and l: "zn_lock (zones m z) = 0" and a: "zn_memtype (zones m z) = ZONE_AUTO_REFILL"
    and k: "0 < kmem_request (zn_bufsize (zones m z) * 32)" "kmem_request (zn_bufsize (zones m z) * 32) + n \<le> avail (zvm m)"
    and b: "unat (zn_bufsize (zones m z)) \<le> 4096 * kmem_request (zn_bufsize (zones m z) * 32)"
  obtains r m' where "zalloc kalloc kcrit z m = Inr (r, m')" "r \<noteq> 0" "n \<le> avail (zvm m')"
proof (cases "zn_count (zones m z) < 32")
  case True
  have "kmem_request (zn_bufsize (zones m z) * 32) \<le> avail (zvm m)" using k(2) by simp
  from zalloc_supply [OF p l True a k(1) this b] k(2) that show thesis by (metis add_le_imp_le_diff add.commute)
next
  case False
  obtain r m' where r: "zalloc kalloc kcrit z m = Inr (r, m')"
    "r = 0 \<longrightarrow> zone_free z m = {}" using zalloc_pool [OF p l] by (auto split: if_splits)
  obtain xs where xs: "zone_ok m z xs" using p by (rule zone_poolE)
  have "xs \<noteq> []" using xs False by (auto simp: zone_ok_def)
  then have "r \<noteq> 0" using r(2) zone_ok_free(1) [OF xs] by auto
  moreover have "zvm m' = zvm m"
    using r(1) False l a p
    by (auto simp: zalloc_def lock_zone_def zrefill_internal_def unlock_zone_def remove_top_def Let_def res_inv zone_pool_def split: if_splits)
  ultimately show thesis using that r(1) k(2) by simp
qed

end

text \<open>A zone keeps its objects while others are worked on.\<close>

lemma zone_idle_frame:
  assumes "zone_idle mem_ok taken z m L" and "mem_ok (zvm m')" and "taken (zvm m) \<subseteq> taken (zvm m')"
    and "zones m' z = zones m z" and "\<forall>c. unat c \<in> taken (zvm m) \<longrightarrow> zmem m' c = zmem m c"
  shows "zone_idle mem_ok taken z m' L"
proof -
  have chain: "free_chain (zmem m) p xs = free_chain (zmem m') p xs" if "\<forall>c\<in>set xs. unat c \<in> taken (zvm m)" for p xs
    using that assms(5) by (induction xs arbitrary: p) auto
  from assms(1) have "zone_pool mem_ok taken z m L" "zn_lock (zones m z) = 0" by (simp_all add: zone_idle_def)
  then obtain xs where xs: "zone_ok m z xs" "z \<noteq> 0" "4 < unat (zn_bufsize (zones m z))"
    "\<forall>c\<in>set xs. unat c + 4 < 4294967296 \<and> unat c \<in> taken (zvm m)"
    "\<forall>k\<in>L. k - 4 \<notin> set xs \<and> k \<noteq> 0 \<and> k \<noteq> 4 \<and> zmem m (k - 4) = z \<and> unat (k - 4) + 4 < 4294967296 \<and>
       unat (k - 4) \<in> taken (zvm m)" by (elim zone_poolE)
  have "zone_ok m' z xs" using xs(1,4) chain [of xs] assms(4) by (simp add: zone_ok_def)
  moreover have "\<forall>c\<in>set xs. unat c + 4 < 4294967296 \<and> unat c \<in> taken (zvm m')" using xs(4) assms(3) by auto
  moreover have "\<forall>k\<in>L. k - 4 \<notin> set xs \<and> k \<noteq> 0 \<and> k \<noteq> 4 \<and> zmem m' (k - 4) = z \<and> unat (k - 4) + 4 < 4294967296 \<and>
       unat (k - 4) \<in> taken (zvm m')" using xs(5) assms(3,5) by auto
  ultimately have "zone_pool mem_ok taken z m' L"
    using xs(2,3) assms(2,4) unfolding zone_pool_def by (intro exI [of _ xs]) simp
  with \<open>zn_lock (zones m z) = 0\<close> assms(4) show ?thesis by (simp add: zone_idle_def)
qed

lemma zone_free_frame:
  assumes "zone_idle mem_ok taken z m L" and "zones m' z = zones m z" and "\<forall>c. unat c \<in> taken (zvm m) \<longrightarrow> zmem m' c = zmem m c"
  shows "zone_free z m' = zone_free z m"
proof -
  obtain xs where xs: "zone_ok m z xs" "\<forall>c\<in>set xs. unat c + 4 < 4294967296 \<and> unat c \<in> taken (zvm m)"
    using assms(1) unfolding zone_idle_def zone_pool_def by blast
  have "free_chain (zmem m) p ys = free_chain (zmem m') p ys" if "\<forall>c\<in>set ys. unat c \<in> taken (zvm m)" for p ys
    using that assms(3) by (induction ys arbitrary: p) auto
  then have "zone_ok m' z xs" using xs assms(2) by (simp add: zone_ok_def)
  then show ?thesis using zone_ok_free(1) [of m' z xs] zone_ok_free(1) [OF xs(1)] by simp
qed

section \<open>Properties\<close>

text \<open>\<^verbatim>\<open>calc_bufsize\<close> ends for every size below \<open>2^32 - 132\<close>, with room for the
  object and the hidden word: a power of two up to a cache line (128 bytes), less than twice what
  is needed, or a multiple of a line, wasting less than one.\<close>

theorem calc_bufsize_correct:
  assumes "unat sz + 4 \<le> 4294967168"
  shows "\<exists>n. calc_bufsize sz = Some n \<and> unat sz + 4 \<le> unat n \<and>
    (128 dvd unat n \<and> unat n < unat sz + 132 \<or> (\<exists>j\<le>7. unat n = 2 ^ j \<and> unat n < 2 * (unat sz + 4)))"
  by (rule calc_bufsize_ok [OF assms])

theorem calc_bufsize_correct_witness:
  "\<exists>n. calc_bufsize 200 = Some n \<and> 204 \<le> unat n"
  using calc_bufsize_correct [of 200] by auto

text \<open>\<^verbatim>\<open>zcram\<close> of a chunk of memory that has no buffer of the zone cuts it into
  \<open>size div bufsize\<close> buffers, \<open>bufsize\<close> apart, and puts them on the free list, the last one
  first; the counter counts them, the lock is free afterwards, and no other zone and no other
  memory changes.\<close>

theorem zcram_correct:
  assumes "zone_ok m z xs" and "zn_lock (zones m z) = 0" and "z \<noteq> 0" and "0 < unat (zn_bufsize (zones m z))"
    and "0 < unat mem" and "unat mem + unat sz < 4294967296"
    and "set (cram_list (unat mem) (unat sz) (unat (zn_bufsize (zones m z)))) \<inter> set xs = {}"
  shows "\<exists>m'. zcram z mem sz m = Inr m' \<and> zn_lock (zones m' z) = 0 \<and>
    zone_ok m' z (rev (cram_list (unat mem) (unat sz) (unat (zn_bufsize (zones m z)))) @ xs) \<and>
    zn_count (zones m' z) = zn_count (zones m z) + of_nat (unat sz div unat (zn_bufsize (zones m z))) \<and>
    (\<forall>y. y \<noteq> z \<longrightarrow> zones m' y = zones m y) \<and>
    (\<forall>c. c \<notin> set (cram_list (unat mem) (unat sz) (unat (zn_bufsize (zones m z)))) \<longrightarrow> zmem m' c = zmem m c)"
proof -
  let ?m1 = "upd_zone z (\<lambda>c. c\<lparr>zn_lock := -1\<rparr>) m" and ?bs = "zn_bufsize (zones m z)"
  have "zone_ok ?m1 z xs" using assms(1) by (simp add: zone_ok_def)
  from zcram_loop_ok [OF assms(4,6,5) this assms(7)] obtain m' where m':
    "zcram_loop ?bs z mem sz ?m1 = Some m'"
    "zone_ok m' z (rev (cram_list (unat mem) (unat sz) (unat ?bs)) @ xs)"
    "\<forall>c. c \<notin> set (cram_list (unat mem) (unat sz) (unat ?bs)) \<longrightarrow> zmem m' c = zmem ?m1 c"
    "\<forall>y. y \<noteq> z \<longrightarrow> zones m' y = zones ?m1 y" by blast
  have "mem \<noteq> 0" using assms(5) by auto
  then have "zcram z mem sz m = Inr (unlock_zone z m')"
    using assms(2,3) m'(1) by (simp add: zcram_def lock_zone_def zcram_internal_def)
  moreover have "zone_ok (unlock_zone z m') z us = zone_ok m' z us" for us
    by (simp add: unlock_zone_def zone_ok_def)
  moreover have "zn_count (zones m' z) = zn_count (zones m z) + of_nat (unat sz div unat ?bs)"
    using m'(2) assms(1) by (simp add: zone_ok_def cram_list_def add.commute)
  ultimately show ?thesis using m'(2-4) by (intro exI [of _ "unlock_zone z m'"]) (simp add: unlock_zone_def)
qed

definition example_zone :: "unit zstate" where
  "example_zone = \<lparr>zmem = \<lambda>_. 0, zones = \<lambda>_. \<lparr>zn_bufsize = 32, zn_freelist = 0, zn_name = ''z'', zn_count = 0,
     zn_memtype = 0, zn_lock = 0\<rparr>, zone_zone = 0, zvm = ()\<rparr>"

theorem zcram_correct_witness:
  "\<exists>m'. zcram 8 4096 100 example_zone = Inr m' \<and> zone_ok m' 8 [4160, 4128, 4096] \<and> zn_count (zones m' 8) = 3"
proof -
  have "cram_list 4096 100 32 = [4096, 4128, 4160]" by (simp add: cram_list_def upt_rec)
  moreover have "zone_ok example_zone 8 []" by (simp add: zone_ok_def example_zone_def)
  ultimately show ?thesis
    using zcram_correct [of example_zone 8 "[]" 4096 100] by (simp add: example_zone_def) blast
qed

text \<open>Round trip: an object that \<^verbatim>\<open>zfree\<close> puts back is the next one that a zone without
  automatic refill hands out, and afterwards the zone's free list and counter are as they were
  before both calls.\<close>

theorem zfree_zalloc_round_trip:
  assumes "zone_ok m z xs" and "z \<noteq> 0" and "zn_lock (zones m z) = 0" and "zn_memtype (zones m z) AND ZONE_AUTO_REFILL = 0"
    and "k \<noteq> 0" and "k \<noteq> 4" and "k - 4 \<notin> set xs" and "zmem m (k - 4) = z"
  shows "\<exists>m1 m2. zfree k m = Inr m1 \<and> zone_ok m1 z ((k - 4) # xs) \<and> zalloc kalloc kcrit z m1 = Inr (k, m2) \<and>
    zone_ok m2 z xs \<and> zmem m2 = zmem m \<and> zones m2 z = zones m z"
proof -
  obtain bs fl nm ct mt where z: "zones m z = \<lparr>zn_bufsize = bs, zn_freelist = fl, zn_name = nm, zn_count = ct,
      zn_memtype = mt, zn_lock = 0\<rparr>" using assms(3) by (cases "zones m z") auto
  let ?m1 = "unlock_zone z (cram_one z (k - 4) (upd_zone z (\<lambda>c. c\<lparr>zn_lock := -1\<rparr>) m))"
  have k4: "k - 4 \<noteq> 0" using assms(6) by simp
  have r1: "zfree k m = Inr ?m1"
    using assms by (simp add: zfree_def lock_zone_def sizeof_Pointer_def cram_one_def Let_def)
  have "zone_ok (upd_zone z (\<lambda>c. c\<lparr>zn_lock := -1\<rparr>) m) z xs" using assms(1) by (simp add: zone_ok_def)
  from cram_one_ok [OF this k4 assms(7)] have ok1: "zone_ok ?m1 z ((k - 4) # xs)"
    by (simp add: unlock_zone_def zone_ok_def)
  let ?m2 = "unlock_zone z (snd (remove_top z (upd_zone z (\<lambda>c. c\<lparr>zn_lock := -1\<rparr>) ?m1)))"
  have r2: "zalloc kalloc kcrit z ?m1 = Inr (k, ?m2)"
    using assms(2,4) k4 z
    by (simp add: zalloc_def lock_zone_def remove_top_def unlock_zone_def cram_one_def Let_def sizeof_Pointer_def)
  have "zmem ?m2 = zmem m" "zones ?m2 z = zones m z"
    using k4 z assms(8) by (auto simp: remove_top_def unlock_zone_def cram_one_def Let_def)
  with r1 ok1 r2 assms(1) show ?thesis by (intro exI [of _ ?m1] exI [of _ ?m2]) (simp add: zone_ok_def)
qed

theorem zfree_zalloc_round_trip_witness:
  "\<exists>m1 m2. zfree 4100 (example_zone\<lparr>zmem := \<lambda>_. 8\<rparr>) = Inr m1 \<and>
    zalloc (\<lambda>v n. Inr (None, v)) (\<lambda>v n. Inr (None, v)) 8 m1 = Inr (4100, m2) \<and> zone_ok m2 8 []"
  using zfree_zalloc_round_trip [of "example_zone\<lparr>zmem := \<lambda>_. 8\<rparr>" 8 "[]" 4100
      "\<lambda>v n. Inr (None, v)" "\<lambda>v n. Inr (None, v)"]
  by (auto simp: example_zone_def zone_ok_def)

end
