(* ===== verification/Phys_Mem.thy ===== *)
theory Phys_Mem
  imports Spinlock
begin

text \<open>
  The physical page allocator: \<open>system/physmem/phys_bmainit.c\<close> sets up one bitmap per memory
  range inside the static array \<^verbatim>\<open>bitmap_block\<close>, \<open>system/physmem/phys_bmalloc.c\<close>
  allocates and frees pages in them.

  The state \<open>phys_state\<close> holds the file-level variables of both files: the static set
  \<^verbatim>\<open>prealloc_bmas\<close> (its fields \<open>pmb_n_maps\<close> and \<open>pmb_lock\<close>; its
  \<^verbatim>\<open>pmb_maps\<close> is the static array of pointers), the bitmaps' descriptors, and the
  bitmap block, an array of \<open>UNUMBER\<close> words indexed by number. A pointer into the block is
  an index. The abstraction is the set \<open>used_slots\<close> of pairs (bitmap, bit).
\<close>

section \<open>State\<close>

record physmem_range =
  pm_begin :: paddr
  pm_end :: paddr

record physmem_bmalloc =
  pmb_range :: physmem_range
  pmb_bitmap :: nat
  pmb_length :: paddr

record phys_state =
  prealloc_pbma :: "physmem_bmalloc list"
  prealloc_pbma_ptr :: "nat option list"
  pmb_n_maps :: u32
  pmb_lock :: kspinlock_t
  bitmap_block :: "nat \<Rightarrow> u32"

definition UNUMBER :: nat where
  "UNUMBER = 0x1000"

definition NNUMBER :: nat where
  "NNUMBER = 0x10"

definition DIV_32 :: "nat \<Rightarrow> nat" where
  "DIV_32 x = drop_bit 5 x"

definition MUL_32 :: "u32 \<Rightarrow> u32" where
  "MUL_32 x = push_bit 5 x"

definition MOD_32 :: "nat \<Rightarrow> nat" where
  "MOD_32 x = x AND 31"

definition BIT_32 :: "nat \<Rightarrow> u32" where
  "BIT_32 x = push_bit (MOD_32 x) 1"

definition MUL_PAGESIZE :: "u32 \<Rightarrow> u32" where
  "MUL_PAGESIZE x = push_bit 12 x"

definition DIV_PAGESIZE :: "u32 \<Rightarrow> u32" where
  "DIV_PAGESIZE x = drop_bit 12 x"

definition bitmap_get :: "phys_state \<Rightarrow> nat \<Rightarrow> u32 res" where
  "bitmap_get st k = (if k < UNUMBER then Inr (bitmap_block st k) else Inl Bad_Access)"

definition bitmap_put :: "phys_state \<Rightarrow> nat \<Rightarrow> u32 \<Rightarrow> phys_state res" where
  "bitmap_put st k w =
     (if k < UNUMBER then Inr (st\<lparr>bitmap_block := (bitmap_block st)(k := w)\<rparr>) else Inl Bad_Access)"

text \<open>\<^verbatim>\<open>pmas->pmb_maps[i]\<close>: an entry of the pointer array, followed.\<close>

definition pmas_map :: "phys_state \<Rightarrow> nat \<Rightarrow> physmem_bmalloc res" where
  "pmas_map st i =
     rbind (require (i < length (prealloc_pbma_ptr st)) Bad_Access) (\<lambda>_.
     rbind (deref (prealloc_pbma_ptr st ! i)) (\<lambda>k.
     rbind (require (k < length (prealloc_pbma st)) Bad_Access) (\<lambda>_.
     Inr (prealloc_pbma st ! k))))"

section \<open>Allocation and release (phys_bmalloc.c)\<close>

function bitmap_search_from ::
  "phys_state \<Rightarrow> physmem_bmalloc \<Rightarrow> nat \<Rightarrow> (paddr option \<times> phys_state) res" where
  "bitmap_search_from st pmbm i =
     (if i < unat (pmb_length pmbm) then
        rbind (bitmap_get st (pmb_bitmap pmbm + DIV_32 i)) (\<lambda>w.
        if w AND BIT_32 i \<noteq> 0 then bitmap_search_from st pmbm (Suc i)
        else rbind (bitmap_put st (pmb_bitmap pmbm + DIV_32 i) (w OR BIT_32 i)) (\<lambda>st.
             Inr (Some (MUL_PAGESIZE (of_nat i) + pm_begin (pmb_range pmbm)), st)))
      else Inr (None, st))"
  by pat_completeness auto
termination
  by (relation "measure (\<lambda>(st, pmbm, i). unat (pmb_length pmbm) - i)") auto

definition bitmap_search ::
  "phys_state \<Rightarrow> physmem_bmalloc \<Rightarrow> (paddr option \<times> phys_state) res" where
  "bitmap_search st pmbm = bitmap_search_from st pmbm 0"

function phys_alloc_from :: "nat \<Rightarrow> nat \<Rightarrow> phys_state \<Rightarrow> (paddr option \<times> phys_state) res" where
  "phys_alloc_from n i st =
     (if i < n then
        rbind (pmas_map st i) (\<lambda>pmbm.
        rbind (bitmap_search st pmbm) (\<lambda>(r, st).
        case r of Some p \<Rightarrow> Inr (Some p, st) | None \<Rightarrow> phys_alloc_from n (Suc i) st))
      else Inr (None, st))"
  by pat_completeness auto
termination
  by (relation "measure (\<lambda>(n, i, st). n - i)") auto

text \<open>The status of the C function, \<open>-1\<close> or 0, is \<open>Some\<close> or \<open>None\<close> of the page it
  stored in \<^verbatim>\<open>*res\<close>.\<close>

definition vm_phys_alloc :: "phys_state \<Rightarrow> (paddr option \<times> phys_state) res" where
  "vm_phys_alloc st =
     rbind (kernlock_lock (pmb_lock st)) (\<lambda>l.
     rbind (phys_alloc_from (unat (pmb_n_maps st)) 0 (st\<lparr>pmb_lock := l\<rparr>)) (\<lambda>(r, st).
     Inr (r, st\<lparr>pmb_lock := kernlock_unlock (pmb_lock st)\<rparr>)))"

function phys_free_from :: "nat \<Rightarrow> nat \<Rightarrow> paddr \<Rightarrow> phys_state \<Rightarrow> (int \<times> phys_state) res" where
  "phys_free_from n i page st =
     (if i < n then
        rbind (pmas_map st i) (\<lambda>pmbm.
        if pm_begin (pmb_range pmbm) < page \<or> pm_end (pmb_range pmbm) \<ge> page
        then phys_free_from n (Suc i) page st
        else let j = unat (DIV_PAGESIZE (page - pm_begin (pmb_range pmbm))) in
          rbind (bitmap_get st (pmb_bitmap pmbm + DIV_32 j)) (\<lambda>w.
          rbind (bitmap_put st (pmb_bitmap pmbm + DIV_32 j) (w AND NOT (BIT_32 j))) (\<lambda>st.
          Inr (-1, st))))
      else Inr (0, st))"
  by pat_completeness auto
termination
  by (relation "measure (\<lambda>(n, i, page, st). n - i)") auto

definition vm_phys_free :: "phys_state \<Rightarrow> paddr \<Rightarrow> (int \<times> phys_state) res" where
  "vm_phys_free st page =
     rbind (kernlock_lock (pmb_lock st)) (\<lambda>l.
     rbind (phys_free_from (unat (pmb_n_maps st)) 0 page (st\<lparr>pmb_lock := l\<rparr>)) (\<lambda>(r, st).
     Inr (r, st\<lparr>pmb_lock := kernlock_unlock (pmb_lock st)\<rparr>)))"

section \<open>Boot-time initialisation (phys_bmainit.c)\<close>

text \<open>The inner loop clears \<open>n\<close> words from \<open>cur\<close> on and stops early at the end of the
  block; it returns the number of words cleared.\<close>

function bitmap_clear :: "nat \<Rightarrow> nat \<Rightarrow> nat \<Rightarrow> (nat \<Rightarrow> u32) \<Rightarrow> nat \<times> (nat \<Rightarrow> u32)" where
  "bitmap_clear cur n j blk =
     (if j < n then
        if cur + j \<ge> UNUMBER then (j, blk)
        else bitmap_clear cur n (Suc j) (blk(cur + j := 0))
      else (j, blk))"
  by pat_completeness auto
termination
  by (relation "measure (\<lambda>(cur, n, j, blk). n - j)") auto

text \<open>One iteration of the loop over the ranges, up to the assignment of
  \<^verbatim>\<open>bitmap_current\<close> (here \<open>cur\<close>, and \<open>j\<close> the words it advances by): the map is
  counted and entered in the pointer array, its words are cleared, its descriptor is filled in.\<close>

definition bootinit_range :: "physmem_range \<Rightarrow> nat \<Rightarrow> nat \<Rightarrow> phys_state \<Rightarrow> nat \<times> phys_state" where
  "bootinit_range r i cur st =
     (let st = st\<lparr>pmb_n_maps := pmb_n_maps st + 1,
                  prealloc_pbma_ptr := (prealloc_pbma_ptr st)[i := Some i]\<rparr>;
          m = DIV_PAGESIZE (pm_end r - pm_begin r);
          n = DIV_32 (unat (m + 31));
          (j, blk) = bitmap_clear cur n 0 (bitmap_block st);
          k0 = MUL_32 (of_nat j);
          k = (if k0 > m then m else k0)
      in (j, st\<lparr>prealloc_pbma := (prealloc_pbma st)
                  [i := \<lparr>pmb_range = r, pmb_bitmap = cur, pmb_length = k\<rparr>],
                bitmap_block := blk\<rparr>))"

text \<open>The loop. The result is the return value, what was stored in \<^verbatim>\<open>*Pi\<close> and
  \<^verbatim>\<open>*Pt\<close> if they were written, and the state.\<close>

function bootinit_from ::
  "physmem_range list \<Rightarrow> nat \<Rightarrow> nat \<Rightarrow> nat \<Rightarrow> phys_state \<Rightarrow> (int \<times> (nat \<times> paddr) option \<times> phys_state) res"
where
  "bootinit_from rng n_ranges i cur st =
     (if i < n_ranges then
        rbind (require (i < length rng) Bad_Access) (\<lambda>_.
        let r = rng ! i in
        if i \<ge> NNUMBER then Inr (-1, Some (i, pm_begin r), st)
        else
          let (j, st) = bootinit_range r i cur st;
              cur = cur + j
          in if cur \<ge> UNUMBER then
               let t = pm_begin r + MUL_PAGESIZE (MUL_32 (of_nat j)) in
               Inr (if t \<ge> pm_end r \<and> Suc i \<ge> n_ranges then 0 else -1, Some (i, t), st)
             else bootinit_from rng n_ranges (Suc i) cur st)
      else Inr (0, None, st))"
  by pat_completeness auto
termination
  by (relation "measure (\<lambda>(rng, n, i, cur, st). n - i)") auto

definition vm_phys_bm_bootinit ::
  "physmem_range list \<Rightarrow> u32 \<Rightarrow> phys_state \<Rightarrow> (int \<times> (nat \<times> paddr) option \<times> phys_state) res" where
  "vm_phys_bm_bootinit rng n_ranges st =
     bootinit_from rng (unat n_ranges) 0 0
       (st\<lparr>pmb_n_maps := 0, pmb_lock := kernlock_init (pmb_lock st)\<rparr>)"

text \<open>The static variables before the call: all zero.\<close>

definition phys_static :: phys_state where
  "phys_static =
     \<lparr>prealloc_pbma = replicate NNUMBER
        \<lparr>pmb_range = \<lparr>pm_begin = 0, pm_end = 0\<rparr>, pmb_bitmap = 0, pmb_length = 0\<rparr>,
      prealloc_pbma_ptr = replicate NNUMBER None, pmb_n_maps = 0, pmb_lock = 0,
      bitmap_block = (\<lambda>_. 0)\<rparr>"

declare bitmap_search_from.simps [simp del] phys_alloc_from.simps [simp del]
  phys_free_from.simps [simp del] bitmap_clear.simps [simp del] bootinit_from.simps [simp del]

section \<open>Bits and words\<close>

lemma MOD_32_mod [simp]: "MOD_32 i = i mod 32"
proof -
  have "i AND 31 = take_bit 5 i" by (simp add: take_bit_eq_mask mask_eq_exp_minus_1)
  then show ?thesis by (simp add: MOD_32_def take_bit_eq_mod)
qed

lemma DIV_32_div [simp]: "DIV_32 i = i div 32"
  by (simp add: DIV_32_def drop_bit_eq_div)

lemma BIT_32_test: "w AND BIT_32 i \<noteq> 0 \<longleftrightarrow> bit w (i mod 32)"
  by (simp add: BIT_32_def bit_iff_and_push_bit_not_eq_0)

lemma BIT_32_set: "bit (w OR BIT_32 i) k \<longleftrightarrow> bit w k \<or> k = i mod 32"
  by (auto simp: BIT_32_def bit_or_iff bit_exp_iff)

lemma unat_DIV_PAGESIZE: "unat (DIV_PAGESIZE x) = unat x div 4096"
  by (simp add: DIV_PAGESIZE_def drop_bit_eq_div unat_div)

lemma unat_MUL_PAGESIZE: "n * 4096 < 4294967296 \<Longrightarrow> unat (MUL_PAGESIZE (of_nat n)) = n * 4096"
proof -
  assume "n * 4096 < 4294967296"
  moreover have "MUL_PAGESIZE (of_nat n) = of_nat (n * 4096)"
    by (simp add: MUL_PAGESIZE_def push_bit_eq_mult)
  ultimately show ?thesis by (simp only: unat_of_nat_u32)
qed

lemma unat_MUL_32: "n * 32 < 4294967296 \<Longrightarrow> unat (MUL_32 (of_nat n)) = n * 32"
proof -
  assume "n * 32 < 4294967296"
  moreover have "MUL_32 (of_nat n) = of_nat (n * 32)"
    by (simp add: MUL_32_def push_bit_eq_mult)
  ultimately show ?thesis by (simp only: unat_of_nat_u32)
qed

section \<open>The abstraction: slots, pages and the invariant\<close>

text \<open>A slot is a bitmap and a bit of it; a page is the address a slot stands for.\<close>

definition slot_bit :: "phys_state \<Rightarrow> physmem_bmalloc \<Rightarrow> nat \<Rightarrow> bool" where
  "slot_bit st m b = bit (bitmap_block st (pmb_bitmap m + b div 32)) (b mod 32)"

definition slot_set :: "phys_state \<Rightarrow> physmem_bmalloc \<Rightarrow> nat \<Rightarrow> phys_state" where
  "slot_set st m b =
     (let k = pmb_bitmap m + b div 32
      in st\<lparr>bitmap_block := (bitmap_block st)(k := bitmap_block st k OR BIT_32 b)\<rparr>)"

definition page_of :: "physmem_bmalloc \<Rightarrow> nat \<Rightarrow> paddr" where
  "page_of m b = MUL_PAGESIZE (of_nat b) + pm_begin (pmb_range m)"

definition pm_len :: "physmem_bmalloc \<Rightarrow> nat" where
  "pm_len m = unat (pmb_length m)"

definition bitmap_end :: "physmem_bmalloc \<Rightarrow> nat" where
  "bitmap_end m = pmb_bitmap m + (pm_len m + 31) div 32"

definition range_apart :: "physmem_range \<Rightarrow> physmem_range \<Rightarrow> bool" where
  "range_apart r q \<longleftrightarrow> pm_end r \<le> pm_begin q \<or> pm_end q \<le> pm_begin r"

definition maps_ok :: "phys_state \<Rightarrow> nat \<Rightarrow> bool" where
  "maps_ok st n \<longleftrightarrow>
     length (prealloc_pbma_ptr st) = NNUMBER \<and> length (prealloc_pbma st) = NNUMBER \<and>
     n \<le> NNUMBER \<and>
     (\<forall>i<n. prealloc_pbma_ptr st ! i = Some i) \<and>
     (\<forall>i<n. bitmap_end (prealloc_pbma st ! i) \<le> UNUMBER) \<and>
     (\<forall>j<n. \<forall>i<j. bitmap_end (prealloc_pbma st ! i) \<le> pmb_bitmap (prealloc_pbma st ! j)) \<and>
     (\<forall>i<n. unat (pm_begin (pmb_range (prealloc_pbma st ! i))) + pm_len (prealloc_pbma st ! i) * 4096
              \<le> unat (pm_end (pmb_range (prealloc_pbma st ! i)))) \<and>
     (\<forall>j<n. \<forall>i<j. range_apart (pmb_range (prealloc_pbma st ! i)) (pmb_range (prealloc_pbma st ! j)))"

definition phys_inv :: "phys_state \<Rightarrow> bool" where
  "phys_inv st \<longleftrightarrow> maps_ok st (unat (pmb_n_maps st)) \<and> pmb_lock st = 0"

definition slots :: "phys_state \<Rightarrow> (nat \<times> nat) set" where
  "slots st = {(i, b). i < unat (pmb_n_maps st) \<and> b < pm_len (prealloc_pbma st ! i)}"

definition used_slots :: "phys_state \<Rightarrow> (nat \<times> nat) set" where
  "used_slots st = {(i, b) \<in> slots st. slot_bit st (prealloc_pbma st ! i) b}"

definition slot_page :: "phys_state \<Rightarrow> nat \<times> nat \<Rightarrow> paddr" where
  "slot_page st s = page_of (prealloc_pbma st ! fst s) (snd s)"

definition page_pool :: "phys_state \<Rightarrow> paddr set" where
  "page_pool st = slot_page st ` slots st"

definition allocated :: "phys_state \<Rightarrow> paddr set" where
  "allocated st = slot_page st ` used_slots st"

lemma slot_set_frame [simp]:
  "prealloc_pbma (slot_set st m b) = prealloc_pbma st"
  "prealloc_pbma_ptr (slot_set st m b) = prealloc_pbma_ptr st"
  "pmb_n_maps (slot_set st m b) = pmb_n_maps st"
  "pmb_lock (slot_set st m b) = pmb_lock st"
  by (simp_all add: slot_set_def Let_def)

lemma maps_ok_frame:
  "prealloc_pbma st' = prealloc_pbma st \<Longrightarrow> prealloc_pbma_ptr st' = prealloc_pbma_ptr st \<Longrightarrow>
   maps_ok st' n = maps_ok st n"
  by (simp add: maps_ok_def)

lemma pmas_map_ok: "maps_ok st n \<Longrightarrow> i < n \<Longrightarrow> pmas_map st i = Inr (prealloc_pbma st ! i)"
  by (simp add: pmas_map_def maps_ok_def)

lemma slot_word_bound: "b < pm_len m \<Longrightarrow> pmb_bitmap m + b div 32 < bitmap_end m"
  by (auto simp: bitmap_end_def)

lemma slot_word_distinct:
  assumes "maps_ok st n" and "i < n" and "j < n" and "i \<noteq> j"
    and "b < pm_len (prealloc_pbma st ! i)" and "c < pm_len (prealloc_pbma st ! j)"
  shows "pmb_bitmap (prealloc_pbma st ! i) + b div 32 \<noteq> pmb_bitmap (prealloc_pbma st ! j) + c div 32"
proof -
  have *: "pmb_bitmap (prealloc_pbma st ! i) + b div 32 < pmb_bitmap (prealloc_pbma st ! j) + c div 32"
    if "i < j" "j < n" "b < pm_len (prealloc_pbma st ! i)" for i j b c
    using that assms(1) slot_word_bound [of b "prealloc_pbma st ! i"]
    by (fastforce simp: maps_ok_def)
  from assms show ?thesis using * [of i j b c] * [of j i c b] by (cases i j rule: linorder_cases) auto
qed

lemma slot_set_bit:
  assumes "maps_ok st n" and "i < n" and "j < n"
    and "b < pm_len (prealloc_pbma st ! i)" and "c < pm_len (prealloc_pbma st ! j)"
  shows "slot_bit (slot_set st (prealloc_pbma st ! i) b) (prealloc_pbma st ! j) c \<longleftrightarrow>
           slot_bit st (prealloc_pbma st ! j) c \<or> (j = i \<and> c = b)"
proof (cases "i = j")
  case True
  have "c = b" if "b div 32 = c div 32" "c mod 32 = b mod 32"
    using that by (metis div_mult_mod_eq)
  with True show ?thesis
    by (cases "b div 32 = c div 32") (auto simp: slot_bit_def slot_set_def Let_def BIT_32_set)
next
  case False
  with slot_word_distinct [OF assms(1-3) False assms(4,5)] show ?thesis
    by (simp add: slot_bit_def slot_set_def Let_def)
qed

lemma used_slots_set:
  assumes "maps_ok st (unat (pmb_n_maps st))" and "(i, b) \<in> slots st"
  shows "used_slots (slot_set st (prealloc_pbma st ! i) b) = insert (i, b) (used_slots st)"
proof -
  have sl: "slots (slot_set st (prealloc_pbma st ! i) b) = slots st" by (simp add: slots_def)
  show ?thesis
    using assms(2) slot_set_bit [OF assms(1)]
    unfolding used_slots_def sl by (auto simp: slots_def)
qed

section \<open>Allocation is first fit\<close>

lemma bitmap_search_from_spec:
  assumes "bitmap_end m \<le> UNUMBER"
  shows "bitmap_search_from st m i =
    (case find (\<lambda>b. \<not> slot_bit st m b) [i..<pm_len m] of
       None \<Rightarrow> Inr (None, st) | Some b \<Rightarrow> Inr (Some (page_of m b), slot_set st m b))"
  using assms
proof (induction st m i rule: bitmap_search_from.induct)
  case (1 st m i)
  show ?case
  proof (cases "i < pm_len m")
    case True
    then have k: "pmb_bitmap m + i div 32 < UNUMBER"
      using slot_word_bound [OF True] "1.prems" by simp
    have lt: "i < unat (pmb_length m)" using True by (simp add: pm_len_def)
    have up: "[i..<pm_len m] = i # [Suc i..<pm_len m]" using True by (simp add: upt_conv_Cons)
    have sb: "bit (bitmap_block st (pmb_bitmap m + i div 32)) (i mod 32) = slot_bit st m i"
      by (simp add: slot_bit_def)
    show ?thesis
    proof (cases "slot_bit st m i")
      case True
      have "bitmap_search_from st m i = bitmap_search_from st m (Suc i)"
        using k lt True by (simp add: bitmap_search_from.simps [of st m i] bitmap_get_def BIT_32_test sb)
      also have "\<dots> = (case find (\<lambda>b. \<not> slot_bit st m b) [Suc i..<pm_len m] of
          None \<Rightarrow> Inr (None, st) | Some b \<Rightarrow> Inr (Some (page_of m b), slot_set st m b))"
        using lt True "1.prems"
        by (intro "1.IH" [of "bitmap_block st (pmb_bitmap m + i div 32)"]) (simp_all add: BIT_32_test sb)
      finally show ?thesis using True by (simp add: up)
    next
      case False
      with k lt show ?thesis
        by (simp add: bitmap_search_from.simps [of st m i] up bitmap_get_def bitmap_put_def
            BIT_32_test sb slot_set_def Let_def page_of_def)
    qed
  next
    case False
    then show ?thesis
      by (simp add: bitmap_search_from.simps [of st m i] pm_len_def)
  qed
qed

definition map_full :: "phys_state \<Rightarrow> nat \<Rightarrow> bool" where
  "map_full st l \<longleftrightarrow> (\<forall>c<pm_len (prealloc_pbma st ! l). slot_bit st (prealloc_pbma st ! l) c)"

definition first_free :: "phys_state \<Rightarrow> nat \<Rightarrow> nat \<Rightarrow> nat \<Rightarrow> nat \<Rightarrow> bool" where
  "first_free st n i k b \<longleftrightarrow> i \<le> k \<and> k < n \<and> b < pm_len (prealloc_pbma st ! k) \<and>
     \<not> slot_bit st (prealloc_pbma st ! k) b \<and> (\<forall>c<b. slot_bit st (prealloc_pbma st ! k) c) \<and>
     (\<forall>l. i \<le> l \<longrightarrow> l < k \<longrightarrow> map_full st l)"

lemma first_free_Suc: "map_full st i \<Longrightarrow> first_free st n (Suc i) k b \<Longrightarrow> first_free st n i k b"
  unfolding first_free_def by (metis Suc_leD Suc_leI le_neq_implies_less)

lemma phys_alloc_from_spec:
  assumes "maps_ok st n"
  shows "(\<exists>k b. first_free st n i k b \<and>
            phys_alloc_from n i st =
              Inr (Some (page_of (prealloc_pbma st ! k) b), slot_set st (prealloc_pbma st ! k) b))
       \<or> ((\<forall>k. i \<le> k \<longrightarrow> k < n \<longrightarrow> map_full st k) \<and> phys_alloc_from n i st = Inr (None, st))"
  using assms
proof (induction n i st rule: phys_alloc_from.induct)
  case (1 n i st)
  show ?case
  proof (cases "i < n")
    case True
    let ?m = "prealloc_pbma st ! i"
    have be: "bitmap_end ?m \<le> UNUMBER" using "1.prems" True by (auto simp: maps_ok_def)
    note srch = bitmap_search_from_spec [OF be, of st 0]
    have step: "phys_alloc_from n i st =
        rbind (bitmap_search st ?m) (\<lambda>(r, st).
          case r of Some p \<Rightarrow> Inr (Some p, st) | None \<Rightarrow> phys_alloc_from n (Suc i) st)"
      using True pmas_map_ok [OF "1.prems" True] by (simp add: phys_alloc_from.simps [of n i st])
    show ?thesis
    proof (cases "find (\<lambda>b. \<not> slot_bit st ?m b) [0..<pm_len ?m]")
      case None
      then have full: "map_full st i" by (auto simp: find_None_iff map_full_def)
      have eq: "phys_alloc_from n i st = phys_alloc_from n (Suc i) st"
        using srch None by (simp add: step bitmap_search_def)
      have ext: "map_full st k" if "\<forall>k. Suc i \<le> k \<longrightarrow> k < n \<longrightarrow> map_full st k" "i \<le> k" "k < n" for k
        using that full by (cases "k = i") auto
      from "1.IH" [OF True refl "1.prems"] show ?thesis
      proof
        assume "\<exists>k b. first_free st n (Suc i) k b \<and> phys_alloc_from n (Suc i) st =
            Inr (Some (page_of (prealloc_pbma st ! k) b), slot_set st (prealloc_pbma st ! k) b)"
        then show ?thesis using first_free_Suc [OF full] unfolding eq by blast
      next
        assume "(\<forall>k. Suc i \<le> k \<longrightarrow> k < n \<longrightarrow> map_full st k) \<and> phys_alloc_from n (Suc i) st = Inr (None, st)"
        then show ?thesis using ext unfolding eq by blast
      qed
    next
      case (Some b)
      then have "first_free st n i i b" using True by (auto simp: find_Some_iff first_free_def)
      moreover from srch Some have
        "phys_alloc_from n i st = Inr (Some (page_of ?m b), slot_set st ?m b)"
        by (simp add: step bitmap_search_def)
      ultimately show ?thesis by blast
    qed
  next
    case False
    then show ?thesis by (simp add: phys_alloc_from.simps [of n i st])
  qed
qed

text \<open>The lock is taken and given back, and the allocator state is otherwise that of the scan.\<close>

lemma slot_bit_lock [simp]: "slot_bit (st\<lparr>pmb_lock := l\<rparr>) m b = slot_bit st m b"
  by (simp add: slot_bit_def)

lemma vm_phys_alloc_spec:
  assumes "phys_inv st"
  shows "(\<exists>k b. first_free st (unat (pmb_n_maps st)) 0 k b \<and>
            vm_phys_alloc st =
              Inr (Some (page_of (prealloc_pbma st ! k) b), slot_set st (prealloc_pbma st ! k) b))
       \<or> ((\<forall>k<unat (pmb_n_maps st). map_full st k) \<and> vm_phys_alloc st = Inr (None, st))"
proof -
  let ?st = "st\<lparr>pmb_lock := -1\<rparr>" and ?n = "unat (pmb_n_maps st)"
  have ok: "maps_ok ?st ?n" and l0: "pmb_lock st = 0"
    using assms by (simp_all add: phys_inv_def maps_ok_frame [of ?st st])
  have ff: "first_free ?st n i k b = first_free st n i k b" for n i k b
    by (simp add: first_free_def map_full_def)
  have mf: "map_full ?st k = map_full st k" for k by (simp add: map_full_def)
  have unl: "(slot_set ?st m b)\<lparr>pmb_lock := 0\<rparr> = slot_set st m b" for m b
    using l0 by (simp add: slot_set_def Let_def)
  have restore: "?st\<lparr>pmb_lock := 0\<rparr> = st" using l0 by simp
  from phys_alloc_from_spec [OF ok, of 0] show ?thesis
  proof
    assume "\<exists>k b. first_free ?st ?n 0 k b \<and> phys_alloc_from ?n 0 ?st =
        Inr (Some (page_of (prealloc_pbma ?st ! k) b), slot_set ?st (prealloc_pbma ?st ! k) b)"
    then obtain k b where "first_free st ?n 0 k b" and eq: "phys_alloc_from ?n 0 ?st =
        Inr (Some (page_of (prealloc_pbma st ! k) b), slot_set ?st (prealloc_pbma st ! k) b)"
      by (auto simp: ff)
    moreover from eq l0 have "vm_phys_alloc st =
        Inr (Some (page_of (prealloc_pbma st ! k) b), slot_set st (prealloc_pbma st ! k) b)"
      by (simp add: vm_phys_alloc_def unl)
    ultimately show ?thesis by blast
  next
    assume "(\<forall>k. 0 \<le> k \<longrightarrow> k < ?n \<longrightarrow> map_full ?st k) \<and> phys_alloc_from ?n 0 ?st = Inr (None, ?st)"
    then show ?thesis using l0 by (simp add: vm_phys_alloc_def mf restore)
  qed
qed

section \<open>Slots stand for distinct pages\<close>

lemma unat_page_of:
  assumes "b < pm_len m"
    and "unat (pm_begin (pmb_range m)) + pm_len m * 4096 \<le> unat (pm_end (pmb_range m))"
  shows "unat (page_of m b) = unat (pm_begin (pmb_range m)) + b * 4096"
proof -
  have "b * 4096 + unat (pm_begin (pmb_range m)) < 4294967296"
    using assms unat_u32_lt [of "pm_end (pmb_range m)"] by linarith
  moreover from this have "unat (MUL_PAGESIZE (of_nat b)) = b * 4096" by (intro unat_MUL_PAGESIZE) simp
  ultimately show ?thesis by (simp add: page_of_def unat_add_u32)
qed

lemma inj_on_slot_page:
  assumes "maps_ok st (unat (pmb_n_maps st))"
  shows "inj_on (slot_page st) (slots st)"
proof (rule inj_onI, clarify)
  fix i b j c
  assume ib: "(i, b) \<in> slots st" and jc: "(j, c) \<in> slots st"
    and eq: "slot_page st (i, b) = slot_page st (j, c)"
  let ?m = "\<lambda>i. prealloc_pbma st ! i"
  let ?lo = "\<lambda>i. unat (pm_begin (pmb_range (?m i)))" and ?hi = "\<lambda>i. unat (pm_end (pmb_range (?m i)))"
  have n: "i < unat (pmb_n_maps st)" "j < unat (pmb_n_maps st)" "b < pm_len (?m i)" "c < pm_len (?m j)"
    using ib jc by (auto simp: slots_def)
  have fits: "?lo i + pm_len (?m i) * 4096 \<le> ?hi i" "?lo j + pm_len (?m j) * 4096 \<le> ?hi j"
    using assms n by (auto simp: maps_ok_def)
  have same: "?lo i + b * 4096 = ?lo j + c * 4096"
    using eq unat_page_of [OF n(3) fits(1)] unat_page_of [OF n(4) fits(2)]
    by (simp add: slot_page_def)
  have "i = j"
  proof (rule ccontr)
    assume "i \<noteq> j"
    then have "range_apart (pmb_range (?m i)) (pmb_range (?m j)) \<or> range_apart (pmb_range (?m j)) (pmb_range (?m i))"
      using assms n by (auto simp: maps_ok_def neq_iff)
    then have "?hi i \<le> ?lo j \<or> ?hi j \<le> ?lo i"
      by (auto simp: range_apart_def word_le_nat_alt)
    with same fits n show False by linarith
  qed
  with same show "i = j \<and> b = c" by simp
qed

lemma finite_slots: "finite (slots st)"
proof -
  have "slots st = Sigma {..<unat (pmb_n_maps st)} (\<lambda>i. {..<pm_len (prealloc_pbma st ! i)})"
    by (auto simp: slots_def)
  then show ?thesis by simp
qed

section \<open>The interface: a page allocator\<close>

text \<open>
  What the VM code relies on: an allocation returns a page of the pool that nobody has, and
  fails only when every page of the pool is taken.
\<close>

locale page_allocator =
  fixes alloc :: "'s \<Rightarrow> (paddr option \<times> 's) res"
    and pool :: "'s \<Rightarrow> paddr set"
    and taken :: "'s \<Rightarrow> paddr set"
    and inv :: "'s \<Rightarrow> bool"
  assumes finite_pool: "finite (pool s)"
    and taken_pool: "taken s \<subseteq> pool s"
    and alloc_ok: "inv s \<Longrightarrow>
      (\<exists>p s'. alloc s = Inr (Some p, s') \<and> p \<in> pool s - taken s \<and> taken s' = insert p (taken s) \<and>
         pool s' = pool s \<and> inv s') \<or>
      (taken s = pool s \<and> alloc s = Inr (None, s))"
begin

text \<open>Taking pages until \<open>n\<close> are there or the pool is exhausted.\<close>

fun alloc_many :: "nat \<Rightarrow> 's \<Rightarrow> (paddr list \<times> 's) res" where
  "alloc_many 0 s = Inr ([], s)"
| "alloc_many (Suc n) s =
     rbind (alloc s) (\<lambda>(r, s'). case r of None \<Rightarrow> Inr ([], s')
       | Some p \<Rightarrow> rbind (alloc_many n s') (\<lambda>(ps, s''). Inr (p # ps, s'')))"

lemma alloc_many_ok:
  assumes "inv s"
  shows "\<exists>ps s'. alloc_many n s = Inr (ps, s') \<and> inv s' \<and> pool s' = pool s \<and> distinct ps \<and>
    set ps \<inter> taken s = {} \<and> taken s' = taken s \<union> set ps \<and>
    length ps = min n (card (pool s - taken s))"
  using assms
proof (induction n arbitrary: s)
  case (Suc n)
  from alloc_ok [OF Suc.prems] show ?case
  proof (elim disjE exE conjE)
    fix p s1
    assume a: "alloc s = Inr (Some p, s1)" "p \<in> pool s - taken s" "taken s1 = insert p (taken s)"
      "pool s1 = pool s" "inv s1"
    from Suc.IH [OF a(5)] obtain ps s2 where b: "alloc_many n s1 = Inr (ps, s2)" "inv s2"
      "pool s2 = pool s1" "distinct ps" "set ps \<inter> taken s1 = {}" "taken s2 = taken s1 \<union> set ps"
      "length ps = min n (card (pool s1 - taken s1))" by blast
    have "pool s - taken s = insert p (pool s1 - taken s1)" using a by auto
    moreover have "p \<notin> pool s1 - taken s1" using a by auto
    ultimately have "card (pool s - taken s) = Suc (card (pool s1 - taken s1))"
      using finite_pool by (metis card_insert_disjoint finite_Diff)
    moreover have "alloc_many (Suc n) s = Inr (p # ps, s2)" using a(1) b(1) by simp
    moreover have "distinct (p # ps)" "set (p # ps) \<inter> taken s = {}"
      using a(2,3) b(4,5) by auto
    moreover have "taken s2 = taken s \<union> set (p # ps)" using a(3) b(6) by simp
    moreover have "length (p # ps) = min (Suc n) (card (pool s - taken s))"
      using b(7) \<open>card (pool s - taken s) = _\<close> by simp
    ultimately show ?thesis using a(4) b(2,3) by (metis (no_types))
  next
    assume "taken s = pool s" "alloc s = Inr (None, s)"
    with Suc.prems show ?thesis by auto
  qed
qed simp

end

lemma vm_phys_alloc_ok:
  assumes "phys_inv st"
  shows "(\<exists>p st'. vm_phys_alloc st = Inr (Some p, st') \<and> p \<in> page_pool st - allocated st \<and>
           allocated st' = insert p (allocated st) \<and> page_pool st' = page_pool st \<and> phys_inv st') \<or>
         (allocated st = page_pool st \<and> vm_phys_alloc st = Inr (None, st))"
proof -
  let ?n = "unat (pmb_n_maps st)"
  have ok: "maps_ok st ?n" using assms by (simp add: phys_inv_def)
  from vm_phys_alloc_spec [OF assms] show ?thesis
  proof (elim disjE exE conjE)
    fix k b
    let ?m = "prealloc_pbma st ! k" and ?st' = "slot_set st (prealloc_pbma st ! k) b"
    assume ff: "first_free st ?n 0 k b" and eq: "vm_phys_alloc st = Inr (Some (page_of ?m b), ?st')"
    have kb: "(k, b) \<in> slots st" "(k, b) \<notin> used_slots st"
      using ff by (auto simp: first_free_def slots_def used_slots_def)
    have us: "used_slots ?st' = insert (k, b) (used_slots st)" by (rule used_slots_set [OF ok kb(1)])
    have sp: "slot_page ?st' = slot_page st" by (simp add: slot_page_def fun_eq_iff)
    have sl: "slots ?st' = slots st" by (simp add: slots_def)
    have pk: "slot_page st (k, b) = page_of ?m b" by (simp add: slot_page_def)
    have "used_slots st \<subseteq> slots st" by (auto simp: used_slots_def)
    then have "page_of ?m b \<notin> allocated st"
      using inj_onD [OF inj_on_slot_page [OF ok]] kb unfolding allocated_def pk [symmetric] by blast
    moreover have "page_of ?m b \<in> page_pool st" using kb pk by (force simp: page_pool_def)
    moreover have "phys_inv ?st'"
      using assms by (simp add: phys_inv_def maps_ok_frame [of ?st' st])
    ultimately show ?thesis using eq us by (auto simp: allocated_def page_pool_def sp sl pk)
  next
    assume full: "\<forall>k<?n. map_full st k" and eq: "vm_phys_alloc st = Inr (None, st)"
    then have "used_slots st = slots st" by (auto simp: used_slots_def slots_def map_full_def)
    with eq show ?thesis by (simp add: allocated_def page_pool_def)
  qed
qed

interpretation pma: page_allocator vm_phys_alloc page_pool allocated phys_inv
proof
  show "finite (page_pool s)" for s by (simp add: page_pool_def finite_slots)
  show "allocated s \<subseteq> page_pool s" for s by (auto simp: allocated_def page_pool_def used_slots_def)
qed (rule vm_phys_alloc_ok)

section \<open>Release\<close>

lemma phys_free_from_none:
  assumes "maps_ok st n"
  shows "phys_free_from n i page st = Inr (0, st)"
  using assms
proof (induction n i page st rule: phys_free_from.induct)
  case (1 n i page st)
  show ?case
  proof (cases "i < n")
    case True
    let ?r = "pmb_range (prealloc_pbma st ! i)"
    have "unat (pm_begin ?r) \<le> unat (pm_end ?r)" using "1.prems" True by (fastforce simp: maps_ok_def)
    then have "pm_begin ?r < page \<or> page \<le> pm_end ?r" by (auto simp: word_le_nat_alt word_less_nat_alt)
    with True "1" pmas_map_ok [OF "1.prems" True] show ?thesis
      by (simp add: phys_free_from.simps [of n i])
  qed (simp add: phys_free_from.simps [of n i])
qed

section \<open>Initialisation\<close>

definition ranges_ok :: "physmem_range list \<Rightarrow> bool" where
  "ranges_ok rng \<longleftrightarrow> (\<forall>i<length rng. pm_begin (rng ! i) \<le> pm_end (rng ! i)) \<and>
     (\<forall>j<length rng. \<forall>i<j. range_apart (rng ! i) (rng ! j))"

definition range_pages :: "physmem_range \<Rightarrow> nat" where
  "range_pages r = (unat (pm_end r) - unat (pm_begin r)) div 4096"

lemma bitmap_clear_spec:
  assumes "cur \<le> UNUMBER" and "j \<le> min n (UNUMBER - cur)"
  shows "bitmap_clear cur n j blk =
    (min n (UNUMBER - cur), \<lambda>k. if cur + j \<le> k \<and> k < cur + min n (UNUMBER - cur) then 0 else blk k)"
  using assms
proof (induction cur n j blk rule: bitmap_clear.induct)
  case (1 cur n j blk)
  show ?case
  proof (cases "j < n \<and> cur + j < UNUMBER")
    case True
    have "bitmap_clear cur n j blk = bitmap_clear cur n (Suc j) (blk(cur + j := 0))"
      using True by (subst bitmap_clear.simps) simp
    also have "\<dots> = (min n (UNUMBER - cur),
        \<lambda>k. if cur + Suc j \<le> k \<and> k < cur + min n (UNUMBER - cur) then 0 else (blk(cur + j := 0)) k)"
      using True "1.prems" by (intro "1.IH") auto
    finally show ?thesis using True "1.prems" by (auto simp: fun_eq_iff)
  next
    case False
    with "1.prems" have "j = min n (UNUMBER - cur)" by auto
    with False "1.prems" show ?thesis by (subst bitmap_clear.simps) (auto simp: fun_eq_iff)
  qed
qed

lemma range_pages_word:
  assumes "pm_begin r \<le> pm_end r"
  shows "unat (DIV_PAGESIZE (pm_end r - pm_begin r)) = range_pages r"
    and "unat (DIV_PAGESIZE (pm_end r - pm_begin r) + 31) = range_pages r + 31"
    and "range_pages r \<le> 1048576"
    and "unat (pm_begin r) + range_pages r * 4096 \<le> unat (pm_end r)"
proof -
  show 1: "unat (DIV_PAGESIZE (pm_end r - pm_begin r)) = range_pages r"
    using assms by (simp add: unat_DIV_PAGESIZE unat_sub_u32 range_pages_def)
  show 3: "range_pages r \<le> 1048576"
    using unat_u32_lt [of "pm_end r"] by (simp add: range_pages_def)
  show "unat (DIV_PAGESIZE (pm_end r - pm_begin r) + 31) = range_pages r + 31"
    using 1 3 by (simp add: unat_add_u32)
  show "unat (pm_begin r) + range_pages r * 4096 \<le> unat (pm_end r)"
    using assms by (simp add: range_pages_def word_le_nat_alt)
qed

lemma bootinit_range_eq:
  assumes "pm_begin r \<le> pm_end r" and "cur \<le> UNUMBER"
  defines "e \<equiv> min ((range_pages r + 31) div 32) (UNUMBER - cur)"
  shows "\<exists>k. bootinit_range r i cur st = (e,
      st\<lparr>pmb_n_maps := pmb_n_maps st + 1,
         prealloc_pbma_ptr := (prealloc_pbma_ptr st)[i := Some i],
         prealloc_pbma := (prealloc_pbma st)[i := \<lparr>pmb_range = r, pmb_bitmap = cur, pmb_length = k\<rparr>],
         bitmap_block := (\<lambda>k. if cur \<le> k \<and> k < cur + e then 0 else bitmap_block st k)\<rparr>) \<and>
      unat k = min (range_pages r) (e * 32)"
proof -
  let ?m = "DIV_PAGESIZE (pm_end r - pm_begin r)"
  let ?k = "if MUL_32 (of_nat e) > ?m then ?m else MUL_32 (of_nat e)"
  have e: "e \<le> 4096" by (simp add: e_def UNUMBER_def)
  then have "unat (MUL_32 (of_nat e)) = e * 32" by (intro unat_MUL_32) simp
  then have "unat ?k = min (range_pages r) (e * 32)"
    using range_pages_word(1) [OF assms(1)] by (auto simp: word_less_nat_alt)
  moreover have "bitmap_clear cur (DIV_32 (unat (?m + 31))) 0 (bitmap_block st) =
      (e, \<lambda>k. if cur \<le> k \<and> k < cur + e then 0 else bitmap_block st k)"
    using bitmap_clear_spec [OF assms(2), of 0] range_pages_word(2) [OF assms(1)]
    by (simp add: e_def)
  ultimately show ?thesis by (intro exI [of _ ?k]) (simp add: bootinit_range_def Let_def)
qed

definition boot_inv :: "physmem_range list \<Rightarrow> nat \<Rightarrow> nat \<Rightarrow> phys_state \<Rightarrow> bool" where
  "boot_inv rng i cur st \<longleftrightarrow>
     maps_ok st i \<and> pmb_n_maps st = of_nat i \<and> pmb_lock st = 0 \<and> cur \<le> UNUMBER \<and>
     (\<forall>k<cur. bitmap_block st k = 0) \<and>
     (\<forall>l<i. bitmap_end (prealloc_pbma st ! l) \<le> cur \<and> pmb_range (prealloc_pbma st ! l) = rng ! l)"

definition covers :: "physmem_range list \<Rightarrow> nat \<Rightarrow> phys_state \<Rightarrow> bool" where
  "covers rng n st \<longleftrightarrow>
     (\<forall>i<n. pmb_range (prealloc_pbma st ! i) = rng ! i \<and> pm_len (prealloc_pbma st ! i) = range_pages (rng ! i))"

lemma boot_inv_phys_inv:
  assumes "boot_inv rng i cur st"
  shows "phys_inv st \<and> used_slots st = {} \<and> unat (pmb_n_maps st) = i"
proof -
  have n: "unat (pmb_n_maps st) = i"
    using assms by (simp add: boot_inv_def maps_ok_def NNUMBER_def unat_of_nat_u32)
  have "\<not> slot_bit st (prealloc_pbma st ! l) b" if "l < i" "b < pm_len (prealloc_pbma st ! l)" for l b
    using assms that slot_word_bound [OF that(2)]
    by (fastforce simp: boot_inv_def slot_bit_def)
  with n have "used_slots st = {}" by (auto simp: used_slots_def slots_def)
  with n assms show ?thesis by (auto simp: boot_inv_def phys_inv_def)
qed

lemma bootinit_range_inv:
  assumes inv: "boot_inv rng i cur st" and rng: "ranges_ok rng" and i: "i < length rng" "i < NNUMBER"
    and res: "bootinit_range (rng ! i) i cur st = (j, st')"
  shows "boot_inv rng (Suc i) (cur + j) st' \<and>
    pm_len (prealloc_pbma st' ! i) = min (range_pages (rng ! i)) (j * 32) \<and>
    j = min ((range_pages (rng ! i) + 31) div 32) (UNUMBER - cur) \<and>
    (\<forall>l<i. prealloc_pbma st' ! l = prealloc_pbma st ! l)"
proof -
  let ?r = "rng ! i"
  have le: "pm_begin ?r \<le> pm_end ?r" using rng i by (simp add: ranges_ok_def)
  have cur: "cur \<le> UNUMBER" using inv by (simp add: boot_inv_def)
  obtain k where j: "j = min ((range_pages ?r + 31) div 32) (UNUMBER - cur)"
    and st': "st' = st\<lparr>pmb_n_maps := pmb_n_maps st + 1,
         prealloc_pbma_ptr := (prealloc_pbma_ptr st)[i := Some i],
         prealloc_pbma := (prealloc_pbma st)[i := \<lparr>pmb_range = ?r, pmb_bitmap = cur, pmb_length = k\<rparr>],
         bitmap_block := (\<lambda>k. if cur \<le> k \<and> k < cur + j then 0 else bitmap_block st k)\<rparr>"
    and k: "unat k = min (range_pages ?r) (j * 32)"
    using bootinit_range_eq [OF le cur, of i st] res by auto
  have len: "length (prealloc_pbma st) = NNUMBER" "length (prealloc_pbma_ptr st) = NNUMBER"
    using inv by (auto simp: boot_inv_def maps_ok_def)
  have new: "prealloc_pbma st' ! i = \<lparr>pmb_range = ?r, pmb_bitmap = cur, pmb_length = k\<rparr>"
    and old: "\<And>l. l \<noteq> i \<Longrightarrow> prealloc_pbma st' ! l = prealloc_pbma st ! l"
    and ptr: "prealloc_pbma_ptr st' = (prealloc_pbma_ptr st)[i := Some i]"
    using i(2) len by (simp_all add: st')
  have be: "bitmap_end (prealloc_pbma st' ! i) \<le> cur + j"
    unfolding new bitmap_end_def pm_len_def using k by simp
  have cj: "cur + j \<le> UNUMBER" using cur j by simp
  have fit: "unat (pm_begin ?r) + min (range_pages ?r) (j * 32) * 4096 \<le> unat (pm_end ?r)"
    using range_pages_word(4) [OF le] mult_le_mono1 [of "min (range_pages ?r) (j * 32)" "range_pages ?r" 4096]
    by linarith
  have apart: "range_apart (rng ! l) ?r" if "l < i" for l
    using rng i(1) that by (simp add: ranges_ok_def)
  note old_inv = inv [unfolded boot_inv_def maps_ok_def]
  have "maps_ok st' (Suc i)"
    unfolding maps_ok_def
  proof (intro conjI allI impI)
    show "prealloc_pbma_ptr st' ! l = Some l" if "l < Suc i" for l
      using that old_inv i(2) len by (cases "l = i") (auto simp: ptr)
    show "bitmap_end (prealloc_pbma st' ! l) \<le> UNUMBER" if "l < Suc i" for l
      using that old_inv be cj by (cases "l = i") (auto simp: old)
    show "bitmap_end (prealloc_pbma st' ! a) \<le> pmb_bitmap (prealloc_pbma st' ! b)"
      if "b < Suc i" "a < b" for a b
      using that old_inv by (cases "b = i") (auto simp: old new)
    show "unat (pm_begin (pmb_range (prealloc_pbma st' ! l))) + pm_len (prealloc_pbma st' ! l) * 4096
        \<le> unat (pm_end (pmb_range (prealloc_pbma st' ! l)))" if "l < Suc i" for l
      using that old_inv fit k by (cases "l = i") (auto simp: old new pm_len_def)
    show "range_apart (pmb_range (prealloc_pbma st' ! a)) (pmb_range (prealloc_pbma st' ! b))"
      if "b < Suc i" "a < b" for a b
      using that old_inv apart by (cases "b = i") (auto simp: old new)
  qed (use len i(2) in \<open>simp_all add: st'\<close>)
  moreover have "bitmap_end (prealloc_pbma st' ! l) \<le> cur + j \<and> pmb_range (prealloc_pbma st' ! l) = rng ! l"
    if "l < Suc i" for l
    using that old_inv be by (cases "l = i") (auto simp: old new trans_le_add1)
  ultimately have "boot_inv rng (Suc i) (cur + j) st'"
    using old_inv cj by (auto simp: boot_inv_def st')
  then show ?thesis using j k old by (auto simp: new pm_len_def)
qed

lemma bootinit_end:
  assumes "pm_begin r \<le> pm_end r" and "j \<le> 4096"
    and "pm_end r \<le> pm_begin r + MUL_PAGESIZE (MUL_32 (of_nat j))"
  shows "range_pages r \<le> j * 32"
proof -
  have "unat (MUL_PAGESIZE (of_nat (j * 32))) = j * 32 * 4096"
    using assms(2) by (intro unat_MUL_PAGESIZE) simp
  moreover have "MUL_32 (of_nat j) = of_nat (j * 32)" by (simp add: MUL_32_def push_bit_eq_mult)
  ultimately have sz: "unat (MUL_PAGESIZE (MUL_32 (of_nat j))) = j * 32 * 4096" by simp
  have "unat (pm_end r) \<le> unat (pm_begin r) + j * 32 * 4096"
  proof (cases "unat (pm_begin r) + j * 32 * 4096 < 4294967296")
    case True
    with assms(3) show ?thesis by (simp add: word_le_nat_alt unat_add_u32 sz)
  qed (use unat_u32_lt [of "pm_end r"] in linarith)
  then show ?thesis unfolding range_pages_def by linarith
qed

text \<open>The maps of a state are over the ranges given.\<close>

definition uses_ranges :: "physmem_range list \<Rightarrow> phys_state \<Rightarrow> bool" where
  "uses_ranges rng st \<longleftrightarrow> unat (pmb_n_maps st) \<le> length rng \<and>
     (\<forall>i<unat (pmb_n_maps st). pmb_range (prealloc_pbma st ! i) = rng ! i)"

lemma boot_inv_uses_ranges: "boot_inv rng i cur st \<Longrightarrow> i \<le> length rng \<Longrightarrow> uses_ranges rng st"
  using boot_inv_phys_inv [of rng i cur st] by (simp add: uses_ranges_def boot_inv_def)

lemma bootinit_from_ok:
  assumes "boot_inv rng i cur st" and "ranges_ok rng" and "covers rng i st" and "i \<le> length rng"
    and "cur < UNUMBER"
  shows "\<exists>ret pt st'. bootinit_from rng (length rng) i cur st = Inr (ret, pt, st') \<and>
    ret \<in> {0, -1} \<and> phys_inv st' \<and> used_slots st' = {} \<and> uses_ranges rng st' \<and>
    (ret = 0 \<longrightarrow> unat (pmb_n_maps st') = length rng \<and> covers rng (length rng) st')"
  using assms
proof (induction "length rng - i" arbitrary: i cur st)
  case 0
  then have "i = length rng" by simp
  with 0 boot_inv_phys_inv [OF 0(2)] boot_inv_uses_ranges [OF 0(2)] show ?case by (simp add: bootinit_from.simps)
next
  case (Suc d)
  then have i: "i < length rng" by simp
  show ?case
  proof (cases "i < NNUMBER")
    case False
    with i boot_inv_phys_inv [OF Suc.prems(1)] boot_inv_uses_ranges [OF Suc.prems(1)] show ?thesis
      by (simp add: bootinit_from.simps [of rng "length rng" i])
  next
    case True
    obtain j st1 where r: "bootinit_range (rng ! i) i cur st = (j, st1)" by force
    note step = bootinit_range_inv [OF Suc.prems(1,2) i True r]
    have le: "pm_begin (rng ! i) \<le> pm_end (rng ! i)" using Suc.prems(2) i by (simp add: ranges_ok_def)
    have cov: "covers rng (Suc i) st1" if "range_pages (rng ! i) \<le> j * 32"
      using step Suc.prems(3) that by (auto simp: covers_def less_Suc_eq boot_inv_def)
    show ?thesis
    proof (cases "cur + j < UNUMBER")
      case True
      then have "j = (range_pages (rng ! i) + 31) div 32" using step by auto
      then have "range_pages (rng ! i) \<le> j * 32" by presburger
      then have "\<exists>ret pt st'. bootinit_from rng (length rng) (Suc i) (cur + j) st1 = Inr (ret, pt, st') \<and>
          ret \<in> {0, -1} \<and> phys_inv st' \<and> used_slots st' = {} \<and> uses_ranges rng st' \<and>
          (ret = 0 \<longrightarrow> unat (pmb_n_maps st') = length rng \<and> covers rng (length rng) st')"
        using Suc step cov True i by (intro Suc.hyps(1)) auto
      then show ?thesis
        using i \<open>i < NNUMBER\<close> True r by (simp add: bootinit_from.simps [of rng "length rng" i])
    next
      case False
      have "j \<le> 4096" using step by (simp add: UNUMBER_def)
      then have full: "pm_end (rng ! i) \<le> pm_begin (rng ! i) + MUL_PAGESIZE (MUL_32 (of_nat j)) \<Longrightarrow> covers rng (Suc i) st1"
        using bootinit_end [OF le] cov by blast
      have inv1: "phys_inv st1" "used_slots st1 = {}" "unat (pmb_n_maps st1) = Suc i" "uses_ranges rng st1"
        using boot_inv_phys_inv [of rng "Suc i" "cur + j" st1] boot_inv_uses_ranges [of rng "Suc i" "cur + j" st1] step i by auto
      have "length rng \<le> Suc i \<longleftrightarrow> length rng = Suc i" using i by auto
      with False i \<open>i < NNUMBER\<close> r inv1 full show ?thesis
        by (simp add: bootinit_from.simps [of rng "length rng" i] Let_def)
    qed
  qed
qed

lemma bootinit_ok:
  assumes "ranges_ok rng" and "unat n_ranges = length rng"
    and "length (prealloc_pbma st) = NNUMBER" and "length (prealloc_pbma_ptr st) = NNUMBER"
  shows "\<exists>ret pt st'. vm_phys_bm_bootinit rng n_ranges st = Inr (ret, pt, st') \<and> ret \<in> {0, -1} \<and>
    phys_inv st' \<and> allocated st' = {} \<and> uses_ranges rng st' \<and>
    (ret = 0 \<longrightarrow> unat (pmb_n_maps st') = length rng \<and> covers rng (length rng) st')"
proof -
  let ?st = "st\<lparr>pmb_n_maps := 0, pmb_lock := 0\<rparr>"
  have "boot_inv rng 0 0 ?st" using assms(3,4) by (simp add: boot_inv_def maps_ok_def)
  from bootinit_from_ok [OF this assms(1)] show ?thesis
    using assms(2) by (auto simp: vm_phys_bm_bootinit_def covers_def UNUMBER_def allocated_def)
qed

text \<open>Ranges that fit into the bitmap block are covered completely.\<close>

definition bitmap_words :: "physmem_range list \<Rightarrow> nat" where
  "bitmap_words rng = sum_list (map (\<lambda>r. (range_pages r + 31) div 32) rng)"

lemma bootinit_from_fits:
  assumes "boot_inv rng i cur st" and "ranges_ok rng" and "i \<le> length rng" and "length rng \<le> NNUMBER"
    and "cur + bitmap_words (drop i rng) < UNUMBER"
  shows "\<exists>st'. bootinit_from rng (length rng) i cur st = Inr (0, None, st')"
  using assms
proof (induction "length rng - i" arbitrary: i cur st)
  case 0
  then show ?case by (simp add: bootinit_from.simps)
next
  case (Suc d)
  then have i: "i < length rng" "i < NNUMBER" by simp_all
  obtain j st1 where r: "bootinit_range (rng ! i) i cur st = (j, st1)" by force
  note step = bootinit_range_inv [OF Suc.prems(1,2) i r]
  have w: "bitmap_words (drop i rng) = (range_pages (rng ! i) + 31) div 32 + bitmap_words (drop (Suc i) rng)"
    using i by (simp add: bitmap_words_def Cons_nth_drop_Suc [symmetric])
  then have j: "cur + j + bitmap_words (drop (Suc i) rng) < UNUMBER" using step Suc.prems(5) by auto
  then have "\<exists>st'. bootinit_from rng (length rng) (Suc i) (cur + j) st1 = Inr (0, None, st')"
    using Suc step i by (intro Suc.hyps(1)) auto
  then show ?case using i r j by (simp add: bootinit_from.simps [of rng "length rng" i])
qed

lemma bootinit_fits:
  assumes "ranges_ok rng" and "unat n_ranges = length rng" and "length rng \<le> NNUMBER" and "bitmap_words rng < UNUMBER"
    and "length (prealloc_pbma st) = NNUMBER" and "length (prealloc_pbma_ptr st) = NNUMBER"
  shows "\<exists>st'. vm_phys_bm_bootinit rng n_ranges st = Inr (0, None, st') \<and> phys_inv st' \<and> allocated st' = {} \<and>
    uses_ranges rng st' \<and> unat (pmb_n_maps st') = length rng \<and> covers rng (length rng) st'"
proof -
  let ?st = "st\<lparr>pmb_n_maps := 0, pmb_lock := 0\<rparr>"
  have "boot_inv rng 0 0 ?st" using assms(5,6) by (simp add: boot_inv_def maps_ok_def)
  from bootinit_from_fits [OF this assms(1) _ assms(3)] assms(4)
  obtain st' where "vm_phys_bm_bootinit rng n_ranges st = Inr (0, None, st')"
    using assms(2) by (auto simp: vm_phys_bm_bootinit_def)
  then show ?thesis using bootinit_ok [OF assms(1,2,5,6)] by auto
qed

lemma card_pool:
  assumes "phys_inv st" and "k < unat (pmb_n_maps st)"
  shows "pm_len (prealloc_pbma st ! k) \<le> card (page_pool st)"
proof -
  have "finite (slots st)"
    by (rule finite_subset [of _ "SIGMA i:{..<unat (pmb_n_maps st)}. {..<pm_len (prealloc_pbma st ! i)}"])
      (auto simp: slots_def)
  moreover have "{k} \<times> {..<pm_len (prealloc_pbma st ! k)} \<subseteq> slots st" using assms(2) by (auto simp: slots_def)
  ultimately have "card ({k} \<times> {..<pm_len (prealloc_pbma st ! k)}) \<le> card (slots st)" by (rule card_mono)
  moreover have "card (page_pool st) = card (slots st)"
    unfolding page_pool_def using assms(1) by (intro card_image inj_on_slot_page) (simp add: phys_inv_def)
  ultimately show ?thesis by (simp add: card_cartesian_product)
qed

text \<open>The first page of a fresh allocator is the first of its first range.\<close>

lemma first_page:
  assumes "phys_inv st" and "allocated st = {}" and "(0, 0) \<in> slots st"
  shows "\<exists>st'. vm_phys_alloc st = Inr (Some (slot_page st (0, 0)), st')"
proof -
  have u: "used_slots st = {}" using assms(2) by (simp add: allocated_def)
  then have "\<not> map_full st 0" using assms(3) by (auto simp: map_full_def slots_def used_slots_def)
  then obtain k b where ff: "first_free st (unat (pmb_n_maps st)) 0 k b" and
    al: "vm_phys_alloc st = Inr (Some (page_of (prealloc_pbma st ! k) b), slot_set st (prealloc_pbma st ! k) b)"
    using vm_phys_alloc_spec [OF assms(1)] assms(3) by (auto simp: slots_def)
  have "k = 0 \<and> b = 0"
  proof (rule ccontr)
    assume "\<not> (k = 0 \<and> b = 0)"
    then have "slot_bit st (prealloc_pbma st ! 0) 0 \<or> map_full st 0"
      using ff assms(3) by (auto simp: first_free_def slots_def map_full_def)
    then show False using u assms(3) \<open>\<not> map_full st 0\<close> by (auto simp: used_slots_def)
  qed
  then show ?thesis using al by (simp add: slot_page_def)
qed

text \<open>Every page of the pool lies in one of the ranges.\<close>

lemma pool_in_ranges:
  assumes "phys_inv st" and "uses_ranges rng st" and "p \<in> page_pool st"
  shows "\<exists>r\<in>set rng. \<exists>b. unat p = unat (pm_begin r) + 4096 * b \<and> unat p + 4096 \<le> unat (pm_end r)"
proof -
  obtain i b where ib: "i < unat (pmb_n_maps st)" "b < pm_len (prealloc_pbma st ! i)" "p = page_of (prealloc_pbma st ! i) b"
    using assms(3) by (auto simp: page_pool_def slots_def slot_page_def)
  let ?m = "prealloc_pbma st ! i"
  have r: "pmb_range ?m = rng ! i" "i < length rng" using assms(2) ib(1) by (auto simp: uses_ranges_def)
  have fit: "unat (pm_begin (rng ! i)) + pm_len ?m * 4096 \<le> unat (pm_end (rng ! i))"
    using assms(1) ib(1) r(1) by (auto simp: phys_inv_def maps_ok_def)
  have lt: "b * 4096 + 4096 \<le> pm_len ?m * 4096" using ib(2) by simp
  then have b: "b < 1048576" using fit unat_u32_lt [of "pm_end (rng ! i)"] by linarith
  then have "unat (MUL_PAGESIZE (of_nat b)) = b * 4096" by (intro unat_MUL_PAGESIZE) simp
  then have "unat p = unat (pm_begin (rng ! i)) + 4096 * b"
    using ib(3) r(1) fit lt unat_u32_lt [of "pm_end (rng ! i)"] by (simp add: page_of_def unat_word_ariths)
  then show ?thesis using r(2) fit lt by (intro bexI [of _ "rng ! i"]) auto
qed

section \<open>Properties\<close>

text \<open>C12. Allocation: from a state that satisfies the invariant \<^verbatim>\<open>vm_phys_alloc\<close> never
  faults and gives the lock back; it returns a page of the pool that was not allocated, marks
  exactly this page, and reports failure only when every page of the pool is allocated.\<close>

theorem vm_phys_alloc_fresh:
  assumes "phys_inv st"
  shows "(\<exists>p st'. vm_phys_alloc st = Inr (Some p, st') \<and> p \<in> page_pool st - allocated st \<and>
           allocated st' = insert p (allocated st) \<and> page_pool st' = page_pool st \<and> phys_inv st') \<or>
         (allocated st = page_pool st \<and> vm_phys_alloc st = Inr (None, st))"
  by (rule vm_phys_alloc_ok [OF assms])

text \<open>Two ranges, of three pages and of one: the first has its first page taken.\<close>

definition example_phys :: phys_state where
  "example_phys = phys_static
     \<lparr>prealloc_pbma := (prealloc_pbma phys_static)
        [0 := \<lparr>pmb_range = \<lparr>pm_begin = 0, pm_end = 0x3000\<rparr>, pmb_bitmap = 0, pmb_length = 3\<rparr>,
         1 := \<lparr>pmb_range = \<lparr>pm_begin = 0x100000, pm_end = 0x101000\<rparr>, pmb_bitmap = 1, pmb_length = 1\<rparr>],
      prealloc_pbma_ptr := (prealloc_pbma_ptr phys_static)[0 := Some 0, 1 := Some 1],
      pmb_n_maps := 2, bitmap_block := (\<lambda>_. 0)(0 := 1)\<rparr>"

lemma example_phys_inv: "phys_inv example_phys"
  by (simp add: phys_inv_def maps_ok_def example_phys_def phys_static_def NNUMBER_def UNUMBER_def
      bitmap_end_def pm_len_def range_apart_def all_less_2 all_less_1 nth_list_update)

lemma example_phys_sel:
  "pmb_n_maps example_phys = 2"
  "prealloc_pbma example_phys ! 0 =
     \<lparr>pmb_range = \<lparr>pm_begin = 0, pm_end = 0x3000\<rparr>, pmb_bitmap = 0, pmb_length = 3\<rparr>"
  "prealloc_pbma example_phys ! Suc 0 =
     \<lparr>pmb_range = \<lparr>pm_begin = 0x100000, pm_end = 0x101000\<rparr>, pmb_bitmap = 1, pmb_length = 1\<rparr>"
  "bitmap_block example_phys = (\<lambda>_. 0)(0 := 1)"
  by (simp_all add: example_phys_def phys_static_def NNUMBER_def nth_list_update)

lemma example_phys_slots:
  "slots example_phys = {(0, 0), (0, 1), (0, 2), (1, 0)}" "used_slots example_phys = {(0, 0)}"
proof -
  have n: "i < unat (pmb_n_maps example_phys) \<longleftrightarrow> i = 0 \<or> i = Suc 0" for i
    by (simp add: example_phys_sel less_2_cases_iff)
  have l: "pm_len (prealloc_pbma example_phys ! 0) = 3" "pm_len (prealloc_pbma example_phys ! Suc 0) = 1"
    by (simp_all add: example_phys_sel pm_len_def)
  have mem: "(i, b) \<in> slots example_phys \<longleftrightarrow> (i = 0 \<and> b < 3) \<or> (i = 1 \<and> b < 1)" for i b
    unfolding slots_def mem_Collect_eq split_conv n
    by (cases "i = 0"; cases "i = Suc 0") (simp_all add: l)
  have three: "b < 3 \<longleftrightarrow> b = 0 \<or> b = 1 \<or> b = 2" for b :: nat by linarith
  show sl: "slots example_phys = {(0, 0), (0, 1), (0, 2), (1, 0)}"
    by (rule set_eqI, clarify) (auto simp only: mem three less_one prod.inject insert_iff empty_iff)
  have "slot_bit example_phys (prealloc_pbma example_phys ! 0) 0"
    "\<not> slot_bit example_phys (prealloc_pbma example_phys ! 0) 1"
    "\<not> slot_bit example_phys (prealloc_pbma example_phys ! 0) 2"
    "\<not> slot_bit example_phys (prealloc_pbma example_phys ! 1) 0"
    by (simp_all add: slot_bit_def example_phys_sel bit_1_iff)
  then show "used_slots example_phys = {(0, 0)}"
    unfolding used_slots_def sl by fast
qed

lemma example_phys_pages:
  "slot_page example_phys (0, 0) = 0" "slot_page example_phys (0, 1) = 0x1000"
  by (simp_all add: slot_page_def page_of_def example_phys_sel MUL_PAGESIZE_def push_bit_eq_mult)

lemma example_phys_pool: "page_pool example_phys = {0, 0x1000, 0x2000, 0x100000}"
  unfolding page_pool_def example_phys_slots
  by (simp add: slot_page_def page_of_def example_phys_sel MUL_PAGESIZE_def push_bit_eq_mult)

lemma example_phys_alloc:
  "allocated example_phys = {0}" "0x1000 \<in> page_pool example_phys"
  using example_phys_pages by (simp_all add: allocated_def page_pool_def example_phys_slots)

theorem vm_phys_alloc_fresh_witness:
  "\<exists>p st'. vm_phys_alloc example_phys = Inr (Some p, st') \<and> p \<noteq> 0 \<and>
     p \<in> page_pool example_phys \<and> allocated st' = {p, 0}"
proof -
  have "0x1000 \<notin> allocated example_phys" by (simp add: example_phys_alloc)
  with example_phys_alloc(2) have "allocated example_phys \<noteq> page_pool example_phys" by metis
  with vm_phys_alloc_fresh [OF example_phys_inv] obtain p st' where
    "vm_phys_alloc example_phys = Inr (Some p, st')" "p \<in> page_pool example_phys - allocated example_phys"
    "allocated st' = insert p (allocated example_phys)" by blast
  then show ?thesis by (auto simp: example_phys_alloc(1))
qed

text \<open>The search is first fit: the page returned belongs to the lowest clear bit of the
  first bitmap that has one.\<close>

theorem vm_phys_alloc_first_fit:
  assumes "phys_inv st" and "vm_phys_alloc st = Inr (Some p, st')"
  shows "\<exists>k b. (k, b) \<in> slots st - used_slots st \<and> p = slot_page st (k, b) \<and>
    used_slots st' = insert (k, b) (used_slots st) \<and>
    (\<forall>l c. (l, c) \<in> slots st \<and> (l < k \<or> l = k \<and> c < b) \<longrightarrow> (l, c) \<in> used_slots st)"
proof -
  from vm_phys_alloc_spec [OF assms(1)] assms(2) obtain k b where
    ff: "first_free st (unat (pmb_n_maps st)) 0 k b"
    and p: "p = page_of (prealloc_pbma st ! k) b" "st' = slot_set st (prealloc_pbma st ! k) b"
    by auto
  have kb: "(k, b) \<in> slots st" "(k, b) \<notin> used_slots st"
    using ff by (auto simp: first_free_def slots_def used_slots_def)
  moreover have "used_slots st' = insert (k, b) (used_slots st)"
    unfolding p by (rule used_slots_set) (use assms(1) kb in \<open>simp_all add: phys_inv_def\<close>)
  moreover have "(l, c) \<in> used_slots st" if "(l, c) \<in> slots st" "l < k \<or> l = k \<and> c < b" for l c
    using that ff by (auto simp: first_free_def used_slots_def slots_def map_full_def)
  ultimately show ?thesis
    using p(1) by (intro exI [of _ k] exI [of _ b]) (auto simp: slot_page_def)
qed

theorem vm_phys_alloc_first_fit_witness:
  "\<exists>p st' k b. vm_phys_alloc example_phys = Inr (Some p, st') \<and>
     (k, b) \<in> slots example_phys - used_slots example_phys \<and>
     used_slots st' = {(0, 0), (k, b)}"
proof -
  have "(0, 1) \<in> slots example_phys - used_slots example_phys" by (simp add: example_phys_slots)
  then have "\<not> (\<forall>k<unat (pmb_n_maps example_phys). map_full example_phys k)"
    by (auto simp: map_full_def slots_def used_slots_def)
  with vm_phys_alloc_spec [OF example_phys_inv] obtain p st' where
    a: "vm_phys_alloc example_phys = Inr (Some p, st')" by auto
  from vm_phys_alloc_first_fit [OF example_phys_inv a] a show ?thesis
    by (auto simp: example_phys_slots)
qed

fun phys_alloc_many :: "nat \<Rightarrow> phys_state \<Rightarrow> (paddr list \<times> phys_state) res" where
  "phys_alloc_many 0 st = Inr ([], st)"
| "phys_alloc_many (Suc n) st =
     rbind (vm_phys_alloc st) (\<lambda>(r, st). case r of None \<Rightarrow> Inr ([], st)
       | Some p \<Rightarrow> rbind (phys_alloc_many n st) (\<lambda>(ps, st). Inr (p # ps, st)))"

lemma phys_alloc_many_eq: "phys_alloc_many n st = pma.alloc_many n st"
  by (induction n arbitrary: st) (simp_all cong: option.case_cong)

text \<open>Several allocations in a row: \<open>n\<close> calls of \<^verbatim>\<open>vm_phys_alloc\<close> return pairwise
  distinct pages, none of which was allocated before, as many as the pool has left.\<close>

theorem vm_phys_alloc_many_distinct:
  assumes "phys_inv st"
  shows "\<exists>ps st'. phys_alloc_many n st = Inr (ps, st') \<and> phys_inv st' \<and> distinct ps \<and>
    set ps \<inter> allocated st = {} \<and> allocated st' = allocated st \<union> set ps \<and>
    length ps = min n (card (page_pool st - allocated st))"
  using pma.alloc_many_ok [OF assms, of n] unfolding phys_alloc_many_eq by blast

theorem vm_phys_alloc_many_distinct_witness:
  "\<exists>ps st'. phys_alloc_many 3 example_phys = Inr (ps, st') \<and> distinct ps \<and> 0 \<notin> set ps"
proof -
  have "0 \<in> allocated example_phys" by (simp add: example_phys_alloc)
  with vm_phys_alloc_many_distinct [OF example_phys_inv, of 3] show ?thesis by blast
qed

text \<open>Initialisation: for ranges that are pairwise apart and not reversed,
  \<^verbatim>\<open>vm_phys_bm_bootinit\<close> establishes the invariant with every page free; when it returns 0
  every page of every range is in the pool.\<close>

theorem vm_phys_bm_bootinit_establishes:
  assumes "ranges_ok rng" and "unat n_ranges = length rng"
    and "length (prealloc_pbma st) = NNUMBER" and "length (prealloc_pbma_ptr st) = NNUMBER"
  shows "\<exists>ret pt st'. vm_phys_bm_bootinit rng n_ranges st = Inr (ret, pt, st') \<and> ret \<in> {0, -1} \<and>
    phys_inv st' \<and> allocated st' = {} \<and>
    (ret = 0 \<longrightarrow> unat (pmb_n_maps st') = length rng \<and> covers rng (length rng) st')"
  using bootinit_ok [OF assms] by blast

theorem vm_phys_bm_bootinit_establishes_witness:
  "\<exists>ret pt st'. vm_phys_bm_bootinit
      [\<lparr>pm_begin = 0, pm_end = 0x9f000\<rparr>, \<lparr>pm_begin = 0x200000, pm_end = 0x8000000\<rparr>] 2 phys_static =
      Inr (ret, pt, st') \<and> phys_inv st' \<and> allocated st' = {}"
proof -
  let ?rng = "[\<lparr>pm_begin = 0, pm_end = 0x9f000\<rparr>, \<lparr>pm_begin = 0x200000, pm_end = 0x8000000\<rparr>]"
  have "length ?rng = 2" by simp
  then have "ranges_ok ?rng"
    unfolding ranges_ok_def by (simp only: all_less_2 all_less_1) (simp add: range_apart_def)
  moreover have "length (prealloc_pbma phys_static) = NNUMBER"
    "length (prealloc_pbma_ptr phys_static) = NNUMBER" by (simp_all add: phys_static_def)
  ultimately show ?thesis using vm_phys_bm_bootinit_establishes [of ?rng 2 phys_static] by auto
qed

text \<open>C40. The release function has its range test the wrong way round: it skips a bitmap
  whenever \<^verbatim>\<open>pm_begin < page\<close> or \<^verbatim>\<open>pm_end >= page\<close>, so on a well-formed allocator it
  returns 0 and changes nothing, whatever the page.\<close>

theorem vm_phys_free_never_frees:
  assumes "phys_inv st"
  shows "vm_phys_free st page = Inr (0, st)"
proof -
  have "maps_ok (st\<lparr>pmb_lock := -1\<rparr>) (unat (pmb_n_maps st))"
    using assms by (simp add: phys_inv_def maps_ok_frame [of "st\<lparr>pmb_lock := -1\<rparr>" st])
  from phys_free_from_none [OF this] assms show ?thesis
    by (simp add: vm_phys_free_def phys_inv_def)
qed

theorem vm_phys_free_never_frees_witness:
  "(0, 0) \<in> used_slots example_phys \<and> slot_page example_phys (0, 0) = 0 \<and>
   vm_phys_free example_phys 0 = Inr (0, example_phys)"
  using vm_phys_free_never_frees [OF example_phys_inv, of 0]
  by (simp add: example_phys_slots example_phys_pages)

end
