(* ===== verification/X86_Mmu.thy ===== *)
theory X86_Mmu
  imports Spinlock Phys_Mem
begin

text \<open>
  The i686 memory management unit: \<open>system/arch/i686/physmem.c\<close> (access to physical pages
  through a window of the kernel's address space), \<open>system/arch/i686/mmu.c\<close> (the
  \<^verbatim>\<open>pmap\<close> of the kernel), \<open>system/arch/i686/include/x86/mmu.h\<close> and the flushes
  of \<open>system/xcpu/vm.c\<close>.

  Physical memory is a function from page addresses and word indices to words. The kernel's page
  directory and the page tables of the window are arrays of their own; the code never reaches them
  through the window. A C access to the virtual address of a mapped window page is an access to the
  physical page that its entry of the kernel page table names, and the invalidation (\<^verbatim>\<open>invlpg\<close>)
  that follows every change of such an entry is what makes it so. For the range of the pmap, where \<^verbatim>\<open>pmap_enter\<close> does not
  invalidate, the TLB is explicit: the translations it holds, by page number; the processor may enter
  the current translation of a page, or drop one, at any time.
\<close>

section \<open>Page table entries\<close>

definition PTE_P :: u32 where "PTE_P = 1"
definition PTE_W :: u32 where "PTE_W = 2"
definition PTE_PW :: u32 where "PTE_PW = 3"

definition PTE_ADDR :: "u32 \<Rightarrow> u32" where
  "PTE_ADDR pte = pte AND NOT 0xFFF"

definition PTE_FLAGS :: "u32 \<Rightarrow> u32" where
  "PTE_FLAGS pte = pte AND 0xFFF"

definition PDX :: "u32 \<Rightarrow> nat" where
  "PDX va = unat (drop_bit 22 va AND 0x3FF)"

definition PTX :: "u32 \<Rightarrow> nat" where
  "PTX va = unat (drop_bit 12 va AND 0x3FF)"

definition VM_PROT_READ :: u16 where "VM_PROT_READ = 4"
definition VM_PROT_WRITE :: u16 where "VM_PROT_WRITE = 2"
definition VM_PROT_EXECUTE :: u16 where "VM_PROT_EXECUTE = 1"

section \<open>State\<close>

record mmu_state =
  kernel_page_table :: "u32 list"
  kernel_page_dir :: "u32 list"
  map_sl :: kspinlock_t
  pmem :: "u32 \<Rightarrow> nat \<Rightarrow> u32"

definition KPTMIN :: nat where "KPTMIN = 3072"
definition KPTMAX :: nat where "KPTMAX = 4096"

text \<open>Access through the window.\<close>

definition win_index :: "u32 \<Rightarrow> nat" where
  "win_index va = unat (drop_bit 12 (va - 0xC0000000))"

definition win_page :: "mmu_state \<Rightarrow> u32 \<Rightarrow> u32" where
  "win_page m va = PTE_ADDR (kernel_page_table m ! win_index va)"

definition win_read :: "u32 \<Rightarrow> nat \<Rightarrow> mmu_state \<Rightarrow> u32" where
  "win_read va i m = pmem m (win_page m va) i"

definition win_write :: "u32 \<Rightarrow> nat \<Rightarrow> u32 \<Rightarrow> mmu_state \<Rightarrow> mmu_state" where
  "win_write va i v m = m\<lparr>pmem := (pmem m)(win_page m va := (pmem m (win_page m va))(i := v))\<rparr>"

definition win_byte :: "u32 \<Rightarrow> nat \<Rightarrow> mmu_state \<Rightarrow> u8" where
  "win_byte va off m = ucast (drop_bit (8 * (off mod 4)) (win_read va (off div 4) m))"

section \<open>The window (physmem.c)\<close>

function kpt_scan :: "u32 list \<Rightarrow> nat \<Rightarrow> nat" where
  "kpt_scan t i = (if i < KPTMAX then if t ! i = 0 then i else kpt_scan t (Suc i) else i)"
  by pat_completeness auto
termination
  by (relation "measure (\<lambda>(t, i). KPTMAX - i)") auto

definition map_page :: "u32 \<Rightarrow> mmu_state \<Rightarrow> (u32 \<times> mmu_state) res" where
  "map_page pa m =
     rbind (kernlock_lock (map_sl m)) (\<lambda>l.
     let m = m\<lparr>map_sl := l\<rparr>;
         i = kpt_scan (kernel_page_table m) KPTMIN;
         (r, m) = (if KPTMIN \<le> i \<and> i < KPTMAX then
             (0xC0000000 + push_bit 12 (of_nat i),
              m\<lparr>kernel_page_table := (kernel_page_table m)[i := PTE_ADDR pa OR PTE_PW]\<rparr>)
           else (0, m))
     in Inr (r, m\<lparr>map_sl := kernlock_unlock (map_sl m)\<rparr>))"

function kpt_run :: "u32 list \<Rightarrow> nat \<Rightarrow> int \<Rightarrow> int \<Rightarrow> int" where
  "kpt_run t j k n =
     (if j < KPTMAX \<and> k < n then if t ! j \<noteq> 0 then k else kpt_run t (Suc j) (k + 1) n else k)"
  by pat_completeness auto
termination
  by (relation "measure (\<lambda>(t, j, k, n). KPTMAX - j)") auto

function kpt_scan_range :: "u32 list \<Rightarrow> int \<Rightarrow> nat \<Rightarrow> nat" where
  "kpt_scan_range t n i =
     (if i < KPTMAX then
        if t ! i \<noteq> 0 then kpt_scan_range t n (Suc i)
        else if kpt_run t i 0 n = n then i else kpt_scan_range t n (Suc i)
      else i)"
  by pat_completeness auto
termination
  by (relation "measure (\<lambda>(t, n, i). KPTMAX - i)") auto

fun kpt_fill :: "nat \<Rightarrow> nat \<Rightarrow> u32 \<Rightarrow> u32 list \<Rightarrow> u32 list" where
  "kpt_fill 0 i pa t = t"
| "kpt_fill (Suc k) i pa t = kpt_fill k (Suc i) (pa + push_bit 12 1) (t[i := PTE_ADDR pa OR PTE_PW])"

definition map_page_range :: "u32 \<Rightarrow> int \<Rightarrow> mmu_state \<Rightarrow> (u32 \<times> mmu_state) res" where
  "map_page_range pa n m =
     (if n = 0 then Inr (0, m)
      else
      rbind (kernlock_lock (map_sl m)) (\<lambda>l.
      let m = m\<lparr>map_sl := l\<rparr>;
          i = kpt_scan_range (kernel_page_table m) n KPTMIN;
          (r, m) = (if KPTMIN \<le> i \<and> i < KPTMAX then
              (0xC0000000 + push_bit 12 (of_nat i),
               m\<lparr>kernel_page_table := kpt_fill (nat n) i pa (kernel_page_table m)\<rparr>)
            else (0, m))
      in Inr (r, m\<lparr>map_sl := kernlock_unlock (map_sl m)\<rparr>)))"

definition unmap_page :: "u32 \<Rightarrow> mmu_state \<Rightarrow> mmu_state res" where
  "unmap_page va m =
     (let i = win_index va in
      rbind (require (i < length (kernel_page_table m)) Bad_Access) (\<lambda>_.
      Inr (m\<lparr>kernel_page_table := (kernel_page_table m)[i := 0]\<rparr>)))"

text \<open>The two candidates for the MP floating pointer, from the BIOS data area.\<close>

definition i686_get_mp :: "mmu_state \<Rightarrow> ((u32 \<times> u32) \<times> mmu_state) res" where
  "i686_get_mp m =
     rbind (map_page 0 m) (\<lambda>(va, m).
     if va = 0 then Inr ((0, 0), m)
     else
       let ptr = (\<lambda>k. ucast (win_byte va (0x400 + k) m) :: u32);
           a0 = push_bit 4 (push_bit 8 (ptr 0x0F) OR ptr 0x0E);
           a1 = push_bit 10 (push_bit 8 (ptr 0x14) OR ptr 0x13)
       in rbind (unmap_page va m) (\<lambda>m. Inr ((a0, a1), m)))"

definition i686_mp_map_range :: "u32 \<Rightarrow> u32 \<Rightarrow> mmu_state \<Rightarrow> (u32 \<times> mmu_state) res" where
  "i686_mp_map_range pa n m =
     (let off = pa AND 0xFFF;
          k = drop_bit 12 (off + n + 0xFFF)
      in rbind (map_page_range pa (sint k) m) (\<lambda>(va, m).
         Inr (if va = 0 then 0 else va + off, m)))"

partial_function (option) unmap_range_loop :: "u32 \<Rightarrow> u32 \<Rightarrow> mmu_state \<Rightarrow> mmu_state res option" where
  "unmap_range_loop i last_page m =
     (if i \<le> last_page then
        case unmap_page i m of Inl e \<Rightarrow> Some (Inl e)
        | Inr m \<Rightarrow> unmap_range_loop (i + 0x1000) last_page m
      else Some (Inr m))"

definition i686_mp_unmap_range :: "u32 \<Rightarrow> u32 \<Rightarrow> mmu_state \<Rightarrow> mmu_state res" where
  "i686_mp_unmap_range va n m =
     (case unmap_range_loop (va AND NOT 0xFFF) ((va + n - 1) AND NOT 0xFFF) m of
        None \<Rightarrow> Inl No_Return | Some r \<Rightarrow> r)"

definition pmap_zero_page :: "u32 \<Rightarrow> mmu_state \<Rightarrow> mmu_state res" where
  "pmap_zero_page pa m =
     rbind (map_page pa m) (\<lambda>(va, m).
     if va = 0 then Inl (Panic ''Cannot map Physical page.'')
     else unmap_page va (fold (\<lambda>i. win_write va i 0) [0..<1024] m))"

definition i686_pmap_pte_set :: "u32 \<Rightarrow> nat \<Rightarrow> u32 \<Rightarrow> mmu_state \<Rightarrow> mmu_state res" where
  "i686_pmap_pte_set pa i pte m =
     rbind (map_page pa m) (\<lambda>(va, m).
     if va = 0 then Inl (Panic ''Cannot map Physical page.'')
     else unmap_page va (win_write va i pte m))"

definition i686_pmap_pte_get :: "u32 \<Rightarrow> nat \<Rightarrow> mmu_state \<Rightarrow> (u32 \<times> mmu_state) res" where
  "i686_pmap_pte_get pa i m =
     rbind (map_page pa m) (\<lambda>(va, m).
     if va = 0 then Inr (0, m)
     else let pte = win_read va i m in rbind (unmap_page va m) (\<lambda>m. Inr (pte, m)))"

definition i686_pmap_pdinit :: "u32 \<Rightarrow> mmu_state \<Rightarrow> mmu_state res" where
  "i686_pmap_pdinit pa m =
     rbind (map_page pa m) (\<lambda>(va, m).
     if va = 0 then Inl (Panic ''Cannot map Physical page.'')
     else
       let m = fold (\<lambda>i. win_write va i 0) [0..<768] m;
           m = fold (\<lambda>i m. win_write va i (kernel_page_dir m ! i) m) [768..<1024] m
       in unmap_page va m)"

section \<open>The kernel's pmap (mmu.c)\<close>

record pmap =
  pdir :: u32
  vab :: u32
  vae :: u32

definition p_inst_kernel :: "u32 \<Rightarrow> pmap" where
  "p_inst_kernel dir = \<lparr>pdir = dir - 0xC0000000, vab = 0xC1000000, vae = 0xFE000000 - 1\<rparr>"

fun pmap_init_tables :: "nat list \<Rightarrow> phys_state \<Rightarrow> mmu_state \<Rightarrow> (phys_state \<times> mmu_state) res" where
  "pmap_init_tables [] p m = Inr (p, m)"
| "pmap_init_tables (i # is) p m =
     rbind (vm_phys_alloc p) (\<lambda>(r, p).
     rbind (case r of Some phys \<Rightarrow>
              rbind (pmap_zero_page phys m) (\<lambda>m. Inr (phys OR PTE_PW, m))
            | None \<Rightarrow> Inr (0, m)) (\<lambda>(phys, m).
     pmap_init_tables is p (m\<lparr>kernel_page_dir := (kernel_page_dir m)[i := phys]\<rparr>)))"

definition pmap_init :: "u32 \<Rightarrow> phys_state \<Rightarrow> mmu_state \<Rightarrow> (pmap \<times> phys_state \<times> mmu_state) res" where
  "pmap_init dir p m =
     rbind (pmap_init_tables [772..<1024] p m) (\<lambda>(p, m). Inr (p_inst_kernel dir, p, m))"

definition pmap_get_address_range :: "pmap \<Rightarrow> u32 \<times> u32" where
  "pmap_get_address_range pm = (vab pm, vae pm)"

text \<open>\<open>is_kernel\<close> tells whether the \<^verbatim>\<open>pmap\<close> is the kernel's; there is no other.\<close>

definition pmap_enter :: "bool \<Rightarrow> u32 \<Rightarrow> u32 \<Rightarrow> u16 \<Rightarrow> u16 \<Rightarrow> mmu_state \<Rightarrow> (int \<times> mmu_state) res" where
  "pmap_enter is_kernel va pa prot flags m =
     (let i = PDX va;
          j = PTX va;
          pte = PTE_ADDR pa OR PTE_P;
          pte = (if prot AND VM_PROT_WRITE \<noteq> 0 then pte OR PTE_W else pte)
      in if is_kernel then
           let pta = kernel_page_dir m ! i in
           if PTE_FLAGS pta = 0 then Inr (1, m)
           else rbind (i686_pmap_pte_set (PTE_ADDR pta) j pte m) (\<lambda>m. Inr (0, m))
         else Inr (1, m))"

definition pmap_create :: "nat option" where
  "pmap_create = None"

definition pmap_remove :: "u32 \<Rightarrow> u32 \<Rightarrow> mmu_state \<Rightarrow> int \<times> mmu_state" where
  "pmap_remove b e m = (0, m)"

definition pmap_protect :: "u32 \<Rightarrow> u32 \<Rightarrow> u16 \<Rightarrow> mmu_state \<Rightarrow> int \<times> mmu_state" where
  "pmap_protect b e prot m = (0, m)"

definition pmap_remove_all :: "mmu_state \<Rightarrow> int \<times> mmu_state" where
  "pmap_remove_all m = (0, m)"

definition pmap_destroy :: "mmu_state \<Rightarrow> mmu_state" where
  "pmap_destroy m = m"

section \<open>The TLB (mmu.c, xcpu/vm.c)\<close>

type_synonym tlb = "u32 \<rightharpoonup> u32 \<times> bool"

definition invlpg :: "u32 \<Rightarrow> tlb \<Rightarrow> tlb" where
  "invlpg addr T = T(drop_bit 12 addr := None)"

definition mmu_tlb_flush_all :: "tlb \<Rightarrow> tlb" where
  "mmu_tlb_flush_all T = (\<lambda>_. None)"

partial_function (option) flush_loop :: "u32 \<Rightarrow> u32 \<Rightarrow> tlb \<Rightarrow> tlb option" where
  "flush_loop b e T = (if b \<le> e then flush_loop (b + 0x1000) e (invlpg b T) else Some T)"

definition mmu_tlb_flush_range :: "u32 \<Rightarrow> u32 \<Rightarrow> tlb \<Rightarrow> tlb option" where
  "mmu_tlb_flush_range b e T = flush_loop (b AND NOT 0xFFF) (e AND NOT 0xFFF) T"

definition mmu_tlb_flush_page :: "u32 \<Rightarrow> tlb \<Rightarrow> tlb" where
  "mmu_tlb_flush_page pos T = invlpg pos T"

definition xcpu_tlb_flush_all :: "tlb \<Rightarrow> tlb" where
  "xcpu_tlb_flush_all T = mmu_tlb_flush_all T"

definition xcpu_tlb_flush_range :: "u32 \<Rightarrow> u32 \<Rightarrow> tlb \<Rightarrow> tlb option" where
  "xcpu_tlb_flush_range b e T = mmu_tlb_flush_range b e T"

definition xcpu_tlb_flush_page :: "u32 \<Rightarrow> tlb \<Rightarrow> tlb" where
  "xcpu_tlb_flush_page pos T = mmu_tlb_flush_page pos T"

declare kpt_scan.simps [simp del] kpt_run.simps [simp del] kpt_scan_range.simps [simp del]

section \<open>The window\<close>

definition mmu_ok :: "mmu_state \<Rightarrow> bool" where
  "mmu_ok m \<longleftrightarrow> length (kernel_page_table m) = 4096 \<and> length (kernel_page_dir m) = 1024 \<and> map_sl m = 0"

definition window_free :: "mmu_state \<Rightarrow> bool" where
  "window_free m \<longleftrightarrow> (\<exists>i. 3072 \<le> i \<and> i < 4096 \<and> kernel_page_table m ! i = 0)"

lemma kpt_scan_spec:
  "i \<le> kpt_scan t i \<and> (kpt_scan t i < KPTMAX \<longrightarrow> t ! kpt_scan t i = 0) \<and>
   (\<forall>j. i \<le> j \<and> j < kpt_scan t i \<and> j < KPTMAX \<longrightarrow> t ! j \<noteq> 0)"
proof (induction t i rule: kpt_scan.induct)
  case (1 t i)
  show ?case
  proof (cases "i < KPTMAX \<and> t ! i \<noteq> 0")
    case True
    then have eq: "kpt_scan t i = kpt_scan t (Suc i)" by (simp add: kpt_scan.simps [of t i])
    have IH: "Suc i \<le> kpt_scan t (Suc i)" "kpt_scan t (Suc i) < KPTMAX \<longrightarrow> t ! kpt_scan t (Suc i) = 0"
      "\<forall>j. Suc i \<le> j \<and> j < kpt_scan t (Suc i) \<and> j < KPTMAX \<longrightarrow> t ! j \<noteq> 0"
      using 1 True by blast+
    have "t ! j \<noteq> 0" if "i \<le> j" "j < kpt_scan t (Suc i)" "j < KPTMAX" for j
      using that IH(3) True by (cases "j = i") auto
    with IH(1,2) show ?thesis unfolding eq by simp
  next
    case False
    then show ?thesis by (auto simp: kpt_scan.simps [of t i])
  qed
qed

lemma win_index_slot:
  assumes "i < 4096"
  shows "win_index (0xC0000000 + push_bit 12 (of_nat i)) = i"
    and "(0xC0000000 + push_bit 12 (of_nat i) :: u32) \<noteq> 0"
proof -
  have p: "push_bit 12 (of_nat i :: u32) = of_nat (i * 4096)" by (simp add: push_bit_eq_mult)
  have u: "unat (of_nat (i * 4096) :: u32) = i * 4096" using assms by (intro unat_of_nat_u32) simp
  show "win_index (0xC0000000 + push_bit 12 (of_nat i)) = i"
    unfolding win_index_def p using u by (simp add: drop_bit_eq_div unat_div del: of_nat_mult)
  have "unat (0xC0000000 + push_bit 12 (of_nat i) :: u32) = 0xC0000000 + i * 4096"
    unfolding p using assms u by (subst unat_add_u32) (simp_all del: of_nat_mult)
  then have "unat (0xC0000000 + push_bit 12 (of_nat i) :: u32) \<noteq> 0" by linarith
  then show "(0xC0000000 + push_bit 12 (of_nat i) :: u32) \<noteq> 0" unfolding unsigned_eq_0_iff .
qed

lemma PTE_ADDR_simps [simp]:
  "PTE_ADDR (PTE_ADDR a OR PTE_PW) = PTE_ADDR a" "PTE_ADDR (PTE_ADDR a) = PTE_ADDR a"
  "PTE_ADDR (PTE_ADDR a OR PTE_P) = PTE_ADDR a" "PTE_ADDR (PTE_ADDR a OR PTE_P OR PTE_W) = PTE_ADDR a"
  by (simp_all add: PTE_ADDR_def PTE_PW_def PTE_P_def PTE_W_def and.assoc bit.conj_disj_distrib2)

lemma PTE_FLAGS_simps [simp]: "PTE_FLAGS (PTE_ADDR a OR b) = PTE_FLAGS b"
proof -
  have "(a AND NOT 0xFFF) AND 0xFFF = (0 :: u32)" by (simp add: and.assoc)
  then show ?thesis by (simp add: PTE_ADDR_def PTE_FLAGS_def bit.conj_disj_distrib2)
qed

text \<open>Mapping a page takes the first free entry of the window; the entry leads to the page.\<close>

lemma map_page_ok:
  assumes ok: "mmu_ok m" and f: "window_free m"
  shows "\<exists>i. 3072 \<le> i \<and> i < 4096 \<and> kernel_page_table m ! i = 0 \<and>
    (\<forall>j. 3072 \<le> j \<and> j < i \<longrightarrow> kernel_page_table m ! j \<noteq> 0) \<and>
    map_page pa m = Inr (0xC0000000 + push_bit 12 (of_nat i),
      m\<lparr>kernel_page_table := (kernel_page_table m)[i := PTE_ADDR pa OR PTE_PW]\<rparr>)"
proof -
  let ?i = "kpt_scan (kernel_page_table m) KPTMIN"
  have len: "length (kernel_page_table m) = 4096" "map_sl m = 0" using ok by (auto simp: mmu_ok_def)
  note sp = kpt_scan_spec [of KPTMIN "kernel_page_table m"]
  have i: "3072 \<le> ?i" "?i < 4096"
    using sp f by (auto simp: window_free_def KPTMIN_def KPTMAX_def)
  have "map_page pa m = Inr (0xC0000000 + push_bit 12 (of_nat ?i),
      m\<lparr>kernel_page_table := (kernel_page_table m)[?i := PTE_ADDR pa OR PTE_PW]\<rparr>)"
    using i len by (simp add: map_page_def KPTMIN_def KPTMAX_def Let_def)
  with i sp show ?thesis by (intro exI [of _ ?i]) (auto simp: KPTMIN_def KPTMAX_def)
qed

lemma map_page_full:
  assumes ok: "mmu_ok m" and f: "\<not> window_free m"
  shows "map_page pa m = Inr (0, m)"
proof -
  let ?i = "kpt_scan (kernel_page_table m) KPTMIN"
  have "\<not> ?i < KPTMAX"
    using kpt_scan_spec [of KPTMIN "kernel_page_table m"] f by (auto simp: window_free_def KPTMIN_def KPTMAX_def)
  then show ?thesis using ok by (simp add: map_page_def mmu_ok_def Let_def)
qed

definition set_word :: "u32 \<Rightarrow> nat \<Rightarrow> u32 \<Rightarrow> mmu_state \<Rightarrow> mmu_state" where
  "set_word pa i v m = m\<lparr>pmem := (pmem m)(PTE_ADDR pa := (pmem m (PTE_ADDR pa))(i := v))\<rparr>"

lemma set_word_frame [simp]:
  "kernel_page_table (set_word pa i v m) = kernel_page_table m" "kernel_page_dir (set_word pa i v m) = kernel_page_dir m"
  "map_sl (set_word pa i v m) = map_sl m" "mmu_ok (set_word pa i v m) = mmu_ok m"
  "window_free (set_word pa i v m) = window_free m"
  by (simp_all add: set_word_def mmu_ok_def window_free_def)

text \<open>Writing one entry through the window changes that word of the page and nothing else: the
  window is as before.\<close>

lemma pte_set_eq:
  assumes ok: "mmu_ok m" and f: "window_free m"
  shows "i686_pmap_pte_set pa i pte m = Inr (set_word pa i pte m)"
proof -
  obtain k where k: "3072 \<le> k" "k < 4096" "kernel_page_table m ! k = 0"
    "map_page pa m = Inr (0xC0000000 + push_bit 12 (of_nat k),
      m\<lparr>kernel_page_table := (kernel_page_table m)[k := PTE_ADDR pa OR PTE_PW]\<rparr>)"
    using map_page_ok [OF assms] by blast
  have len: "length (kernel_page_table m) = 4096" using ok by (simp add: mmu_ok_def)
  have same: "(kernel_page_table m)[k := 0] = kernel_page_table m" using k(3) by (metis list_update_id)
  show ?thesis
    using k(2,4) len win_index_slot [OF k(2)] same
    by (simp add: i686_pmap_pte_set_def unmap_page_def win_write_def win_page_def set_word_def Let_def)
qed

lemma pte_get_eq:
  assumes ok: "mmu_ok m" and f: "window_free m"
  shows "i686_pmap_pte_get pa i m = Inr (pmem m (PTE_ADDR pa) i, m)"
proof -
  obtain k where k: "3072 \<le> k" "k < 4096" "kernel_page_table m ! k = 0"
    "map_page pa m = Inr (0xC0000000 + push_bit 12 (of_nat k),
      m\<lparr>kernel_page_table := (kernel_page_table m)[k := PTE_ADDR pa OR PTE_PW]\<rparr>)"
    using map_page_ok [OF assms] by blast
  have len: "length (kernel_page_table m) = 4096" using ok by (simp add: mmu_ok_def)
  have same: "(kernel_page_table m)[k := 0] = kernel_page_table m" using k(3) by (metis list_update_id)
  show ?thesis
    using k(2,4) len win_index_slot [OF k(2)] same
    by (simp add: i686_pmap_pte_get_def unmap_page_def win_read_def win_page_def Let_def)
qed

section \<open>Ranges of the window\<close>

text \<open>\<open>free_run t i n\<close>: the \<open>n\<close> entries from \<open>i\<close> on are free and inside the table.\<close>

definition free_run :: "u32 list \<Rightarrow> nat \<Rightarrow> nat \<Rightarrow> bool" where
  "free_run t i n \<longleftrightarrow> i + n \<le> KPTMAX \<and> (\<forall>j. i \<le> j \<and> j < i + n \<longrightarrow> t ! j = 0)"

lemma kpt_run_full:
  assumes "k \<le> n" and "j \<le> KPTMAX"
  shows "kpt_run t j k n = n \<longleftrightarrow> free_run t j (nat (n - k))"
  using assms
proof (induction t j k n rule: kpt_run.induct)
  case (1 t j k n)
  show ?case
  proof (cases "j < KPTMAX \<and> k < n \<and> t ! j = 0")
    case True
    have s: "nat (n - k) = Suc (nat (n - (k + 1)))" using True by linarith
    have up: "j \<le> x \<longleftrightarrow> x = j \<or> Suc j \<le> x" for x by auto
    have "free_run t j (Suc l) \<longleftrightarrow> free_run t (Suc j) l" for l
      using True unfolding free_run_def up by auto
    moreover have "kpt_run t (Suc j) (k + 1) n = n \<longleftrightarrow> free_run t (Suc j) (nat (n - (k + 1)))"
      using True by (intro 1(1)) auto
    ultimately show ?thesis using True unfolding s by (simp add: kpt_run.simps [of t j])
  next
    case False
    then have e: "kpt_run t j k n = k" by (auto simp: kpt_run.simps [of t j])
    show ?thesis
    proof (cases "k = n")
      case True
      then show ?thesis using e 1(3) by (auto simp: free_run_def)
    next
      case kn: False
      then have "0 < nat (n - k)" using 1(2) by linarith
      with False 1(2,3) kn have "\<not> free_run t j (nat (n - k))"
        by (auto simp: free_run_def)
      with e kn show ?thesis by simp
    qed
  qed
qed

lemma kpt_scan_range_spec:
  assumes "0 < n" and "i \<le> KPTMAX"
  shows "(kpt_scan_range t n i < KPTMAX \<and> i \<le> kpt_scan_range t n i \<and>
      free_run t (kpt_scan_range t n i) (nat n) \<and>
      (\<forall>l. i \<le> l \<and> l < kpt_scan_range t n i \<longrightarrow> \<not> free_run t l (nat n))) \<or>
    (kpt_scan_range t n i = KPTMAX \<and> (\<forall>l\<ge>i. \<not> free_run t l (nat n)))"
  using assms
proof (induction t n i rule: kpt_scan_range.induct)
  case (1 t n i)
  have pos: "0 < nat n" using 1(3) by simp
  consider "i = KPTMAX" | "i < KPTMAX" "free_run t i (nat n)" | "i < KPTMAX" "\<not> free_run t i (nat n)"
    using 1(4) by linarith
  then show ?case
  proof cases
    case 1
    then have "kpt_scan_range t n i = KPTMAX" by (subst kpt_scan_range.simps) simp
    with 1 pos show ?thesis by (auto simp: free_run_def)
  next
    case 2
    then have "t ! i = 0" using pos by (simp add: free_run_def)
    moreover have "kpt_run t i 0 n = n" using 2 \<open>0 < n\<close> kpt_run_full [of 0 n i t] by simp
    ultimately have "kpt_scan_range t n i = i" using 2 by (simp add: kpt_scan_range.simps [of t n i])
    with 2 show ?thesis by auto
  next
    case 3
    have r: "kpt_run t i 0 n \<noteq> n" using 3 \<open>0 < n\<close> kpt_run_full [of 0 n i t] by simp
    with 3 have e: "kpt_scan_range t n i = kpt_scan_range t n (Suc i)"
      by (simp add: kpt_scan_range.simps [of t n i])
    have up: "i \<le> l \<Longrightarrow> l = i \<or> Suc i \<le> l" for l by linarith
    have IH: "(kpt_scan_range t n (Suc i) < KPTMAX \<and> Suc i \<le> kpt_scan_range t n (Suc i) \<and>
      free_run t (kpt_scan_range t n (Suc i)) (nat n) \<and>
      (\<forall>l. Suc i \<le> l \<and> l < kpt_scan_range t n (Suc i) \<longrightarrow> \<not> free_run t l (nat n))) \<or>
      (kpt_scan_range t n (Suc i) = KPTMAX \<and> (\<forall>l\<ge>Suc i. \<not> free_run t l (nat n)))"
      using 1(1,2) 3 r \<open>0 < n\<close> by (cases "t ! i = 0") simp_all
    then show ?thesis unfolding e using up 3(2) by (metis Suc_leD)
  qed
qed

lemma kpt_fill_nth:
  assumes "i + n \<le> length t"
  shows "length (kpt_fill n i pa t) = length t \<and>
    (\<forall>j<length t. kpt_fill n i pa t ! j =
       (if i \<le> j \<and> j < i + n then PTE_ADDR (pa + of_nat (j - i) * 0x1000) OR PTE_PW else t ! j))"
  using assms
proof (induction n arbitrary: i pa t)
  case (Suc n)
  let ?t = "t[i := PTE_ADDR pa OR PTE_PW]"
  have IH: "length (kpt_fill n (Suc i) (pa + 0x1000) ?t) = length t"
    "\<forall>j<length t. kpt_fill n (Suc i) (pa + 0x1000) ?t ! j =
       (if Suc i \<le> j \<and> j < Suc i + n then PTE_ADDR (pa + 0x1000 + of_nat (j - Suc i) * 0x1000) OR PTE_PW else ?t ! j)"
    using Suc.IH [of "Suc i" ?t "pa + 0x1000"] Suc.prems by simp_all
  have step: "pa + 0x1000 + of_nat (j - Suc i) * 0x1000 = pa + of_nat (j - i) * 0x1000" if "Suc i \<le> j" for j
  proof -
    have "j - i = Suc (j - Suc i)" using that by simp
    then show ?thesis by (simp add: algebra_simps)
  qed
  have "kpt_fill n (Suc i) (pa + 0x1000) ?t ! j =
      (if i \<le> j \<and> j < i + Suc n then PTE_ADDR (pa + of_nat (j - i) * 0x1000) OR PTE_PW else t ! j)"
    if "j < length t" for j
  proof (cases "j = i")
    case True
    then show ?thesis using IH(2) that by simp
  next
    case False
    then have "i \<le> j \<longleftrightarrow> Suc i \<le> j" by auto
    then show ?thesis using IH(2) that False step [of j] by simp
  qed
  with IH(1) show ?case by (simp add: push_bit_eq_mult)
qed auto

section \<open>Address translation\<close>

text \<open>What the processor does with an address of the kernel: the entry of the page directory, then
  the entry of the page table it names. The result is the page and whether it is writable.\<close>

definition mmu_walk :: "mmu_state \<Rightarrow> u32 \<Rightarrow> (u32 \<times> bool) option" where
  "mmu_walk m va =
     (let pde = kernel_page_dir m ! PDX va;
          pte = pmem m (PTE_ADDR pde) (PTX va)
      in if pde AND PTE_P = 0 \<or> pte AND PTE_P = 0 then None
         else Some (PTE_ADDR pte, pte AND PTE_W \<noteq> 0))"

text \<open>The page tables that \<^verbatim>\<open>pmap_init\<close> enters, from 772 on, are present when their entry is
  not zero, and no two entries name the same table.\<close>

definition tables_ok :: "mmu_state \<Rightarrow> bool" where
  "tables_ok m \<longleftrightarrow> (\<forall>i. 772 \<le> i \<and> i < 1024 \<longrightarrow> kernel_page_dir m ! i = 0 \<or>
       kernel_page_dir m ! i = PTE_ADDR (kernel_page_dir m ! i) OR PTE_PW) \<and>
     (\<forall>i j. 772 \<le> i \<and> i < j \<and> j < 1024 \<and> kernel_page_dir m ! i \<noteq> 0 \<and> kernel_page_dir m ! j \<noteq> 0 \<longrightarrow>
       PTE_ADDR (kernel_page_dir m ! i) \<noteq> PTE_ADDR (kernel_page_dir m ! j))"

lemma PTE_bits [simp]:
  "(PTE_ADDR a OR PTE_PW) AND PTE_P \<noteq> 0" "(PTE_ADDR a OR PTE_P) AND PTE_P \<noteq> 0"
  "(PTE_ADDR a OR PTE_P OR PTE_W) AND PTE_P \<noteq> 0" "(PTE_ADDR a OR PTE_P OR PTE_W) AND PTE_W \<noteq> 0"
  "(PTE_ADDR a OR PTE_P) AND PTE_W = 0" "PTE_ADDR a OR PTE_PW \<noteq> 0" "PTE_FLAGS (PTE_ADDR a OR PTE_PW) \<noteq> 0"
  "PTE_FLAGS 0 = 0" "PTE_FLAGS PTE_PW \<noteq> 0"
proof -
  have b: "bit (PTE_ADDR a) 0 = False" "bit (PTE_ADDR a) 1 = False"
    by (simp_all add: PTE_ADDR_def bit_and_iff bit_not_iff)
  have i0: "w AND PTE_P \<noteq> 0" if "bit w 0" for w
    using that bit_and_iff [of w PTE_P 0] by (auto simp: PTE_P_def)
  have i1: "w AND PTE_W \<noteq> 0 \<longleftrightarrow> bit w 1" for w :: u32
    using and_exp_eq_0_iff_not_bit [of w 1] by (simp add: PTE_W_def)
  show 1: "(PTE_ADDR a OR PTE_PW) AND PTE_P \<noteq> 0" "(PTE_ADDR a OR PTE_P) AND PTE_P \<noteq> 0"
    "(PTE_ADDR a OR PTE_P OR PTE_W) AND PTE_P \<noteq> 0"
    by (intro i0; simp add: bit_or_iff PTE_PW_def PTE_P_def)+
  show "(PTE_ADDR a OR PTE_P OR PTE_W) AND PTE_W \<noteq> 0"
    unfolding i1 by (simp add: bit_or_iff PTE_W_def)
  show "(PTE_ADDR a OR PTE_P) AND PTE_W = 0"
    using i1 [of "PTE_ADDR a OR PTE_P"] b by (simp add: bit_or_iff PTE_P_def)
  show "PTE_ADDR a OR PTE_PW \<noteq> 0" using 1(1) by auto
  show z: "PTE_FLAGS 0 = 0" "PTE_FLAGS PTE_PW \<noteq> 0"
    by (simp_all add: PTE_FLAGS_def PTE_PW_def)
  show "PTE_FLAGS (PTE_ADDR a OR PTE_PW) \<noteq> 0" using z(2) by simp
qed

lemma page_index_inj:
  assumes "PDX va = PDX vb" and "PTX va = PTX vb"
  shows "drop_bit 12 va = drop_bit 12 vb"
proof -
  have m: "(0x3FF :: u32) = mask 10" by (simp add: mask_eq_exp_minus_1)
  have split: "drop_bit 12 w = push_bit 10 (drop_bit 22 w AND 0x3FF) OR (drop_bit 12 w AND 0x3FF)" for w :: u32
  proof (rule bit_eqI)
    fix n
    assume n: "possible_bit TYPE(u32) n"
    show "bit (drop_bit 12 w) n = bit (push_bit 10 (drop_bit 22 w AND 0x3FF) OR (drop_bit 12 w AND 0x3FF)) n"
    proof (cases "n < 10")
      case True
      then show ?thesis
        unfolding m by (simp add: bit_or_iff bit_and_iff bit_push_bit_iff bit_drop_bit_eq bit_mask_iff)
    next
      case False
      have "n - 10 < 10" if "bit w (12 + n)" using that False bit_imp_le_length [of w "12 + n"] by simp
      with False n show ?thesis
        unfolding m by (auto simp: bit_or_iff bit_and_iff bit_push_bit_iff bit_drop_bit_eq bit_mask_iff)
    qed
  qed
  have "drop_bit 22 va AND 0x3FF = drop_bit 22 vb AND 0x3FF" "drop_bit 12 va AND 0x3FF = drop_bit 12 vb AND 0x3FF"
    using assms unfolding PDX_def PTX_def by (simp_all only: word_unat_eq_iff)
  then show ?thesis by (subst split [of va], subst split [of vb]) (simp only:)
qed

lemma PDX_bounds: "PDX va < 1024" "0xC1000000 \<le> va \<Longrightarrow> 772 \<le> PDX va"
proof -
  have a: "drop_bit 22 w AND 0x3FF = drop_bit 22 w" for w :: u32
  proof -
    have m: "(0x3FF :: u32) = mask 10" by (simp add: mask_eq_exp_minus_1)
    show ?thesis
      unfolding m
      by (rule bit_eqI) (auto simp: bit_and_iff bit_mask_iff bit_drop_bit_eq dest: bit_imp_le_length)
  qed
  have u: "PDX va = unat va div 4194304" unfolding PDX_def a by (simp add: drop_bit_eq_div unat_div)
  show "PDX va < 1024" unfolding u using unat_u32_lt [of va] by simp
  show "772 \<le> PDX va" if "0xC1000000 \<le> va"
    using that unfolding u word_le_nat_alt by simp
qed

lemma PTX_bound: "PTX va < 1024"
proof -
  have "drop_bit 12 va AND 0x3FF \<le> 0x3FF" by (rule word_and_le1)
  then show ?thesis unfolding PTX_def word_le_nat_alt by simp
qed

lemma pmap_enter_cases:
  assumes "mmu_ok m" and "window_free m" and "tables_ok m" and "0xC1000000 \<le> va"
  shows "pmap_enter True va pa prot flags m =
    (if kernel_page_dir m ! PDX va = 0 then Inr (1, m)
     else Inr (0, set_word (kernel_page_dir m ! PDX va) (PTX va)
       (if prot AND VM_PROT_WRITE \<noteq> 0 then PTE_ADDR pa OR PTE_P OR PTE_W else PTE_ADDR pa OR PTE_P) m))"
proof (cases "kernel_page_dir m ! PDX va = 0")
  case True
  then show ?thesis by (simp add: pmap_enter_def Let_def)
next
  case False
  then have "kernel_page_dir m ! PDX va = PTE_ADDR (kernel_page_dir m ! PDX va) OR PTE_PW"
    using assms(3) PDX_bounds(1) [of va] PDX_bounds(2) [OF assms(4)] by (auto simp: tables_ok_def)
  then have "PTE_FLAGS (kernel_page_dir m ! PDX va) \<noteq> 0" by (metis PTE_bits(7))
  with False show ?thesis
    by (simp add: pmap_enter_def Let_def pte_set_eq [OF assms(1,2)] set_word_def or.assoc)
qed

lemma mmu_walk_set_word:
  assumes "tables_ok m" and "0xC1000000 \<le> va" and "0xC1000000 \<le> vb" and "kernel_page_dir m ! PDX va \<noteq> 0"
    and "drop_bit 12 vb \<noteq> drop_bit 12 va"
  shows "mmu_walk (set_word (kernel_page_dir m ! PDX va) (PTX va) pte m) vb = mmu_walk m vb"
proof (cases "kernel_page_dir m ! PDX vb = 0")
  case True
  then show ?thesis by (simp add: mmu_walk_def Let_def)
next
  case False
  have "PTE_ADDR (kernel_page_dir m ! PDX vb) \<noteq> PTE_ADDR (kernel_page_dir m ! PDX va) \<or> PTX vb \<noteq> PTX va"
  proof (cases "PDX va = PDX vb")
    case True
    with page_index_inj [of va vb] assms(5) show ?thesis by metis
  next
    case ne: False
    have "PTE_ADDR (kernel_page_dir m ! PDX vb) \<noteq> PTE_ADDR (kernel_page_dir m ! PDX va)"
      using assms(1,4) False ne PDX_bounds(1) [of va] PDX_bounds(1) [of vb]
        PDX_bounds(2) [OF assms(2)] PDX_bounds(2) [OF assms(3)]
      unfolding tables_ok_def by (metis nat_neq_iff)
    then show ?thesis ..
  qed
  then show ?thesis by (auto simp: mmu_walk_def set_word_def Let_def)
qed

lemma mmu_walk_set_same:
  assumes "tables_ok m" and "0xC1000000 \<le> va" and "kernel_page_dir m ! PDX va \<noteq> 0"
  shows "mmu_walk (set_word (kernel_page_dir m ! PDX va) (PTX va) pte m) va =
    (if pte AND PTE_P = 0 then None else Some (PTE_ADDR pte, pte AND PTE_W \<noteq> 0))"
proof -
  have e: "kernel_page_dir m ! PDX va = PTE_ADDR (kernel_page_dir m ! PDX va) OR PTE_PW"
    using assms PDX_bounds(1) [of va] PDX_bounds(2) [OF assms(2)] by (auto simp: tables_ok_def)
  have "kernel_page_dir m ! PDX va AND PTE_P \<noteq> 0"
    by (subst e) (rule PTE_bits(1))
  then show ?thesis by (simp add: mmu_walk_def set_word_def Let_def)
qed

lemma tables_ok_set_word [simp]: "tables_ok (set_word pa i v m) = tables_ok m"
  by (simp add: tables_ok_def)

text \<open>Zeroing a page.\<close>

lemma win_write_fold:
  "fold (\<lambda>i. win_write va i (f i)) is m =
     m\<lparr>pmem := (pmem m)(win_page m va := (\<lambda>i. if i \<in> set is then f i else pmem m (win_page m va) i))\<rparr>"
proof (induction "is" arbitrary: m)
  case (Cons i "is")
  have "win_page (win_write va i (f i) m) va = win_page m va"
    by (simp add: win_write_def win_page_def)
  with Cons show ?case by (auto simp: win_write_def fun_eq_iff)
qed simp

lemma pmap_zero_page_eq:
  assumes ok: "mmu_ok m" and f: "window_free m"
  shows "pmap_zero_page pa m = Inr (m\<lparr>pmem := (pmem m)(PTE_ADDR pa := (\<lambda>i. if i < 1024 then 0 else pmem m (PTE_ADDR pa) i))\<rparr>)"
proof -
  obtain k where k: "3072 \<le> k" "k < 4096" "kernel_page_table m ! k = 0"
    "map_page pa m = Inr (0xC0000000 + push_bit 12 (of_nat k),
      m\<lparr>kernel_page_table := (kernel_page_table m)[k := PTE_ADDR pa OR PTE_PW]\<rparr>)"
    using map_page_ok [OF assms] by blast
  have len: "length (kernel_page_table m) = 4096" using ok by (simp add: mmu_ok_def)
  have same: "(kernel_page_table m)[k := 0] = kernel_page_table m" using k(3) by (metis list_update_id)
  have "set [0..<1024] = {0..<1024}" by simp
  then show ?thesis
    using k(2,4) len win_index_slot [OF k(2)] same
    by (simp add: pmap_zero_page_def unmap_page_def win_write_fold win_page_def Let_def cong: if_cong)
qed

section \<open>Building the kernel's page tables\<close>

text \<open>The tables entered so far: pages of the allocator, zeroed, all different.\<close>

definition tables_upto :: "nat \<Rightarrow> phys_state \<Rightarrow> mmu_state \<Rightarrow> bool" where
  "tables_upto a p m \<longleftrightarrow>
     (\<forall>i. 772 \<le> i \<and> i < a \<longrightarrow> kernel_page_dir m ! i = 0 \<or>
        (\<exists>q\<in>allocated p. PTE_ADDR q = q \<and> kernel_page_dir m ! i = q OR PTE_PW \<and> (\<forall>j<1024. pmem m q j = 0))) \<and>
     (\<forall>i j. 772 \<le> i \<and> i < j \<and> j < a \<and> kernel_page_dir m ! i \<noteq> 0 \<and> kernel_page_dir m ! j \<noteq> 0 \<longrightarrow>
        PTE_ADDR (kernel_page_dir m ! i) \<noteq> PTE_ADDR (kernel_page_dir m ! j))"

definition pages_aligned :: "phys_state \<Rightarrow> bool" where
  "pages_aligned p \<longleftrightarrow> (\<forall>q\<in>page_pool p. PTE_ADDR q = q)"

lemma tables_upto_none:
  assumes "tables_upto a p m" and "length (kernel_page_dir m) = 1024" and "772 \<le> a" and "a < 1024"
  shows "tables_upto (Suc a) p (m\<lparr>kernel_page_dir := (kernel_page_dir m)[a := 0]\<rparr>)"
  using assms unfolding tables_upto_def by (simp add: nth_list_update less_Suc_eq)

lemma tables_upto_some:
  assumes t: "tables_upto a p m" and len: "length (kernel_page_dir m) = 1024" and a: "772 \<le> a" "a < 1024"
    and q: "q \<notin> allocated p" "PTE_ADDR q = q" and p': "allocated p' = insert q (allocated p)"
  shows "tables_upto (Suc a) p' (m\<lparr>pmem := (pmem m)(q := (\<lambda>i. if i < 1024 then 0 else pmem m q i)),
    kernel_page_dir := (kernel_page_dir m)[a := q OR PTE_PW]\<rparr>)"
    (is "tables_upto _ _ ?m")
proof -
  have old: "kernel_page_dir ?m ! i = kernel_page_dir m ! i" if "i < a" for i using that by simp
  have new: "kernel_page_dir ?m ! a = q OR PTE_PW" using len a by simp
  have addr: "PTE_ADDR (r OR PTE_PW) = r" if "PTE_ADDR r = r" for r
    using PTE_ADDR_simps(1) [of r] that by simp
  have tab: "kernel_page_dir m ! i = 0 \<or> (\<exists>r\<in>allocated p. PTE_ADDR r = r \<and> kernel_page_dir m ! i = r OR PTE_PW \<and>
      (\<forall>j<1024. pmem m r j = 0))" if "772 \<le> i" "i < a" for i
    using t that unfolding tables_upto_def by blast
  have fresh: "PTE_ADDR (kernel_page_dir m ! i) \<noteq> q" if "772 \<le> i" "i < a" "kernel_page_dir m ! i \<noteq> 0" for i
    using tab [OF that(1,2)] that(3) q(1) addr by metis
  have 1: "kernel_page_dir ?m ! i = 0 \<or> (\<exists>r\<in>allocated p'. PTE_ADDR r = r \<and> kernel_page_dir ?m ! i = r OR PTE_PW \<and>
      (\<forall>j<1024. pmem ?m r j = 0))" if i: "772 \<le> i" "i < Suc a" for i
  proof (cases "i = a")
    case True
    then show ?thesis using new q(2) by (intro disjI2 bexI [of _ q]) (simp_all add: p')
  next
    case False
    then have ia: "i < a" using i by simp
    show ?thesis unfolding old [OF ia] using tab [OF i(1) ia] by (auto simp: p')
  qed
  have 2: "PTE_ADDR (kernel_page_dir ?m ! i) \<noteq> PTE_ADDR (kernel_page_dir ?m ! j)"
    if ij: "772 \<le> i" "i < j" "j < Suc a" "kernel_page_dir ?m ! i \<noteq> 0" "kernel_page_dir ?m ! j \<noteq> 0" for i j
  proof (cases "j = a")
    case True
    then have ia: "i < a" using ij by simp
    have "PTE_ADDR (kernel_page_dir ?m ! j) = q" unfolding True new by (rule addr [OF q(2)])
    moreover have "PTE_ADDR (kernel_page_dir ?m ! i) \<noteq> q"
      using fresh [OF ij(1) ia] ij(4) unfolding old [OF ia] by blast
    ultimately show ?thesis by simp
  next
    case False
    then have "i < a" "j < a" using ij by simp_all
    with ij t show ?thesis unfolding tables_upto_def by simp
  qed
  show ?thesis unfolding tables_upto_def using 1 2 by blast
qed

lemma pmap_init_tables_card:
  assumes "phys_inv p" and "pmap_init_tables xs p m = Inr (p', m')"
  shows "card (page_pool p' - allocated p') = card (page_pool p - allocated p) - length xs"
  using assms
proof (induction xs arbitrary: p m)
  case (Cons a xs)
  from vm_phys_alloc_ok [OF Cons.prems(1)] consider
      (some) q p1 where "vm_phys_alloc p = Inr (Some q, p1)" "q \<in> page_pool p - allocated p"
        "allocated p1 = insert q (allocated p)" "page_pool p1 = page_pool p" "phys_inv p1"
    | (none) "allocated p = page_pool p" "vm_phys_alloc p = Inr (None, p)" by blast
  then show ?case
  proof cases
    case some
    have "page_pool p1 - allocated p1 = (page_pool p - allocated p) - {q}" using some by auto
    then have c: "card (page_pool p1 - allocated p1) = card (page_pool p - allocated p) - 1"
      using some(2) by (simp add: card_Diff_singleton)
    obtain m1 where "pmap_init_tables xs p1 m1 = Inr (p', m')" using Cons.prems(2) some(1) by (auto simp: res_inv Let_def)
    then show ?thesis using Cons.IH [OF some(5)] c by simp
  next
    case none
    obtain m1 where "pmap_init_tables xs p m1 = Inr (p', m')" using Cons.prems(2) none(2) by (auto simp: res_inv Let_def)
    then show ?thesis using Cons.IH [OF Cons.prems(1)] none(1) by simp
  qed
qed simp

lemma pmap_init_tables_ok:
  assumes "phys_inv p" "mmu_ok m" "window_free m" "pages_aligned p" "tables_upto a p m" "772 \<le> a" "a \<le> 1024"
  shows "\<exists>p' m'. pmap_init_tables [a..<1024] p m = Inr (p', m') \<and> phys_inv p' \<and> mmu_ok m' \<and> window_free m' \<and>
    page_pool p' = page_pool p \<and> tables_upto 1024 p' m' \<and>
    (1024 - a \<le> card (page_pool p - allocated p) \<longrightarrow> (\<forall>i. a \<le> i \<and> i < 1024 \<longrightarrow> kernel_page_dir m' ! i \<noteq> 0)) \<and>
    (\<forall>i<a. kernel_page_dir m' ! i = kernel_page_dir m ! i) \<and> allocated p \<subseteq> allocated p' \<and>
    (\<forall>q p1. a < 1024 \<and> vm_phys_alloc p = Inr (Some q, p1) \<longrightarrow> q \<in> allocated p')"
  using assms
proof (induction "1024 - a" arbitrary: a p m)
  case 0
  then show ?case by (intro exI [of _ p] exI [of _ m]) auto
next
  case (Suc d)
  then have a: "a < 1024" by simp
  have l: "[a..<1024] = a # [Suc a..<1024]" using a by (simp add: upt_conv_Cons)
  have len: "length (kernel_page_dir m) = 1024" using Suc.prems(2) by (simp add: mmu_ok_def)
  have frame: "mmu_ok (m\<lparr>pmem := f, kernel_page_dir := (kernel_page_dir m)[a := w]\<rparr>)"
    "window_free (m\<lparr>pmem := f, kernel_page_dir := (kernel_page_dir m)[a := w]\<rparr>)" for f w
    using Suc.prems(2,3) by (simp_all add: mmu_ok_def window_free_def)
  from vm_phys_alloc_ok [OF Suc.prems(1)] consider
      (some) q p1 where "vm_phys_alloc p = Inr (Some q, p1)" "q \<in> page_pool p - allocated p"
        "allocated p1 = insert q (allocated p)" "page_pool p1 = page_pool p" "phys_inv p1"
    | (none) "allocated p = page_pool p" "vm_phys_alloc p = Inr (None, p)" by blast
  then show ?case
  proof cases
    case some
    let ?m = "m\<lparr>pmem := (pmem m)(q := (\<lambda>i. if i < 1024 then 0 else pmem m q i)),
        kernel_page_dir := (kernel_page_dir m)[a := q OR PTE_PW]\<rparr>"
    have q: "PTE_ADDR q = q" using Suc.prems(4) some(2) by (simp add: pages_aligned_def)
    have "tables_upto (Suc a) p1 ?m"
      by (rule tables_upto_some) (use Suc.prems len a q some in auto)
    then have IH: "\<exists>p' m'. pmap_init_tables [Suc a..<1024] p1 ?m = Inr (p', m') \<and> phys_inv p' \<and> mmu_ok m' \<and> window_free m' \<and>
      page_pool p' = page_pool p1 \<and> tables_upto 1024 p' m' \<and>
      (1024 - Suc a \<le> card (page_pool p1 - allocated p1) \<longrightarrow> (\<forall>i. Suc a \<le> i \<and> i < 1024 \<longrightarrow> kernel_page_dir m' ! i \<noteq> 0)) \<and>
      (\<forall>i<Suc a. kernel_page_dir m' ! i = kernel_page_dir ?m ! i) \<and> allocated p1 \<subseteq> allocated p' \<and>
      (\<forall>r p2. Suc a < 1024 \<and> vm_phys_alloc p1 = Inr (Some r, p2) \<longrightarrow> r \<in> allocated p')"
      using Suc a some frame by (intro Suc.hyps(1)) (auto simp: pages_aligned_def)
    have c: "card (page_pool p1 - allocated p1) = card (page_pool p - allocated p) - 1"
    proof -
      have "page_pool p1 - allocated p1 = (page_pool p - allocated p) - {q}" using some by auto
      then show ?thesis using some(2) by (simp add: card_Diff_singleton)
    qed
    have nz: "kernel_page_dir ?m ! a \<noteq> 0" using PTE_bits(6) [of q] q len a by simp
    have run: "pmap_init_tables [a..<1024] p m = pmap_init_tables [Suc a..<1024] p1 ?m"
      unfolding l using some(1) q by (simp add: pmap_zero_page_eq [OF Suc.prems(2,3)] cong: if_cong)
    from IH obtain p' m' where r: "pmap_init_tables [Suc a..<1024] p1 ?m = Inr (p', m')"
      "phys_inv p'" "mmu_ok m'" "window_free m'" "page_pool p' = page_pool p1" "tables_upto 1024 p' m'"
      and all: "1024 - Suc a \<le> card (page_pool p1 - allocated p1) \<longrightarrow> (\<forall>i. Suc a \<le> i \<and> i < 1024 \<longrightarrow> kernel_page_dir m' ! i \<noteq> 0)"
      and low: "\<forall>i<Suc a. kernel_page_dir m' ! i = kernel_page_dir ?m ! i"
      and al: "allocated p1 \<subseteq> allocated p'" by blast
    have "\<forall>i. a \<le> i \<and> i < 1024 \<longrightarrow> kernel_page_dir m' ! i \<noteq> 0" if "1024 - a \<le> card (page_pool p - allocated p)"
    proof (intro allI impI)
      fix i
      assume i: "a \<le> i \<and> i < 1024"
      have "1024 - Suc a \<le> card (page_pool p1 - allocated p1)" using that unfolding c by simp
      with all i low nz show "kernel_page_dir m' ! i \<noteq> 0" by (cases "i = a") auto
    qed
    moreover have "\<forall>i<a. kernel_page_dir m' ! i = kernel_page_dir m ! i" using low by simp
    moreover have "allocated p \<subseteq> allocated p'" "q \<in> allocated p'" using al some(3) by auto
    ultimately show ?thesis using r some(1,4) run by auto
  next
    case none
    let ?m = "m\<lparr>kernel_page_dir := (kernel_page_dir m)[a := 0]\<rparr>"
    have t: "tables_upto (Suc a) p ?m" by (rule tables_upto_none) (use Suc.prems len a in auto)
    have ok: "mmu_ok ?m" "window_free ?m" using frame [of 0 "pmem m"] by simp_all
    have IH: "\<exists>p' m'. pmap_init_tables [Suc a..<1024] p ?m = Inr (p', m') \<and> phys_inv p' \<and> mmu_ok m' \<and> window_free m' \<and>
      page_pool p' = page_pool p \<and> tables_upto 1024 p' m' \<and>
      (1024 - Suc a \<le> card (page_pool p - allocated p) \<longrightarrow> (\<forall>i. Suc a \<le> i \<and> i < 1024 \<longrightarrow> kernel_page_dir m' ! i \<noteq> 0)) \<and>
      (\<forall>i<Suc a. kernel_page_dir m' ! i = kernel_page_dir ?m ! i) \<and> allocated p \<subseteq> allocated p' \<and>
      (\<forall>r p2. Suc a < 1024 \<and> vm_phys_alloc p = Inr (Some r, p2) \<longrightarrow> r \<in> allocated p')"
      using Suc a t ok by (intro Suc.hyps(1)) simp_all
    have run: "pmap_init_tables [a..<1024] p m = pmap_init_tables [Suc a..<1024] p ?m"
      unfolding l using none(2) by simp
    have "\<not> 1024 - a \<le> card (page_pool p - allocated p)" using none(1) a by simp
    with IH none(2) show ?thesis unfolding run by auto
  qed
qed

text \<open>The TLB without the pages from \<open>l\<close> to \<open>k\<close>.\<close>

definition without_pages :: "nat \<Rightarrow> nat \<Rightarrow> tlb \<Rightarrow> tlb" where
  "without_pages l k T = (\<lambda>p. if l \<le> unat p \<and> unat p \<le> k then None else T p)"

lemma flush_loop_ok:
  assumes "unat b = l * 4096" and "unat e = k * 4096" and "k < 1048575" and "n = Suc k - l"
  shows "flush_loop b e T = Some (without_pages l k T)"
  using assms
proof (induction n arbitrary: b l T)
  case 0
  then have "\<not> b \<le> e" unfolding word_le_nat_alt by simp
  moreover have "without_pages l k T = T" using 0 by (intro ext) (auto simp: without_pages_def)
  ultimately show ?case by (subst flush_loop.simps) simp
next
  case (Suc n)
  have le: "b \<le> e" unfolding word_le_nat_alt using Suc.prems by simp
  have "unat (b + 0x1000) = Suc l * 4096" using Suc.prems by (subst unat_add_u32) simp_all
  from Suc.IH [OF this Suc.prems(2,3)] Suc.prems(4)
  have "flush_loop (b + 0x1000) e (invlpg b T) = Some (without_pages (Suc l) k (invlpg b T))" by simp
  moreover have "without_pages (Suc l) k (invlpg b T) = without_pages l k T"
  proof
    fix p :: u32
    have "unat (drop_bit 12 b) = l" using Suc.prems(1) by (simp add: drop_bit_eq_div unat_div)
    then have "p = drop_bit 12 b \<longleftrightarrow> unat p = l" by (metis unat_of_nat_u32 of_nat_unat_u32)
    then show "without_pages (Suc l) k (invlpg b T) p = without_pages l k T p"
      using Suc.prems(4) by (auto simp: without_pages_def invlpg_def)
  qed
  ultimately show ?case using le by (subst flush_loop.simps) simp
qed

text \<open>The last page: the loop variable wraps to 0 and the condition stays true. Every value the
  function could return is the limit of a chain of approximations, none of which returns.\<close>

lemma flush_loop_last: "flush_loop b 0xFFFFF000 T = None" if "4096 dvd unat b"
proof -
  have "4096 dvd unat b \<longrightarrow> e \<noteq> 0xFFFFF000" if "flush_loop b e T = Some r" for b e T r
    using _ that
  proof (rule flush_loop.raw_induct [where P = "\<lambda>b e T r. 4096 dvd unat b \<longrightarrow> e \<noteq> 0xFFFFF000"])
    fix f :: "u32 \<Rightarrow> u32 \<Rightarrow> tlb \<Rightarrow> tlb option" and b e :: u32 and T r :: tlb
    assume IH: "\<And>b e T r. f b e T = Some r \<Longrightarrow> 4096 dvd unat b \<longrightarrow> e \<noteq> 0xFFFFF000"
      and eq: "(if b \<le> e then f (b + 0x1000) e (invlpg b T) else Some T) = Some r"
    show "4096 dvd unat b \<longrightarrow> e \<noteq> 0xFFFFF000"
    proof
      assume d: "4096 dvd unat b"
      show "e \<noteq> 0xFFFFF000"
      proof (cases "b \<le> e")
        case True
        have "4096 dvd unat (b + 0x1000)" unfolding unat_word_ariths using d by (intro dvd_mod) simp_all
        with IH [of "b + 0x1000" e "invlpg b T" r] eq True show ?thesis by simp
      next
        case False
        have "unat b \<le> 4294963200" using d unat_u32_lt [of b] by (auto elim!: dvdE)
        with False show ?thesis by (auto simp: word_le_nat_alt)
      qed
    qed
  qed
  with that show ?thesis by (cases "flush_loop b 0xFFFFF000 T") auto
qed

lemma tables_upto_ok:
  assumes "tables_upto 1024 p m"
  shows "tables_ok m"
proof -
  have "kernel_page_dir m ! i = 0 \<or> kernel_page_dir m ! i = PTE_ADDR (kernel_page_dir m ! i) OR PTE_PW"
    if "772 \<le> i" "i < 1024" for i
  proof (cases "kernel_page_dir m ! i = 0")
    case False
    with assms that obtain q where "PTE_ADDR q = q" "kernel_page_dir m ! i = q OR PTE_PW"
      unfolding tables_upto_def by blast
    then show ?thesis using PTE_ADDR_simps(1) [of q] by simp
  qed simp
  then show ?thesis using assms unfolding tables_upto_def tables_ok_def by blast
qed

lemma tables_upto_walk:
  assumes "tables_upto 1024 p m" and "0xC1000000 \<le> va"
  shows "mmu_walk m va = None"
proof (cases "kernel_page_dir m ! PDX va = 0")
  case False
  then obtain q where q: "PTE_ADDR q = q" "kernel_page_dir m ! PDX va = q OR PTE_PW" "\<forall>j<1024. pmem m q j = 0"
    using assms(1) PDX_bounds(1) [of va] PDX_bounds(2) [OF assms(2)] unfolding tables_upto_def by blast
  then have "PTE_ADDR (kernel_page_dir m ! PDX va) = q" using PTE_ADDR_simps(1) [of q] by simp
  with q(3) PTX_bound [of va] show ?thesis by (simp add: mmu_walk_def Let_def)
qed (simp add: mmu_walk_def Let_def)

section \<open>Entering runs of pages\<close>

definition enter_pte :: "u32 \<Rightarrow> u32 \<Rightarrow> u16 \<Rightarrow> mmu_state \<Rightarrow> mmu_state" where
  "enter_pte va pa prot m = set_word (kernel_page_dir m ! PDX va) (PTX va)
     (if prot AND VM_PROT_WRITE \<noteq> 0 then PTE_ADDR pa OR PTE_P OR PTE_W else PTE_ADDR pa OR PTE_P) m"

definition mmu_ready :: "mmu_state \<Rightarrow> bool" where
  "mmu_ready m \<longleftrightarrow> mmu_ok m \<and> window_free m \<and> tables_ok m"

lemma enter_pte_frame [simp]:
  "kernel_page_dir (enter_pte va pa prot m) = kernel_page_dir m"
  "kernel_page_table (enter_pte va pa prot m) = kernel_page_table m"
  "mmu_ready (enter_pte va pa prot m) = mmu_ready m"
  by (simp_all add: enter_pte_def mmu_ready_def)

lemma pmap_enter_pte:
  assumes "mmu_ready m" and "0xC1000000 \<le> va" and "kernel_page_dir m ! PDX va \<noteq> 0"
  shows "pmap_enter True va pa prot flags m = Inr (0, enter_pte va pa prot m)"
  using assms pmap_enter_cases [of m va pa prot flags] by (simp add: mmu_ready_def enter_pte_def)

lemma walk_enter_pte:
  assumes "mmu_ready m" and "0xC1000000 \<le> va" and "kernel_page_dir m ! PDX va \<noteq> 0"
  shows "mmu_walk (enter_pte va pa prot m) va = Some (PTE_ADDR pa, prot AND VM_PROT_WRITE \<noteq> 0)"
proof -
  have t: "tables_ok m" using assms(1) by (simp add: mmu_ready_def)
  show ?thesis unfolding enter_pte_def mmu_walk_set_same [OF t assms(2,3)] by (simp add: PTE_bits [simplified])
qed

lemma walk_enter_pte_other:
  assumes "mmu_ready m" and "0xC1000000 \<le> va" and "kernel_page_dir m ! PDX va \<noteq> 0"
    and "0xC1000000 \<le> vb" and "drop_bit 12 vb \<noteq> drop_bit 12 va"
  shows "mmu_walk (enter_pte va pa prot m) vb = mmu_walk m vb"
  using assms mmu_walk_set_word [of m va vb] by (simp add: mmu_ready_def enter_pte_def)

fun enter_pages :: "u32 \<Rightarrow> u32 list \<Rightarrow> u16 \<Rightarrow> mmu_state \<Rightarrow> mmu_state" where
  "enter_pages va [] prot m = m"
| "enter_pages va (p # ps) prot m = enter_pages (va + 0x1000) ps prot (enter_pte va p prot m)"

text \<open>The \<open>n\<close> pages from \<open>va\<close> on are kernel addresses, below the end of the address space, and
  have their page tables.\<close>

definition mappable :: "mmu_state \<Rightarrow> u32 \<Rightarrow> nat \<Rightarrow> bool" where
  "mappable m va n \<longleftrightarrow> 0xC1000000 \<le> va \<and> unat va + 4096 * n < 4294967296 \<and>
     (\<forall>i<n. kernel_page_dir m ! PDX (va + of_nat (4096 * i)) \<noteq> 0)"

lemma enter_pages_frame [simp]:
  "kernel_page_dir (enter_pages va ps prot m) = kernel_page_dir m"
  "kernel_page_table (enter_pages va ps prot m) = kernel_page_table m"
  "mmu_ready (enter_pages va ps prot m) = mmu_ready m"
  "mappable (enter_pages va ps prot m) vb n = mappable m vb n"
  by (induction va ps prot m rule: enter_pages.induct) (simp_all add: mappable_def)

lemma mappable_enter_pte [simp]: "mappable (enter_pte va pa prot m) vb n = mappable m vb n"
  by (simp add: mappable_def)

lemma unat_page_at:
  assumes "unat va + 4096 * n < 4294967296" and "i \<le> n"
  shows "unat (va + of_nat (4096 * i) :: u32) = unat va + 4096 * i"
proof -
  have "unat (of_nat (4096 * i) :: u32) = 4096 * i" using assms by (intro unat_of_nat_u32) linarith
  then show ?thesis using assms by (subst unat_add_u32) simp_all
qed

lemma page_of_iff: "drop_bit 12 x = drop_bit 12 y \<longleftrightarrow> unat x div 4096 = unat y div 4096" for x y :: u32
  by (simp add: word_unat_eq_iff drop_bit_eq_div unat_div)

lemma mappable_Suc:
  assumes "mappable m va (Suc n)"
  shows "0xC1000000 \<le> va" "kernel_page_dir m ! PDX va \<noteq> 0" "mappable m (va + 0x1000) n"
    "unat (va + 0x1000) = unat va + 4096"
proof -
  have b: "unat va + 4096 * Suc n < 4294967296" and d: "\<forall>i<Suc n. kernel_page_dir m ! PDX (va + of_nat (4096 * i)) \<noteq> 0"
    using assms unfolding mappable_def by blast+
  show va: "0xC1000000 \<le> va" using assms by (simp add: mappable_def)
  show "kernel_page_dir m ! PDX va \<noteq> 0" using spec [OF d, of 0] by simp
  show u: "unat (va + 0x1000) = unat va + 4096" using unat_page_at [OF b, of 1] by simp
  have "kernel_page_dir m ! PDX (va + 0x1000 + of_nat (4096 * i)) \<noteq> 0" if "i < n" for i
    using spec [OF d, of "Suc i"] that by (simp add: algebra_simps)
  then show "mappable m (va + 0x1000) n"
    using b va u unfolding mappable_def word_le_nat_alt by simp
qed

lemma walk_enter_pages_other:
  assumes "mmu_ready m" and "mappable m va (length ps)" and "0xC1000000 \<le> vb"
    and "unat vb div 4096 < unat va div 4096 \<or> unat va div 4096 + length ps \<le> unat vb div 4096"
  shows "mmu_walk (enter_pages va ps prot m) vb = mmu_walk m vb"
  using assms
proof (induction ps arbitrary: va m)
  case (Cons p ps)
  have mp: "mappable m va (Suc (length ps))" using Cons.prems(2) by simp
  note d = mappable_Suc [OF mp]
  have "drop_bit 12 vb \<noteq> drop_bit 12 va" using Cons.prems(4) unfolding page_of_iff by auto
  then have "mmu_walk (enter_pte va p prot m) vb = mmu_walk m vb"
    by (intro walk_enter_pte_other Cons.prems d)
  moreover have "mmu_walk (enter_pages (va + 0x1000) ps prot (enter_pte va p prot m)) vb = mmu_walk (enter_pte va p prot m) vb"
    using Cons.prems d by (intro Cons.IH) auto
  ultimately show ?case by simp
qed simp

lemma walk_enter_pages:
  assumes "mmu_ready m" and "mappable m va (length ps)" and "i < length ps"
  shows "mmu_walk (enter_pages va ps prot m) (va + of_nat (4096 * i)) = Some (PTE_ADDR (ps ! i), prot AND VM_PROT_WRITE \<noteq> 0)"
  using assms
proof (induction ps arbitrary: va m i)
  case (Cons p ps)
  have mp: "mappable m va (Suc (length ps))" using Cons.prems(2) by simp
  note d = mappable_Suc [OF mp]
  show ?case
  proof (cases i)
    case 0
    have "mmu_walk (enter_pages (va + 0x1000) ps prot (enter_pte va p prot m)) va = mmu_walk (enter_pte va p prot m) va"
      using Cons.prems(1) d by (intro walk_enter_pages_other disjI1) simp_all
    with 0 walk_enter_pte [OF Cons.prems(1) d(1,2)] show ?thesis by simp
  next
    case (Suc k)
    have "mmu_walk (enter_pages (va + 0x1000) ps prot (enter_pte va p prot m)) (va + 0x1000 + of_nat (4096 * k)) =
        Some (PTE_ADDR (ps ! k), prot AND VM_PROT_WRITE \<noteq> 0)"
      using Cons.prems Suc d by (intro Cons.IH) simp_all
    then show ?thesis using Suc by (simp add: algebra_simps)
  qed
qed simp

section \<open>Coherence of the TLB\<close>

text \<open>\<open>tlb_ok T m\<close>: every translation the TLB holds for the range of the pmap is the one of the tables.\<close>

definition tlb_ok :: "tlb \<Rightarrow> mmu_state \<Rightarrow> bool" where
  "tlb_ok T m \<longleftrightarrow> (\<forall>va r. 0xC1000000 \<le> va \<and> T (drop_bit 12 va) = Some r \<longrightarrow> mmu_walk m va = Some r)"

lemma mmu_walk_page: "drop_bit 12 va = drop_bit 12 vb \<Longrightarrow> mmu_walk m va = mmu_walk m vb"
proof -
  assume p: "drop_bit 12 va = drop_bit 12 vb"
  have d: "PDX v = unat (drop_bit 10 (drop_bit 12 v) AND 0x3FF)" for v by (simp add: PDX_def drop_bit_drop_bit)
  have "PDX va = PDX vb" unfolding d p ..
  moreover have "PTX va = PTX vb" using p by (simp add: PTX_def)
  ultimately show ?thesis by (simp add: mmu_walk_def)
qed

text \<open>After entering a page, the TLB is coherent exactly when it holds nothing else for that page.\<close>

lemma tlb_enter_pte:
  assumes "mmu_ready m" and "0xC1000000 \<le> va" and "kernel_page_dir m ! PDX va \<noteq> 0" and "tlb_ok T m"
  shows "tlb_ok T (enter_pte va pa prot m) \<longleftrightarrow>
    T (drop_bit 12 va) \<in> {None, Some (PTE_ADDR pa, prot AND VM_PROT_WRITE \<noteq> 0)}"
proof
  assume "tlb_ok T (enter_pte va pa prot m)"
  then show "T (drop_bit 12 va) \<in> {None, Some (PTE_ADDR pa, prot AND VM_PROT_WRITE \<noteq> 0)}"
    using walk_enter_pte [OF assms(1-3), of pa prot] assms(2) unfolding tlb_ok_def by (cases "T (drop_bit 12 va)") auto
next
  assume t: "T (drop_bit 12 va) \<in> {None, Some (PTE_ADDR pa, prot AND VM_PROT_WRITE \<noteq> 0)}"
  show "tlb_ok T (enter_pte va pa prot m)"
    unfolding tlb_ok_def
  proof (intro allI impI)
    fix vb r
    assume vb: "0xC1000000 \<le> vb \<and> T (drop_bit 12 vb) = Some r"
    show "mmu_walk (enter_pte va pa prot m) vb = Some r"
    proof (cases "drop_bit 12 vb = drop_bit 12 va")
      case True
      then have "mmu_walk (enter_pte va pa prot m) vb = Some (PTE_ADDR pa, prot AND VM_PROT_WRITE \<noteq> 0)"
        using mmu_walk_page [OF True] walk_enter_pte [OF assms(1-3), of pa prot] by simp
      then show ?thesis using t vb unfolding True by auto
    next
      case False
      then show ?thesis using walk_enter_pte_other [OF assms(1-3), of vb pa prot] assms(4) vb unfolding tlb_ok_def by metis
    qed
  qed
qed

lemma tlb_ok_invlpg: "tlb_ok T m \<Longrightarrow> tlb_ok (invlpg va T) m"
  by (auto simp: tlb_ok_def invlpg_def split: if_splits)

lemma tlb_unmapped: "tlb_ok T m \<Longrightarrow> 0xC1000000 \<le> va \<Longrightarrow> mmu_walk m va = None \<Longrightarrow> T (drop_bit 12 va) = None"
  by (cases "T (drop_bit 12 va)") (auto simp: tlb_ok_def)

text \<open>A kernel with an empty window and two page tables.\<close>

definition example_mmu :: mmu_state where
  "example_mmu = \<lparr>kernel_page_table = replicate 4096 0,
     kernel_page_dir = (replicate 1024 0)[772 := 0x5003, 773 := 0x6003], map_sl = 0, pmem = (\<lambda>_ _. 0)\<rparr>"

lemma example_mmu_ok: "mmu_ok example_mmu" "window_free example_mmu" "tables_ok example_mmu"
proof -
  show "mmu_ok example_mmu" by (simp add: mmu_ok_def example_mmu_def)
  show "window_free example_mmu"
    unfolding window_free_def example_mmu_def by (intro exI [of _ 3072]) simp
  show "tables_ok example_mmu"
    unfolding tables_ok_def example_mmu_def
    by (auto simp: nth_list_update PTE_ADDR_def PTE_PW_def split: if_splits)
qed

section \<open>Properties\<close>

text \<open>C13. Mapping a page: for an address of the kernel's range whose page table exists,
  \<^verbatim>\<open>pmap_enter\<close> returns 0, and from then on the tables translate the address to the
  given page, writable exactly when the protection asks for it; the translation of every other
  page of the range is unchanged and the window is given back. Without a page table it returns 1
  and changes nothing. \<^verbatim>\<open>pmap_enter\<close> does not touch the TLB: when the page was not mapped before, the TLB stays
  coherent with the tables; in every case it is coherent after \<^verbatim>\<open>xcpu_tlb_flush_page\<close>; without
  the flush it is so exactly when it does not hold an old translation of this page.\<close>

theorem pmap_enter_translates:
  assumes "mmu_ok m" and "window_free m" and "tables_ok m" and "0xC1000000 \<le> va" and "tlb_ok T m"
  shows "if kernel_page_dir m ! PDX va = 0 then pmap_enter True va pa prot flags m = Inr (1, m)
    else \<exists>m'. pmap_enter True va pa prot flags m = Inr (0, m') \<and>
      mmu_walk m' va = Some (PTE_ADDR pa, prot AND VM_PROT_WRITE \<noteq> 0) \<and>
      (\<forall>vb. 0xC1000000 \<le> vb \<and> drop_bit 12 vb \<noteq> drop_bit 12 va \<longrightarrow> mmu_walk m' vb = mmu_walk m vb) \<and>
      kernel_page_table m' = kernel_page_table m \<and> kernel_page_dir m' = kernel_page_dir m \<and>
      mmu_ok m' \<and> window_free m' \<and> tables_ok m' \<and> tlb_ok (xcpu_tlb_flush_page va T) m' \<and>
      (mmu_walk m va = None \<longrightarrow> tlb_ok T m') \<and>
      (tlb_ok T m' \<longleftrightarrow> T (drop_bit 12 va) \<in> {None, Some (PTE_ADDR pa, prot AND VM_PROT_WRITE \<noteq> 0)})"
proof (cases "kernel_page_dir m ! PDX va = 0")
  case False
  have ready: "mmu_ready m" using assms by (simp add: mmu_ready_def)
  let ?m = "enter_pte va pa prot m"
  have run: "pmap_enter True va pa prot flags m = Inr (0, ?m)" by (rule pmap_enter_pte [OF ready assms(4) False])
  have flush: "tlb_ok (xcpu_tlb_flush_page va T) ?m"
    using tlb_enter_pte [OF ready assms(4) False tlb_ok_invlpg [OF assms(5)]]
    by (simp add: xcpu_tlb_flush_page_def mmu_tlb_flush_page_def invlpg_def)
  note tlb = tlb_enter_pte [OF ready assms(4) False assms(5), of pa prot]
  have fresh: "mmu_walk m va = None \<longrightarrow> tlb_ok T ?m" using tlb tlb_unmapped [OF assms(5,4)] by simp
  have "mmu_ready ?m" using ready by simp
  then have "mmu_ok ?m" "window_free ?m" "tables_ok ?m" by (simp_all add: mmu_ready_def)
  then show ?thesis
    using run flush tlb fresh False walk_enter_pte [OF ready assms(4) False] walk_enter_pte_other [OF ready assms(4) False] by simp
qed (simp add: pmap_enter_cases [OF assms(1-4)])

theorem pmap_enter_translates_witness:
  "\<exists>m'. pmap_enter True 0xC1003000 0x9000 VM_PROT_WRITE 0 example_mmu = Inr (0, m') \<and>
     mmu_walk m' 0xC1003000 = Some (0x9000, True) \<and> mmu_walk m' 0xC1004000 = None"
proof -
  have i: "PDX 0xC1003000 = 772" "PDX 0xC1004000 = 772" "kernel_page_dir example_mmu ! 772 \<noteq> 0"
    by (simp_all add: PDX_def example_mmu_def)
  have w: "mmu_walk example_mmu 0xC1004000 = None"
    by (simp add: mmu_walk_def example_mmu_def Let_def)
  obtain m' where r: "pmap_enter True 0xC1003000 0x9000 VM_PROT_WRITE 0 example_mmu = Inr (0, m')"
    "mmu_walk m' 0xC1003000 = Some (PTE_ADDR 0x9000, VM_PROT_WRITE AND VM_PROT_WRITE \<noteq> 0)"
    "\<forall>vb. 0xC1000000 \<le> vb \<and> drop_bit 12 vb \<noteq> drop_bit 12 0xC1003000 \<longrightarrow> mmu_walk m' vb = mmu_walk example_mmu vb"
    using pmap_enter_translates [OF example_mmu_ok, of "0xC1003000" "\<lambda>_. None" "0x9000" VM_PROT_WRITE 0] i by (auto simp: tlb_ok_def)
  have "mmu_walk m' 0xC1004000 = None" using r(3) w by simp
  with r(1,2) show ?thesis by (simp add: PTE_ADDR_def VM_PROT_WRITE_def)
qed

text \<open>Building the kernel's page tables: on a well-formed page allocator whose pages are
  page-aligned, \<^verbatim>\<open>pmap_init\<close> does not fault and gives back the window; the tables are
  different pages of the allocator, no kernel address is translated yet, and with 252 free pages
  every entry of the directory from 772 on has its table.\<close>

theorem pmap_init_establishes:
  assumes "phys_inv p" and "pages_aligned p" and "mmu_ok m" and "window_free m"
  shows "\<exists>pm p' m'. pmap_init dir p m = Inr (pm, p', m') \<and> phys_inv p' \<and> mmu_ok m' \<and> window_free m' \<and>
    tables_ok m' \<and> (\<forall>va\<ge>0xC1000000. mmu_walk m' va = None) \<and>
    (252 \<le> card (page_pool p - allocated p) \<longrightarrow> (\<forall>i. 772 \<le> i \<and> i < 1024 \<longrightarrow> kernel_page_dir m' ! i \<noteq> 0))"
proof -
  have "tables_upto 772 p m" by (auto simp: tables_upto_def)
  from pmap_init_tables_ok [OF assms(1,3,4,2) this]
  obtain p' m' where r: "pmap_init_tables [772..<1024] p m = Inr (p', m')" "phys_inv p'" "mmu_ok m'"
    "window_free m'" "tables_upto 1024 p' m'"
    "252 \<le> card (page_pool p - allocated p) \<longrightarrow> (\<forall>i. 772 \<le> i \<and> i < 1024 \<longrightarrow> kernel_page_dir m' ! i \<noteq> 0)"
    by auto
  then show ?thesis
    using tables_upto_ok [OF r(5)] tables_upto_walk [OF r(5)] by (auto simp: pmap_init_def)
qed

theorem pmap_init_establishes_witness:
  "\<exists>pm p' m'. pmap_init 0xC0010000 example_phys example_mmu = Inr (pm, p', m') \<and> tables_ok m' \<and>
     mmu_walk m' 0xC1003000 = None"
proof -
  have "pages_aligned example_phys" by (simp add: example_phys_pool pages_aligned_def PTE_ADDR_def)
  from pmap_init_establishes [OF example_phys_inv this example_mmu_ok(1,2), of "0xC0010000"]
  show ?thesis by fastforce
qed

text \<open>Mapping a range of pages for the MP tables: the \<open>n\<close> entries are the first \<open>n\<close>
  consecutive free entries of the window, they name the \<open>n\<close> consecutive pages from
  \<open>pa\<close> on, no other entry changes and the lock is free again; 0 is returned only when
  the window has no such run.\<close>

theorem map_page_range_first_fit:
  assumes "mmu_ok m" and "0 < n"
  shows "(\<exists>i m'. map_page_range pa n m = Inr (0xC0000000 + push_bit 12 (of_nat i), m') \<and>
      3072 \<le> i \<and> free_run (kernel_page_table m) i (nat n) \<and>
      (\<forall>l. 3072 \<le> l \<and> l < i \<longrightarrow> \<not> free_run (kernel_page_table m) l (nat n)) \<and>
      mmu_ok m' \<and> pmem m' = pmem m \<and> kernel_page_dir m' = kernel_page_dir m \<and>
      (\<forall>j<4096. kernel_page_table m' ! j =
        (if i \<le> j \<and> j < i + nat n then PTE_ADDR (pa + of_nat (j - i) * 0x1000) OR PTE_PW
         else kernel_page_table m ! j))) \<or>
    (map_page_range pa n m = Inr (0, m) \<and> (\<forall>l\<ge>3072. \<not> free_run (kernel_page_table m) l (nat n)))"
proof -
  let ?t = "kernel_page_table m" and ?i = "kpt_scan_range (kernel_page_table m) n KPTMIN"
  have len: "length ?t = 4096" "map_sl m = 0" using assms(1) by (simp_all add: mmu_ok_def)
  have k: "KPTMIN = 3072" "KPTMAX = 4096" by (simp_all add: KPTMIN_def KPTMAX_def)
  from kpt_scan_range_spec [OF assms(2), of KPTMIN ?t] consider
    (found) "?i < 4096" "3072 \<le> ?i" "free_run ?t ?i (nat n)" "\<forall>l. 3072 \<le> l \<and> l < ?i \<longrightarrow> \<not> free_run ?t l (nat n)"
    | (full) "?i = 4096" "\<forall>l\<ge>3072. \<not> free_run ?t l (nat n)" by (auto simp: k)
  then show ?thesis
  proof cases
    case found
    let ?m = "m\<lparr>kernel_page_table := kpt_fill (nat n) ?i pa ?t\<rparr>"
    have b: "?i + nat n \<le> length ?t" using found(3) by (simp add: free_run_def k len)
    have "map_page_range pa n m = Inr (0xC0000000 + push_bit 12 (of_nat ?i), ?m)"
      using found(1,2) assms(2) len by (simp add: map_page_range_def k Let_def)
    with found kpt_fill_nth [OF b, of pa] assms(1) len show ?thesis
      by (intro disjI1 exI [of _ ?i] exI [of _ ?m]) (auto simp: mmu_ok_def)
  next
    case full
    then have "map_page_range pa n m = Inr (0, m)"
      using assms(2) len by (simp add: map_page_range_def k Let_def)
    with full show ?thesis by blast
  qed
qed

theorem map_page_range_first_fit_witness:
  "\<exists>i m'. map_page_range 0x9000 2 example_mmu = Inr (0xC0000000 + push_bit 12 (of_nat i), m') \<and> 3072 \<le> i \<and> mmu_ok m'"
proof -
  have "free_run (kernel_page_table example_mmu) 3072 2"
    by (simp add: free_run_def example_mmu_def KPTMAX_def)
  then have "\<not> (\<forall>l\<ge>3072. \<not> free_run (kernel_page_table example_mmu) l (nat 2))" by auto
  with map_page_range_first_fit [OF example_mmu_ok(1), of 2] show ?thesis by (metis zero_less_numeral)
qed

text \<open>C38. Flushing a range of the TLB: when the range ends below the last page of the address
  space the loop ends, and the TLB holds no page of the range any more and every other page as before.
  A range that ends in the last page is never finished: the loop variable wraps to 0 and the condition
  \<^verbatim>\<open>begin <= end\<close> stays true.\<close>

theorem mmu_tlb_flush_range_pages:
  "mmu_tlb_flush_range b e T =
     (if unat e div 4096 = 1048575 then None
      else Some (\<lambda>p. if unat b div 4096 \<le> unat p \<and> unat p \<le> unat e div 4096 then None else T p))"
proof -
  note r = unat_round_down
  show ?thesis
  proof (cases "unat e div 4096 = 1048575")
    case True
    have "e AND NOT 0xFFF = 0xFFFFF000" using r [of e] unfolding True by (simp only: word_unat_eq_iff) simp
    moreover have "4096 dvd unat (b AND NOT 0xFFF)" unfolding r by simp
    ultimately have "mmu_tlb_flush_range b e T = None"
      unfolding mmu_tlb_flush_range_def by (metis flush_loop_last)
    then show ?thesis using True by simp
  next
    case False
    then have "unat e div 4096 < 1048575" using unat_u32_lt [of e] by linarith
    from flush_loop_ok [OF r r this refl] False show ?thesis by (simp add: mmu_tlb_flush_range_def without_pages_def)
  qed
qed

end
