(* ===== verification/Iopipe.thy ===== *)
theory Iopipe
  imports Kernel_Prelude
begin

text \<open>
  The byte pipes of the kernel: \<open>include/sys/kbuio.h\<close>, \<open>include/sys/iopipe.h\<close> and
  \<open>iopipe/iopipe_ops.c\<close>. A pipe is a device state of type \<open>'s\<close> and a table of two
  operations on it. A buffer described by a \<^verbatim>\<open>struct iovec\<close> is the list of the bytes it
  holds, its \<^verbatim>\<open>iov_len\<close> is the length of the list; an operation that reads hands the filled
  buffers back.

  The locale \<open>byte_sink\<close> is what the writers of text (the formatted output of
  \<open>libkern\<close>) rely on: a ready device takes a whole kernel buffer, stays ready, and what it shows
  afterwards is the buffer's bytes emitted one by one. \<open>Terminal\<close> interprets it.
\<close>

section \<open>Requests\<close>

datatype kbu_rw = KBU_READ | KBU_WRITE

datatype kbu_origin = KBU_AS_USR | KBU_AS_SYS

record kern_uio =
  kbu_iovec :: "u8 list list"
  kbu_iovec_n :: nat
  kbu_totalsize :: u32
  kbu_rw :: kbu_rw
  kbu_origin :: kbu_origin

record 's iopipe_ops =
  io_read :: "'s \<Rightarrow> kern_uio \<Rightarrow> (u32 \<times> u8 list list \<times> 's) res"
  io_write :: "'s \<Rightarrow> kern_uio \<Rightarrow> (u32 \<times> 's) res"

text \<open>The operations reached through a pipe pointer: each call through a null pointer is a fault.\<close>

definition pipe_ops :: "'s iopipe_ops option \<Rightarrow> 's iopipe_ops" where
  "pipe_ops p =
     (case p of None \<Rightarrow> \<lparr>io_read = (\<lambda>_ _. Inl Null_Deref), io_write = (\<lambda>_ _. Inl Null_Deref)\<rparr> | Some ops \<Rightarrow> ops)"

section \<open>The operations on a pipe\<close>

definition iopipe_read :: "'s iopipe_ops \<Rightarrow> 's \<Rightarrow> u8 list \<Rightarrow> (u32 \<times> u8 list list \<times> 's) res" where
  "iopipe_read ops s buf =
     io_read ops s \<lparr>kbu_iovec = [buf], kbu_iovec_n = 1, kbu_totalsize = of_nat (length buf),
       kbu_rw = KBU_READ, kbu_origin = KBU_AS_SYS\<rparr>"

definition write_request :: "u8 list \<Rightarrow> kern_uio" where
  "write_request buf = \<lparr>kbu_iovec = [buf], kbu_iovec_n = 1, kbu_totalsize = of_nat (length buf),
     kbu_rw = KBU_WRITE, kbu_origin = KBU_AS_SYS\<rparr>"

definition iopipe_write :: "'s iopipe_ops \<Rightarrow> 's \<Rightarrow> u8 list \<Rightarrow> (u32 \<times> 's) res" where
  "iopipe_write ops s buf = io_write ops s (write_request buf)"

definition iopipe_read_v :: "'s iopipe_ops \<Rightarrow> 's \<Rightarrow> kern_uio \<Rightarrow> (u32 \<times> u8 list list \<times> 's) res" where
  "iopipe_read_v ops s kbu = io_read ops s kbu"

definition iopipe_write_v :: "'s iopipe_ops \<Rightarrow> 's \<Rightarrow> kern_uio \<Rightarrow> (u32 \<times> 's) res" where
  "iopipe_write_v ops s kbu = io_write ops s kbu"

section \<open>The contract of an output device\<close>

locale byte_sink =
  fixes ops :: "'s iopipe_ops"
    and ready :: "'s \<Rightarrow> bool"
    and view :: "'s \<Rightarrow> 'v"
    and emit :: "u8 \<Rightarrow> 'v \<Rightarrow> 'v"
  assumes write_ok: "ready s \<Longrightarrow> length buf < 4294967296 \<Longrightarrow>
      \<exists>s'. io_write ops s (write_request buf) = Inr (of_nat (length buf), s') \<and> ready s' \<and> view s' = fold emit buf (view s)"
begin

lemma iopipe_write_ok:
  assumes "ready s" and "length buf < 4294967296"
  obtains s' where "iopipe_write ops s buf = Inr (of_nat (length buf), s')" "ready s'" "view s' = fold emit buf (view s)"
  using write_ok [OF assms] by (auto simp: iopipe_write_def)

end

end
