(* ===== verification/Terminal.thy ===== *)
theory Terminal
  imports Iopipe
begin

text \<open>
  The kernel terminal: the text console of \<open>platform/i686-pc/terminal.c\<close> with the screen cells of
  \<open>vga.h\<close>, the character map of \<open>terminal/ansi_charmap.h\<close>, the two output disciplines of
  \<open>terminal/ccterm_output.c\<close>, the output ring of \<open>terminal/ccterm_base.c\<close> and
  \<open>terminal/kterm.c\<close>.

  The video memory is a function from the address of a 16-bit cell to the cell. The ring of 1024
  bytes is a list, its positions are 16-bit words. The loop of a discipline runs until the ring is
  empty; its positions repeat after 1024 steps, so that 1024 rounds of fuel are all the different
  rounds it can make. The lemmas show that a write puts every byte on the screen and leaves the ring
  empty, and that the console never touches a cell outside the screen.
\<close>

section \<open>Screen cells\<close>

definition vga_entry_color :: "u8 \<Rightarrow> u8 \<Rightarrow> u8" where
  "vga_entry_color fg bg = fg OR push_bit 4 bg"

definition vga_entry :: "u8 \<Rightarrow> u8 \<Rightarrow> u16" where
  "vga_entry uc color = ucast uc OR push_bit 8 (ucast color)"

section \<open>The console\<close>

definition VGA_WIDTH :: u32 where "VGA_WIDTH = 80"

definition VGA_HEIGHT :: u32 where "VGA_HEIGHT = 25"

definition VGA_MEMORY :: vaddr where "VGA_MEMORY = 0xC0BFF000"

definition VGA_COLOR_BLACK :: u8 where "VGA_COLOR_BLACK = 0"

definition VGA_COLOR_LIGHT_GREY :: u8 where "VGA_COLOR_LIGHT_GREY = 7"

record console =
  terminal_row :: u32
  terminal_column :: u32
  terminal_color :: u8
  terminal_buffer :: vaddr
  video :: "vaddr \<Rightarrow> u16"

definition cell_addr :: "console \<Rightarrow> u32 \<Rightarrow> vaddr" where
  "cell_addr con index = terminal_buffer con + 2 * index"

definition set_cell :: "u32 \<Rightarrow> u16 \<Rightarrow> console \<Rightarrow> console" where
  "set_cell index e con = con\<lparr>video := (video con)(cell_addr con index := e)\<rparr>"

primrec clear_row :: "nat \<Rightarrow> u32 \<Rightarrow> u32 \<Rightarrow> console \<Rightarrow> console" where
  "clear_row 0 y x con = con"
| "clear_row (Suc n) y x con =
     clear_row n y (x + 1) (set_cell (y * VGA_WIDTH + x) (vga_entry 32 (terminal_color con)) con)"

primrec clear_rows :: "nat \<Rightarrow> u32 \<Rightarrow> console \<Rightarrow> console" where
  "clear_rows 0 y con = con"
| "clear_rows (Suc n) y con = clear_rows n (y + 1) (clear_row (unat VGA_WIDTH) y 0 con)"

definition console_init :: "console \<Rightarrow> console" where
  "console_init con = clear_rows (unat VGA_HEIGHT) 0
     (con\<lparr>terminal_row := 0, terminal_column := 0,
          terminal_color := vga_entry_color VGA_COLOR_LIGHT_GREY VGA_COLOR_BLACK,
          terminal_buffer := VGA_MEMORY\<rparr>)"

definition terminal_setcolor :: "u8 \<Rightarrow> console \<Rightarrow> console" where
  "terminal_setcolor color con = con\<lparr>terminal_color := color\<rparr>"

definition terminal_putentryat :: "u8 \<Rightarrow> u8 \<Rightarrow> u32 \<Rightarrow> u32 \<Rightarrow> console \<Rightarrow> console" where
  "terminal_putentryat c color x y con = set_cell (y * VGA_WIDTH + x) (vga_entry c color) con"

definition console_get_col :: "console \<Rightarrow> u32" where
  "console_get_col con = terminal_column con"

definition console_carriage_return :: "console \<Rightarrow> console" where
  "console_carriage_return con = con\<lparr>terminal_column := 0\<rparr>"

definition console_newline :: "console \<Rightarrow> console" where
  "console_newline con =
     (let con = con\<lparr>terminal_row := terminal_row con + 1\<rparr>
      in if terminal_row con = VGA_HEIGHT then con\<lparr>terminal_row := 0\<rparr> else con)"

definition console_putchar :: "u8 \<Rightarrow> console \<Rightarrow> console" where
  "console_putchar c con =
     (let con = terminal_putentryat c (terminal_color con) (terminal_column con) (terminal_row con) con;
          con = con\<lparr>terminal_column := terminal_column con + 1\<rparr>
      in if terminal_column con = VGA_WIDTH
         then (let con = con\<lparr>terminal_column := 0\<rparr>;
                   con = con\<lparr>terminal_row := terminal_row con + 1\<rparr>
               in if terminal_row con = VGA_HEIGHT then con\<lparr>terminal_row := 0\<rparr> else con)
         else con)"

primrec console_write_text :: "u8 list \<Rightarrow> console \<Rightarrow> console" where
  "console_write_text [] con = con"
| "console_write_text (c # data) con = console_write_text data (console_putchar c con)"

section \<open>The output disciplines\<close>

datatype charmap = CM_DEFAULT | CM_PRINT | CM_IGNORE | CM_CR | CM_NL | CM_TAB | CM_BACKSPACE

definition ansi_charmap :: "u8 \<Rightarrow> charmap" where
  "ansi_charmap c =
     (if c = 13 then CM_CR else if c = 10 then CM_NL else if c = 0x08 then CM_BACKSPACE
      else if c = 9 then CM_TAB else if c = 0x0b then CM_TAB else if c = 0x7f then CM_IGNORE
      else CM_DEFAULT)"

definition char_class :: "u8 \<Rightarrow> charmap" where
  "char_class curb =
     (let cmc = ansi_charmap curb
      in if cmc = CM_DEFAULT then (if curb < 0x20 then CM_IGNORE else CM_PRINT) else cmc)"

definition TABWIDTH :: u32 where "TABWIDTH = 4"

definition cc_tab :: "console \<Rightarrow> console" where
  "cc_tab con = (let n = TABWIDTH - console_get_col con mod TABWIDTH in (console_putchar 32 ^^ unat n) con)"

definition std_byte :: "u8 \<Rightarrow> console \<Rightarrow> console" where
  "std_byte curb con =
     (case char_class curb of
        CM_PRINT \<Rightarrow> console_putchar curb con
      | CM_CR \<Rightarrow> console_carriage_return con
      | CM_NL \<Rightarrow> console_newline con
      | CM_TAB \<Rightarrow> cc_tab con
      | _ \<Rightarrow> con)"

definition lite_byte :: "u8 \<Rightarrow> console \<Rightarrow> console" where
  "lite_byte curb con =
     (case char_class curb of
        CM_PRINT \<Rightarrow> console_putchar curb con
      | CM_NL \<Rightarrow> console_newline (console_carriage_return con)
      | CM_TAB \<Rightarrow> cc_tab con
      | _ \<Rightarrow> con)"

datatype ccterm_ops = Ccterm_Std_Ops | Ccterm_Lite_Ops

record ccterm =
  o_buffer :: "u8 list"
  o_begin :: u16
  o_end :: u16
  cc_ops :: "ccterm_ops option"
  cc_console :: console

definition CCTB_CUT :: "u16 \<Rightarrow> u16" where
  "CCTB_CUT i = i AND 1023"

definition CCTB_IDX :: "ccterm \<Rightarrow> u16 \<Rightarrow> u8" where
  "CCTB_IDX buf i = o_buffer buf ! unat (CCTB_CUT (o_begin buf + i))"

definition CCTB_EOB :: "ccterm \<Rightarrow> u16 \<Rightarrow> bool" where
  "CCTB_EOB buf i \<longleftrightarrow> CCTB_CUT (o_begin buf + i) = o_end buf"

primrec consume_loop :: "nat \<Rightarrow> (u8 \<Rightarrow> console \<Rightarrow> console) \<Rightarrow> ccterm \<Rightarrow> u16 \<Rightarrow> ccterm res" where
  "consume_loop 0 byte buf i = Inl No_Return"
| "consume_loop (Suc n) byte buf i =
     (if CCTB_EOB buf i then Inr (buf\<lparr>o_begin := CCTB_CUT (o_begin buf + i)\<rparr>)
      else consume_loop n byte (buf\<lparr>cc_console := byte (CCTB_IDX buf i) (cc_console buf)\<rparr>) (i + 1))"

definition ccterm_std_ops_consume :: "ccterm \<Rightarrow> ccterm res" where
  "ccterm_std_ops_consume buf = consume_loop 1024 std_byte buf 0"

definition ccterm_lite_ops_consume :: "ccterm \<Rightarrow> ccterm res" where
  "ccterm_lite_ops_consume buf = consume_loop 1024 lite_byte buf 0"

definition o_consume :: "ccterm_ops \<Rightarrow> ccterm \<Rightarrow> ccterm res" where
  "o_consume op = (case op of Ccterm_Std_Ops \<Rightarrow> ccterm_std_ops_consume | Ccterm_Lite_Ops \<Rightarrow> ccterm_lite_ops_consume)"

definition cctb_consume :: "ccterm \<Rightarrow> ccterm res" where
  "cctb_consume cctb = rbind (deref (cc_ops cctb)) (\<lambda>op. o_consume op cctb)"

section \<open>The output ring\<close>

text \<open>The inner loop looks for a free place, letting the discipline empty the ring up to four
  times; it hands back the place, or nothing when the write gives up.\<close>

function find_room :: "nat \<Rightarrow> ccterm \<Rightarrow> (u16 option \<times> ccterm) res" where
  "find_room j cctb =
     (let cur = o_end cctb; nxt = CCTB_CUT (cur + 1)
      in if o_begin cctb \<noteq> nxt then Inr (Some cur, cctb)
         else if j > 3 then Inr (None, cctb\<lparr>o_end := cur\<rparr>)
         else rbind (cctb_consume cctb) (\<lambda>cctb. find_room (j + 1) cctb))"
  by pat_completeness auto

termination
  by (relation "measure (\<lambda>(j, _). 4 - j)") auto

declare find_room.simps [simp del]

primrec writeraw_loop :: "u8 list \<Rightarrow> u32 \<Rightarrow> ccterm \<Rightarrow> (u32 \<times> ccterm) res" where
  "writeraw_loop [] i cctb =
     (if o_begin cctb \<noteq> o_end cctb
      then rbind (cctb_consume cctb) (\<lambda>cctb. Inr (i, cctb)) else Inr (i, cctb))"
| "writeraw_loop (c # cbuf) i cctb =
     rbind (find_room 0 cctb) (\<lambda>(room, cctb).
       case room of
         None \<Rightarrow> Inr (i, cctb)
       | Some cur \<Rightarrow>
           writeraw_loop cbuf (i + 1)
             (cctb\<lparr>o_buffer := (o_buffer cctb)[unat cur := c], o_end := CCTB_CUT (cur + 1)\<rparr>))"

definition ccterm_writeraw :: "ccterm \<Rightarrow> u8 list \<Rightarrow> (u32 \<times> ccterm) res" where
  "ccterm_writeraw cctb buf = writeraw_loop buf 0 cctb"

definition ccterm_read :: "ccterm \<Rightarrow> kern_uio \<Rightarrow> (u32 \<times> u8 list list \<times> ccterm) res" where
  "ccterm_read cctb kbu = Inr (0, kbu_iovec kbu, cctb)"

definition ccterm_write :: "ccterm \<Rightarrow> kern_uio \<Rightarrow> (u32 \<times> ccterm) res" where
  "ccterm_write cctb kbu =
     (if kbu_origin kbu = KBU_AS_SYS \<and> kbu_iovec_n kbu = 1
      then ccterm_writeraw cctb (kbu_iovec kbu ! 0) else Inr (0, cctb))"

definition ccterm_pipe_ops :: "ccterm iopipe_ops" where
  "ccterm_pipe_ops = \<lparr>io_read = ccterm_read, io_write = ccterm_write\<rparr>"

definition ccterm_init :: "ccterm \<Rightarrow> ccterm" where
  "ccterm_init cctb = (cctb\<lparr>cc_console := console_init (cc_console cctb)\<rparr>)\<lparr>cc_ops := Some Ccterm_Lite_Ops\<rparr>"

text \<open>The kernel's terminal instance: the pipe pointer is set once the terminal is initialised.\<close>

record kterm =
  kterm_instance :: "ccterm iopipe_ops option"
  kterm_device :: ccterm

definition kterm_init :: "kterm \<Rightarrow> kterm" where
  "kterm_init kt = kt\<lparr>kterm_device := ccterm_init (kterm_device kt), kterm_instance := Some ccterm_pipe_ops\<rparr>"

section \<open>The ring's contents\<close>

definition ring_ok :: "ccterm \<Rightarrow> bool" where
  "ring_ok t \<longleftrightarrow> length (o_buffer t) = 1024 \<and> unat (o_begin t) < 1024 \<and> unat (o_end t) < 1024"

definition ring_length :: "ccterm \<Rightarrow> nat" where
  "ring_length t = (unat (o_end t) + 1024 - unat (o_begin t)) mod 1024"

definition pending :: "ccterm \<Rightarrow> u8 list" where
  "pending t = map (\<lambda>k. o_buffer t ! ((unat (o_begin t) + k) mod 1024)) [0..<ring_length t]"

text \<open>The screen once the pending bytes are out.\<close>

definition shown :: "ccterm \<Rightarrow> console" where
  "shown t = fold lite_byte (pending t) (cc_console t)"

definition term_ready :: "ccterm \<Rightarrow> bool" where
  "term_ready t \<longleftrightarrow> ring_ok t \<and> cc_ops t = Some Ccterm_Lite_Ops"

lemma unat_cut: "unat (CCTB_CUT i) = unat i mod 1024"
proof -
  have "(1023 :: u16) = mask 10" by (simp add: mask_eq_exp_minus_1)
  then have "CCTB_CUT i = take_bit 10 i" unfolding CCTB_CUT_def by (simp only: take_bit_eq_mask)
  then show ?thesis by (simp add: take_bit_eq_mod unat_mod)
qed

lemma unat_cut_add: "unat (CCTB_CUT (a + b)) = (unat a + unat b) mod 1024"
  by (simp add: unat_cut unat_word_ariths mod_mod_cancel)

lemma ring_length_less: "ring_length t < 1024"
  by (simp add: ring_length_def)

lemma length_pending [simp]: "length (pending t) = ring_length t"
  by (simp add: pending_def)

lemma pending_cong [simp]:
  "ring_length (t\<lparr>cc_console := c\<rparr>) = ring_length t"
  "pending (t\<lparr>cc_console := c\<rparr>) = pending t"
  "ring_ok (t\<lparr>cc_console := c\<rparr>) = ring_ok t"
  by (simp_all add: ring_length_def pending_def ring_ok_def)

lemma ring_length_0: "ring_ok t \<Longrightarrow> ring_length t = 0 \<longleftrightarrow> o_begin t = o_end t"
  by (auto simp: ring_length_def ring_ok_def word_unat_eq_iff mod_if)

lemma ring_eob:
  assumes "ring_ok t" and "k \<le> ring_length t"
  shows "CCTB_EOB t (of_nat k) \<longleftrightarrow> k = ring_length t"
proof -
  have k: "k < 1024" using assms(2) ring_length_less [of t] by simp
  then have "unat (of_nat k :: u16) = k" by (simp add: unat_of_nat)
  then have "CCTB_EOB t (of_nat k) \<longleftrightarrow> (unat (o_begin t) + k) mod 1024 = unat (o_end t)"
    unfolding CCTB_EOB_def word_unat_eq_iff unat_cut_add by simp
  then show ?thesis using assms k by (auto simp: ring_length_def ring_ok_def mod_if split: if_splits)
qed

lemma ring_idx:
  assumes "k < ring_length t"
  shows "CCTB_IDX t (of_nat k) = pending t ! k"
proof -
  have "k < 1024" using assms ring_length_less [of t] by simp
  then have "unat (of_nat k :: u16) = k" by (simp add: unat_of_nat)
  then show ?thesis using assms by (simp add: CCTB_IDX_def unat_cut_add pending_def)
qed

lemma consume_loop_drains:
  assumes "ring_ok t" and "k \<le> ring_length t" and "ring_length t - k < n"
  shows "consume_loop n f t (of_nat k) =
    Inr (t\<lparr>o_begin := o_end t, cc_console := fold f (drop k (pending t)) (cc_console t)\<rparr>)"
  using assms
proof (induction n arbitrary: t k)
  case (Suc n)
  show ?case
  proof (cases "k = ring_length t")
    case True
    then have "CCTB_EOB t (of_nat k)" using ring_eob Suc.prems by blast
    then show ?thesis using True by (simp add: CCTB_EOB_def)
  next
    case False
    let ?t = "t\<lparr>cc_console := f (CCTB_IDX t (of_nat k)) (cc_console t)\<rparr>"
    have k: "k < ring_length t" using False Suc.prems(2) by simp
    have "\<not> CCTB_EOB t (of_nat k)" using ring_eob Suc.prems False by blast
    then have "consume_loop (Suc n) f t (of_nat k) = consume_loop n f ?t (of_nat (Suc k))" by (simp add: add.commute)
    also have "\<dots> = Inr (?t\<lparr>o_begin := o_end ?t, cc_console := fold f (drop (Suc k) (pending ?t)) (cc_console ?t)\<rparr>)"
      using Suc.prems k by (intro Suc.IH) simp_all
    finally show ?thesis using k by (simp add: ring_idx Cons_nth_drop_Suc [symmetric, of k "pending t"])
  qed
qed simp

lemma lite_consume_drains:
  assumes "ring_ok t"
  shows "ccterm_lite_ops_consume t = Inr (t\<lparr>o_begin := o_end t, cc_console := shown t\<rparr>)"
  using consume_loop_drains [OF assms, of 0 1024 lite_byte] ring_length_less [of t]
  by (simp add: ccterm_lite_ops_consume_def shown_def)

lemma std_consume_drains:
  assumes "ring_ok t"
  shows "ccterm_std_ops_consume t = Inr (t\<lparr>o_begin := o_end t, cc_console := fold std_byte (pending t) (cc_console t)\<rparr>)"
  using consume_loop_drains [OF assms, of 0 1024 std_byte] ring_length_less [of t]
  by (simp add: ccterm_std_ops_consume_def)

lemma emptied_ring:
  assumes "ring_ok t"
  shows "ring_ok (t\<lparr>o_begin := o_end t, cc_console := c\<rparr>)" "pending (t\<lparr>o_begin := o_end t, cc_console := c\<rparr>) = []"
  using assms by (simp_all add: ring_ok_def pending_def ring_length_def)

lemma term_consume:
  assumes "term_ready t"
  shows "\<exists>t'. cctb_consume t = Inr t' \<and> term_ready t' \<and> shown t' = shown t \<and> o_begin t' = o_end t'"
  using assms lite_consume_drains [of t] emptied_ring [of t "shown t"]
  by (simp add: term_ready_def cctb_consume_def o_consume_def shown_def)

lemma next_not_begin:
  assumes "ring_ok t" and "o_begin t = o_end t"
  shows "o_begin t \<noteq> CCTB_CUT (o_end t + 1)"
  using assms by (auto simp: word_unat_eq_iff unat_cut_add ring_ok_def mod_if)

lemma find_room_ready:
  assumes "term_ready t"
  shows "\<exists>t'. find_room 0 t = Inr (Some (o_end t'), t') \<and> term_ready t' \<and> shown t' = shown t \<and>
    o_begin t' \<noteq> CCTB_CUT (o_end t' + 1)"
proof (cases "o_begin t = CCTB_CUT (o_end t + 1)")
  case True
  obtain t' where t': "cctb_consume t = Inr t'" "term_ready t'" "shown t' = shown t" "o_begin t' = o_end t'"
    using term_consume [OF assms] by blast
  have nx: "o_begin t' \<noteq> CCTB_CUT (o_end t' + 1)" using t' next_not_begin by (simp add: term_ready_def)
  have "find_room 0 t = find_room 1 t'" using True t'(1) by (subst find_room.simps) simp
  also have "\<dots> = Inr (Some (o_end t'), t')" using nx by (subst find_room.simps) simp
  finally show ?thesis using t' nx by blast
next
  case False
  then show ?thesis using assms by (subst find_room.simps) simp
qed

lemma ring_step_arith:
  fixes b e :: nat
  assumes "b < 1024" and "e < 1024"
  shows "b \<noteq> (e + 1) mod 1024 \<Longrightarrow> ((e + 1) mod 1024 + 1024 - b) mod 1024 = Suc ((e + 1024 - b) mod 1024)"
    and "(b + (e + 1024 - b) mod 1024) mod 1024 = e"
    and "k < (e + 1024 - b) mod 1024 \<Longrightarrow> (b + k) mod 1024 \<noteq> e"
proof -
  have two: "x mod 1024 = (if x < 1024 then x else x - 1024)" if "x < 2048" for x :: nat
    using that by (simp add: mod_if)
  have e: "(e + 1) mod 1024 = (if e = 1023 then 0 else e + 1)" using assms(2) by simp
  have d: "(e + 1024 - b) mod 1024 = (if b \<le> e then e - b else e + 1024 - b)"
    using two [of "e + 1024 - b"] assms by auto
  show "((e + 1) mod 1024 + 1024 - b) mod 1024 = Suc ((e + 1024 - b) mod 1024)" if "b \<noteq> (e + 1) mod 1024"
  proof (cases "e = 1023")
    case True
    then show ?thesis using that assms(1) two [of "1024 - b"] d by auto
  next
    case False
    then show ?thesis using that assms two [of "e + 1 + 1024 - b"] d by auto
  qed
  show "(b + (e + 1024 - b) mod 1024) mod 1024 = e" unfolding d using assms by simp
  show "(b + k) mod 1024 \<noteq> e" if "k < (e + 1024 - b) mod 1024"
    using that two [of "b + k"] assms unfolding d by (auto split: if_splits)
qed

lemma put_byte:
  fixes c :: u8
  assumes "ring_ok t" and "o_begin t \<noteq> CCTB_CUT (o_end t + 1)"
  defines "t' \<equiv> t\<lparr>o_buffer := (o_buffer t)[unat (o_end t) := c], o_end := CCTB_CUT (o_end t + 1)\<rparr>"
  shows "ring_ok t'" "pending t' = pending t @ [c]"
proof -
  show ok: "ring_ok t'" using assms(1) by (simp add: t'_def ring_ok_def unat_cut)
  have b: "unat (o_begin t) < 1024" "unat (o_end t) < 1024" "length (o_buffer t) = 1024"
    using assms(1) by (simp_all add: ring_ok_def)
  have e: "unat (o_end t') = (unat (o_end t) + 1) mod 1024" by (simp add: t'_def unat_cut_add)
  have "unat (o_begin t) \<noteq> (unat (o_end t) + 1) mod 1024"
    using assms(2) e by (auto simp: t'_def word_unat_eq_iff)
  then have len: "ring_length t' = Suc (ring_length t)" and last: "(unat (o_begin t) + ring_length t) mod 1024 = unat (o_end t)"
    using ring_step_arith(1,2) [OF b(1,2)] e by (simp_all add: ring_length_def t'_def)
  have kept: "(unat (o_begin t) + k) mod 1024 \<noteq> unat (o_end t)" if "k < ring_length t" for k
    using that ring_step_arith(3) [OF b(1,2)] by (simp add: ring_length_def)
  show "pending t' = pending t @ [c]"
  proof (rule nth_equalityI)
    fix k assume "k < length (pending t')"
    then have "k < ring_length t \<or> k = ring_length t" using len by auto
    then show "pending t' ! k = (pending t @ [c]) ! k"
    proof
      assume k: "k < ring_length t"
      then have "k < ring_length t'" using len by simp
      then show ?thesis using k kept [OF k] by (auto simp: pending_def nth_append t'_def)
    next
      assume k: "k = ring_length t"
      then have "k < ring_length t'" using len by simp
      then have "pending t' ! k = o_buffer t' ! unat (o_end t)" using last k by (simp add: pending_def t'_def)
      then show ?thesis using b k by (simp add: t'_def nth_append)
    qed
  qed (use len in simp)
qed

lemma writeraw_loop_ready:
  assumes "term_ready t"
  shows "\<exists>t'. writeraw_loop buf i t = Inr (i + of_nat (length buf), t') \<and> term_ready t' \<and>
    o_begin t' = o_end t' \<and> shown t' = fold lite_byte buf (shown t)"
  using assms
proof (induction buf arbitrary: i t)
  case Nil
  show ?case
  proof (cases "o_begin t = o_end t")
    case False
    then show ?thesis using term_consume [OF Nil] by auto
  qed (use Nil in simp)
next
  case (Cons c buf)
  obtain u where u: "find_room 0 t = Inr (Some (o_end u), u)" "term_ready u" "shown u = shown t"
    "o_begin u \<noteq> CCTB_CUT (o_end u + 1)" using find_room_ready [OF Cons.prems] by blast
  let ?u = "u\<lparr>o_buffer := (o_buffer u)[unat (o_end u) := c], o_end := CCTB_CUT (o_end u + 1)\<rparr>"
  have p: "ring_ok ?u" "pending ?u = pending u @ [c]"
    using put_byte [of u c] u by (simp_all add: term_ready_def)
  then have "term_ready ?u" "shown ?u = lite_byte c (shown t)"
    using u by (simp_all add: term_ready_def shown_def)
  then show ?case using Cons.IH [of ?u "i + 1"] u by (simp add: add.assoc)
qed

interpretation term_sink: byte_sink ccterm_pipe_ops term_ready shown lite_byte
proof
  fix t :: ccterm and buf :: "u8 list"
  assume "term_ready t"
  then show "\<exists>t'. io_write ccterm_pipe_ops t (write_request buf) = Inr (of_nat (length buf), t') \<and> term_ready t' \<and>
      shown t' = fold lite_byte buf (shown t)"
    using writeraw_loop_ready [of t buf 0]
    by (auto simp: ccterm_pipe_ops_def ccterm_write_def write_request_def ccterm_writeraw_def)
qed

section \<open>Staying on the screen\<close>

definition on_screen :: "console \<Rightarrow> bool" where
  "on_screen con \<longleftrightarrow> unat (terminal_row con) < 25 \<and> unat (terminal_column con) < 80 \<and> terminal_buffer con = VGA_MEMORY"

definition off_screen :: "vaddr \<Rightarrow> bool" where
  "off_screen a \<longleftrightarrow> a < VGA_MEMORY \<or> VGA_MEMORY + 4000 \<le> a"

text \<open>A step of the console that stays on the screen.\<close>

definition screen_step :: "console \<Rightarrow> console \<Rightarrow> bool" where
  "screen_step con con' \<longleftrightarrow> on_screen con' \<and> terminal_color con' = terminal_color con \<and>
     (\<forall>a. off_screen a \<longrightarrow> video con' a = video con a)"

lemma screen_step_refl: "on_screen con \<Longrightarrow> screen_step con con"
  by (simp add: screen_step_def)

lemma screen_step_trans: "screen_step a b \<Longrightarrow> screen_step b c \<Longrightarrow> screen_step a c"
  by (simp add: screen_step_def)

lemma screen_step_on: "screen_step a b \<Longrightarrow> on_screen b"
  by (simp add: screen_step_def)

lemma unat_cell_index:
  assumes "unat y < 25" and "unat x < 80"
  shows "unat (y * VGA_WIDTH + x) = unat y * 80 + unat x"
  using assms by (simp add: VGA_WIDTH_def unat_word_ariths)

lemma unat_cell_addr:
  assumes "terminal_buffer con = VGA_MEMORY" and "unat index < 2000"
  shows "unat (cell_addr con index) = 0xC0BFF000 + 2 * unat index"
  using assms by (simp add: cell_addr_def VGA_MEMORY_def unat_word_ariths)

lemma cell_not_off_screen:
  assumes "terminal_buffer con = VGA_MEMORY" and "unat index < 2000"
  shows "\<not> off_screen (cell_addr con index)"
  using assms unat_cell_addr [OF assms]
  by (simp add: off_screen_def VGA_MEMORY_def word_less_nat_alt word_le_nat_alt)

lemma newline_step: "on_screen con \<Longrightarrow> screen_step con (console_newline con)"
  by (auto simp: screen_step_def console_newline_def on_screen_def Let_def VGA_HEIGHT_def word_unat_eq_iff unat_word_ariths)

lemma carriage_return_step: "on_screen con \<Longrightarrow> screen_step con (console_carriage_return con)"
  by (auto simp: screen_step_def console_carriage_return_def on_screen_def)

lemma putchar_step:
  assumes "on_screen con"
  shows "screen_step con (console_putchar c con)"
proof -
  let ?i = "terminal_row con * VGA_WIDTH + terminal_column con"
  have b: "unat (terminal_row con) < 25" "unat (terminal_column con) < 80" "terminal_buffer con = VGA_MEMORY"
    using assms by (simp_all add: on_screen_def)
  then have "unat ?i < 2000" by (simp add: unat_cell_index)
  then have "\<not> off_screen (cell_addr con ?i)" using b by (intro cell_not_off_screen)
  then have "video (console_putchar c con) a = video con a" if "off_screen a" for a
    using that by (auto simp: console_putchar_def terminal_putentryat_def set_cell_def Let_def)
  moreover have "on_screen (console_putchar c con)"
    using b by (auto simp: on_screen_def console_putchar_def terminal_putentryat_def set_cell_def Let_def VGA_WIDTH_def
        VGA_HEIGHT_def word_unat_eq_iff unat_word_ariths)
  moreover have "terminal_color (console_putchar c con) = terminal_color con"
    by (simp add: console_putchar_def terminal_putentryat_def set_cell_def Let_def)
  ultimately show ?thesis by (simp add: screen_step_def)
qed

lemma putchars_step: "on_screen con \<Longrightarrow> screen_step con ((console_putchar c ^^ n) con)"
  by (induction n) (auto intro: screen_step_refl screen_step_trans putchar_step screen_step_on)

lemma lite_newline_step: "on_screen con \<Longrightarrow> screen_step con (console_newline (console_carriage_return con))"
  using carriage_return_step [of con] newline_step screen_step_trans screen_step_on by blast

lemma lite_byte_step: "on_screen con \<Longrightarrow> screen_step con (lite_byte c con)"
  unfolding lite_byte_def cc_tab_def Let_def
  by (auto split: charmap.split intro: screen_step_refl putchar_step putchars_step lite_newline_step)

lemma std_byte_step: "on_screen con \<Longrightarrow> screen_step con (std_byte c con)"
  unfolding std_byte_def cc_tab_def Let_def
  by (auto split: charmap.split intro: screen_step_refl putchar_step putchars_step carriage_return_step newline_step)

lemma fold_screen_step:
  assumes "on_screen con" and "\<And>c con. on_screen con \<Longrightarrow> screen_step con (f c con)"
  shows "screen_step con (fold f cs con)"
  using assms(1)
proof (induction cs arbitrary: con)
  case (Cons c cs)
  then show ?case using assms(2) [of con c] by (auto intro: screen_step_trans screen_step_on)
qed (simp add: screen_step_refl)

definition printable :: "u8 \<Rightarrow> bool" where
  "printable c \<longleftrightarrow> char_class c = CM_PRINT"

definition screen_cell :: "console \<Rightarrow> nat \<Rightarrow> u16" where
  "screen_cell con i = video con (cell_addr con (of_nat i))"

lemma putchar_cells:
  assumes "on_screen con" and "unat (terminal_column con) < 79"
  shows "terminal_row (console_putchar c con) = terminal_row con"
    and "unat (terminal_column (console_putchar c con)) = Suc (unat (terminal_column con))"
    and "i < 2000 \<Longrightarrow> screen_cell (console_putchar c con) i =
       (if i = unat (terminal_row con) * 80 + unat (terminal_column con) then vga_entry c (terminal_color con) else screen_cell con i)"
proof -
  let ?i = "terminal_row con * VGA_WIDTH + terminal_column con"
  have b: "unat (terminal_row con) < 25" "unat (terminal_column con) < 80" "terminal_buffer con = VGA_MEMORY"
    using assms by (simp_all add: on_screen_def)
  have col: "unat (terminal_column con + 1) = Suc (unat (terminal_column con))"
    using assms(2) by (simp add: unat_word_ariths)
  then have ne: "terminal_column con + 1 \<noteq> VGA_WIDTH"
    using assms(2) by (auto simp: VGA_WIDTH_def word_unat_eq_iff)
  note put = console_putchar_def terminal_putentryat_def set_cell_def Let_def
  show "terminal_row (console_putchar c con) = terminal_row con"
    "unat (terminal_column (console_putchar c con)) = Suc (unat (terminal_column con))"
    using ne col by (simp_all add: put)
  have i: "unat ?i = unat (terminal_row con) * 80 + unat (terminal_column con)" using b by (simp add: unat_cell_index)
  show "screen_cell (console_putchar c con) i =
       (if i = unat (terminal_row con) * 80 + unat (terminal_column con) then vga_entry c (terminal_color con) else screen_cell con i)"
    if "i < 2000"
  proof -
    have "unat (of_nat i :: u32) = i" using that by (simp add: unat_of_nat_u32)
    then have "cell_addr con (of_nat i) = cell_addr con ?i \<longleftrightarrow> i = unat ?i"
      using unat_cell_addr [OF b(3), of "of_nat i"] unat_cell_addr [OF b(3), of ?i] i b that
      by (auto simp: word_unat_eq_iff [of "cell_addr con (of_nat i)"])
    then show ?thesis using ne i by (simp add: put screen_cell_def cell_addr_def)
  qed
qed

lemma text_cells:
  assumes "on_screen con" and "unat (terminal_column con) + length cs < 80" and "\<forall>c\<in>set cs. printable c" and "i < 2000"
  shows "screen_cell (fold lite_byte cs con) i =
    (let p = unat (terminal_row con) * 80 + unat (terminal_column con)
     in if p \<le> i \<and> i < p + length cs then vga_entry (cs ! (i - p)) (terminal_color con) else screen_cell con i)"
  using assms(1-3)
proof (induction cs arbitrary: con)
  case (Cons c cs)
  let ?con = "console_putchar c con"
  have lb: "lite_byte c con = ?con" using Cons.prems(3) by (simp add: lite_byte_def printable_def)
  have col: "unat (terminal_column con) < 79" using Cons.prems(2) by simp
  note pc = putchar_cells [OF Cons.prems(1) col]
  have st: "on_screen ?con" "terminal_color ?con = terminal_color con"
    using putchar_step [OF Cons.prems(1)] by (simp_all add: screen_step_def)
  have ih: "screen_cell (fold lite_byte cs ?con) i =
    (let p = unat (terminal_row ?con) * 80 + unat (terminal_column ?con)
     in if p \<le> i \<and> i < p + length cs then vga_entry (cs ! (i - p)) (terminal_color ?con) else screen_cell ?con i)"
    using Cons.prems pc(2) st(1) by (intro Cons.IH) auto
  show ?case using pc(3) [OF assms(4)] ih pc(1,2) st(2) lb by (auto simp: Let_def nth_Cons')
qed (auto simp: Let_def)

lemma set_cell_step:
  assumes "on_screen con" and "unat j < 2000"
  shows "screen_step con (set_cell j e con)"
    and "i < 2000 \<Longrightarrow> screen_cell (set_cell j e con) i = (if i = unat j then e else screen_cell con i)"
proof -
  have b: "terminal_buffer con = VGA_MEMORY" using assms(1) by (simp add: on_screen_def)
  have "\<not> off_screen (cell_addr con j)" using b assms(2) by (rule cell_not_off_screen)
  then show "screen_step con (set_cell j e con)"
    using assms(1) by (auto simp: screen_step_def on_screen_def set_cell_def)
  show "screen_cell (set_cell j e con) i = (if i = unat j then e else screen_cell con i)" if "i < 2000"
  proof -
    have "unat (of_nat i :: u32) = i" using that by (simp add: unat_of_nat_u32)
    then have "cell_addr con (of_nat i) = cell_addr con j \<longleftrightarrow> i = unat j"
      using unat_cell_addr [OF b, of "of_nat i"] unat_cell_addr [OF b, of j] assms(2) that
      by (auto simp: word_unat_eq_iff [of "cell_addr con (of_nat i)"])
    then show ?thesis by (simp add: set_cell_def screen_cell_def cell_addr_def)
  qed
qed

text \<open>What clearing cells keeps of the console.\<close>

definition same_cursor :: "console \<Rightarrow> console \<Rightarrow> bool" where
  "same_cursor a b \<longleftrightarrow> terminal_row b = terminal_row a \<and> terminal_column b = terminal_column a"

lemma clear_row_ok:
  assumes "on_screen con" and "unat y < 25" and "unat x + n \<le> 80"
  shows "screen_step con (clear_row n y x con) \<and> same_cursor con (clear_row n y x con) \<and>
    (\<forall>i<2000. screen_cell (clear_row n y x con) i =
       (if unat y * 80 + unat x \<le> i \<and> i < unat y * 80 + unat x + n then vga_entry 32 (terminal_color con) else screen_cell con i))"
  using assms(1,3)
proof (induction n arbitrary: x con)
  case 0
  then show ?case by (auto simp: screen_step_refl same_cursor_def)
next
  case (Suc n)
  let ?con = "set_cell (y * VGA_WIDTH + x) (vga_entry 32 (terminal_color con)) con"
  have x: "unat x < 80" using Suc.prems(2) by simp
  have j: "unat (y * VGA_WIDTH + x) = unat y * 80 + unat x" using assms(2) x by (rule unat_cell_index)
  then have j2: "unat (y * VGA_WIDTH + x) < 2000" using assms(2) x by simp
  note st = set_cell_step [OF Suc.prems(1) j2]
  have c: "terminal_color ?con = terminal_color con" "same_cursor con ?con"
    by (simp_all add: set_cell_def same_cursor_def)
  have x1: "unat (x + 1) = Suc (unat x)" using x by (simp add: unat_word_ariths)
  have on: "on_screen ?con" using st(1) by (rule screen_step_on)
  have ih: "screen_step ?con (clear_row n y (x + 1) ?con) \<and> same_cursor ?con (clear_row n y (x + 1) ?con) \<and>
    (\<forall>i<2000. screen_cell (clear_row n y (x + 1) ?con) i =
       (if unat y * 80 + unat (x + 1) \<le> i \<and> i < unat y * 80 + unat (x + 1) + n then vga_entry 32 (terminal_color ?con)
        else screen_cell ?con i))"
    using on Suc.prems(2) x1 by (intro Suc.IH) auto
  have cells: "screen_cell ?con i = (if i = unat y * 80 + unat x then vga_entry 32 (terminal_color con) else screen_cell con i)"
    if "i < 2000" for i using st(2) [OF that] j by simp
  show ?case
    using ih st(1) c cells x1 by (auto simp: same_cursor_def intro: screen_step_trans)
qed

lemma clear_rows_ok:
  assumes "on_screen con" and "unat y + n \<le> 25"
  shows "screen_step con (clear_rows n y con) \<and> same_cursor con (clear_rows n y con) \<and>
    (\<forall>i<2000. screen_cell (clear_rows n y con) i =
       (if unat y * 80 \<le> i \<and> i < (unat y + n) * 80 then vga_entry 32 (terminal_color con) else screen_cell con i))"
  using assms
proof (induction n arbitrary: y con)
  case 0
  then show ?case by (auto simp: screen_step_refl same_cursor_def)
next
  case (Suc n)
  let ?con = "clear_row (unat VGA_WIDTH) y 0 con"
  have y: "unat y < 25" using Suc.prems(2) by simp
  have r: "screen_step con ?con \<and> same_cursor con ?con \<and>
    (\<forall>i<2000. screen_cell ?con i =
       (if unat y * 80 \<le> i \<and> i < unat y * 80 + 80 then vga_entry 32 (terminal_color con) else screen_cell con i))"
    using clear_row_ok [OF Suc.prems(1) y, of 0 80] by (simp add: VGA_WIDTH_def)
  then have c: "terminal_color ?con = terminal_color con" and on: "on_screen ?con"
    by (simp_all add: screen_step_def)
  have y1: "unat (y + 1) = Suc (unat y)" using y by (simp add: unat_word_ariths)
  have ih: "screen_step ?con (clear_rows n (y + 1) ?con) \<and> same_cursor ?con (clear_rows n (y + 1) ?con) \<and>
    (\<forall>i<2000. screen_cell (clear_rows n (y + 1) ?con) i =
       (if unat (y + 1) * 80 \<le> i \<and> i < (unat (y + 1) + n) * 80 then vga_entry 32 (terminal_color ?con)
        else screen_cell ?con i))"
    using on Suc.prems(2) y1 by (intro Suc.IH) auto
  show ?case using ih r c y1 by (auto simp: same_cursor_def intro: screen_step_trans)
qed

lemma console_init_ok:
  "on_screen (console_init con)" "terminal_row (console_init con) = 0" "terminal_column (console_init con) = 0"
  "terminal_color (console_init con) = 7"
  "i < 2000 \<Longrightarrow> screen_cell (console_init con) i = 0x0720"
  "off_screen a \<Longrightarrow> video (console_init con) a = video con a"
proof -
  let ?c = "con\<lparr>terminal_row := 0, terminal_column := 0,
    terminal_color := vga_entry_color VGA_COLOR_LIGHT_GREY VGA_COLOR_BLACK, terminal_buffer := VGA_MEMORY\<rparr>"
  have col: "vga_entry_color VGA_COLOR_LIGHT_GREY VGA_COLOR_BLACK = 7"
    by (simp add: vga_entry_color_def VGA_COLOR_LIGHT_GREY_def VGA_COLOR_BLACK_def)
  have ent: "vga_entry 32 7 = 0x0720" by (simp add: vga_entry_def)
  have "on_screen ?c" by (simp add: on_screen_def)
  from clear_rows_ok [OF this, of 0 25]
  have r: "screen_step ?c (console_init con)" "same_cursor ?c (console_init con)"
    "\<forall>i<2000. screen_cell (console_init con) i = vga_entry 32 (terminal_color ?c)"
    by (simp_all add: console_init_def VGA_HEIGHT_def)
  then show "on_screen (console_init con)" "terminal_row (console_init con) = 0" "terminal_column (console_init con) = 0"
    "terminal_color (console_init con) = 7" "off_screen a \<Longrightarrow> video (console_init con) a = video con a"
    using col by (simp_all add: screen_step_def same_cursor_def)
  show "screen_cell (console_init con) i = 0x0720" if "i < 2000" using r(3) that col ent by simp
qed

lemma ccterm_init_ready:
  assumes "ring_ok t"
  shows "term_ready (ccterm_init t)"
  using assms by (simp add: term_ready_def ccterm_init_def ring_ok_def)

lemma shown_empty: "ring_ok t \<Longrightarrow> o_begin t = o_end t \<Longrightarrow> shown t = cc_console t"
  using ring_length_0 [of t] by (simp add: shown_def pending_def)

text \<open>The statically allocated terminal before the kernel initialises it.\<close>

definition static_ccterm :: "(vaddr \<Rightarrow> u16) \<Rightarrow> ccterm" where
  "static_ccterm mem = \<lparr>o_buffer = replicate 1024 0, o_begin = 0, o_end = 0, cc_ops = None,
     cc_console = \<lparr>terminal_row = 0, terminal_column = 0, terminal_color = 0, terminal_buffer = 0, video = mem\<rparr>\<rparr>"

lemma static_ccterm_ring: "ring_ok (static_ccterm mem)" "o_begin (static_ccterm mem) = o_end (static_ccterm mem)"
  by (simp_all add: ring_ok_def static_ccterm_def)

section \<open>Properties\<close>

text \<open>C25. A kernel write to an initialised terminal whose ring may still hold earlier bytes returns the
  number of bytes given to it, leaves the ring empty, and the console is where the earlier bytes
  followed by the new ones put it: no byte is lost or reordered, whatever the length of the
  buffer, also when it is longer than the ring. The terminal stays ready for the next write.\<close>

theorem terminal_write_drains:
  assumes "term_ready t"
  shows "\<exists>t'. iopipe_write ccterm_pipe_ops t buf = Inr (of_nat (length buf), t') \<and> term_ready t' \<and>
    o_begin t' = o_end t' \<and> cc_console t' = fold lite_byte (pending t @ buf) (cc_console t)"
proof -
  obtain t' where t': "writeraw_loop buf 0 t = Inr (of_nat (length buf), t')" "term_ready t'" "o_begin t' = o_end t'"
    "shown t' = fold lite_byte buf (shown t)" using writeraw_loop_ready [OF assms, of buf 0] by auto
  have "cc_console t' = shown t'" using t'(2,3) shown_empty by (simp add: term_ready_def)
  then show ?thesis using t'
    by (simp add: iopipe_write_def ccterm_pipe_ops_def ccterm_write_def write_request_def ccterm_writeraw_def shown_def)
qed

theorem terminal_write_drains_witness:
  "\<exists>t'. iopipe_write ccterm_pipe_ops (ccterm_init (static_ccterm (\<lambda>_. 0))) (replicate 3000 65) = Inr (3000, t') \<and> o_begin t' = o_end t'"
  using terminal_write_drains [OF ccterm_init_ready [OF static_ccterm_ring(1)], of "\<lambda>_. 0" "replicate 3000 65"] by auto

text \<open>The text on the screen. After the terminal is initialised the screen is blank, light grey on
  black, and writing fewer than 80 printable bytes shows exactly them at the start of the first
  line, in the cells of the video memory, and leaves the remaining cells blank. No memory
  outside the 2000 cells of the screen is changed.\<close>

theorem terminal_shows_text:
  assumes "ring_ok t" and "o_begin t = o_end t" and "length cs < 80" and "\<forall>c\<in>set cs. printable c"
  shows "\<exists>t'. iopipe_write ccterm_pipe_ops (ccterm_init t) cs = Inr (of_nat (length cs), t') \<and>
    (\<forall>i<2000. screen_cell (cc_console t') i = (if i < length cs then vga_entry (cs ! i) 7 else 0x0720)) \<and>
    (\<forall>a. off_screen a \<longrightarrow> video (cc_console t') a = video (cc_console t) a)"
proof -
  let ?con = "console_init (cc_console t)" and ?t = "ccterm_init t"
  have r: "term_ready ?t" using assms(1) by (rule ccterm_init_ready)
  have sh: "shown ?t = ?con" using shown_empty [of ?t] r assms(2) by (simp add: term_ready_def ccterm_init_def)
  obtain t' where t': "writeraw_loop cs 0 ?t = Inr (of_nat (length cs), t')" "term_ready t'" "o_begin t' = o_end t'"
    "shown t' = fold lite_byte cs ?con" using writeraw_loop_ready [OF r, of cs 0] sh by auto
  have "cc_console t' = fold lite_byte cs ?con" using t'(2,3,4) shown_empty by (simp add: term_ready_def)
  moreover have "screen_cell (fold lite_byte cs ?con) i = (if i < length cs then vga_entry (cs ! i) 7 else 0x0720)"
    if "i < 2000" for i
    using text_cells [of ?con cs i] assms(3,4) that by (simp add: console_init_ok)
  moreover have "video (fold lite_byte cs ?con) a = video (cc_console t) a" if "off_screen a" for a
    using fold_screen_step [OF console_init_ok(1), of lite_byte "cc_console t" cs] lite_byte_step that console_init_ok(6) [OF that]
    by (simp add: screen_step_def)
  moreover have "iopipe_write ccterm_pipe_ops ?t cs = Inr (of_nat (length cs), t')"
    using t'(1) by (simp add: iopipe_write_def ccterm_pipe_ops_def ccterm_write_def write_request_def ccterm_writeraw_def)
  ultimately show ?thesis by simp
qed

theorem terminal_shows_text_witness:
  "\<exists>t'. iopipe_write ccterm_pipe_ops (ccterm_init (static_ccterm (\<lambda>_. 0))) [79, 75] = Inr (2, t') \<and>
    map (screen_cell (cc_console t')) [0, 1, 2] = [0x074F, 0x074B, 0x0720]"
proof -
  have "\<forall>c\<in>set [79, 75]. printable c" by (simp add: printable_def char_class_def ansi_charmap_def Let_def)
  from terminal_shows_text [OF static_ccterm_ring _ this, of "\<lambda>_. 0"]
  show ?thesis by (auto simp: vga_entry_def)
qed

text \<open>C27. The bounds of the console. Whatever bytes are written, with either output discipline or
  directly, and wherever the cursor stands on the screen: it stays within the 25 rows and 80
  columns, and no cell outside the screen is changed.\<close>

theorem console_stays_on_screen:
  assumes "on_screen con"
  shows "screen_step con (fold lite_byte cs con) \<and> screen_step con (fold std_byte cs con) \<and>
    screen_step con (console_write_text cs con)"
proof -
  have "console_write_text cs con = fold console_putchar cs con" for con by (induction cs arbitrary: con) simp_all
  then show ?thesis
    using fold_screen_step [OF assms, of lite_byte] fold_screen_step [OF assms, of std_byte]
      fold_screen_step [OF assms, of console_putchar] lite_byte_step std_byte_step putchar_step by simp
qed

theorem console_stays_on_screen_witness:
  "on_screen (fold lite_byte (replicate 5000 120) (console_init (cc_console (static_ccterm (\<lambda>_. 0)))))"
  using console_stays_on_screen [OF console_init_ok(1)] screen_step_on by blast

end
