(* ===== verification/Kern_String.thy ===== *)
theory Kern_String
  imports Kernel_Prelude
begin

text \<open>
  The string and memory functions of \<open>system/libkern/string.c\<close>. Memory is a function from
  addresses to bytes; addresses wrap at \<open>2^32\<close>. A loop that a terminating zero ends is a
  partial function into options, since a memory without a zero keeps it running; a loop over a
  count recurses on it.

  The copying functions mark both of their pointers \<^verbatim>\<open>__restrict__\<close>: a byte that is written through one of
  them must not be accessed through the other. Where the bytes a call reads and the bytes it writes overlap, the behaviour is
  undefined, and the model returns \<open>Undefined\<close>.
\<close>

type_synonym memory = "u32 \<Rightarrow> u8"

section \<open>The functions\<close>

partial_function (option) strlen_loop :: "memory \<Rightarrow> u32 \<Rightarrow> u32 \<Rightarrow> u32 option" where
  "strlen_loop m str i = (if m str \<noteq> 0 then strlen_loop m (str + 1) (i + 1) else Some i)"

definition strlen :: "memory \<Rightarrow> u32 \<Rightarrow> u32 option" where
  "strlen m str = strlen_loop m str 0"

partial_function (option) strcpy_loop :: "u32 \<Rightarrow> u32 \<Rightarrow> memory \<Rightarrow> memory option" where
  "strcpy_loop ot i m =
     (let m' = m(ot := m i) in if m' ot \<noteq> 0 then strcpy_loop (ot + 1) (i + 1) m' else Some m')"

text \<open>\<open>n\<close> bytes from \<open>a\<close> and \<open>n\<close> bytes from \<open>b\<close> have a byte in common.\<close>

definition overlap :: "u32 \<Rightarrow> u32 \<Rightarrow> nat \<Rightarrow> bool" where
  "overlap a b n \<longleftrightarrow> unat (a - b) < n \<or> unat (b - a) < n"

text \<open>The loop of \<^verbatim>\<open>strcpy\<close> reads and writes one byte more than \<^verbatim>\<open>strlen\<close> counts; without a
  terminating zero it would run over all of the memory, and so over what it reads.\<close>

definition strcpy :: "u32 \<Rightarrow> u32 \<Rightarrow> memory \<Rightarrow> memory res" where
  "strcpy dest src m =
     (case strlen m src of None \<Rightarrow> Inl Undefined
      | Some n \<Rightarrow> if overlap dest src (Suc (unat n)) then Inl Undefined
          else case strcpy_loop dest src m of None \<Rightarrow> Inl No_Return | Some m' \<Rightarrow> Inr m')"

primrec strncpy_loop :: "nat \<Rightarrow> u32 \<Rightarrow> u32 \<Rightarrow> memory \<Rightarrow> memory" where
  "strncpy_loop 0 ot i m = m"
| "strncpy_loop (Suc n) ot i m =
     (let m' = m(ot := m i) in if m' ot \<noteq> 0 then strncpy_loop n (ot + 1) (i + 1) m' else m')"

text \<open>The number of bytes that loop copies.\<close>

primrec strncpy_count :: "nat \<Rightarrow> u32 \<Rightarrow> memory \<Rightarrow> nat" where
  "strncpy_count 0 i m = 0"
| "strncpy_count (Suc n) i m = (if m i \<noteq> 0 then Suc (strncpy_count n (i + 1) m) else 1)"

definition strncpy_bytes :: "nat \<Rightarrow> u32 \<Rightarrow> u32 \<Rightarrow> memory \<Rightarrow> memory res" where
  "strncpy_bytes n ot i m =
     (if overlap ot i (strncpy_count n i m) then Inl Undefined else Inr (strncpy_loop n ot i m))"

definition strncpy :: "u32 \<Rightarrow> u32 \<Rightarrow> u32 \<Rightarrow> memory \<Rightarrow> memory res" where
  "strncpy dest src n m = strncpy_bytes (unat n) dest src m"

partial_function (option) find_end :: "memory \<Rightarrow> u32 \<Rightarrow> u32 option" where
  "find_end m ot = (if m ot \<noteq> 0 then find_end m (ot + 1) else Some ot)"

definition strcat :: "u32 \<Rightarrow> u32 \<Rightarrow> memory \<Rightarrow> memory res" where
  "strcat dest src m = (case find_end m dest of None \<Rightarrow> Inl No_Return | Some ot \<Rightarrow> strcpy ot src m)"

primrec find_end_n :: "nat \<Rightarrow> memory \<Rightarrow> u32 \<Rightarrow> nat \<times> u32" where
  "find_end_n 0 m ot = (0, ot)"
| "find_end_n (Suc n) m ot = (if m ot \<noteq> 0 then find_end_n n m (ot + 1) else (Suc n, ot))"

definition strncat :: "u32 \<Rightarrow> u32 \<Rightarrow> u32 \<Rightarrow> memory \<Rightarrow> memory res" where
  "strncat dest src n m = (let (n, ot) = find_end_n (unat n) m dest in strncpy_bytes n ot src m)"

partial_function (option) strcmp_loop :: "memory \<Rightarrow> u32 \<Rightarrow> u32 \<Rightarrow> int option" where
  "strcmp_loop m a b =
     (if m a = m b \<and> m a \<noteq> 0 then strcmp_loop m (a + 1) (b + 1) else Some (uint (m a) - uint (m b)))"

definition strcmp :: "memory \<Rightarrow> u32 \<Rightarrow> u32 \<Rightarrow> int option" where
  "strcmp m string1 string2 = strcmp_loop m string1 string2"

primrec memset_loop :: "nat \<Rightarrow> u32 \<Rightarrow> u8 \<Rightarrow> memory \<Rightarrow> memory" where
  "memset_loop 0 ot c m = m"
| "memset_loop (Suc n) ot c m = memset_loop n (ot + 1) c (m(ot := c))"

definition memset :: "u32 \<Rightarrow> u32 \<Rightarrow> u32 \<Rightarrow> memory \<Rightarrow> memory" where
  "memset dest ch count m = memset_loop (unat count) dest (ucast ch) m"

primrec copy_up :: "nat \<Rightarrow> u32 \<Rightarrow> u32 \<Rightarrow> memory \<Rightarrow> memory" where
  "copy_up 0 ot i m = m"
| "copy_up (Suc n) ot i m = copy_up n (ot + 1) (i + 1) (m(ot := m i))"

primrec copy_down :: "nat \<Rightarrow> u32 \<Rightarrow> u32 \<Rightarrow> memory \<Rightarrow> memory" where
  "copy_down 0 ot i m = m"
| "copy_down (Suc n) ot i m = copy_down n (ot - 1) (i - 1) (m(ot := m i))"

definition memcpy :: "u32 \<Rightarrow> u32 \<Rightarrow> u32 \<Rightarrow> memory \<Rightarrow> memory res" where
  "memcpy dest src n m =
     (if overlap dest src (unat n) then Inl Undefined else Inr (copy_up (unat n) dest src m))"

text \<open>The body of \<^verbatim>\<open>memmove\<close> without the qualifiers of its pointers, and with them.\<close>

definition memmove_loops :: "u32 \<Rightarrow> u32 \<Rightarrow> u32 \<Rightarrow> memory \<Rightarrow> memory" where
  "memmove_loops dest src n m =
     (if src > dest then copy_up (unat n) dest src m
      else copy_down (unat n) (dest + (n - 1)) (src + (n - 1)) m)"

definition memmove :: "u32 \<Rightarrow> u32 \<Rightarrow> u32 \<Rightarrow> memory \<Rightarrow> memory res" where
  "memmove dest src n m =
     (if overlap dest src (unat n) then Inl Undefined else Inr (memmove_loops dest src n m))"

primrec memcmp_loop :: "nat \<Rightarrow> memory \<Rightarrow> u32 \<Rightarrow> u32 \<Rightarrow> int" where
  "memcmp_loop 0 m a b = 0"
| "memcmp_loop (Suc n) m a b = (if m a = m b then memcmp_loop n m (a + 1) (b + 1) else uint (m a) - uint (m b))"

definition memcmp :: "memory \<Rightarrow> u32 \<Rightarrow> u32 \<Rightarrow> u32 \<Rightarrow> int" where
  "memcmp m lhs rhs n = memcmp_loop (unat n) m lhs rhs"

primrec memchr_loop :: "nat \<Rightarrow> memory \<Rightarrow> u32 \<Rightarrow> u8 \<Rightarrow> u32" where
  "memchr_loop 0 m i c = 0"
| "memchr_loop (Suc n) m i c = (if m i = c then i else memchr_loop n m (i + 1) c)"

definition memchr :: "memory \<Rightarrow> u32 \<Rightarrow> u32 \<Rightarrow> u32 \<Rightarrow> u32" where
  "memchr m ptr ch n = memchr_loop (unat n) m ptr (ucast ch)"

section \<open>Strings in memory\<close>

text \<open>The string \<open>s\<close> of non-zero bytes, with its terminating zero, is stored at \<open>p\<close>.\<close>

fun cstr :: "memory \<Rightarrow> u32 \<Rightarrow> u8 list \<Rightarrow> bool" where
  "cstr m p [] = (m p = 0)"
| "cstr m p (c # s) = (m p = c \<and> c \<noteq> 0 \<and> cstr m (p + 1) s)"

text \<open>The address \<open>k\<close> bytes on.\<close>

abbreviation byte_at :: "u32 \<Rightarrow> nat \<Rightarrow> u32" where
  "byte_at p k \<equiv> p + of_nat k"

lemma byte_at_Suc: "byte_at p (Suc k) = byte_at (p + 1) k"
  by (simp add: algebra_simps)

lemma cstr_nth: "cstr m p s \<longleftrightarrow> (\<forall>k<length s. m (byte_at p k) = s ! k \<and> s ! k \<noteq> 0) \<and> m (byte_at p (length s)) = 0"
proof (induction s arbitrary: p)
  case (Cons c s)
  show ?case
    unfolding cstr.simps Cons.IH list.size(4) add_Suc_right add_0_right All_less_Suc2 byte_at_Suc
    by auto
qed simp

lemma strlen_loop_cstr:
  assumes "cstr m p s"
  shows "strlen_loop m p i = Some (i + of_nat (length s))"
  using assms
proof (induction s arbitrary: p i)
  case Nil
  then show ?case by (subst strlen_loop.simps) simp
next
  case (Cons c s)
  then have "strlen_loop m (p + 1) (i + 1) = Some (i + 1 + of_nat (length s))" by simp
  with Cons.prems show ?case by (subst strlen_loop.simps) (simp add: algebra_simps)
qed

lemma find_end_cstr:
  assumes "cstr m p s"
  shows "find_end m p = Some (byte_at p (length s))"
  using assms
proof (induction s arbitrary: p)
  case Nil
  then show ?case by (subst find_end.simps) simp
next
  case (Cons c s)
  then have "find_end m (p + 1) = Some (byte_at (p + 1) (length s))" by simp
  with Cons.prems show ?case by (subst find_end.simps) (simp add: algebra_simps)
qed

text \<open>Copying, from the bottom and from the top. The premise says that no byte is overwritten before
  it is read.\<close>

lemma byte_at_eq: "j < 4294967296 \<Longrightarrow> k < 4294967296 \<Longrightarrow> byte_at p j = byte_at p k \<longleftrightarrow> j = k"
  by (metis add_left_cancel unat_of_nat_u32)

lemma copy_up_spec:
  assumes "n \<le> 4294967296" and "\<forall>j<n. \<forall>k<j. byte_at i j \<noteq> byte_at ot k"
  shows "(\<forall>k<n. copy_up n ot i m (byte_at ot k) = m (byte_at i k)) \<and>
    (\<forall>x. (\<forall>k<n. x \<noteq> byte_at ot k) \<longrightarrow> copy_up n ot i m x = m x)"
  using assms
proof (induction n arbitrary: ot i m)
  case (Suc n)
  have cl: "\<forall>j<n. \<forall>k<j. byte_at (i + 1) j \<noteq> byte_at (ot + 1) k"
    using Suc.prems(2) by (metis Suc_less_eq byte_at_Suc)
  have n: "n \<le> 4294967296" using Suc.prems(1) by simp
  let ?m = "m(ot := m i)"
  have IH: "\<forall>k<n. copy_up n (ot + 1) (i + 1) ?m (byte_at (ot + 1) k) = ?m (byte_at (i + 1) k)"
    "\<forall>x. (\<forall>k<n. x \<noteq> byte_at (ot + 1) k) \<longrightarrow> copy_up n (ot + 1) (i + 1) ?m x = ?m x"
    using Suc.IH [OF n cl, of ?m] by blast+
  have "byte_at (i + 1) k \<noteq> ot" if "k < n" for k
    using Suc.prems(2) [rule_format, of "Suc k" 0] that by (simp add: byte_at_Suc del: of_nat_Suc)
  moreover have "ot \<noteq> byte_at (ot + 1) k" if "k < n" for k
    using byte_at_eq [of 0 "Suc k" ot] that Suc.prems(1) by (simp add: byte_at_Suc del: of_nat_Suc)
  ultimately show ?case
    unfolding All_less_Suc2 copy_up.simps byte_at_Suc using IH by (simp del: fun_upd_apply) (simp add: fun_upd_def)
qed simp

lemma copy_down_spec:
  assumes "n \<le> 4294967296" and "\<forall>j<n. \<forall>k<j. i - of_nat j \<noteq> ot - of_nat k"
  shows "(\<forall>k<n. copy_down n ot i m (ot - of_nat k) = m (i - of_nat k)) \<and>
    (\<forall>x. (\<forall>k<n. x \<noteq> ot - of_nat k) \<longrightarrow> copy_down n ot i m x = m x)"
  using assms
proof (induction n arbitrary: ot i m)
  case (Suc n)
  have s: "p - of_nat (Suc k) = p - 1 - of_nat k" for p :: u32 and k by (simp add: algebra_simps)
  have cl: "\<forall>j<n. \<forall>k<j. i - 1 - of_nat j \<noteq> ot - 1 - of_nat k"
    using Suc.prems(2) by (metis Suc_less_eq s)
  have n: "n \<le> 4294967296" using Suc.prems(1) by simp
  let ?m = "m(ot := m i)"
  have IH: "\<forall>k<n. copy_down n (ot - 1) (i - 1) ?m (ot - 1 - of_nat k) = ?m (i - 1 - of_nat k)"
    "\<forall>x. (\<forall>k<n. x \<noteq> ot - 1 - of_nat k) \<longrightarrow> copy_down n (ot - 1) (i - 1) ?m x = ?m x"
    using Suc.IH [OF n cl, of ?m] by blast+
  have "i - 1 - of_nat k \<noteq> ot" if "k < n" for k
    using Suc.prems(2) [rule_format, of "Suc k" 0] that by (simp add: s del: of_nat_Suc)
  moreover have "ot \<noteq> ot - 1 - of_nat k" if "k < n" for k
  proof
    assume "ot = ot - 1 - of_nat k"
    then have "byte_at ot (Suc k) = byte_at ot 0" by (simp add: algebra_simps)
    then show False using byte_at_eq [of "Suc k" 0 ot] that Suc.prems(1) by simp
  qed
  ultimately show ?case
    unfolding All_less_Suc2 copy_down.simps s using IH by auto
qed simp

lemma unat_byte_at: "unat p + n \<le> 4294967296 \<Longrightarrow> k < n \<Longrightarrow> unat (byte_at p k) = unat p + k"
  by (subst unat_add_u32) (simp_all add: unat_of_nat_u32)

lemma memmove_loops_spec:
  assumes d: "unat dest + unat n \<le> 4294967296" and s: "unat src + unat n \<le> 4294967296"
  shows "(\<forall>k<unat n. memmove_loops dest src n m (byte_at dest k) = m (byte_at src k)) \<and>
    (\<forall>x. (\<forall>k<unat n. x \<noteq> byte_at dest k) \<longrightarrow> memmove_loops dest src n m x = m x)"
proof (cases "src > dest")
  case True
  then have lt: "unat dest < unat src" by (simp add: word_less_nat_alt)
  have "byte_at src j \<noteq> byte_at dest k" if "j < unat n" "k < j" for j k
    using unat_byte_at [OF s that(1)] unat_byte_at [OF d, of k] that lt by auto
  then show ?thesis using copy_up_spec [of "unat n" src dest m] unat_u32_lt [of n] True by (simp add: memmove_loops_def)
next
  case False
  then have le: "unat src \<le> unat dest" by (simp add: word_less_nat_alt)
  let ?ot = "dest + (n - 1)" and ?i = "src + (n - 1)"
  have top: "p + (n - 1) - of_nat k = byte_at p (unat n - 1 - k)" if "k < unat n" for p :: u32 and k
  proof -
    have "unat n - 1 - k + Suc k = unat n" using that by simp
    then have "of_nat (unat n - 1 - k) + of_nat (Suc k) = n" by (metis of_nat_add of_nat_unat_u32)
    then show ?thesis by (simp add: algebra_simps)
  qed
  have "?i - of_nat j \<noteq> ?ot - of_nat k" if "j < unat n" "k < j" for j k
  proof -
    have "unat (byte_at src (unat n - 1 - j)) = unat src + (unat n - 1 - j)"
      using that by (intro unat_byte_at [OF s]) simp
    moreover have "unat (byte_at dest (unat n - 1 - k)) = unat dest + (unat n - 1 - k)"
      using that by (intro unat_byte_at [OF d]) simp
    moreover have "unat n - 1 - j < unat n - 1 - k" using that by linarith
    ultimately have "unat (byte_at src (unat n - 1 - j)) < unat (byte_at dest (unat n - 1 - k))" using le by linarith
    then have "byte_at src (unat n - 1 - j) \<noteq> byte_at dest (unat n - 1 - k)" by auto
    moreover have "k < unat n" using that by simp
    ultimately show ?thesis unfolding top [OF that(1)] top [OF \<open>k < unat n\<close>] by blast
  qed
  note sp = copy_down_spec [of "unat n" ?i ?ot m, OF less_imp_le [OF unat_u32_lt]]
  have cd: "\<forall>k<unat n. copy_down (unat n) ?ot ?i m (?ot - of_nat k) = m (?i - of_nat k)"
    "\<forall>x. (\<forall>k<unat n. x \<noteq> ?ot - of_nat k) \<longrightarrow> copy_down (unat n) ?ot ?i m x = m x"
    using sp \<open>\<And>k j. j < unat n \<Longrightarrow> k < j \<Longrightarrow> ?i - of_nat j \<noteq> ?ot - of_nat k\<close> by blast+
  have mv: "memmove_loops dest src n m = copy_down (unat n) ?ot ?i m" using False by (simp add: memmove_loops_def)
  have "copy_down (unat n) ?ot ?i m (byte_at dest k) = m (byte_at src k)" if "k < unat n" for k
  proof -
    let ?j = "unat n - 1 - k"
    have j: "?j < unat n" "unat n - 1 - ?j = k" using that by simp_all
    have "copy_down (unat n) ?ot ?i m (?ot - of_nat ?j) = m (?i - of_nat ?j)" using cd(1) j(1) by blast
    then show ?thesis unfolding top [OF j(1)] j(2) .
  qed
  moreover have "copy_down (unat n) ?ot ?i m x = m x" if "\<forall>k<unat n. x \<noteq> byte_at dest k" for x
  proof -
    have "x \<noteq> ?ot - of_nat k" if k: "k < unat n" for k
    proof -
      have "unat n - 1 - k < unat n" using k by simp
      with \<open>\<forall>k<unat n. x \<noteq> byte_at dest k\<close> show ?thesis unfolding top [OF k] by blast
    qed
    with cd(2) show ?thesis by blast
  qed
  ultimately show ?thesis unfolding mv by blast
qed

lemma overlap_iff:
  assumes "n \<le> 4294967296"
  shows "overlap a b n \<longleftrightarrow> (\<exists>j<n. \<exists>k<n. byte_at a j = byte_at b k)"
proof
  assume "overlap a b n"
  then consider "unat (a - b) < n" | "unat (b - a) < n" by (auto simp: overlap_def)
  then show "\<exists>j<n. \<exists>k<n. byte_at a j = byte_at b k"
  proof cases
    case 1
    then show ?thesis by (intro exI [of _ 0] conjI exI [of _ "unat (a - b)"]) auto
  next
    case 2
    then show ?thesis by (intro exI [of _ "unat (b - a)"] conjI exI [of _ 0]) auto
  qed
next
  assume "\<exists>j<n. \<exists>k<n. byte_at a j = byte_at b k"
  then obtain j k where jk: "j < n" "k < n" "byte_at a j = byte_at b k" by blast
  have "unat (x - y) < n" if "i \<le> l" "l < n" "byte_at x i = byte_at y l" for x y :: u32 and i l
  proof -
    have "x - y = of_nat (l - i)" using that(1,3) by (simp add: of_nat_diff algebra_simps)
    then have "unat (x - y) = l - i" using that(2) assms by (simp add: unat_of_nat_u32)
    then show ?thesis using that(2) by simp
  qed
  from this [of j k a b] this [of k j b a] jk show "overlap a b n"
    unfolding overlap_def by (metis nat_le_linear)
qed

lemma strcpy_loop_cstr:
  assumes "cstr m src s" and "length s < 4294967296" and "\<forall>j\<le>length s. \<forall>k<j. byte_at src j \<noteq> byte_at dest k"
  shows "\<exists>m'. strcpy_loop dest src m = Some m' \<and> cstr m' dest s \<and> (\<forall>x. (\<forall>k\<le>length s. x \<noteq> byte_at dest k) \<longrightarrow> m' x = m x)"
  using assms
proof (induction s arbitrary: dest src m)
  case Nil
  then show ?case by (subst strcpy_loop.simps) simp
next
  case (Cons c s)
  let ?m = "m(dest := c)"
  have c: "m src = c" "c \<noteq> 0" "cstr m (src + 1) s" using Cons.prems(1) by simp_all
  have away: "byte_at (src + 1) k \<noteq> dest" if "k \<le> length s" for k
    using Cons.prems(3) [rule_format, of "Suc k" 0] that by (simp add: byte_at_Suc del: of_nat_Suc)
  have "cstr ?m (src + 1) s" using c(3) away unfolding cstr_nth by simp
  moreover have "\<forall>j\<le>length s. \<forall>k<j. byte_at (src + 1) j \<noteq> byte_at (dest + 1) k"
    using Cons.prems(3) by (metis Suc_le_mono Suc_less_eq byte_at_Suc length_Cons)
  moreover have "length s < 4294967296" using Cons.prems(2) by simp
  ultimately obtain m' where m': "strcpy_loop (dest + 1) (src + 1) ?m = Some m'" "cstr m' (dest + 1) s"
    "\<forall>x. (\<forall>k\<le>length s. x \<noteq> byte_at (dest + 1) k) \<longrightarrow> m' x = ?m x"
    using Cons.IH [of ?m "src + 1" "dest + 1"] by blast
  have "dest \<noteq> byte_at (dest + 1) k" if "k \<le> length s" for k
    using byte_at_eq [of 0 "Suc k" dest] that Cons.prems(2) by (simp add: byte_at_Suc del: of_nat_Suc)
  with m'(3) have d: "m' dest = c" by simp
  have "m' x = m x" if x: "\<forall>k\<le>length (c # s). x \<noteq> byte_at dest k" for x
  proof -
    have "x \<noteq> byte_at (dest + 1) k" if "k \<le> length s" for k
      using x that by (metis Suc_le_mono byte_at_Suc length_Cons)
    moreover have "x \<noteq> dest" using x [rule_format, of 0] by simp
    ultimately show ?thesis using m'(3) by simp
  qed
  with m' c d show ?case by (subst strcpy_loop.simps) (simp add: Let_def)
qed

lemma strcmp_loop_cstr:
  assumes "cstr m a s" and "cstr m b t"
  shows "\<exists>r. strcmp_loop m a b = Some r \<and> (r = 0 \<longleftrightarrow> s = t)"
  using assms
proof (induction s arbitrary: a b t)
  case Nil
  then show ?case by (cases t; subst strcmp_loop.simps) (auto simp: unsigned_eq_0_iff)
next
  case (Cons c s)
  show ?case
  proof (cases "m b = c")
    case True
    then obtain u where u: "t = c # u" "cstr m (b + 1) u" using Cons.prems by (cases t) auto
    from Cons.IH [of "a + 1" "b + 1" u] Cons.prems(1) u show ?thesis
      using True by (subst strcmp_loop.simps) auto
  next
    case False
    then have "t \<noteq> c # s" using Cons.prems(2) by auto
    moreover have "uint c - uint (m b) \<noteq> 0" using False by (metis eq_iff_diff_eq_0 word_uint_eq_iff)
    ultimately show ?thesis using False Cons.prems(1) by (subst strcmp_loop.simps) auto
  qed
qed

section \<open>Properties\<close>

text \<open>C26. \<^verbatim>\<open>memmove\<close> of two regions that do not wrap around the end of the address space. When they are disjoint, the
  destination afterwards holds what the source held before, and no other byte has changed. When they overlap, which is what
  the function is for, its behaviour is undefined: both pointers are \<^verbatim>\<open>__restrict__\<close>, and a byte in the overlap is
  written through one and read through the other. Only the qualifiers are at fault: the loops, read
  byte by byte, choose the direction that copies overlapping regions right as well.\<close>

theorem memmove_copies:
  assumes "unat dest + unat n \<le> 4294967296" and "unat src + unat n \<le> 4294967296"
  shows "(if \<exists>j<unat n. \<exists>k<unat n. byte_at dest j = byte_at src k then memmove dest src n m = Inl Undefined
      else \<exists>m'. memmove dest src n m = Inr m' \<and> (\<forall>k<unat n. m' (byte_at dest k) = m (byte_at src k)) \<and>
        (\<forall>x. (\<forall>k<unat n. x \<noteq> byte_at dest k) \<longrightarrow> m' x = m x)) \<and>
    (\<forall>k<unat n. memmove_loops dest src n m (byte_at dest k) = m (byte_at src k)) \<and>
    (\<forall>x. (\<forall>k<unat n. x \<noteq> byte_at dest k) \<longrightarrow> memmove_loops dest src n m x = m x)"
  using memmove_loops_spec [OF assms, of m] overlap_iff [of "unat n" dest src] unat_u32_lt [of n]
  by (simp add: memmove_def)

theorem memmove_copies_witness:
  "(\<exists>m'. memmove 20 10 3 (\<lambda>x. ucast x) = Inr m' \<and> m' 20 = 10) \<and> memmove 11 10 3 (\<lambda>x. ucast x) = Inl Undefined \<and>
    memmove_loops 11 10 3 (\<lambda>x. ucast x) 12 = 11"
proof -
  let ?m = "\<lambda>x. ucast x :: u8"
  have w: "unat (20 :: u32) + unat (3 :: u32) \<le> 4294967296" "unat (10 :: u32) + unat (3 :: u32) \<le> 4294967296"
    "unat (11 :: u32) + unat (3 :: u32) \<le> 4294967296" by simp_all
  have no: "\<not> (\<exists>j<unat (3 :: u32). \<exists>k<unat (3 :: u32). byte_at 20 j = byte_at (10 :: u32) k)"
    using overlap_iff [of "unat (3 :: u32)" 20 10] by (simp add: overlap_def)
  from memmove_copies [OF w(1,2), of ?m] have a: "\<exists>m'. memmove 20 10 3 ?m = Inr m' \<and> (\<forall>k<unat (3 :: u32). m' (byte_at 20 k) = ?m (byte_at 10 k))"
    unfolding if_not_P [OF no] by blast
  have yes: "\<exists>j<unat (3 :: u32). \<exists>k<unat (3 :: u32). byte_at 11 j = byte_at (10 :: u32) k"
    by (intro exI [of _ 0] conjI exI [of _ 1]) simp_all
  from memmove_copies [OF w(3,2), of ?m] have b: "memmove 11 10 3 ?m = Inl Undefined"
    and c: "\<forall>k<unat (3 :: u32). memmove_loops 11 10 3 ?m (byte_at 11 k) = ?m (byte_at 10 k)" unfolding if_P [OF yes] by blast+
  from a obtain m' where m': "memmove 20 10 3 ?m = Inr m'" "\<forall>k<unat (3 :: u32). m' (byte_at 20 k) = ?m (byte_at 10 k)" by blast
  from m'(2) [rule_format, of 0] have "m' 20 = 10" by simp
  with m'(1) b c [rule_format, of 1] show ?thesis by simp
qed

text \<open>The functions on strings. On stored strings \<^verbatim>\<open>strlen\<close> ends with the length,
  \<^verbatim>\<open>strcmp\<close> ends with 0 exactly for equal strings, and \<^verbatim>\<open>strcpy\<close> to a place apart from the
  source stores the string there and changes nothing else; where the two places overlap, its behaviour is undefined.\<close>

theorem string_functions:
  assumes "cstr m p s" and "cstr m q t" and "length s < 4294967295"
  shows "strlen m p = Some (of_nat (length s)) \<and>
    (\<exists>r. strcmp m p q = Some r \<and> (r = 0 \<longleftrightarrow> s = t)) \<and>
    (if \<exists>j\<le>length s. \<exists>k\<le>length s. byte_at dest j = byte_at p k then strcpy dest p m = Inl Undefined
     else \<exists>m'. strcpy dest p m = Inr m' \<and> cstr m' dest s \<and> (\<forall>x. (\<forall>k\<le>length s. x \<noteq> byte_at dest k) \<longrightarrow> m' x = m x))"
proof -
  have len: "strlen m p = Some (of_nat (length s))" using strlen_loop_cstr [OF assms(1), of 0] by (simp add: strlen_def)
  have n: "Suc (unat (of_nat (length s) :: u32)) = Suc (length s)" using assms(3) by (simp add: unat_of_nat_u32)
  have ov: "overlap dest p (Suc (length s)) \<longleftrightarrow> (\<exists>j\<le>length s. \<exists>k\<le>length s. byte_at dest j = byte_at p k)"
    using overlap_iff [of "Suc (length s)" dest p] assms(3) by (simp add: less_Suc_eq_le)
  have "\<exists>m'. strcpy dest p m = Inr m' \<and> cstr m' dest s \<and> (\<forall>x. (\<forall>k\<le>length s. x \<noteq> byte_at dest k) \<longrightarrow> m' x = m x)"
    if no: "\<not> (\<exists>j\<le>length s. \<exists>k\<le>length s. byte_at dest j = byte_at p k)"
  proof -
    have "\<forall>j\<le>length s. \<forall>k<j. byte_at p j \<noteq> byte_at dest k" using no by (metis le_trans less_imp_le)
    with strcpy_loop_cstr [OF assms(1)] assms(3) show ?thesis using no ov n len by (fastforce simp: strcpy_def)
  qed
  moreover have "strcpy dest p m = Inl Undefined" if "overlap dest p (Suc (length s))" using that n len by (simp add: strcpy_def)
  ultimately show ?thesis using len strcmp_loop_cstr [OF assms(1,2)] ov by (simp add: strcmp_def)
qed

text \<open>\<^verbatim>\<open>strncat\<close> counts the bytes of the destination against its limit and writes no
  terminating zero: appending \<^verbatim>\<open>cd\<close> to \<^verbatim>\<open>ab\<close> with the limit 3 stores \<^verbatim>\<open>abc\<close> in
  front of whatever follows.\<close>

theorem strncat_limit:
  "\<exists>m. strncat 0 10 3 ((\<lambda>_. 120)(0 := 97, 1 := 98, 2 := 0, 10 := 99, 11 := 100, 12 := 0)) = Inr m \<and>
    map m [0, 1, 2, 3] = [97, 98, 99, 120]"
proof -
  have e: "find_end_n (unat (3 :: u32)) m 0 = (1, 2)" if "m 0 \<noteq> 0" "m 1 \<noteq> 0" "m 2 = 0" for m
  proof -
    have "unat (3 :: u32) = Suc (Suc (Suc 0))" by (simp add: numeral_3_eq_3 [symmetric])
    then show ?thesis using that by (simp only: find_end_n.simps) simp
  qed
  show ?thesis unfolding strncat_def by (subst e) (simp_all add: strncpy_bytes_def overlap_def)
qed

end
