(* ===== verification/Kern_Printf.thy ===== *)
theory Kern_Printf
  imports Terminal Kern_String
begin

text \<open>
  The formatted output of the kernel: \<open>libkern/printf.c\<close> and \<open>libkern/printinfo.c\<close>.

  The value of an unsigned C integer is a \<open>nat\<close> in the digit loops, whose operations
  (\<open>%\<close>, \<open>/\<close>, \<open>&\<close>, \<open>>>\<close>) cannot wrap. The buffer of 100 bytes is a list and a
  pointer into it an index; writing in front of it is \<open>Bad_Access\<close>, negating the least
  value of a signed type is \<open>Undefined\<close>. A format string is the list of its bytes without
  the terminating zero: reading at its length gives the zero, reading behind it is
  \<open>Bad_Access\<close>. The variable arguments are the 32-bit words of the i386 stack, a 64-bit
  argument being two of them, low word first; taking more than were passed is
  \<open>Undefined\<close>. The returned count is kept in 32 bits.

  The reference the loops are compared with parses the format into pieces and renders each
  with positional numerals.
\<close>

lemma rbind_cong [fundef_cong]:
  "m = m' \<Longrightarrow> (\<And>x. m' = Inr x \<Longrightarrow> f x = g x) \<Longrightarrow> rbind m f = rbind m' g"
  by (cases m') simp_all

section \<open>Bytes of characters\<close>

definition ch :: "char \<Rightarrow> u8" where
  "ch c = of_char c"

definition bytes :: "string \<Rightarrow> u8 list" where
  "bytes s = map ch s"

definition hexlow :: "u8 list" where
  "hexlow = bytes (''0123456789'' @ ''abcdef'')"

definition hexhig :: "u8 list" where
  "hexhig = bytes (''0123456789'' @ ''ABCDEF'')"

section \<open>The number routines\<close>

type_synonym cursor = "nat \<times> u8 list"

definition number_end :: "u8 list \<Rightarrow> cursor" where
  "number_end buffer = (98, buffer[98 := 0])"

definition put_back :: "u8 \<Rightarrow> cursor \<Rightarrow> cursor res" where
  "put_back c b = (if fst b = 0 then Inl Bad_Access else Inr (fst b - 1, (snd b)[fst b - 1 := c]))"

function dec_loop :: "nat \<Rightarrow> cursor \<Rightarrow> cursor res" where
  "dec_loop i b =
     rbind (put_back (ch CHR ''0'' + of_nat (i mod 10)) b) (\<lambda>b.
       let i = i div 10 in if i \<noteq> 0 then dec_loop i b else Inr b)"
  by pat_completeness auto

termination
  by (relation "measure fst") auto

function hex_loop :: "u8 list \<Rightarrow> nat \<Rightarrow> cursor \<Rightarrow> cursor res" where
  "hex_loop table i b =
     rbind (put_back (table ! (i AND 0xf)) b) (\<lambda>b.
       let i = drop_bit 4 i in if i \<noteq> 0 then hex_loop table i b else Inr b)"
  by pat_completeness auto

termination
  by (relation "measure (\<lambda>(_, i, _). i)") (auto simp: drop_bit_eq_div)

function oct_loop :: "nat \<Rightarrow> cursor \<Rightarrow> cursor res" where
  "oct_loop i b =
     rbind (put_back (ch CHR ''0'' + of_nat (i AND 0x7)) b) (\<lambda>b.
       let i = drop_bit 3 i in if i \<noteq> 0 then oct_loop i b else Inr b)"
  by pat_completeness auto

termination
  by (relation "measure fst") (auto simp: drop_bit_eq_div)

declare dec_loop.simps [simp del] hex_loop.simps [simp del] oct_loop.simps [simp del]

text \<open>The sign of a signed argument: its magnitude, and whether a minus sign goes in front.\<close>

definition negate :: "'a::len word \<Rightarrow> (bool \<times> nat) res" where
  "negate i =
     (if sint i < 0
      then (if sint i = - (2 ^ (LENGTH('a) - 1)) then Inl Undefined else Inr (True, nat (- sint i)))
      else Inr (False, nat (sint i)))"

definition signed_2a :: "'a::len word \<Rightarrow> u8 list \<Rightarrow> cursor res" where
  "signed_2a i buffer =
     rbind (negate i) (\<lambda>(pre, n).
     rbind (dec_loop n (number_end buffer)) (\<lambda>b.
       if pre then put_back (ch CHR ''-'') b else Inr b))"

definition i2a :: "u32 \<Rightarrow> u8 list \<Rightarrow> cursor res" where
  "i2a i buffer = signed_2a i buffer"

definition u2a :: "u32 \<Rightarrow> u8 list \<Rightarrow> cursor res" where
  "u2a i buffer = dec_loop (unat i) (number_end buffer)"

definition x2a :: "u32 \<Rightarrow> u8 list \<Rightarrow> cursor res" where
  "x2a i buffer = hex_loop hexlow (unat i) (number_end buffer)"

definition X2a :: "u32 \<Rightarrow> u8 list \<Rightarrow> cursor res" where
  "X2a i buffer = hex_loop hexhig (unat i) (number_end buffer)"

definition o2a :: "u32 \<Rightarrow> u8 list \<Rightarrow> cursor res" where
  "o2a i buffer = oct_loop (unat i) (number_end buffer)"

definition p2a :: "u32 \<Rightarrow> u8 list \<Rightarrow> cursor res" where
  "p2a ptr buffer =
     rbind (hex_loop hexlow (unat ptr) (number_end buffer)) (\<lambda>b.
     rbind (put_back (ch CHR ''x'') b) (\<lambda>b. put_back (ch CHR ''0'') b))"

definition li2a :: "u32 \<Rightarrow> u8 list \<Rightarrow> cursor res" where
  "li2a i buffer = signed_2a i buffer"

definition lu2a :: "u32 \<Rightarrow> u8 list \<Rightarrow> cursor res" where
  "lu2a i buffer = dec_loop (unat i) (number_end buffer)"

definition lx2a :: "u32 \<Rightarrow> u8 list \<Rightarrow> cursor res" where
  "lx2a i buffer = hex_loop hexlow (unat i) (number_end buffer)"

definition lX2a :: "u32 \<Rightarrow> u8 list \<Rightarrow> cursor res" where
  "lX2a i buffer = hex_loop hexhig (unat i) (number_end buffer)"

definition lo2a :: "u32 \<Rightarrow> u8 list \<Rightarrow> cursor res" where
  "lo2a i buffer = oct_loop (unat i) (number_end buffer)"

definition lli2a :: "u64 \<Rightarrow> u8 list \<Rightarrow> cursor res" where
  "lli2a i buffer = signed_2a i buffer"

definition llu2a :: "u64 \<Rightarrow> u8 list \<Rightarrow> cursor res" where
  "llu2a i buffer = dec_loop (unat i) (number_end buffer)"

definition llx2a :: "u64 \<Rightarrow> u8 list \<Rightarrow> cursor res" where
  "llx2a i buffer = hex_loop hexlow (unat i) (number_end buffer)"

definition llX2a :: "u64 \<Rightarrow> u8 list \<Rightarrow> cursor res" where
  "llX2a i buffer = hex_loop hexhig (unat i) (number_end buffer)"

definition llo2a :: "u64 \<Rightarrow> u8 list \<Rightarrow> cursor res" where
  "llo2a i buffer = oct_loop (unat i) (number_end buffer)"

definition zi2a :: "u32 \<Rightarrow> u8 list \<Rightarrow> cursor res" where
  "zi2a i buffer = signed_2a i buffer"

definition zu2a :: "u32 \<Rightarrow> u8 list \<Rightarrow> cursor res" where
  "zu2a i buffer = dec_loop (unat i) (number_end buffer)"

definition zx2a :: "u32 \<Rightarrow> u8 list \<Rightarrow> cursor res" where
  "zx2a i buffer = hex_loop hexlow (unat i) (number_end buffer)"

definition zX2a :: "u32 \<Rightarrow> u8 list \<Rightarrow> cursor res" where
  "zX2a i buffer = hex_loop hexhig (unat i) (number_end buffer)"

definition zo2a :: "u32 \<Rightarrow> u8 list \<Rightarrow> cursor res" where
  "zo2a i buffer = oct_loop (unat i) (number_end buffer)"

definition ti2a :: "u32 \<Rightarrow> u8 list \<Rightarrow> cursor res" where
  "ti2a i buffer = signed_2a i buffer"

definition tu2a :: "u32 \<Rightarrow> u8 list \<Rightarrow> cursor res" where
  "tu2a i buffer = dec_loop (unat i) (number_end buffer)"

definition tx2a :: "u32 \<Rightarrow> u8 list \<Rightarrow> cursor res" where
  "tx2a i buffer = hex_loop hexlow (unat i) (number_end buffer)"

definition tX2a :: "u32 \<Rightarrow> u8 list \<Rightarrow> cursor res" where
  "tX2a i buffer = hex_loop hexhig (unat i) (number_end buffer)"

definition to2a :: "u32 \<Rightarrow> u8 list \<Rightarrow> cursor res" where
  "to2a i buffer = oct_loop (unat i) (number_end buffer)"

section \<open>Formatted output\<close>

definition va_arg32 :: "u32 list \<Rightarrow> (u32 \<times> u32 list) res" where
  "va_arg32 ap = (case ap of [] \<Rightarrow> Inl Undefined | w # ap \<Rightarrow> Inr (w, ap))"

definition va_arg64 :: "u32 list \<Rightarrow> (u64 \<times> u32 list) res" where
  "va_arg64 ap =
     (case ap of lo # hi # ap \<Rightarrow> Inr (ucast lo OR push_bit 32 (ucast hi), ap) | _ \<Rightarrow> Inl Undefined)"

definition fmt_at :: "u8 list \<Rightarrow> nat \<Rightarrow> u8 res" where
  "fmt_at fmt k = (if k < length fmt then Inr (fmt ! k) else if k = length fmt then Inr 0 else Inl Bad_Access)"

text \<open>The string that starts at an index of a buffer.\<close>

definition string_at :: "nat \<Rightarrow> u8 list \<Rightarrow> u8 list res" where
  "string_at p nb =
     (let s = drop p nb in if 0 \<in> set s then Inr (takeWhile (\<lambda>c. c \<noteq> 0) s) else Inl Bad_Access)"

definition string_in_memory :: "memory \<Rightarrow> u32 \<Rightarrow> u8 list res" where
  "string_in_memory mem nb =
     (case strlen mem nb of None \<Rightarrow> Inl No_Return
      | Some n \<Rightarrow> Inr (map (\<lambda>k. mem (byte_at nb k)) [0..<unat n]))"

record 's vio =
  vio_count :: u32
  vio_ap :: "u32 list"
  vio_numbuf :: "u8 list"
  vio_dev :: 's

definition put_string :: "'s iopipe_ops \<Rightarrow> u8 list \<Rightarrow> 's vio \<Rightarrow> 's vio res" where
  "put_string ops str st =
     rbind (iopipe_write ops (vio_dev st) str) (\<lambda>(_, s).
       Inr (st\<lparr>vio_dev := s, vio_count := vio_count st + of_nat (length str)\<rparr>))"

definition put_number :: "'s iopipe_ops \<Rightarrow> (u8 list \<Rightarrow> cursor res) \<Rightarrow> 's vio \<Rightarrow> 's vio res" where
  "put_number ops conv st =
     rbind (conv (vio_numbuf st)) (\<lambda>(nb, numbuf).
     rbind (string_at nb numbuf) (\<lambda>str. put_string ops str (st\<lparr>vio_numbuf := numbuf\<rparr>)))"

definition put_arg32 :: "'s iopipe_ops \<Rightarrow> (u32 \<Rightarrow> u8 list \<Rightarrow> cursor res) \<Rightarrow> 's vio \<Rightarrow> 's vio res" where
  "put_arg32 ops conv st =
     rbind (va_arg32 (vio_ap st)) (\<lambda>(w, ap). put_number ops (conv w) (st\<lparr>vio_ap := ap\<rparr>))"

definition put_arg64 :: "'s iopipe_ops \<Rightarrow> (u64 \<Rightarrow> u8 list \<Rightarrow> cursor res) \<Rightarrow> 's vio \<Rightarrow> 's vio res" where
  "put_arg64 ops conv st =
     rbind (va_arg64 (vio_ap st)) (\<lambda>(w, ap). put_number ops (conv w) (st\<lparr>vio_ap := ap\<rparr>))"

text \<open>The text between the last directive and the current position; nothing is written when it is
  empty.\<close>

definition put_text :: "'s iopipe_ops \<Rightarrow> u8 list \<Rightarrow> nat \<Rightarrow> nat \<Rightarrow> 's vio \<Rightarrow> 's vio res" where
  "put_text ops fmt lst pos st =
     (if pos > lst then put_string ops (take (pos - lst) (drop lst fmt)) st else Inr st)"

definition vio_z :: "'s iopipe_ops \<Rightarrow> u8 \<Rightarrow> 's vio \<Rightarrow> 's vio res" where
  "vio_z ops c st =
     (if c = ch CHR ''d'' \<or> c = ch CHR ''i'' then put_arg32 ops zi2a st
      else if c = ch CHR ''u'' then put_arg32 ops zu2a st
      else if c = ch CHR ''x'' then put_arg32 ops zx2a st
      else if c = ch CHR ''X'' then put_arg32 ops zX2a st
      else if c = ch CHR ''o'' then put_arg32 ops zo2a st
      else Inr st)"

definition vio_t :: "'s iopipe_ops \<Rightarrow> u8 \<Rightarrow> 's vio \<Rightarrow> 's vio res" where
  "vio_t ops c st =
     (if c = ch CHR ''d'' \<or> c = ch CHR ''i'' then put_arg32 ops ti2a st
      else if c = ch CHR ''u'' then put_arg32 ops tu2a st
      else if c = ch CHR ''x'' then put_arg32 ops tx2a st
      else if c = ch CHR ''X'' then put_arg32 ops tX2a st
      else if c = ch CHR ''o'' then put_arg32 ops to2a st
      else Inr st)"

definition vio_ll :: "'s iopipe_ops \<Rightarrow> u8 \<Rightarrow> 's vio \<Rightarrow> 's vio res" where
  "vio_ll ops c st =
     (if c = ch CHR ''d'' \<or> c = ch CHR ''i'' then put_arg64 ops lli2a st
      else if c = ch CHR ''u'' then put_arg64 ops llu2a st
      else if c = ch CHR ''x'' then put_arg64 ops llx2a st
      else if c = ch CHR ''X'' then put_arg64 ops llX2a st
      else if c = ch CHR ''o'' then put_arg64 ops llo2a st
      else Inr st)"

definition vio_l :: "'s iopipe_ops \<Rightarrow> u8 \<Rightarrow> 's vio \<Rightarrow> 's vio res" where
  "vio_l ops c st =
     (if c = ch CHR ''d'' \<or> c = ch CHR ''i'' then put_arg32 ops li2a st
      else if c = ch CHR ''u'' then put_arg32 ops lu2a st
      else if c = ch CHR ''x'' then put_arg32 ops lx2a st
      else if c = ch CHR ''X'' then put_arg32 ops lX2a st
      else if c = ch CHR ''o'' then put_arg32 ops lo2a st
      else Inr st)"

definition put_char :: "'s iopipe_ops \<Rightarrow> 's vio \<Rightarrow> 's vio res" where
  "put_char ops st =
     rbind (va_arg32 (vio_ap st)) (\<lambda>(w, ap).
       let numbuf = (vio_numbuf st)[0 := ucast w]
       in put_string ops [numbuf ! 0] (st\<lparr>vio_ap := ap, vio_numbuf := numbuf\<rparr>))"

definition put_str :: "'s iopipe_ops \<Rightarrow> memory \<Rightarrow> 's vio \<Rightarrow> 's vio res" where
  "put_str ops mem st =
     rbind (va_arg32 (vio_ap st)) (\<lambda>(nb, ap).
     rbind (if nb = 0 then Inr (bytes ''(null)'') else string_in_memory mem nb) (\<lambda>str.
       put_string ops str (st\<lparr>vio_ap := ap\<rparr>)))"

definition vio_plain :: "'s iopipe_ops \<Rightarrow> memory \<Rightarrow> u8 \<Rightarrow> 's vio \<Rightarrow> 's vio res" where
  "vio_plain ops mem c st =
     (if c = ch CHR ''d'' \<or> c = ch CHR ''i'' then put_arg32 ops i2a st
      else if c = ch CHR ''u'' then put_arg32 ops u2a st
      else if c = ch CHR ''x'' then put_arg32 ops x2a st
      else if c = ch CHR ''X'' then put_arg32 ops X2a st
      else if c = ch CHR ''o'' then put_arg32 ops o2a st
      else if c = ch CHR ''p'' then put_arg32 ops p2a st
      else if c = ch CHR ''c'' then put_char ops st
      else if c = ch CHR ''s'' then put_str ops mem st
      else Inr st)"

text \<open>The second switch: it moves the format position over the length modifiers and hands back by
  how much.\<close>

definition vio_switch :: "'s iopipe_ops \<Rightarrow> memory \<Rightarrow> u8 list \<Rightarrow> nat \<Rightarrow> 's vio \<Rightarrow> (nat \<times> 's vio) res" where
  "vio_switch ops mem fmt pos st =
     rbind (fmt_at fmt pos) (\<lambda>c.
       if c = ch CHR ''z'' then
         rbind (fmt_at fmt (pos + 1)) (\<lambda>d. rbind (vio_z ops d st) (\<lambda>st. Inr (1, st)))
       else if c = ch CHR ''t'' then
         rbind (fmt_at fmt (pos + 1)) (\<lambda>d. rbind (vio_t ops d st) (\<lambda>st. Inr (1, st)))
       else if c = ch CHR ''l'' then
         rbind (fmt_at fmt (pos + 1)) (\<lambda>d.
           if d = ch CHR ''l'' then
             rbind (fmt_at fmt (pos + 2)) (\<lambda>e. rbind (vio_ll ops e st) (\<lambda>st. Inr (2, st)))
           else rbind (vio_l ops d st) (\<lambda>st. Inr (1, st)))
       else rbind (vio_plain ops mem c st) (\<lambda>st. Inr (0, st)))"

function vio_loop :: "'s iopipe_ops \<Rightarrow> memory \<Rightarrow> u8 list \<Rightarrow> nat \<Rightarrow> nat \<Rightarrow> 's vio \<Rightarrow> 's vio res" where
  "vio_loop ops mem fmt pos lst st =
     rbind (fmt_at fmt pos) (\<lambda>c.
       if c = 0 then put_text ops fmt lst pos st
       else if c \<noteq> ch CHR ''%'' then vio_loop ops mem fmt (pos + 1) lst st
       else rbind (fmt_at fmt (pos + 1)) (\<lambda>d.
         rbind (if d = ch CHR ''%'' then put_text ops fmt lst (pos + 1) st else put_text ops fmt lst pos st) (\<lambda>st.
         rbind (vio_switch ops mem fmt (pos + 1) st) (\<lambda>(n, st).
           vio_loop ops mem fmt (pos + 1 + n + 1) (pos + 1 + n + 1) st))))"
  by pat_completeness auto

termination
  by (relation "measure (\<lambda>(ops, mem, fmt, pos, _). Suc (length fmt) - pos)") (auto simp: fmt_at_def split: if_splits)

declare vio_loop.simps [simp del]

text \<open>The local buffer of 100 bytes is not initialised: its contents are a parameter.\<close>

definition iopipe_vioprintf ::
    "'s iopipe_ops \<Rightarrow> 's \<Rightarrow> memory \<Rightarrow> u8 list \<Rightarrow> u8 list \<Rightarrow> u32 list \<Rightarrow> (u32 \<times> 's) res" where
  "iopipe_vioprintf ops s mem numbuf fmt ap =
     rbind (vio_loop ops mem fmt 0 0 \<lparr>vio_count = 0, vio_ap = ap, vio_numbuf = numbuf, vio_dev = s\<rparr>) (\<lambda>st.
       Inr (vio_count st, vio_dev st))"

definition iopipe_printf ::
    "'s iopipe_ops \<Rightarrow> 's \<Rightarrow> memory \<Rightarrow> u8 list \<Rightarrow> u8 list \<Rightarrow> u32 list \<Rightarrow> (u32 \<times> 's) res" where
  "iopipe_printf ops s mem numbuf fmt args = iopipe_vioprintf ops s mem numbuf fmt args"

definition printf :: "kterm \<Rightarrow> memory \<Rightarrow> u8 list \<Rightarrow> u8 list \<Rightarrow> u32 list \<Rightarrow> (u32 \<times> kterm) res" where
  "printf kt mem numbuf fmt args =
     rbind (iopipe_vioprintf (pipe_ops (kterm_instance kt)) (kterm_device kt) mem numbuf fmt args) (\<lambda>(ret, dev).
       Inr (ret, kt\<lparr>kterm_device := dev\<rparr>))"

section \<open>Numerals\<close>

text \<open>The digits of a number in a base, most significant first.\<close>

function base_digits :: "nat \<Rightarrow> nat \<Rightarrow> nat list" where
  "base_digits b n = (if b < 2 \<or> n < b then [n] else base_digits b (n div b) @ [n mod b])"
  by pat_completeness auto

termination
  by (relation "measure snd") auto

declare base_digits.simps [simp del]

lemma base_digits_value: "2 \<le> b \<Longrightarrow> foldl (\<lambda>a d. b * a + d) 0 (base_digits b n) = n"
  by (induction b n rule: base_digits.induct) (subst base_digits.simps, simp)

lemma base_digits_less: "2 \<le> b \<Longrightarrow> d \<in> set (base_digits b n) \<Longrightarrow> d < b"
proof (induction b n rule: base_digits.induct)
  case (1 b n)
  then show ?case by (subst (asm) base_digits.simps) (auto split: if_splits)
qed

lemma length_base_digits: "2 \<le> b \<Longrightarrow> n < b ^ Suc k \<Longrightarrow> length (base_digits b n) \<le> Suc k"
proof (induction k arbitrary: n)
  case 0
  then show ?case by (simp add: base_digits.simps [of b n])
next
  case (Suc k)
  have "n div b < b ^ Suc k" using Suc.prems by (simp add: less_mult_imp_div_less mult.commute)
  then show ?case using Suc.IH Suc.prems(1) by (subst base_digits.simps) auto
qed

lemma put_back_placed:
  assumes "0 < p" and "p \<le> length nb"
  shows "put_back c (p, nb) = Inr (p - 1, take (p - 1) nb @ [c] @ drop p nb)"
  using assms by (simp add: put_back_def upd_conv_take_nth_drop)

lemma digit_loop_places:
  assumes rec: "\<And>i b. f i b = rbind (put_back (tbl (i mod k)) b) (\<lambda>b. if i div k \<noteq> 0 then f (i div k) b else Inr b)"
    and k: "2 \<le> k" and "length (base_digits k n) \<le> p" and "p \<le> length nb"
  shows "f n (p, nb) = Inr (p - length (base_digits k n),
    take (p - length (base_digits k n)) nb @ map tbl (base_digits k n) @ drop p nb)"
  using assms(3,4)
proof (induction n arbitrary: p nb rule: less_induct)
  case (less n)
  show ?case
  proof (cases "n < k")
    case True
    then have d: "base_digits k n = [n]" by (simp add: base_digits.simps)
    then show ?thesis using less.prems True by (subst rec) (simp add: put_back_placed)
  next
    case False
    let ?ds = "base_digits k (n div k)" and ?c = "tbl (n mod k)"
    let ?nb = "take (p - 1) nb @ [?c] @ drop p nb"
    have d: "base_digits k n = ?ds @ [n mod k]" using False k by (simp add: base_digits.simps [of k n])
    have len: "length ?ds \<le> p - 1" "0 < p" using less.prems d by simp_all
    have q: "n div k < n" "n div k \<noteq> 0" using False k by (auto simp: div_eq_0_iff)
    have "f n (p, nb) = f (n div k) (p - 1, ?nb)"
      using len less.prems(2) q(2) by (subst rec) (simp add: put_back_placed)
    also have "\<dots> = Inr (p - 1 - length ?ds, take (p - 1 - length ?ds) ?nb @ map tbl ?ds @ drop (p - 1) ?nb)"
      using len less.prems(2) by (intro less.IH [OF q(1)]) simp_all
    finally show ?thesis using d len less.prems(2) by (simp add: take_append)
  qed
qed

definition dec_digit :: "nat \<Rightarrow> u8" where
  "dec_digit d = ch CHR ''0'' + of_nat d"

definition numeral_text :: "nat \<Rightarrow> (nat \<Rightarrow> u8) \<Rightarrow> nat \<Rightarrow> u8 list" where
  "numeral_text b digit n = map digit (base_digits b n)"

lemma nat_and_15: "(i :: nat) AND 0xf = i mod 16" and nat_and_7: "(i :: nat) AND 0x7 = i mod 8"
proof -
  have "(15 :: nat) = mask 4" "(7 :: nat) = mask 3" by (simp_all add: mask_eq_exp_minus_1)
  then show "i AND 0xf = i mod 16" "i AND 0x7 = i mod 8"
    by (simp_all only: take_bit_eq_mask [symmetric] take_bit_eq_mod) simp_all
qed

lemma dec_loop_places:
  assumes "length (base_digits 10 n) \<le> p" and "p \<le> length nb"
  shows "dec_loop n (p, nb) = Inr (p - length (base_digits 10 n),
    take (p - length (base_digits 10 n)) nb @ numeral_text 10 dec_digit n @ drop p nb)"
  unfolding numeral_text_def
  by (rule digit_loop_places [OF _ _ assms])
    (subst dec_loop.simps, simp_all add: dec_digit_def Let_def)

lemma hex_loop_places:
  assumes "length (base_digits 16 n) \<le> p" and "p \<le> length nb"
  shows "hex_loop table n (p, nb) = Inr (p - length (base_digits 16 n),
    take (p - length (base_digits 16 n)) nb @ numeral_text 16 (\<lambda>d. table ! d) n @ drop p nb)"
  unfolding numeral_text_def
  by (rule digit_loop_places [OF _ _ assms])
    (subst hex_loop.simps, simp_all add: nat_and_15 drop_bit_eq_div Let_def)

lemma oct_loop_places:
  assumes "length (base_digits 8 n) \<le> p" and "p \<le> length nb"
  shows "oct_loop n (p, nb) = Inr (p - length (base_digits 8 n),
    take (p - length (base_digits 8 n)) nb @ numeral_text 8 dec_digit n @ drop p nb)"
  unfolding numeral_text_def
  by (rule digit_loop_places [OF _ _ assms])
    (subst oct_loop.simps, simp_all add: dec_digit_def nat_and_7 drop_bit_eq_div Let_def)

section \<open>What a number routine promises\<close>

text \<open>Called on the buffer of 100 bytes, the routine hands back a pointer to the string, which takes
  at most \<open>n\<close> bytes in front of the terminating zero at 98.\<close>

definition renders :: "(u8 list \<Rightarrow> cursor res) \<Rightarrow> u8 list \<Rightarrow> bool" where
  "renders conv str \<longleftrightarrow> 0 \<notin> set str \<and> length str \<le> 98 \<and>
     (\<forall>nb. length nb = 100 \<longrightarrow>
        conv nb = Inr (98 - length str, take (98 - length str) nb @ str @ 0 # drop 99 nb))"

lemma number_end_drop: "length nb = 100 \<Longrightarrow> drop 98 (nb[98 := 0]) = 0 # drop 99 nb"
  by (subst Cons_nth_drop_Suc [symmetric]) simp_all

lemma renders_string:
  assumes "renders conv str" and "length nb = 100"
  obtains p nb' where "conv nb = Inr (p, nb')" "length nb' = 100" "string_at p nb' = Inr str"
proof -
  let ?p = "98 - length str" and ?nb = "take (98 - length str) nb @ str @ 0 # drop 99 nb"
  have "string_at ?p ?nb = Inr str"
    using assms by (simp add: renders_def string_at_def Let_def) (subst takeWhile_append2, auto)
  then show thesis using assms by (intro that [of ?p ?nb]) (simp_all add: renders_def)
qed

lemma renders_place:
  assumes "renders conv str" and "length nb = 100"
  shows "\<exists>nb'. conv nb = Inr (98 - length str, nb') \<and> string_at (98 - length str) nb' = Inr str"
  using renders_string [OF assms] assms by (fastforce simp: renders_def)

lemma renders_number:
  assumes nb: "\<And>nb. length nb = 100 \<Longrightarrow>
      conv nb = Inr (98 - length str, take (98 - length str) (nb[98 := 0]) @ str @ drop 98 (nb[98 := 0]))"
    and "0 \<notin> set str" and "length str \<le> 98"
  shows "renders conv str"
  unfolding renders_def using assms by (simp add: number_end_drop)

lemma dec_digit_nonzero: "d < 10 \<Longrightarrow> dec_digit d \<noteq> 0"
proof -
  assume "d < 10"
  then have "unat (dec_digit d) = 48 + d" by (simp add: dec_digit_def ch_def unat_word_ariths unat_of_nat)
  then show ?thesis by auto
qed

lemma numeral_text_nonzero:
  assumes "2 \<le> b" and "\<And>d. d < b \<Longrightarrow> digit d \<noteq> 0"
  shows "0 \<notin> set (numeral_text b digit n)"
  using assms base_digits_less [OF assms(1)] by (force simp: numeral_text_def)

lemma length_numeral_text [simp]: "length (numeral_text b digit n) = length (base_digits b n)"
  by (simp add: numeral_text_def)

lemma dec_text_nonzero: "0 \<notin> set (numeral_text 10 dec_digit n)" "0 \<notin> set (numeral_text 8 dec_digit n)"
  using numeral_text_nonzero [of 10 dec_digit n] numeral_text_nonzero [of 8 dec_digit n] dec_digit_nonzero by simp_all

lemma hex_tables_nonzero: "d < 16 \<Longrightarrow> hexlow ! d \<noteq> 0" "d < 16 \<Longrightarrow> hexhig ! d \<noteq> 0"
proof -
  have "\<forall>c\<in>set hexlow. c \<noteq> 0" "\<forall>c\<in>set hexhig. c \<noteq> 0" "length hexlow = 16" "length hexhig = 16"
    by (simp_all add: hexlow_def hexhig_def bytes_def ch_def)
  then show "d < 16 \<Longrightarrow> hexlow ! d \<noteq> 0" "d < 16 \<Longrightarrow> hexhig ! d \<noteq> 0"
    using nth_mem by metis+
qed

lemma u64_digits:
  assumes "n < 18446744073709551616"
  shows "length (base_digits 10 n) \<le> 20" "length (base_digits 16 n) \<le> 16" "length (base_digits 8 n) \<le> 22"
  using length_base_digits [of 10 n 19] length_base_digits [of 16 n 15] length_base_digits [of 8 n 21] assms by simp_all

lemma unat_lt_u64: "unat (w :: u64) < 18446744073709551616" "unat (v :: u32) < 18446744073709551616"
  using unsigned_less [of w] unat_u32_lt [of v] by simp_all

lemma renders_dec:
  assumes "n < 18446744073709551616"
  shows "renders (\<lambda>nb. dec_loop n (number_end nb)) (numeral_text 10 dec_digit n)"
  using u64_digits [OF assms] dec_text_nonzero(1)
  by (intro renders_number) (simp_all add: number_end_def dec_loop_places)

lemma renders_hex:
  assumes "n < 18446744073709551616" and "table = hexlow \<or> table = hexhig"
  shows "renders (\<lambda>nb. hex_loop table n (number_end nb)) (numeral_text 16 ((!) table) n)"
  using u64_digits [OF assms(1)] assms(2) hex_tables_nonzero
  by (intro renders_number numeral_text_nonzero) (auto simp: number_end_def hex_loop_places)

lemma renders_oct:
  assumes "n < 18446744073709551616"
  shows "renders (\<lambda>nb. oct_loop n (number_end nb)) (numeral_text 8 dec_digit n)"
  using u64_digits [OF assms] dec_text_nonzero(2)
  by (intro renders_number) (simp_all add: number_end_def oct_loop_places)

text \<open>Writing one more byte in front.\<close>

lemma renders_put_back:
  assumes "renders conv str" and "c \<noteq> 0" and "length str < 98"
  shows "renders (\<lambda>nb. rbind (conv nb) (put_back c)) (c # str)"
proof -
  have "rbind (conv nb) (put_back c) = Inr (98 - length (c # str), take (98 - length (c # str)) nb @ (c # str) @ 0 # drop 99 nb)"
    if nb: "length nb = 100" for nb
  proof -
    let ?p = "98 - length str"
    have "rbind (conv nb) (put_back c) = put_back c (?p, take ?p nb @ str @ 0 # drop 99 nb)"
      using assms(1) nb by (simp add: renders_def)
    also have "\<dots> = Inr (?p - 1, take (?p - 1) nb @ [c] @ str @ 0 # drop 99 nb)"
      using assms(3) nb by (subst put_back_placed) (simp_all add: take_append)
    finally show ?thesis by simp
  qed
  then show ?thesis using assms by (simp add: renders_def)
qed

section \<open>The reference rendering\<close>

datatype numeral_form = Dec_Signed | Dec_Unsigned | Hex_Low | Hex_High | Octal

text \<open>\<open>Num wide form\<close> takes a 64-bit argument when \<open>wide\<close>, a 32-bit one otherwise.\<close>

datatype piece = Lit u8 | Num bool numeral_form | Pointer | Character | Text | Skip

definition num_piece :: "bool \<Rightarrow> u8 \<Rightarrow> piece" where
  "num_piece wide c =
     (if c = ch CHR ''d'' \<or> c = ch CHR ''i'' then Num wide Dec_Signed
      else if c = ch CHR ''u'' then Num wide Dec_Unsigned
      else if c = ch CHR ''x'' then Num wide Hex_Low
      else if c = ch CHR ''X'' then Num wide Hex_High
      else if c = ch CHR ''o'' then Num wide Octal else Skip)"

definition plain_piece :: "u8 \<Rightarrow> piece" where
  "plain_piece c =
     (if c = ch CHR ''%'' then Lit c else if c = ch CHR ''p'' then Pointer
      else if c = ch CHR ''c'' then Character else if c = ch CHR ''s'' then Text else num_piece False c)"

text \<open>The directive that starts behind a percent sign, and its length; none when the format ends
  inside it.\<close>

definition directive :: "u8 list \<Rightarrow> (piece \<times> nat) option" where
  "directive r =
     (case r of [] \<Rightarrow> None
      | c # r1 \<Rightarrow>
          if c \<in> {ch CHR ''z'', ch CHR ''t'', ch CHR ''l''} then
            (case r1 of [] \<Rightarrow> None
             | d # r2 \<Rightarrow>
                 if c = ch CHR ''l'' \<and> d = ch CHR ''l'' then
                   (case r2 of [] \<Rightarrow> None | e # _ \<Rightarrow> Some (num_piece True e, 3))
                 else Some (num_piece False d, 2))
          else Some (plain_piece c, 1))"

function parse_format :: "u8 list \<Rightarrow> piece list option" where
  "parse_format [] = Some []"
| "parse_format (c # r) =
     (if c \<noteq> ch CHR ''%'' then map_option (Cons (Lit c)) (parse_format r)
      else (case directive r of None \<Rightarrow> None
            | Some (p, n) \<Rightarrow> map_option (Cons p) (parse_format (drop n r))))"
  by pat_completeness auto

termination
  by (relation "measure length") auto

definition signed_text :: "'a::len word \<Rightarrow> u8 list option" where
  "signed_text w =
     (if sint w = - (2 ^ (LENGTH('a) - 1)) then None
      else Some ((if sint w < 0 then [ch CHR ''-''] else []) @ numeral_text 10 dec_digit (nat \<bar>sint w\<bar>)))"

definition word_text :: "numeral_form \<Rightarrow> 'a::len word \<Rightarrow> u8 list option" where
  "word_text form w =
     (case form of
        Dec_Signed \<Rightarrow> signed_text w
      | Dec_Unsigned \<Rightarrow> Some (numeral_text 10 dec_digit (unat w))
      | Hex_Low \<Rightarrow> Some (numeral_text 16 ((!) hexlow) (unat w))
      | Hex_High \<Rightarrow> Some (numeral_text 16 ((!) hexhig) (unat w))
      | Octal \<Rightarrow> Some (numeral_text 8 dec_digit (unat w)))"

text \<open>The bytes of one piece and the arguments that are left; nothing when an argument is missing,
  is the least value of its signed type, or points to no string.\<close>

definition render_piece :: "memory \<Rightarrow> piece \<Rightarrow> u32 list \<Rightarrow> (u8 list \<times> u32 list) option" where
  "render_piece mem p ap =
     (case p of
        Lit c \<Rightarrow> Some ([c], ap)
      | Skip \<Rightarrow> Some ([], ap)
      | Num True form \<Rightarrow>
          (case ap of lo # hi # ap \<Rightarrow> map_option (\<lambda>s. (s, ap)) (word_text form (ucast lo OR push_bit 32 (ucast hi) :: u64))
           | _ \<Rightarrow> None)
      | _ \<Rightarrow>
          (case ap of [] \<Rightarrow> None
           | w # ap \<Rightarrow>
               map_option (\<lambda>s. (s, ap))
                 (case p of
                    Num _ form \<Rightarrow> word_text form w
                  | Pointer \<Rightarrow> Some (bytes ''0x'' @ numeral_text 16 ((!) hexlow) (unat w))
                  | Character \<Rightarrow> Some [ucast w]
                  | _ \<Rightarrow> (if w = 0 then Some (bytes ''(null)'')
                          else case string_in_memory mem w of Inl _ \<Rightarrow> None | Inr s \<Rightarrow> Some s))))"

primrec render_pieces :: "memory \<Rightarrow> piece list \<Rightarrow> u32 list \<Rightarrow> u8 list option" where
  "render_pieces mem [] ap = Some []"
| "render_pieces mem (p # ps) ap =
     (case render_piece mem p ap of None \<Rightarrow> None
      | Some (s, ap) \<Rightarrow> map_option (\<lambda>r. s @ r) (render_pieces mem ps ap))"

text \<open>The bytes a format and its arguments stand for.\<close>

definition formatted :: "memory \<Rightarrow> u8 list \<Rightarrow> u32 list \<Rightarrow> u8 list option" where
  "formatted mem fmt ap = (case parse_format fmt of None \<Rightarrow> None | Some ps \<Rightarrow> render_pieces mem ps ap)"

section \<open>The routines render\<close>

lemma nat_abs_sint_lt: "nat \<bar>sint (w :: 'a::len word)\<bar> \<le> 2 ^ (LENGTH('a) - 1)"
proof -
  have "\<bar>sint w\<bar> \<le> 2 ^ (LENGTH('a) - 1)" using sint_ge [of w] sint_lt [of w] by linarith
  then show ?thesis using nat_mono by fastforce
qed

lemma renders_signed:
  assumes "LENGTH('a) \<le> 64" and "signed_text w = Some s"
  shows "renders (signed_2a (w :: 'a::len word)) s"
proof -
  have "(2 :: nat) ^ (LENGTH('a) - 1) \<le> 2 ^ 63" using assms(1) by (intro power_increasing) auto
  with nat_abs_sint_lt [of w] have "nat \<bar>sint w\<bar> \<le> 2 ^ 63" by (rule order_trans)
  then have lt: "nat \<bar>sint w\<bar> < 18446744073709551616" by (rule le_less_trans) simp
  have ne: "sint w \<noteq> - (2 ^ (LENGTH('a) - 1))" using assms(2) by (auto simp: signed_text_def)
  note dec = renders_dec [OF lt]
  show ?thesis
  proof (cases "sint w < 0")
    case True
    then have s: "s = ch CHR ''-'' # numeral_text 10 dec_digit (nat \<bar>sint w\<bar>)"
      using assms(2) by (auto simp: signed_text_def split: if_splits)
    have "signed_2a w = (\<lambda>nb. rbind (dec_loop (nat \<bar>sint w\<bar>) (number_end nb)) (put_back (ch CHR ''-'')))"
      using True ne by (auto simp: signed_2a_def negate_def)
    then show ?thesis unfolding s using dec u64_digits(1) [OF lt]
      by (simp only:) (rule renders_put_back, auto simp: ch_def)
  next
    case False
    then have s: "s = numeral_text 10 dec_digit (nat \<bar>sint w\<bar>)"
      using assms(2) by (auto simp: signed_text_def split: if_splits)
    have "rbind m Inr = m" for m :: "cursor res" by (cases m) simp_all
    then have "signed_2a w = (\<lambda>nb. dec_loop (nat \<bar>sint w\<bar>) (number_end nb))"
      using False by (auto simp: signed_2a_def negate_def)
    then show ?thesis unfolding s using dec by simp
  qed
qed

lemma renders_p2a: "renders (p2a w) (bytes ''0x'' @ numeral_text 16 ((!) hexlow) (unat w))"
proof -
  note lt = unat_lt_u64(2) [of w]
  have h: "renders (\<lambda>nb. hex_loop hexlow (unat w) (number_end nb)) (numeral_text 16 ((!) hexlow) (unat w))"
    using renders_hex [OF lt] by blast
  have "renders (\<lambda>nb. rbind (hex_loop hexlow (unat w) (number_end nb)) (put_back (ch CHR ''x'')))
      (ch CHR ''x'' # numeral_text 16 ((!) hexlow) (unat w))"
    using u64_digits(2) [OF lt] by (intro renders_put_back h) (auto simp: ch_def)
  then have "renders (\<lambda>nb. rbind (rbind (hex_loop hexlow (unat w) (number_end nb)) (put_back (ch CHR ''x''))) (put_back (ch CHR ''0'')))
      (ch CHR ''0'' # ch CHR ''x'' # numeral_text 16 ((!) hexlow) (unat w))"
    by (rule renders_put_back) (use u64_digits(2) [OF lt] in \<open>auto simp: ch_def\<close>)
  then show ?thesis by (simp add: p2a_def [abs_def] rbind_assoc bytes_def)
qed

lemma routines32:
  "zi2a = signed_2a" "li2a = signed_2a" "ti2a = signed_2a" "i2a = signed_2a"
  "zu2a = u2a" "lu2a = u2a" "tu2a = u2a" "zx2a = x2a" "lx2a = x2a" "tx2a = x2a"
  "zX2a = X2a" "lX2a = X2a" "tX2a = X2a" "zo2a = o2a" "lo2a = o2a" "to2a = o2a"
  by (simp_all add: fun_eq_iff zi2a_def li2a_def ti2a_def i2a_def zu2a_def lu2a_def tu2a_def u2a_def zx2a_def lx2a_def tx2a_def x2a_def
      zX2a_def lX2a_def tX2a_def X2a_def zo2a_def lo2a_def to2a_def o2a_def)

text \<open>The routine of a numeral form, for 32-bit and for 64-bit arguments.\<close>

definition routine32 :: "numeral_form \<Rightarrow> u32 \<Rightarrow> u8 list \<Rightarrow> cursor res" where
  "routine32 form = (case form of Dec_Signed \<Rightarrow> i2a | Dec_Unsigned \<Rightarrow> u2a | Hex_Low \<Rightarrow> x2a | Hex_High \<Rightarrow> X2a | Octal \<Rightarrow> o2a)"

definition routine64 :: "numeral_form \<Rightarrow> u64 \<Rightarrow> u8 list \<Rightarrow> cursor res" where
  "routine64 form = (case form of Dec_Signed \<Rightarrow> lli2a | Dec_Unsigned \<Rightarrow> llu2a | Hex_Low \<Rightarrow> llx2a | Hex_High \<Rightarrow> llX2a | Octal \<Rightarrow> llo2a)"

lemma renders_routine32: "word_text form (w :: u32) = Some s \<Longrightarrow> renders (routine32 form w) s"
  using renders_signed [of w s] renders_dec [OF unat_lt_u64(2) [of w]] renders_hex [OF unat_lt_u64(2) [of w]]
    renders_oct [OF unat_lt_u64(2) [of w]]
  by (auto simp: word_text_def routine32_def i2a_def [abs_def] u2a_def [abs_def] x2a_def [abs_def] X2a_def [abs_def]
      o2a_def [abs_def] split: numeral_form.splits)

lemma renders_routine64: "word_text form (w :: u64) = Some s \<Longrightarrow> renders (routine64 form w) s"
  using renders_signed [of w s] renders_dec [OF unat_lt_u64(1) [of w]] renders_hex [OF unat_lt_u64(1) [of w]]
    renders_oct [OF unat_lt_u64(1) [of w]]
  by (auto simp: word_text_def routine64_def lli2a_def [abs_def] llu2a_def [abs_def] llx2a_def [abs_def] llX2a_def [abs_def]
      llo2a_def [abs_def] split: numeral_form.splits)

section \<open>The switches\<close>

lemma vio_num_cases:
  "vio_z ops c st = (case num_piece False c of Num _ form \<Rightarrow> put_arg32 ops (routine32 form) st | _ \<Rightarrow> Inr st)"
  "vio_t ops c st = (case num_piece False c of Num _ form \<Rightarrow> put_arg32 ops (routine32 form) st | _ \<Rightarrow> Inr st)"
  "vio_l ops c st = (case num_piece False c of Num _ form \<Rightarrow> put_arg32 ops (routine32 form) st | _ \<Rightarrow> Inr st)"
  "vio_ll ops c st = (case num_piece True c of Num _ form \<Rightarrow> put_arg64 ops (routine64 form) st | _ \<Rightarrow> Inr st)"
  by (simp_all add: vio_z_def vio_t_def vio_l_def vio_ll_def num_piece_def routine32_def routine64_def routines32)

lemma vio_plain_cases:
  "vio_plain ops mem c st =
     (case plain_piece c of
        Num _ form \<Rightarrow> put_arg32 ops (routine32 form) st
      | Pointer \<Rightarrow> put_arg32 ops p2a st | Character \<Rightarrow> put_char ops st | Text \<Rightarrow> put_str ops mem st | _ \<Rightarrow> Inr st)"
  by (simp add: vio_plain_def plain_piece_def num_piece_def routine32_def ch_def)

lemma num_piece_cases: "(\<exists>form. num_piece wide c = Num wide form) \<or> num_piece wide c = Skip"
  by (simp add: num_piece_def)

lemma fmt_at_drop: "drop pos fmt = xs \<Longrightarrow> k < length xs \<Longrightarrow> fmt_at fmt (pos + k) = Inr (xs ! k)"
  by (auto simp: fmt_at_def)

lemma fmt_at_end: "pos = length fmt \<Longrightarrow> fmt_at fmt pos = Inr 0"
  by (simp add: fmt_at_def)

lemma pending_snoc:
  assumes "lst \<le> pos" and "pos < length xs"
  shows "take (Suc pos - lst) (drop lst xs) = take (pos - lst) (drop lst xs) @ [xs ! pos]"
  using assms by (simp add: Suc_diff_le take_Suc_conv_app_nth)

context byte_sink
begin

text \<open>\<open>sent st out st'\<close>: from \<open>st\<close> to \<open>st'\<close> the bytes \<open>out\<close> have been written and counted.\<close>

definition sent :: "'s vio \<Rightarrow> u8 list \<Rightarrow> 's vio \<Rightarrow> bool" where
  "sent st out st' \<longleftrightarrow> ready (vio_dev st') \<and> length (vio_numbuf st') = 100 \<and>
     view (vio_dev st') = fold emit out (view (vio_dev st)) \<and> vio_count st' = vio_count st + of_nat (length out)"

definition vio_ok :: "'s vio \<Rightarrow> bool" where
  "vio_ok st \<longleftrightarrow> ready (vio_dev st) \<and> length (vio_numbuf st) = 100"

lemma sent_vio_ok: "sent st out st' \<Longrightarrow> vio_ok st'"
  by (simp add: sent_def vio_ok_def)

lemma sent_refl: "vio_ok st \<Longrightarrow> sent st [] st"
  by (simp add: sent_def vio_ok_def)

lemma sent_trans: "sent a out b \<Longrightarrow> sent b out' c \<Longrightarrow> sent a (out @ out') c"
  by (simp add: sent_def)

lemma put_string_ok:
  assumes "vio_ok st" and "length str < 4294967296"
  obtains st' where "put_string ops str st = Inr st'" "sent st str st'" "vio_ap st' = vio_ap st"
proof -
  obtain s' where s': "iopipe_write ops (vio_dev st) str = Inr (of_nat (length str), s')" "ready s'"
    "view s' = fold emit str (view (vio_dev st))" using iopipe_write_ok assms by (auto simp: vio_ok_def)
  show thesis
    using s' assms(1) by (intro that [of "st\<lparr>vio_dev := s', vio_count := vio_count st + of_nat (length str)\<rparr>"])
      (simp_all add: put_string_def sent_def vio_ok_def)
qed

lemma put_number_ok:
  assumes "vio_ok st" and "renders conv str"
  obtains st' where "put_number ops conv st = Inr st'" "sent st str st'" "vio_ap st' = vio_ap st"
proof -
  obtain p nb' where nb: "conv (vio_numbuf st) = Inr (p, nb')" "length nb' = 100" "string_at p nb' = Inr str"
    using renders_string [OF assms(2)] assms(1) unfolding vio_ok_def by blast
  have "vio_ok (st\<lparr>vio_numbuf := nb'\<rparr>)" using nb(2) assms(1) by (simp add: vio_ok_def)
  moreover have "length str < 4294967296" using assms(2) by (simp add: renders_def)
  ultimately obtain st' where "put_string ops str (st\<lparr>vio_numbuf := nb'\<rparr>) = Inr st'" "sent (st\<lparr>vio_numbuf := nb'\<rparr>) str st'"
    "vio_ap st' = vio_ap (st\<lparr>vio_numbuf := nb'\<rparr>)" by (rule put_string_ok)
  then show thesis using nb by (intro that [of st']) (simp_all add: put_number_def sent_def)
qed

lemma put_arg32_ok:
  assumes "vio_ok st" and "vio_ap st = w # ap" and "renders (conv w) str"
  shows "\<exists>st'. put_arg32 ops conv st = Inr st' \<and> sent st str st' \<and> vio_ap st' = ap"
proof -
  have "vio_ok (st\<lparr>vio_ap := ap\<rparr>)" using assms(1) by (simp add: vio_ok_def)
  then obtain st' where "put_number ops (conv w) (st\<lparr>vio_ap := ap\<rparr>) = Inr st'" "sent (st\<lparr>vio_ap := ap\<rparr>) str st'"
    "vio_ap st' = vio_ap (st\<lparr>vio_ap := ap\<rparr>)" using assms(3) by (rule put_number_ok)
  then show ?thesis using assms(2) by (simp add: put_arg32_def va_arg32_def sent_def)
qed

lemma put_arg64_ok:
  assumes "vio_ok st" and "vio_ap st = lo # hi # ap" and "renders (conv (ucast lo OR push_bit 32 (ucast hi))) str"
  shows "\<exists>st'. put_arg64 ops conv st = Inr st' \<and> sent st str st' \<and> vio_ap st' = ap"
proof -
  have "vio_ok (st\<lparr>vio_ap := ap\<rparr>)" using assms(1) by (simp add: vio_ok_def)
  then obtain st' where "put_number ops (conv (ucast lo OR push_bit 32 (ucast hi))) (st\<lparr>vio_ap := ap\<rparr>) = Inr st'"
    "sent (st\<lparr>vio_ap := ap\<rparr>) str st'" "vio_ap st' = vio_ap (st\<lparr>vio_ap := ap\<rparr>)" using assms(3) by (rule put_number_ok)
  then show ?thesis using assms(2) by (simp add: put_arg64_def va_arg64_def sent_def)
qed

lemma put_char_ok:
  assumes "vio_ok st" and "vio_ap st = w # ap"
  shows "\<exists>st'. put_char ops st = Inr st' \<and> sent st [ucast w] st' \<and> vio_ap st' = ap"
proof -
  let ?st = "st\<lparr>vio_ap := ap, vio_numbuf := (vio_numbuf st)[0 := ucast w]\<rparr>"
  have "vio_ok ?st" "length [ucast w :: u8] < 4294967296" using assms(1) by (simp_all add: vio_ok_def)
  then obtain st' where "put_string ops [ucast w] ?st = Inr st'" "sent ?st [ucast w] st'" "vio_ap st' = vio_ap ?st"
    by (rule put_string_ok)
  moreover have "(vio_numbuf st)[0 := ucast w] ! 0 = ucast w" using assms(1) by (simp add: vio_ok_def)
  ultimately show ?thesis using assms(2) by (simp add: put_char_def va_arg32_def sent_def Let_def)
qed

lemma put_str_ok:
  assumes "vio_ok st" and "vio_ap st = w # ap" and "length str < 4294967296"
    and "(if w = 0 then Inr (bytes ''(null)'') else string_in_memory mem w) = Inr str"
  shows "\<exists>st'. put_str ops mem st = Inr st' \<and> sent st str st' \<and> vio_ap st' = ap"
proof -
  have "vio_ok (st\<lparr>vio_ap := ap\<rparr>)" using assms(1) by (simp add: vio_ok_def)
  then obtain st' where "put_string ops str (st\<lparr>vio_ap := ap\<rparr>) = Inr st'" "sent (st\<lparr>vio_ap := ap\<rparr>) str st'"
    "vio_ap st' = vio_ap (st\<lparr>vio_ap := ap\<rparr>)" using assms(3) by (rule put_string_ok)
  then show ?thesis using assms(2,4) by (simp add: put_str_def va_arg32_def sent_def del: if_split)
qed

text \<open>A number directive, with the switch of its length modifier.\<close>

lemma num_directive_ok:
  assumes "vio_ok st" and "render_piece mem (num_piece wide c) (vio_ap st) = Some (str, ap)"
  shows "\<exists>st'. (case num_piece wide c of
      Num _ form \<Rightarrow> if wide then put_arg64 ops (routine64 form) st else put_arg32 ops (routine32 form) st | _ \<Rightarrow> Inr st) = Inr st' \<and>
    sent st str st' \<and> vio_ap st' = ap"
proof (cases "num_piece wide c = Skip")
  case True
  then show ?thesis using assms sent_refl by (simp add: render_piece_def)
next
  case False
  then obtain form where f: "num_piece wide c = Num wide form" using num_piece_cases by blast
  show ?thesis
  proof (cases wide)
    case True
    then obtain lo hi where "vio_ap st = lo # hi # ap" "word_text form (ucast lo OR push_bit 32 (ucast hi) :: u64) = Some str"
      using assms(2) f by (auto simp: render_piece_def split: list.splits)
    then show ?thesis using put_arg64_ok [OF assms(1) _ renders_routine64] f True by simp
  next
    case False
    then obtain w where "vio_ap st = w # ap" "word_text form w = Some str"
      using assms(2) f by (auto simp: render_piece_def split: list.splits)
    then show ?thesis using put_arg32_ok [OF assms(1) _ renders_routine32] f False by simp
  qed
qed

lemma vio_num_ok:
  assumes "vio_ok st"
  shows "render_piece mem (num_piece False c) (vio_ap st) = Some (str, ap) \<Longrightarrow>
      \<exists>st'. vio_z ops c st = Inr st' \<and> vio_t ops c st = Inr st' \<and> vio_l ops c st = Inr st' \<and> sent st str st' \<and> vio_ap st' = ap"
    and "render_piece mem (num_piece True c) (vio_ap st) = Some (str, ap) \<Longrightarrow>
      \<exists>st'. vio_ll ops c st = Inr st' \<and> sent st str st' \<and> vio_ap st' = ap"
  using num_directive_ok [OF assms, of mem False c str ap] num_piece_cases [of False c]
    num_directive_ok [OF assms, of mem True c str ap] num_piece_cases [of True c]
  by (auto simp: vio_num_cases)

lemma plain_directive_ok:
  assumes "vio_ok st" and "render_piece mem (plain_piece c) (vio_ap st) = Some (str, ap)" and "c \<noteq> ch CHR ''%''"
    and "length str < 4294967296"
  shows "\<exists>st'. vio_plain ops mem c st = Inr st' \<and> sent st str st' \<and> vio_ap st' = ap"
proof -
  consider "plain_piece c = Pointer" | "plain_piece c = Character" | "plain_piece c = Text" | "plain_piece c = num_piece False c"
    using assms(3) unfolding plain_piece_def by presburger
  then show ?thesis
  proof cases
    case 1
    then obtain w where "vio_ap st = w # ap" "str = bytes ''0x'' @ numeral_text 16 ((!) hexlow) (unat w)"
      using assms(2) by (auto simp: render_piece_def split: list.splits)
    then show ?thesis using put_arg32_ok [OF assms(1), of w ap p2a str] renders_p2a [of w] 1 by (simp add: vio_plain_cases)
  next
    case 2
    then obtain w where "vio_ap st = w # ap" "str = [ucast w]"
      using assms(2) by (auto simp: render_piece_def split: list.splits)
    then show ?thesis using put_char_ok [OF assms(1)] 2 by (simp add: vio_plain_cases)
  next
    case 3
    then obtain w where "vio_ap st = w # ap" "(if w = 0 then Inr (bytes ''(null)'') else string_in_memory mem w) = Inr str"
      using assms(2) by (auto simp: render_piece_def split: list.splits if_splits sum.splits)
    then show ?thesis using put_str_ok [OF assms(1) _ assms(4)] 3 by (simp add: vio_plain_cases del: if_split)
  next
    case 4
    then show ?thesis using num_directive_ok [of st mem False c str ap] assms(1,2) num_piece_cases [of False c]
      by (auto simp: vio_plain_cases)
  qed
qed

end

section \<open>The main loop\<close>

context byte_sink
begin

lemma vio_switch_ok:
  assumes "vio_ok st" and "drop pos fmt = c # r" and "c \<noteq> ch CHR ''%''" and "directive (c # r) = Some (p, n)"
    and "render_piece mem p (vio_ap st) = Some (str, ap)" and "length str < 4294967296"
  shows "\<exists>st'. vio_switch ops mem fmt pos st = Inr (n - 1, st') \<and> sent st str st' \<and> vio_ap st' = ap"
proof -
  note at0 = fmt_at_drop [OF assms(2), of 0, simplified]
  show ?thesis
  proof (cases "c \<in> {ch CHR ''z'', ch CHR ''t'', ch CHR ''l''}")
    case False
    then have "p = plain_piece c" "n = 1" using assms(4) by (auto simp: directive_def)
    moreover from this obtain st' where "vio_plain ops mem c st = Inr st'" "sent st str st'" "vio_ap st' = ap"
      using plain_directive_ok [OF assms(1) _ assms(3,6)] assms(5) by blast
    ultimately show ?thesis using at0 False by (simp add: vio_switch_def)
  next
    case True
    then obtain d r2 where r: "r = d # r2" using assms(4) by (auto simp: directive_def split: list.splits)
    note at1 = fmt_at_drop [OF assms(2), of 1, unfolded r, simplified]
    show ?thesis
    proof (cases "c = ch CHR ''l'' \<and> d = ch CHR ''l''")
      case l: True
      then obtain e r3 where e: "r2 = e # r3" "p = num_piece True e" "n = 3"
        using assms(4) r by (auto simp: directive_def split: list.splits)
      note at2 = fmt_at_drop [OF assms(2), of 2, unfolded r e(1), simplified]
      obtain st' where "vio_ll ops e st = Inr st'" "sent st str st'" "vio_ap st' = ap"
        using vio_num_ok(2) [OF assms(1), of mem e str ap] assms(5) e(2) by auto
      then show ?thesis using e(3) l at0 at1 at2 by (simp add: vio_switch_def ch_def)
    next
      case l: False
      then have p: "p = num_piece False d" "n = 2" using assms(4) r True by (auto simp: directive_def)
      obtain st' where "vio_z ops d st = Inr st'" "vio_t ops d st = Inr st'" "vio_l ops d st = Inr st'" "sent st str st'" "vio_ap st' = ap"
        using vio_num_ok(1) [OF assms(1), of mem d str ap] assms(5) p(1) by auto
      then show ?thesis using p(2) l True at0 at1 by (auto simp: vio_switch_def)
    qed
  qed
qed

lemma put_text_ok:
  assumes "vio_ok st" and "pos - lst < 4294967296"
  shows "\<exists>st'. put_text ops fmt lst pos st = Inr st' \<and> sent st (take (pos - lst) (drop lst fmt)) st' \<and> vio_ap st' = vio_ap st"
proof (cases "pos > lst")
  case True
  have "length (take (pos - lst) (drop lst fmt)) < 4294967296" using assms(2) by simp
  from put_string_ok [OF assms(1) this] show ?thesis using True by (auto simp: put_text_def)
qed (use assms(1) sent_refl in \<open>simp add: put_text_def\<close>)

lemma directive_length: "directive r = Some (p, n) \<Longrightarrow> 0 < n \<and> n \<le> length r"
  by (auto simp: directive_def split: list.splits if_splits)

lemma directive_percent: "directive (ch CHR ''%'' # r) = Some (Lit (ch CHR ''%''), 1)"
  by (simp add: directive_def plain_piece_def ch_def)

lemma vio_loop_ok:
  assumes "vio_ok st" and "0 \<notin> set fmt" and "lst \<le> pos" and "pos \<le> length fmt"
    and "parse_format (drop pos fmt) = Some ps" and "render_pieces mem ps (vio_ap st) = Some out"
    and "pos - lst + length out < 4294967296"
  shows "\<exists>st'. vio_loop ops mem fmt pos lst st = Inr st' \<and> sent st (take (pos - lst) (drop lst fmt) @ out) st'"
  using assms
proof (induction "length fmt - pos" arbitrary: pos lst st ps out rule: less_induct)
  case less
  let ?txt = "take (pos - lst) (drop lst fmt)"
  show ?case
  proof (cases "pos = length fmt")
    case True
    then have "ps = []" "out = []" using less.prems(5,6) by auto
    then show ?thesis using True put_text_ok [OF less.prems(1), of pos lst fmt] less.prems(7)
      by (subst vio_loop.simps) (auto simp: fmt_at_end)
  next
    case False
    then have pos: "pos < length fmt" using less.prems(4) by simp
    let ?c = "fmt ! pos" and ?r = "drop (Suc pos) fmt"
    have dr: "drop pos fmt = ?c # ?r" using pos by (simp add: Cons_nth_drop_Suc)
    have at: "fmt_at fmt pos = Inr ?c" "?c \<noteq> 0" using pos less.prems(2) nth_mem [OF pos] unfolding fmt_at_def by metis+
    show ?thesis
    proof (cases "?c = ch CHR ''%''")
      case False
      obtain ps' out' where p: "ps = Lit ?c # ps'" "parse_format ?r = Some ps'" "out = ?c # out'"
        "render_pieces mem ps' (vio_ap st) = Some out'"
        using less.prems(5,6) False unfolding dr by (auto simp: render_piece_def)
      have "\<exists>st'. vio_loop ops mem fmt (Suc pos) lst st = Inr st' \<and> sent st (take (Suc pos - lst) (drop lst fmt) @ out') st'"
        using less.prems pos p by (intro less.hyps) auto
      then show ?thesis using at False p(3) less.prems(3) pos by (subst vio_loop.simps) (simp add: pending_snoc)
    next
      case True
      obtain q n where d: "directive ?r = Some (q, n)" using less.prems(5) True unfolding dr by (auto split: option.splits)
      then obtain ps' where ps': "ps = q # ps'" "parse_format (drop n ?r) = Some ps'"
        using less.prems(5) True unfolding dr by auto
      obtain str ap out' where o: "render_piece mem q (vio_ap st) = Some (str, ap)" "render_pieces mem ps' ap = Some out'"
        "out = str @ out'" using less.prems(6) ps'(1) by (auto split: option.splits)
      have n: "0 < n" "pos + 1 + n \<le> length fmt" using directive_length [OF d] by auto
      then obtain e r' where er: "?r = e # r'" by (cases ?r) auto
      then have at1: "fmt_at fmt (pos + 1) = Inr e" using fmt_at_drop [of "pos + 1" fmt "e # r'" 0] by simp
      have step: "\<exists>st2. rbind (if e = ch CHR ''%'' then put_text ops fmt lst (pos + 1) st else put_text ops fmt lst pos st) (\<lambda>st.
            vio_switch ops mem fmt (pos + 1) st) = Inr (n - 1, st2) \<and> sent st (?txt @ str) st2 \<and> vio_ap st2 = ap"
      proof (cases "e = ch CHR ''%''")
        case e: True
        then have q: "q = Lit e" "n = 1" using d er directive_percent by auto
        then have "str = [e]" "ap = vio_ap st" using o(1) by (simp_all add: render_piece_def)
        moreover have "pos + 1 - lst < 4294967296" using less.prems(7) o(3) \<open>str = [e]\<close> by (simp add: less_diff_conv)
        then obtain st1 where st1: "put_text ops fmt lst (pos + 1) st = Inr st1"
          "sent st (take (pos + 1 - lst) (drop lst fmt)) st1" "vio_ap st1 = vio_ap st"
          using put_text_ok [OF less.prems(1)] by blast
        moreover have "vio_switch ops mem fmt (pos + 1) st1 = Inr (0, st1)"
          using at1 e by (simp add: vio_switch_def vio_plain_def ch_def)
        ultimately show ?thesis using e q True pos less.prems(3) by (simp add: pending_snoc)
      next
        case e: False
        obtain st1 where st1: "put_text ops fmt lst pos st = Inr st1" "sent st ?txt st1" "vio_ap st1 = vio_ap st"
          using put_text_ok [OF less.prems(1), of pos lst fmt] less.prems(7) by auto
        have "length str < 4294967296" using less.prems(7) o(3) by simp
        from vio_switch_ok [OF sent_vio_ok [OF st1(2)] _ e _ _ this, of "pos + 1" fmt r' q n mem ap]
        obtain st2 where "vio_switch ops mem fmt (pos + 1) st1 = Inr (n - 1, st2)" "sent st1 str st2" "vio_ap st2 = ap"
          using er d o(1) st1(3) by auto
        then show ?thesis using st1 e sent_trans by auto
      qed
      then obtain st2 where st2: "rbind (if e = ch CHR ''%'' then put_text ops fmt lst (pos + 1) st else put_text ops fmt lst pos st) (\<lambda>st.
            vio_switch ops mem fmt (pos + 1) st) = Inr (n - 1, st2)" "sent st (?txt @ str) st2" "vio_ap st2 = ap" by blast
      have go: "vio_loop ops mem fmt pos lst st = vio_loop ops mem fmt (pos + 1 + n) (pos + 1 + n) st2"
        using at True at1 st2(1) n(1) by (subst vio_loop.simps) (auto simp: rbind_eq_Inr ch_def)
      have "\<exists>st'. vio_loop ops mem fmt (pos + 1 + n) (pos + 1 + n) st2 = Inr st' \<and>
          sent st2 (take (pos + 1 + n - (pos + 1 + n)) (drop (pos + 1 + n) fmt) @ out') st'"
        using less.prems(2,7) pos n st2 ps'(2) o(2,3) sent_vio_ok [OF st2(2)]
        by (intro less.hyps) (auto simp: add.commute)
      then show ?thesis using go sent_trans [OF st2(2)] o(3) by auto
    qed
  qed
qed

lemma vioprintf_ok:
  assumes "ready s" and "0 \<notin> set fmt" and "length numbuf = 100" and "formatted mem fmt ap = Some out"
    and "length out < 4294967296"
  shows "\<exists>s'. iopipe_vioprintf ops s mem numbuf fmt ap = Inr (of_nat (length out), s') \<and> ready s' \<and> view s' = fold emit out (view s)"
proof -
  let ?st = "\<lparr>vio_count = 0, vio_ap = ap, vio_numbuf = numbuf, vio_dev = s\<rparr>"
  obtain ps where "parse_format fmt = Some ps" "render_pieces mem ps ap = Some out"
    using assms(4) by (auto simp: formatted_def split: option.splits)
  then obtain st' where "vio_loop ops mem fmt 0 0 ?st = Inr st'" "sent ?st out st'"
    using vio_loop_ok [of ?st fmt 0 0 ps mem out] assms by (auto simp: vio_ok_def)
  then show ?thesis by (auto simp: iopipe_vioprintf_def sent_def)
qed

end

section \<open>Informational output\<close>

primrec render_loop :: "nat \<Rightarrow> u8 list \<Rightarrow> nat \<Rightarrow> cursor \<Rightarrow> cursor res" where
  "render_loop 0 table paddr b = Inr b"
| "render_loop (Suc n) table paddr b =
     rbind (put_back (table ! (paddr AND 0xF)) b) (\<lambda>b. render_loop n table (drop_bit 4 paddr) b)"

definition render_phys_low :: "paddr \<Rightarrow> u8 list \<Rightarrow> cursor res" where
  "render_phys_low paddr buffer = render_loop (2 * 4) hexlow (unat paddr) (number_end buffer)"

definition render_phys_high :: "paddr \<Rightarrow> u8 list \<Rightarrow> cursor res" where
  "render_phys_high paddr buffer = render_loop (2 * 4) hexhig (unat paddr) (number_end buffer)"

definition render_virt_low :: "u32 \<Rightarrow> u8 list \<Rightarrow> cursor res" where
  "render_virt_low paddr buffer = render_loop (2 * 4) hexlow (unat paddr) (number_end buffer)"

definition render_virt_high :: "u32 \<Rightarrow> u8 list \<Rightarrow> cursor res" where
  "render_virt_high paddr buffer = render_loop (2 * 4) hexhig (unat paddr) (number_end buffer)"

definition info_u2a :: "u32 \<Rightarrow> u8 list \<Rightarrow> cursor res" where
  "info_u2a i buffer = dec_loop (unat i) (number_end buffer)"

definition info_switch :: "'s iopipe_ops \<Rightarrow> u8 \<Rightarrow> 's vio \<Rightarrow> 's vio res" where
  "info_switch ops c st =
     (if c = ch CHR ''h'' then put_arg32 ops render_phys_low st
      else if c = ch CHR ''H'' then put_arg32 ops render_phys_high st
      else if c = ch CHR ''p'' then put_arg32 ops render_virt_low st
      else if c = ch CHR ''P'' then put_arg32 ops render_virt_high st
      else if c = ch CHR ''u'' \<or> c = ch CHR ''i'' \<or> c = ch CHR ''d'' then put_arg32 ops info_u2a st
      else Inr st)"

function info_loop :: "'s iopipe_ops \<Rightarrow> u8 list \<Rightarrow> nat \<Rightarrow> nat \<Rightarrow> 's vio \<Rightarrow> 's vio res" where
  "info_loop ops fmt pos lst st =
     rbind (fmt_at fmt pos) (\<lambda>c.
       if c = 0 then put_text ops fmt lst pos st
       else if c \<noteq> ch CHR ''~'' then info_loop ops fmt (pos + 1) lst st
       else rbind (put_text ops fmt lst pos st) (\<lambda>st.
         rbind (fmt_at fmt (pos + 1)) (\<lambda>d.
         rbind (info_switch ops d st) (\<lambda>st. info_loop ops fmt (pos + 2) (pos + 2) st))))"
  by pat_completeness auto

termination
  by (relation "measure (\<lambda>(ops, fmt, pos, _). Suc (length fmt) - pos)") (auto simp: fmt_at_def split: if_splits)

declare info_loop.simps [simp del]

text \<open>These functions return nothing: the count that the shared steps keep is dropped.\<close>

definition iopipe_vprintinfo :: "'s iopipe_ops \<Rightarrow> 's \<Rightarrow> u8 list \<Rightarrow> u8 list \<Rightarrow> u32 list \<Rightarrow> 's res" where
  "iopipe_vprintinfo ops s numbuf fmt ap =
     rbind (info_loop ops fmt 0 0 \<lparr>vio_count = 0, vio_ap = ap, vio_numbuf = numbuf, vio_dev = s\<rparr>) (\<lambda>st. Inr (vio_dev st))"

definition iopipe_printinfo :: "'s iopipe_ops \<Rightarrow> 's \<Rightarrow> u8 list \<Rightarrow> u8 list \<Rightarrow> u32 list \<Rightarrow> 's res" where
  "iopipe_printinfo ops s numbuf fmt args = iopipe_vprintinfo ops s numbuf fmt args"

definition printinfo :: "kterm \<Rightarrow> u8 list \<Rightarrow> u8 list \<Rightarrow> u32 list \<Rightarrow> kterm res" where
  "printinfo kt numbuf fmt args =
     rbind (iopipe_vprintinfo (pipe_ops (kterm_instance kt)) (kterm_device kt) numbuf fmt args) (\<lambda>dev.
       Inr (kt\<lparr>kterm_device := dev\<rparr>))"

text \<open>The reference: \<open>n\<close> digits of a number, leading zeros included.\<close>

primrec fixed_digits :: "nat \<Rightarrow> nat \<Rightarrow> nat list" where
  "fixed_digits 0 v = []"
| "fixed_digits (Suc n) v = fixed_digits n (v div 16) @ [v mod 16]"

lemma length_fixed_digits [simp]: "length (fixed_digits n v) = n"
  by (induction n arbitrary: v) simp_all

lemma fixed_digits_value: "v < 16 ^ n \<Longrightarrow> foldl (\<lambda>a d. 16 * a + d) 0 (fixed_digits n v) = v"
proof (induction n arbitrary: v)
  case (Suc n)
  then have "v div 16 < 16 ^ n" by (simp add: less_mult_imp_div_less mult.commute)
  then show ?case using Suc.IH by simp
qed simp

lemma render_loop_places:
  assumes "n \<le> p" and "p \<le> length nb"
  shows "render_loop n table v (p, nb) = Inr (p - n, take (p - n) nb @ map ((!) table) (fixed_digits n v) @ drop p nb)"
  using assms
proof (induction n arbitrary: v p nb)
  case (Suc n)
  let ?c = "table ! (v mod 16)"
  let ?nb = "take (p - 1) nb @ [?c] @ drop p nb"
  have "render_loop (Suc n) table v (p, nb) = render_loop n table (v div 16) (p - 1, ?nb)"
    using Suc.prems by (simp add: put_back_placed nat_and_15 drop_bit_eq_div)
  also have "\<dots> = Inr (p - 1 - n, take (p - 1 - n) ?nb @ map ((!) table) (fixed_digits n (v div 16)) @ drop (p - 1) ?nb)"
    using Suc.prems by (intro Suc.IH) simp_all
  finally show ?case using Suc.prems by (simp add: take_append)
qed simp

lemma fixed_digits_less: "d \<in> set (fixed_digits n v) \<Longrightarrow> d < 16"
  by (induction n arbitrary: v) auto

lemma renders_fixed:
  assumes "table = hexlow \<or> table = hexhig"
  shows "renders (\<lambda>nb. render_loop 8 table v (number_end nb)) (map ((!) table) (fixed_digits 8 v))"
  using assms hex_tables_nonzero fixed_digits_less [of _ 8 v]
  by (intro renders_number) (auto simp: number_end_def render_loop_places)

section \<open>The informational output follows its reference\<close>

text \<open>The text of a directive behind a tilde, when it takes an argument.\<close>

definition info_text :: "u8 \<Rightarrow> (u32 \<Rightarrow> u8 list) option" where
  "info_text c =
     (if c = ch CHR ''h'' \<or> c = ch CHR ''p'' then Some (\<lambda>w. map ((!) hexlow) (fixed_digits 8 (unat w)))
      else if c = ch CHR ''H'' \<or> c = ch CHR ''P'' then Some (\<lambda>w. map ((!) hexhig) (fixed_digits 8 (unat w)))
      else if c = ch CHR ''u'' \<or> c = ch CHR ''i'' \<or> c = ch CHR ''d'' then Some (\<lambda>w. numeral_text 10 dec_digit (unat w))
      else None)"

fun info_formatted :: "u8 list \<Rightarrow> u32 list \<Rightarrow> u8 list option" where
  "info_formatted [] ap = Some []"
| "info_formatted [c] ap = (if c = ch CHR ''~'' then None else Some [c])"
| "info_formatted (c # d # r) ap =
     (if c \<noteq> ch CHR ''~'' then map_option (Cons c) (info_formatted (d # r) ap)
      else case info_text d of None \<Rightarrow> info_formatted r ap
        | Some f \<Rightarrow> (case ap of [] \<Rightarrow> None | w # ap \<Rightarrow> map_option (\<lambda>s. f w @ s) (info_formatted r ap)))"

lemma info_formatted_Cons:
  "c \<noteq> ch CHR ''~'' \<Longrightarrow> info_formatted (c # r) ap = map_option (Cons c) (info_formatted r ap)"
  by (cases r) simp_all

context byte_sink
begin

lemma info_switch_ok:
  assumes "vio_ok st"
    and "(case info_text d of None \<Rightarrow> out = [] \<and> ap = vio_ap st | Some f \<Rightarrow> \<exists>w. vio_ap st = w # ap \<and> out = f w)"
  shows "\<exists>st'. info_switch ops d st = Inr st' \<and> sent st out st' \<and> vio_ap st' = ap"
proof (cases "info_text d")
  case None
  then have "info_switch ops d st = Inr st" by (simp add: info_switch_def info_text_def split: if_splits)
  then show ?thesis using assms None sent_refl by simp
next
  case (Some f)
  then obtain w where w: "vio_ap st = w # ap" "out = f w" using assms(2) by auto
  note fixed = renders_fixed [of hexlow "unat w"] renders_fixed [of hexhig "unat w"] renders_dec [OF unat_lt_u64(2) [of w]]
  have low: "renders (render_phys_low w) (map ((!) hexlow) (fixed_digits 8 (unat w)))"
    "renders (render_virt_low w) (map ((!) hexlow) (fixed_digits 8 (unat w)))"
    "renders (render_phys_high w) (map ((!) hexhig) (fixed_digits 8 (unat w)))"
    "renders (render_virt_high w) (map ((!) hexhig) (fixed_digits 8 (unat w)))"
    "renders (info_u2a w) (numeral_text 10 dec_digit (unat w))"
    using fixed by (simp_all add: render_phys_low_def [abs_def] render_virt_low_def [abs_def] render_phys_high_def [abs_def]
        render_virt_high_def [abs_def] info_u2a_def [abs_def])
  note puts = put_arg32_ok [OF assms(1) w(1), of render_phys_low, OF low(1)] put_arg32_ok [OF assms(1) w(1), of render_virt_low, OF low(2)]
    put_arg32_ok [OF assms(1) w(1), of render_phys_high, OF low(3)] put_arg32_ok [OF assms(1) w(1), of render_virt_high, OF low(4)]
    put_arg32_ok [OF assms(1) w(1), of info_u2a, OF low(5)]
  consider "d = ch CHR ''h''" | "d = ch CHR ''p''" | "d = ch CHR ''H''" | "d = ch CHR ''P''"
    | "d = ch CHR ''u'' \<or> d = ch CHR ''i'' \<or> d = ch CHR ''d''" using Some by (auto simp: info_text_def split: if_splits)
  then show ?thesis
  proof cases
    case 1
    then show ?thesis using puts(1) Some w(2) by (auto simp: info_switch_def info_text_def)
  next
    case 2
    then show ?thesis using puts(2) Some w(2) by (auto simp: info_switch_def info_text_def ch_def)
  next
    case 3
    then show ?thesis using puts(3) Some w(2) by (auto simp: info_switch_def info_text_def ch_def)
  next
    case 4
    then show ?thesis using puts(4) Some w(2) by (auto simp: info_switch_def info_text_def ch_def)
  next
    case 5
    then show ?thesis using puts(5) Some w(2) by (auto simp: info_switch_def info_text_def ch_def)
  qed
qed

lemma info_loop_ok:
  assumes "vio_ok st" and "0 \<notin> set fmt" and "lst \<le> pos" and "pos \<le> length fmt"
    and "info_formatted (drop pos fmt) (vio_ap st) = Some out" and "pos - lst + length out < 4294967296"
  shows "\<exists>st'. info_loop ops fmt pos lst st = Inr st' \<and> sent st (take (pos - lst) (drop lst fmt) @ out) st'"
  using assms
proof (induction "length fmt - pos" arbitrary: pos lst st out rule: less_induct)
  case less
  let ?pre = "take (pos - lst) (drop lst fmt)"
  obtain st1 where st1: "put_text ops fmt lst pos st = Inr st1" "sent st ?pre st1" "vio_ap st1 = vio_ap st"
    using put_text_ok [OF less.prems(1), of pos lst fmt] less.prems(6) by auto
  show ?case
  proof (cases "pos = length fmt")
    case True
    then have "out = []" using less.prems(5) by simp
    then show ?thesis using True st1 by (subst info_loop.simps) (simp add: fmt_at_end)
  next
    case False
    then have pos: "pos < length fmt" using less.prems(4) by simp
    let ?c = "fmt ! pos" and ?r = "drop (Suc pos) fmt"
    have dr: "drop pos fmt = ?c # ?r" using pos by (simp add: Cons_nth_drop_Suc)
    have at: "fmt_at fmt pos = Inr ?c" "?c \<noteq> 0" using pos less.prems(2) nth_mem [OF pos] unfolding fmt_at_def by metis+
    show ?thesis
    proof (cases "?c = ch CHR ''~''")
      case False
      then obtain out' where o: "info_formatted ?r (vio_ap st) = Some out'" "out = ?c # out'"
        using less.prems(5) unfolding dr by (auto simp: info_formatted_Cons)
      have "\<exists>st'. info_loop ops fmt (Suc pos) lst st = Inr st' \<and> sent st (take (Suc pos - lst) (drop lst fmt) @ out') st'"
        using less.prems pos o by (intro less.hyps) auto
      then show ?thesis using at False o(2) less.prems(3) pos by (subst info_loop.simps) (simp add: pending_snoc)
    next
      case True
      then obtain d r where r: "?r = d # r" using less.prems(5) unfolding dr by (cases ?r) auto
      then have at1: "fmt_at fmt (pos + 1) = Inr d" using fmt_at_drop [of "pos + 1" fmt "d # r" 0] by simp
      have r2: "drop (pos + 2) fmt = r" "pos + 2 \<le> length fmt"
        using arg_cong [OF r, of "drop 1"] arg_cong [OF r, of length] by simp_all
      obtain str ap out' where o: "info_formatted r ap = Some out'" "out = str @ out'"
        "case info_text d of None \<Rightarrow> str = [] \<and> ap = vio_ap st1 | Some f \<Rightarrow> \<exists>w. vio_ap st1 = w # ap \<and> str = f w"
        using less.prems(5) True st1(3) unfolding dr r by (fastforce split: option.splits list.splits)
      obtain st2 where st2: "info_switch ops d st1 = Inr st2" "sent st1 str st2" "vio_ap st2 = ap"
        using info_switch_ok [OF sent_vio_ok [OF st1(2)] o(3)] by blast
      have go: "info_loop ops fmt pos lst st = info_loop ops fmt (pos + 2) (pos + 2) st2"
        using at True at1 st1(1) st2(1) by (subst info_loop.simps) (simp add: ch_def)
      have "\<exists>st'. info_loop ops fmt (pos + 2) (pos + 2) st2 = Inr st' \<and>
          sent st2 (take (pos + 2 - (pos + 2)) (drop (pos + 2) fmt) @ out') st'"
        using less.prems(2,6) pos st2(3) o(1,2) r2 sent_vio_ok [OF st2(2)] by (intro less.hyps) auto
      then show ?thesis using go sent_trans [OF sent_trans [OF st1(2) st2(2)]] o(2) by auto
    qed
  qed
qed

lemma vprintinfo_ok:
  assumes "ready s" and "0 \<notin> set fmt" and "length numbuf = 100" and "info_formatted fmt ap = Some out"
    and "length out < 4294967296"
  shows "\<exists>s'. iopipe_vprintinfo ops s numbuf fmt ap = Inr s' \<and> ready s' \<and> view s' = fold emit out (view s)"
proof -
  let ?st = "\<lparr>vio_count = 0, vio_ap = ap, vio_numbuf = numbuf, vio_dev = s\<rparr>"
  obtain st' where "info_loop ops fmt 0 0 ?st = Inr st'" "sent ?st out st'"
    using info_loop_ok [of ?st fmt 0 0 out] assms by (auto simp: vio_ok_def)
  then show ?thesis by (auto simp: iopipe_vprintinfo_def sent_def)
qed

end

section \<open>Properties\<close>

text \<open>C24. \<^verbatim>\<open>printf\<close> on the initialised terminal. For every format without an embedded zero that
  ends outside a directive, and arguments that suit it, the call returns the length of the
  formatted text, and the screen shows what it showed before followed by exactly that text: the
  literal bytes, \<^verbatim>\<open>%%\<close> as a percent sign, and every directive with its length modifier
  rendered as positional numerals, characters or strings, independently of the contents of the
  uninitialised buffer. Unknown directives print nothing.\<close>

theorem printf_renders:
  assumes "term_ready (kterm_device kt)" and "kterm_instance kt = Some ccterm_pipe_ops"
    and "0 \<notin> set fmt" and "length numbuf = 100"
    and "formatted mem fmt args = Some out" and "length out < 4294967296"
  shows "\<exists>kt'. printf kt mem numbuf fmt args = Inr (of_nat (length out), kt') \<and> term_ready (kterm_device kt') \<and>
    shown (kterm_device kt') = fold lite_byte out (shown (kterm_device kt))"
proof -
  obtain dev where "iopipe_vioprintf ccterm_pipe_ops (kterm_device kt) mem numbuf fmt args = Inr (of_nat (length out), dev)"
    "term_ready dev" "shown dev = fold lite_byte out (shown (kterm_device kt))"
    using term_sink.vioprintf_ok [OF assms(1,3,4,5,6)] by blast
  then show ?thesis using assms(2) by (simp add: printf_def pipe_ops_def)
qed

definition boot_kterm :: kterm where
  "boot_kterm = kterm_init \<lparr>kterm_instance = None, kterm_device = static_ccterm (\<lambda>_. 0)\<rparr>"

lemma boot_kterm_ready: "term_ready (kterm_device boot_kterm)" "kterm_instance boot_kterm = Some ccterm_pipe_ops"
  using ccterm_init_ready [OF static_ccterm_ring(1)] by (simp_all add: boot_kterm_def kterm_init_def)

theorem printf_renders_witness:
  "\<exists>kt'. printf boot_kterm (\<lambda>_. 0) (replicate 100 7) (bytes ''n=%d 0x%X%%'') [42, 0xAF] = Inr (10, kt')"
proof -
  have f: "formatted (\<lambda>_. 0) (bytes ''n=%d 0x%X%%'') [42, 0xAF] = Some (bytes ''n=42 0xAF%'')" by code_simp
  have z: "0 \<notin> set (bytes ''n=%d 0x%X%%'')" by (simp add: bytes_def ch_def)
  have l: "length (replicate 100 (7 :: u8)) = 100" "length (bytes ''n=42 0xAF%'') < 4294967296" by (simp_all add: bytes_def)
  from printf_renders [OF boot_kterm_ready z l(1) f l(2)] show ?thesis by (auto simp: bytes_def)
qed

text \<open>C28. The number routines and their buffer. Whatever the 100 bytes hold before, the unsigned
  64-bit routines place a string that reads back as the argument, in decimal with at most 20
  digits and in hexadecimal with at most 16, so that the pointer they return stays far from the
  start of the buffer.\<close>

theorem number_routines_roundtrip:
  assumes "length nb = 100"
  shows "(\<exists>p nb' ds. llu2a w nb = Inr (p, nb') \<and> 78 \<le> p \<and> string_at p nb' = Inr (map dec_digit ds) \<and>
      (\<forall>d\<in>set ds. d < 10) \<and> foldl (\<lambda>a d. 10 * a + d) 0 ds = unat w) \<and>
    (\<exists>p nb' ds. llx2a w nb = Inr (p, nb') \<and> 82 \<le> p \<and> string_at p nb' = Inr (map ((!) hexlow) ds) \<and>
      (\<forall>d\<in>set ds. d < 16) \<and> foldl (\<lambda>a d. 16 * a + d) 0 ds = unat w)"
proof -
  note lt = unat_lt_u64(1) [of w]
  have "renders (llu2a w) (map dec_digit (base_digits 10 (unat w)))"
    using renders_dec [OF lt] by (simp add: llu2a_def [abs_def] numeral_text_def)
  from renders_place [OF this assms] u64_digits(1) [OF lt] base_digits_value [of 10 "unat w"] base_digits_less [of 10 _ "unat w"]
  have "\<exists>p nb' ds. llu2a w nb = Inr (p, nb') \<and> 78 \<le> p \<and> string_at p nb' = Inr (map dec_digit ds) \<and>
      (\<forall>d\<in>set ds. d < 10) \<and> foldl (\<lambda>a d. 10 * a + d) 0 ds = unat w" by fastforce
  moreover have "renders (llx2a w) (map ((!) hexlow) (base_digits 16 (unat w)))"
    using renders_hex [OF lt, of hexlow] by (simp add: llx2a_def [abs_def] numeral_text_def)
  from renders_place [OF this assms] u64_digits(2) [OF lt] base_digits_value [of 16 "unat w"] base_digits_less [of 16 _ "unat w"]
  have "\<exists>p nb' ds. llx2a w nb = Inr (p, nb') \<and> 82 \<le> p \<and> string_at p nb' = Inr (map ((!) hexlow) ds) \<and>
      (\<forall>d\<in>set ds. d < 16) \<and> foldl (\<lambda>a d. 16 * a + d) 0 ds = unat w" by fastforce
  ultimately show ?thesis ..
qed

theorem number_routines_roundtrip_witness:
  "\<exists>p nb' ds. llu2a 18446744073709551615 (replicate 100 0) = Inr (p, nb') \<and> string_at p nb' = Inr (map dec_digit ds) \<and>
    foldl (\<lambda>a d. 10 * a + d) 0 ds = 18446744073709551615"
  using number_routines_roundtrip [of "replicate 100 0" 18446744073709551615] by auto

text \<open>Two inputs the formatted output does not handle. A format whose last byte is a percent sign
  is read behind its terminating zero, whatever the text in front of it; and printing the least
  value of a signed 32-bit or 64-bit type negates it, which is undefined.\<close>

theorem printf_edge_faults:
  assumes "term_ready dev" and "length numbuf = 100" and "length pre < 4294967296"
    and "0 \<notin> set pre" and "ch CHR ''%'' \<notin> set pre"
  shows "iopipe_vioprintf ccterm_pipe_ops dev mem numbuf (pre @ [ch CHR ''%'']) args = Inl Bad_Access \<and>
    i2a 0x80000000 numbuf = Inl Undefined \<and> lli2a 0x8000000000000000 numbuf = Inl Undefined"
proof -
  let ?fmt = "pre @ [ch CHR ''%'']" and ?st = "\<lparr>vio_count = 0, vio_ap = args, vio_numbuf = numbuf, vio_dev = dev\<rparr>"
  have pc: "ch CHR ''%'' \<noteq> 0" "(0 :: u8) \<noteq> ch CHR ''%''" by (simp_all add: ch_def)
  have skip: "vio_loop ops mem ?fmt pos 0 ?st = vio_loop ops mem ?fmt (length pre) 0 ?st" if "pos \<le> length pre" for pos and ops :: "ccterm iopipe_ops"
    using that
  proof (induction rule: inc_induct)
    case (step k)
    have "fmt_at ?fmt k = Inr (pre ! k)" "pre ! k \<noteq> 0" "pre ! k \<noteq> ch CHR ''%''"
      using step.hyps assms(4,5) nth_mem [of k pre] by (auto simp: fmt_at_def nth_append simp del: nth_mem)
    then show ?case using step.IH by (subst vio_loop.simps) simp
  qed simp
  have "term_sink.vio_ok ?st" using assms(1,2) by (simp add: term_sink.vio_ok_def)
  then obtain st where st: "put_text ccterm_pipe_ops ?fmt 0 (length pre) ?st = Inr st"
    using term_sink.put_text_ok [of ?st "length pre" 0 ?fmt] assms(3) by auto
  have at: "fmt_at ?fmt (length pre) = Inr (ch CHR ''%'')" "fmt_at ?fmt (length pre + 1) = Inr 0"
    "fmt_at ?fmt (length pre + 2) = Inl Bad_Access" by (simp_all add: fmt_at_def)
  have "vio_switch ccterm_pipe_ops mem ?fmt (length pre + 1) st = Inr (0, st)"
    using at(2) by (simp add: vio_switch_def vio_plain_def ch_def)
  moreover have "vio_loop ccterm_pipe_ops mem ?fmt (length pre + 2) (length pre + 2) st = Inl Bad_Access"
    using at(3) by (subst vio_loop.simps) simp
  ultimately have "vio_loop ccterm_pipe_ops mem ?fmt (length pre) 0 ?st = Inl Bad_Access"
    using at st pc by (subst vio_loop.simps) simp
  then have "iopipe_vioprintf ccterm_pipe_ops dev mem numbuf ?fmt args = Inl Bad_Access"
    using skip [of 0 ccterm_pipe_ops] by (simp add: iopipe_vioprintf_def)
  moreover have "negate (0x80000000 :: u32) = Inl Undefined" "negate (0x8000000000000000 :: u64) = Inl Undefined"
    by (simp_all add: negate_def)
  ultimately show ?thesis by (simp add: i2a_def lli2a_def signed_2a_def)
qed

theorem printf_edge_faults_witness:
  "iopipe_vioprintf ccterm_pipe_ops (kterm_device boot_kterm) (\<lambda>_. 0) (replicate 100 0) (bytes ''100'' @ [ch CHR ''%'']) [] = Inl Bad_Access"
  using printf_edge_faults [OF boot_kterm_ready(1), of "replicate 100 0" "bytes ''100''" "\<lambda>_. 0" "[]"]
  by (simp add: bytes_def ch_def)

text \<open>\<^verbatim>\<open>printinfo\<close> on the initialised terminal shows exactly the reference text: literal bytes,
  addresses as eight hexadecimal digits with leading zeros in lower or upper case, numbers in
  decimal.\<close>

theorem printinfo_renders:
  assumes "term_ready (kterm_device kt)" and "kterm_instance kt = Some ccterm_pipe_ops"
    and "0 \<notin> set fmt" and "length numbuf = 100"
    and "info_formatted fmt args = Some out" and "length out < 4294967296"
  shows "\<exists>kt'. printinfo kt numbuf fmt args = Inr kt' \<and> term_ready (kterm_device kt') \<and>
    shown (kterm_device kt') = fold lite_byte out (shown (kterm_device kt))"
proof -
  obtain dev where "iopipe_vprintinfo ccterm_pipe_ops (kterm_device kt) numbuf fmt args = Inr dev"
    "term_ready dev" "shown dev = fold lite_byte out (shown (kterm_device kt))"
    using term_sink.vprintinfo_ok [OF assms(1,3,4,5,6)] by blast
  then show ?thesis using assms(2) by (simp add: printinfo_def pipe_ops_def)
qed

theorem printinfo_renders_witness:
  "\<exists>kt'. printinfo boot_kterm (replicate 100 7) (bytes ''at ~p'') [0xBF] = Inr kt' \<and>
    shown (kterm_device kt') = fold lite_byte (bytes ''at 000000bf'') (shown (kterm_device boot_kterm))"
proof -
  have f: "info_formatted (bytes ''at ~p'') [0xBF] = Some (bytes ''at 000000bf'')" by code_simp
  have z: "0 \<notin> set (bytes ''at ~p'')" by (simp add: bytes_def ch_def)
  have l: "length (replicate 100 (7 :: u8)) = 100" "length (bytes ''at 000000bf'') < 4294967296" by (simp_all add: bytes_def)
  from printinfo_renders [OF boot_kterm_ready z l(1) f l(2)] show ?thesis by blast
qed

end
