(* ===== verification/Kern_Message.thy ===== *)
theory Kern_Message
  imports Kern_Printf
begin

text \<open>
  The messages of the kernel: calls of \<^verbatim>\<open>printf\<close> on the way of other work, and the two
  that are followed by the end of the run, \<^verbatim>\<open>panic\<close> and \<^verbatim>\<open>__kernel_assert\<close> of
  \<open>libkern/abort_ex.c\<close> with \<open>libkern/abort.c\<close> and \<open>arch/i686/include/sysarch/halt.h\<close>.

  \<^verbatim>\<open>arch_halt\<close> loops for ever around the \<^verbatim>\<open>hlt\<close> instruction. A function that may end there
  returns a \<open>run\<close>: \<open>Halted\<close> of the state in which the processor halts, or \<open>Running\<close> of the
  state in which it returns. The number buffer of each call is not initialised; what it holds
  is the parameter \<open>numbuf\<close>, and the text printed does not depend on it.
\<close>

section \<open>Halting\<close>

datatype 'a run = Running 'a | Halted 'a

definition arch_halt :: "'a \<Rightarrow> 'a run" where
  "arch_halt s = Halted s"

definition abort :: "'a \<Rightarrow> 'a run" where
  "abort s = arch_halt s"

text \<open>A statement behind one that may halt.\<close>

definition then_run :: "'a run res \<Rightarrow> ('a \<Rightarrow> 'a run res) \<Rightarrow> 'a run res" where
  "then_run r f = rbind r (\<lambda>x. case x of Running s \<Rightarrow> f s | Halted s \<Rightarrow> Inr (Halted s))"

lemma then_run_simps [simp, res_simps]:
  "then_run (Inr (Running s)) f = f s" "then_run (Inr (Halted s)) f = Inr (Halted s)" "then_run (Inl e) f = Inl e"
  by (simp_all add: then_run_def)

section \<open>Messages\<close>

text \<open>\<open>message\<close> is a call of \<^verbatim>\<open>printf\<close> whose result is not used and whose format has no
  \<^verbatim>\<open>%s\<close>, so that no string is read from the memory.\<close>

definition message :: "u8 list \<Rightarrow> u8 list \<Rightarrow> u32 list \<Rightarrow> kterm \<Rightarrow> kterm res" where
  "message numbuf fmt args kt = rbind (printf kt (\<lambda>_. 0) numbuf fmt args) (\<lambda>(_, kt). Inr kt)"

definition kterm_printf :: "memory \<Rightarrow> u8 list \<Rightarrow> u8 list \<Rightarrow> u32 list \<Rightarrow> kterm \<Rightarrow> kterm res" where
  "kterm_printf mem numbuf fmt args kt =
     rbind (iopipe_printf (pipe_ops (kterm_instance kt)) (kterm_device kt) mem numbuf fmt args) (\<lambda>(_, dev).
     Inr (kt\<lparr>kterm_device := dev\<rparr>))"

definition panic :: "memory \<Rightarrow> u8 list \<Rightarrow> u8 list \<Rightarrow> u32 list \<Rightarrow> kterm \<Rightarrow> kterm run res" where
  "panic mem numbuf fmt args kt =
     rbind (kterm_printf mem numbuf (bytes ''panic: '') [] kt) (\<lambda>kt.
     rbind (iopipe_vioprintf (pipe_ops (kterm_instance kt)) (kterm_device kt) mem numbuf fmt args) (\<lambda>(_, dev).
     let kt = kt\<lparr>kterm_device := dev\<rparr> in
     rbind (kterm_printf mem numbuf [10] [] kt) (\<lambda>kt.
     Inr (abort kt))))"

text \<open>\<open>fmt\<close> is the address of the text of the assertion.\<close>

definition kernel_assert :: "memory \<Rightarrow> u8 list \<Rightarrow> int \<Rightarrow> u32 \<Rightarrow> kterm \<Rightarrow> kterm run res" where
  "kernel_assert mem numbuf i fmt kt =
     (if i \<noteq> 0 then Inr (Running kt)
      else
      rbind (kterm_printf mem numbuf (bytes ''assertion failed: %s'' @ [10]) [fmt] kt) (\<lambda>kt.
      Inr (abort kt)))"

section \<open>What is formatted\<close>

text \<open>Rules that evaluate the reference rendering on a format whose arguments are variables.\<close>

named_theorems format_simps \<open>evaluation of the reference rendering, from left to right\<close>

definition dec_text :: "nat \<Rightarrow> u8 list" where
  "dec_text n = numeral_text 10 dec_digit n"

definition ptr_text :: "u32 \<Rightarrow> u8 list" where
  "ptr_text w = bytes ''0x'' @ numeral_text 16 ((!) hexlow) (unat w)"

lemma append_consts: "(@) [] = (\<lambda>out. out)" "(@) [c] = (#) c"
  by auto

lemma formatted_Nil [format_simps]: "formatted mem [] ap = Some []"
  by (simp add: formatted_def)

lemma formatted_char [format_simps]:
  "c \<noteq> ch CHR ''%'' \<Longrightarrow> formatted mem (c # r) ap = map_option (Cons c) (formatted mem r ap)"
  by (cases "parse_format r") (simp_all add: formatted_def render_piece_def append_consts)

lemma format_newline: "(10 :: u8) \<noteq> ch CHR ''%''"
  by (simp add: ch_def)

lemma formatted_text [format_simps]:
  "ch CHR ''%'' \<notin> set pre \<Longrightarrow> formatted mem (pre @ r) ap = map_option (\<lambda>out. pre @ out) (formatted mem r ap)"
proof (induction pre)
  case (Cons c pre)
  then have "formatted mem (c # (pre @ r)) ap = map_option (Cons c) (formatted mem (pre @ r) ap)"
    by (intro formatted_char) auto
  with Cons show ?case by (simp add: option.map_comp comp_def)
qed (simp add: append_consts option.map_ident)

lemma formatted_directive:
  assumes "c \<notin> {ch CHR ''z'', ch CHR ''t'', ch CHR ''l''}"
  shows "formatted mem (ch CHR ''%'' # c # r) ap =
    (case render_piece mem (plain_piece c) ap of None \<Rightarrow> None
     | Some (s, ap) \<Rightarrow> map_option (\<lambda>out. s @ out) (formatted mem r ap))"
proof -
  have "directive (c # r) = Some (plain_piece c, 1)" using assms by (simp add: directive_def)
  then have "parse_format (ch CHR ''%'' # c # r) = map_option (Cons (plain_piece c)) (parse_format r)"
    by (simp del: parse_format.simps(2) add: parse_format.simps(2) [of "ch CHR ''%''"])
  then show ?thesis
    by (cases "parse_format r") (auto simp: formatted_def simp del: parse_format.simps split: option.splits)
qed

lemma signed_text_small: "unat (w :: u32) < 2147483648 \<Longrightarrow> signed_text w = Some (dec_text (unat w))"
proof -
  assume "unat w < 2147483648"
  moreover have i: "uint w = int (unat w)" by simp
  ultimately have u: "uint w < 2147483648" unfolding i by linarith
  have "- 2147483648 \<le> uint w" unfolding i by linarith
  with u have "signed_take_bit 31 (uint w) = uint w" using signed_take_bit_int_eq_self [of 31 "uint w"] by simp
  then have "sint w = uint w" by (simp add: sint_uint)
  moreover have "uint w \<noteq> - 2147483648" unfolding i by linarith
  ultimately show ?thesis by (simp add: signed_text_def dec_text_def)
qed

lemma formatted_d [format_simps]:
  "unat w < 2147483648 \<Longrightarrow> formatted mem (ch CHR ''%'' # ch CHR ''d'' # r) (w # ap) =
     map_option (\<lambda>out. dec_text (unat w) @ out) (formatted mem r ap)"
  "unat w < 2147483648 \<Longrightarrow> formatted mem (ch CHR ''%'' # ch CHR ''i'' # r) (w # ap) =
     map_option (\<lambda>out. dec_text (unat w) @ out) (formatted mem r ap)"
  by (subst formatted_directive;
      simp add: ch_def plain_piece_def num_piece_def render_piece_def word_text_def signed_text_small)+

lemma formatted_u [format_simps]:
  "formatted mem (ch CHR ''%'' # ch CHR ''u'' # r) (w # ap) =
     map_option (\<lambda>out. dec_text (unat w) @ out) (formatted mem r ap)"
  by (subst formatted_directive;
      simp add: ch_def plain_piece_def num_piece_def render_piece_def word_text_def dec_text_def)

lemma formatted_p [format_simps]:
  "formatted mem (ch CHR ''%'' # ch CHR ''p'' # r) (w # ap) =
     map_option (\<lambda>out. ptr_text w @ out) (formatted mem r ap)"
  by (subst formatted_directive; simp add: ch_def plain_piece_def render_piece_def ptr_text_def)

lemma formatted_s [format_simps]:
  "w \<noteq> 0 \<Longrightarrow> string_in_memory mem w = Inr str \<Longrightarrow> formatted mem (ch CHR ''%'' # ch CHR ''s'' # r) (w # ap) =
     map_option (\<lambda>out. str @ out) (formatted mem r ap)"
  by (subst formatted_directive; simp add: ch_def plain_piece_def render_piece_def)

section \<open>What is shown\<close>

text \<open>The terminal after \<^verbatim>\<open>kterm_init\<close>, and what it shows.\<close>

definition term_up :: "kterm \<Rightarrow> bool" where
  "term_up kt \<longleftrightarrow> term_ready (kterm_device kt) \<and> kterm_instance kt = Some ccterm_pipe_ops"

definition screen :: "kterm \<Rightarrow> console" where
  "screen kt = shown (kterm_device kt)"

definition show_text :: "u8 list \<Rightarrow> console \<Rightarrow> console" where
  "show_text out con = fold lite_byte out con"

lemma show_text_append: "show_text b (show_text a con) = show_text (a @ b) con"
  by (simp add: show_text_def)

lemma kterm_init_up: "ring_ok (kterm_device kt) \<Longrightarrow> term_up (kterm_init kt)"
  using ccterm_init_ready [of "kterm_device kt"] by (simp add: term_up_def kterm_init_def)

lemma boot_kterm_up: "term_up boot_kterm"
  using boot_kterm_ready by (simp add: term_up_def)

lemma vioprintf_shows:
  assumes "term_up kt" and "length numbuf = 100" and "0 \<notin> set fmt" and "formatted mem fmt args = Some out"
    and "length out < 4294967296"
  obtains dev where "iopipe_vioprintf (pipe_ops (kterm_instance kt)) (kterm_device kt) mem numbuf fmt args =
      Inr (of_nat (length out), dev)" "term_up (kt\<lparr>kterm_device := dev\<rparr>)"
    "screen (kt\<lparr>kterm_device := dev\<rparr>) = show_text out (screen kt)"
proof -
  have up: "term_ready (kterm_device kt)" "kterm_instance kt = Some ccterm_pipe_ops" using assms(1) by (simp_all add: term_up_def)
  from term_sink.vioprintf_ok [OF up(1) assms(3,2,4,5)] up(2) that show thesis
    by (auto simp: term_up_def screen_def show_text_def pipe_ops_def)
qed

lemma message_ok:
  assumes "term_up kt" and "length numbuf = 100" and "0 \<notin> set fmt" and "formatted (\<lambda>_. 0) fmt args = Some out"
    and "length out < 4294967296"
  obtains kt' where "message numbuf fmt args kt = Inr kt'" "term_up kt'" "screen kt' = show_text out (screen kt)"
  by (rule vioprintf_shows [OF assms], rule that) (simp_all add: message_def printf_def)

lemma kterm_printf_ok:
  assumes "term_up kt" and "length numbuf = 100" and "0 \<notin> set fmt" and "formatted mem fmt args = Some out"
    and "length out < 4294967296"
  obtains kt' where "kterm_printf mem numbuf fmt args kt = Inr kt'" "term_up kt'" "screen kt' = show_text out (screen kt)"
  by (rule vioprintf_shows [OF assms], rule that) (simp_all add: kterm_printf_def iopipe_printf_def)

text \<open>The length of a numeral of a 32-bit word.\<close>

lemma length_dec_text: "n < 18446744073709551616 \<Longrightarrow> length (dec_text n) \<le> 20"
  using u64_digits(1) [of n] unfolding dec_text_def numeral_text_def length_map .

lemma length_ptr_text: "length (ptr_text w) \<le> 18"
proof -
  have "length (base_digits 16 (unat w)) \<le> 16" using unat_u32_lt [of w] by (intro u64_digits(2)) linarith
  then show ?thesis unfolding ptr_text_def numeral_text_def length_append length_map bytes_def by simp
qed

text \<open>Messages with one number.\<close>

lemma formatted_one:
  assumes "ch CHR ''%'' \<notin> set pre" and "unat w < 2147483648"
  shows "formatted mem (pre @ [ch CHR ''%'', ch CHR ''d'', 10]) [w] = Some (pre @ dec_text (unat w) @ [10])"
  using assms by (simp add: format_simps format_newline)

lemma message_one:
  assumes "term_up kt" and "length numbuf = 100" and "ch CHR ''%'' \<notin> set pre" and "0 \<notin> set pre" and "length pre < 100"
    and "unat w < 2147483648"
  obtains kt' where "message numbuf (pre @ [ch CHR ''%'', ch CHR ''d'', 10]) [w] kt = Inr kt'" "term_up kt'"
    "screen kt' = show_text (pre @ dec_text (unat w) @ [10]) (screen kt)"
proof (rule message_ok [OF assms(1,2) _ formatted_one [OF assms(3,6)]])
  show "0 \<notin> set (pre @ [ch CHR ''%'', ch CHR ''d'', 10])" using assms(4) by (simp add: ch_def)
  show "length (pre @ dec_text (unat w) @ [10]) < 4294967296" using assms(5) length_dec_text [of "unat w"] assms(6) by simp
qed (rule that)

section \<open>Properties\<close>

text \<open>C31. The end of a run. On the initialised terminal \<^verbatim>\<open>panic\<close> shows ''panic: '', the text
  its format and arguments stand for and a new line, and halts the processor.
  \<^verbatim>\<open>__kernel_assert\<close> returns at once when its condition is not zero; otherwise it shows
  ''assertion failed: '' with the text of the assertion, and halts.\<close>

theorem panic_shows_and_halts:
  assumes "term_up kt" and "length numbuf = 100"
    and "0 \<notin> set fmt" and "formatted mem fmt args = Some out" and "length out < 4294967296"
    and "a \<noteq> 0" and "string_in_memory mem a = Inr str" and "length str < 4294967000"
  shows "(\<exists>kt'. panic mem numbuf fmt args kt = Inr (Halted kt') \<and> term_up kt' \<and>
      screen kt' = show_text (bytes ''panic: '' @ out @ [10]) (screen kt)) \<and>
    (\<exists>kt'. kernel_assert mem numbuf 0 a kt = Inr (Halted kt') \<and> term_up kt' \<and>
      screen kt' = show_text (bytes ''assertion failed: '' @ str @ [10]) (screen kt)) \<and>
    (i \<noteq> 0 \<longrightarrow> kernel_assert mem numbuf i a kt = Inr (Running kt))"
proof -
  have pre: "formatted mem (bytes ''panic: '') [] = Some (bytes ''panic: '')" "0 \<notin> set (bytes ''panic: '')"
    using formatted_text [of "bytes ''panic: ''" mem "[]" "[]"] by (simp_all add: bytes_def ch_def format_simps)
  have nl: "formatted mem [10] [] = Some [10]" by (simp add: format_simps format_newline)
  obtain k1 where k1: "kterm_printf mem numbuf (bytes ''panic: '') [] kt = Inr k1" "term_up k1"
    "screen k1 = show_text (bytes ''panic: '') (screen kt)"
    using kterm_printf_ok [OF assms(1,2) pre(2,1)] by (auto simp: bytes_def)
  obtain dev where d: "iopipe_vioprintf (pipe_ops (kterm_instance k1)) (kterm_device k1) mem numbuf fmt args =
      Inr (of_nat (length out), dev)" "term_up (k1\<lparr>kterm_device := dev\<rparr>)"
    "screen (k1\<lparr>kterm_device := dev\<rparr>) = show_text out (screen k1)"
    using vioprintf_shows [OF k1(2) assms(2-5)] .
  obtain k2 where k2: "kterm_printf mem numbuf [10] [] (k1\<lparr>kterm_device := dev\<rparr>) = Inr k2" "term_up k2"
    "screen k2 = show_text [10] (screen (k1\<lparr>kterm_device := dev\<rparr>))"
    using kterm_printf_ok [OF d(2) assms(2) _ nl] by auto
  have 1: "panic mem numbuf fmt args kt = Inr (Halted k2)"
    using k1(1) d(1) k2(1) by (simp add: panic_def abort_def arch_halt_def)
  have "bytes ''assertion failed: %s'' @ [10] = bytes ''assertion failed: '' @ [ch CHR ''%'', ch CHR ''s'', 10]"
    by (simp add: bytes_def)
  moreover have "formatted mem (bytes ''assertion failed: '' @ [ch CHR ''%'', ch CHR ''s'', 10]) [a] =
      Some (bytes ''assertion failed: '' @ str @ [10])"
    by (subst formatted_text, simp add: bytes_def ch_def, subst formatted_s [OF assms(6,7)], simp add: format_simps format_newline)
  ultimately have f: "formatted mem (bytes ''assertion failed: %s'' @ [10]) [a] = Some (bytes ''assertion failed: '' @ str @ [10])"
    by simp
  obtain k3 where k3: "kterm_printf mem numbuf (bytes ''assertion failed: %s'' @ [10]) [a] kt = Inr k3" "term_up k3"
    "screen k3 = show_text (bytes ''assertion failed: '' @ str @ [10]) (screen kt)"
    using kterm_printf_ok [OF assms(1,2) _ f] assms(8) by (auto simp: bytes_def ch_def)
  show ?thesis
    using 1 k1(3) d(3) k2 k3
    by (simp add: show_text_append kernel_assert_def abort_def arch_halt_def)
qed

definition assert_text :: "u32 \<Rightarrow> u8" where
  "assert_text p = (if p = 0x1000 then ch CHR ''x'' else 0)"

theorem panic_shows_and_halts_witness:
  "\<exists>kt'. panic assert_text (replicate 100 7) (bytes ''zinit'') [] boot_kterm = Inr (Halted kt') \<and>
     screen kt' = show_text (bytes ''panic: zinit'' @ [10]) (screen boot_kterm)"
proof -
  have s: "string_in_memory assert_text 0x1000 = Inr [ch CHR ''x'']"
    by (simp add: string_in_memory_def strlen_def strlen_loop.simps assert_text_def ch_def)
  have f: "formatted assert_text (bytes ''zinit'') [] = Some (bytes ''zinit'')" by code_simp
  have l: "length (replicate 100 (7 :: u8)) = 100" "0 \<notin> set (bytes ''zinit'')" "length (bytes ''zinit'') < 4294967296"
    by (simp_all add: bytes_def ch_def)
  have "bytes ''panic: zinit'' = bytes ''panic: '' @ bytes ''zinit''" by (simp add: bytes_def)
  then show ?thesis using panic_shows_and_halts [OF boot_kterm_up l(1,2) f l(3) _ s] by auto
qed

end
