(* ===== verification/Vm_Regions.thy ===== *)
theory Vm_Regions
  imports Linked_Ring X86_Mmu Kern_Message
begin

text \<open>
  Virtual memory above the MMU: dataspaces (\<open>system/vm/dataspace.c\<close>), region mappers
  (\<open>system/vm/region_mapper.c\<close>), protection domains (\<open>system/vm/protection_domain.c\<close>) and
  the page fault path (\<open>system/vm/rm_pager.c\<close>), with their headers under
  \<open>system/include/vm\<close>.

  Region mappers, region mapper objects and dataspaces are named by numbers; the static
  \<^verbatim>\<open>kernel_rm\<close> is mapper 0, \<^verbatim>\<open>kernel_rmos[i]\<close> is object \<open>i\<close> and
  \<^verbatim>\<open>kernel_rmodss[i]\<close> is dataspace \<open>i\<close>. The list nodes embedded in mappers and objects are
  addresses of one store of links; \<^verbatim>\<open>containerof\<close> takes an object's node back to the object.
  An untyped pointer \<^verbatim>\<open>void*\<close> is a \<open>vm_object\<close>; using it at the wrong type is undefined.
  Protection domains are named by their address. The terminal the messages go to is part of the
  state (\<open>vm_term\<close>, with \<open>vm_numbuf\<close> for what the uninitialised number buffer holds).
\<close>

section \<open>State\<close>

datatype vm_node = Rm_Childs nat | Rmo_Member nat

datatype vm_object = Obj_Dataspace nat | Obj_Region_Mapper nat

record dataspace =
  ds_lock :: kspinlock_t
  ds_n_pages :: u32
  ds_refc :: u32
  ds_size :: vaddr
  ds_pages :: "paddr list"

record region_mapper =
  rm_size :: vaddr
  rm_refc :: u32
  rm_lock :: kspinlock_t

record region_mapper_object =
  rmo_offset :: vaddr
  rmo_size :: vaddr
  rmo_object :: "vm_object option"
  rmo_type :: nat
  rmo_static :: bool

record protection_domain =
  pd_begin :: vaddr
  pd_end :: vaddr
  pd_pmap :: "nat option"
  pd_refc :: u32
  pd_lock :: kspinlock_t
  pd_refclock :: kspinlock_t

record page_fault =
  pf_offset :: vaddr
  pf_ptr :: vaddr
  pf_size :: vaddr
  pf_type :: u16

record vm_state =
  vm_links :: "vm_node links"
  rms :: "nat \<Rightarrow> region_mapper"
  rmos :: "nat \<Rightarrow> region_mapper_object"
  dss :: "nat \<Rightarrow> dataspace"
  kernel_lock :: kspinlock_t
  kernel_rmoi :: u32
  pds :: "u32 \<Rightarrow> protection_domain"
  kernel_pd :: u32
  vm_pmap :: pmap
  vm_mmu :: mmu_state
  vm_phys :: phys_state
  vm_term :: kterm
  vm_numbuf :: "u8 list"

definition RMO_UNDEFINED :: nat where "RMO_UNDEFINED = 0"
definition RMO_DATASPACE :: nat where "RMO_DATASPACE = 1"
definition RMO_REGION_MAPPER :: nat where "RMO_REGION_MAPPER = 2"

definition VM_OK :: int where "VM_OK = 0"
definition VM_FAILURE :: int where "VM_FAILURE = 1"
definition VM_SEGFAULT :: int where "VM_SEGFAULT = 2"
definition VM_AGAIN :: int where "VM_AGAIN = 3"

definition SYSARCH_PAGESIZE :: u32 where "SYSARCH_PAGESIZE = 0x1000"
definition N_RMOS :: nat where "N_RMOS = 4"
definition KERNEL_RM :: nat where "KERNEL_RM = 0"
definition KERNEL_PMAP :: nat where "KERNEL_PMAP = 0"

definition ROUND_DOWN :: "u32 \<Rightarrow> u32" where
  "ROUND_DOWN x = x AND NOT 0xFFF"

definition upd_rmo :: "nat \<Rightarrow> (region_mapper_object \<Rightarrow> region_mapper_object) \<Rightarrow> vm_state \<Rightarrow> vm_state" where
  "upd_rmo r f s = s\<lparr>rmos := (rmos s)(r := f (rmos s r))\<rparr>"

definition upd_ds :: "nat \<Rightarrow> (dataspace \<Rightarrow> dataspace) \<Rightarrow> vm_state \<Rightarrow> vm_state" where
  "upd_ds d f s = s\<lparr>dss := (dss s)(d := f (dss s d))\<rparr>"

definition upd_pd :: "u32 \<Rightarrow> (protection_domain \<Rightarrow> protection_domain) \<Rightarrow> vm_state \<Rightarrow> vm_state" where
  "upd_pd p f s = s\<lparr>pds := (pds s)(p := f (pds s p))\<rparr>"

definition vm_message :: "u8 list \<Rightarrow> u32 list \<Rightarrow> vm_state \<Rightarrow> vm_state res" where
  "vm_message fmt args s = rbind (message (vm_numbuf s) fmt args (vm_term s)) (\<lambda>kt. Inr (s\<lparr>vm_term := kt\<rparr>))"

section \<open>Dataspaces (dataspace.c)\<close>

definition sizeof_dataspace :: u32 where "sizeof_dataspace = 16"

text \<open>\<^verbatim>\<open>ds_n_pages\<close> is 27 bits wide; the clamp keeps it in range.\<close>

definition ds_construct :: "nat \<Rightarrow> vaddr \<Rightarrow> vm_state \<Rightarrow> vm_state" where
  "ds_construct d bufsize s =
     (let sz = bufsize - sizeof_dataspace;
          sz = sz div 4;
          sz = (if sz \<ge> push_bit 27 1 then push_bit 27 1 - 1 else sz)
      in upd_ds d (\<lambda>ds. ds\<lparr>ds_lock := kernlock_init (ds_lock ds), ds_n_pages := sz, ds_refc := 1, ds_size := 0\<rparr>) s)"

section \<open>Region mappers (region_mapper.c)\<close>

definition rm_construct :: "nat \<Rightarrow> vaddr \<Rightarrow> vm_state \<Rightarrow> vm_state res" where
  "rm_construct rm sz s =
     rbind (list_init (vm_links s) (Some (Rm_Childs rm))) (\<lambda>h.
     Inr (s\<lparr>vm_links := h, rms := (rms s)(rm := \<lparr>rm_size = sz, rm_refc = 1, rm_lock = 0\<rparr>)\<rparr>))"

definition rmo_construct :: "nat \<Rightarrow> vm_state \<Rightarrow> vm_state res" where
  "rmo_construct rmo s =
     rbind (list_clear (vm_links s) (Some (Rmo_Member rmo))) (\<lambda>h.
     Inr (upd_rmo rmo (\<lambda>r. r\<lparr>rmo_object := None, rmo_type := RMO_UNDEFINED, rmo_static := False\<rparr>)
       (s\<lparr>vm_links := h\<rparr>)))"

text \<open>The static dataspaces have room for 130 pages: their size is 16 + 4 * 130 bytes.\<close>

definition rm_kalloc :: "vm_state \<Rightarrow> (nat option \<times> vm_state) res" where
  "rm_kalloc s =
     rbind (kernlock_lock (kernel_lock s)) (\<lambda>l.
     let s = s\<lparr>kernel_lock := l\<rparr> in
     if unat (kernel_rmoi s) \<ge> N_RMOS then Inr (None, s)
     else
     let i = unat (kernel_rmoi s);
         s = s\<lparr>kernel_rmoi := kernel_rmoi s + 1\<rparr>
     in
     rbind (rmo_construct i s) (\<lambda>s.
     let s = ds_construct i 536 s;
         s = (if ds_n_pages (dss s i) > 128 then upd_ds i (\<lambda>d. d\<lparr>ds_n_pages := 128\<rparr>) s else s)
     in
     rbind (require (unat (ds_n_pages (dss s i)) \<le> length (ds_pages (dss s i))) Bad_Access) (\<lambda>_.
     let s = fold (\<lambda>k. upd_ds i (\<lambda>d. d\<lparr>ds_pages := (ds_pages d)[k := 0]\<rparr>)) [0..<unat (ds_n_pages (dss s i))] s;
         s = upd_ds i (\<lambda>d. d\<lparr>ds_size := ds_n_pages d * SYSARCH_PAGESIZE\<rparr>) s
     in
     rbind (vm_message (bytes ''Capacity: ds->ds_size %d'' @ [10]) [ds_size (dss s i)] s) (\<lambda>s.
     let s = upd_rmo i (\<lambda>r. r\<lparr>rmo_static := True, rmo_type := RMO_DATASPACE,
               rmo_object := Some (Obj_Dataspace i), rmo_size := ds_size (dss s i)\<rparr>) s
     in Inr (Some i, s\<lparr>kernel_lock := kernlock_unlock (kernel_lock s)\<rparr>)))))"

text \<open>\<^verbatim>\<open>containerof(node, struct region_mapper_object, rmo_member)\<close>, followed.\<close>

definition rmo_of_node :: "vm_node option \<Rightarrow> nat res" where
  "rmo_of_node node = (case node of None \<Rightarrow> Inl Null_Deref | Some (Rmo_Member r) \<Rightarrow> Inr r
     | Some (Rm_Childs r) \<Rightarrow> Inl Undefined)"

definition rm_place :: "vm_node \<Rightarrow> nat \<Rightarrow> vaddr \<Rightarrow> vm_state \<Rightarrow> (int \<times> vm_state) res" where
  "rm_place pos rmo b s =
     (let s = upd_rmo rmo (\<lambda>r. r\<lparr>rmo_offset := b\<rparr>) s in
      rbind (list_add_before (vm_links s) (Some pos) (Some (Rmo_Member rmo))) (\<lambda>h.
      Inr (-1, s\<lparr>vm_links := h\<rparr>)))"

text \<open>The loop over the list of children, from \<open>node\<close> on, and what follows it.
  \<^verbatim>\<open>list_push_tail\<close> on the head is \<^verbatim>\<open>list_add_before\<close>.\<close>

partial_function (option) rm_insert_from ::
  "nat \<Rightarrow> nat \<Rightarrow> vm_node option \<Rightarrow> vaddr \<Rightarrow> vm_state \<Rightarrow> (int \<times> vm_state) res option" where
  "rm_insert_from rm rmo node b s =
     (if node = Some (Rm_Childs rm) then
        if b + rmo_size (rmos s rmo) > rm_size (rms s rm) then Some (Inr (0, s))
        else Some (rm_place (Rm_Childs rm) rmo b s)
      else case rmo_of_node node of Inl e \<Rightarrow> Some (Inl e)
        | Inr ot \<Rightarrow>
          if b + rmo_size (rmos s rmo) > rmo_offset (rmos s ot)
          then rm_insert_from rm rmo (nextp (vm_links s) (Rmo_Member ot))
                 (rmo_offset (rmos s ot) + rmo_size (rmos s ot)) s
          else Some (rm_place (Rmo_Member ot) rmo b s))"

definition no_return :: "'a res option \<Rightarrow> 'a res" where
  "no_return r = (case r of None \<Rightarrow> Inl No_Return | Some x \<Rightarrow> x)"

definition rm_insert :: "nat \<Rightarrow> nat \<Rightarrow> vm_state \<Rightarrow> (int \<times> vm_state) res" where
  "rm_insert rm rmo s = no_return (rm_insert_from rm rmo (nextp (vm_links s) (Rm_Childs rm)) 0 s)"

definition rm_init :: "vm_state \<Rightarrow> vm_state res" where
  "rm_init s =
     (let (start, e) = pmap_get_address_range (vm_pmap s);
          s = s\<lparr>kernel_lock := kernlock_init (kernel_lock s), kernel_rmoi := 0\<rparr>;
          e = ROUND_DOWN e;
          e = e - start;
          e = e + SYSARCH_PAGESIZE
      in
      rbind (rm_construct KERNEL_RM e s) (\<lambda>s.
      rbind (rm_kalloc s) (\<lambda>(rmo, s).
      rbind (deref rmo) (\<lambda>rmo.
      rbind (rm_insert KERNEL_RM rmo s) (\<lambda>(_, s). Inr s)))))"

text \<open>The lookup returns the object and changes the fault and the type when it finds a region;
  a null object leaves both as they were.\<close>

partial_function (option) rm_lookup_from ::
  "nat \<Rightarrow> vm_node option \<Rightarrow> page_fault \<Rightarrow> nat \<Rightarrow> vm_state \<Rightarrow> (vm_object option \<times> page_fault \<times> nat) res option" where
  "rm_lookup_from rm node f ty s =
     (if node = Some (Rm_Childs rm) then Some (Inr (None, f, ty))
      else case rmo_of_node node of Inl e \<Rightarrow> Some (Inl e)
        | Inr ot \<Rightarrow>
          let ob = rmos s ot in
          if pf_ptr f < rmo_offset ob then Some (Inr (None, f, ty))
          else if pf_ptr f < rmo_offset ob + rmo_size ob then
            if rmo_type ob = RMO_UNDEFINED then Some (Inr (None, f, ty))
            else
              let f = f\<lparr>pf_ptr := pf_ptr f - rmo_offset ob, pf_size := pf_size f - rmo_offset ob,
                        pf_offset := pf_offset f + rmo_offset ob\<rparr>;
                  f = (if pf_size f > rmo_size ob then f\<lparr>pf_size := rmo_size ob\<rparr> else f)
              in Some (Inr (rmo_object ob, f, rmo_type ob))
          else rm_lookup_from rm (nextp (vm_links s) (Rmo_Member ot)) f ty s)"

definition rm_ll_lookup ::
  "vm_object option \<Rightarrow> page_fault \<Rightarrow> nat \<Rightarrow> vm_state \<Rightarrow> (vm_object option \<times> page_fault \<times> nat) res" where
  "rm_ll_lookup ob f ty s =
     (case ob of None \<Rightarrow> Inl Null_Deref
      | Some (Obj_Dataspace d) \<Rightarrow> Inl Undefined
      | Some (Obj_Region_Mapper rm) \<Rightarrow>
          no_return (rm_lookup_from rm (nextp (vm_links s) (Rm_Childs rm)) f ty s))"

section \<open>Protection domains (protection_domain.c)\<close>

definition pd_init :: "vm_state \<Rightarrow> vm_state" where
  "pd_init s =
     (let (start, e) = pmap_get_address_range (vm_pmap s) in
      upd_pd (kernel_pd s) (\<lambda>p. p\<lparr>pd_lock := 0, pd_refclock := 0, pd_pmap := Some KERNEL_PMAP,
        pd_begin := start, pd_end := e\<rparr>) s)"

definition pd_enter :: "u32 \<Rightarrow> vaddr \<Rightarrow> paddr \<Rightarrow> u16 \<Rightarrow> u16 \<Rightarrow> vm_state \<Rightarrow> (int \<times> vm_state) res" where
  "pd_enter pd va pa prot flags s =
     rbind (kernlock_lock (pd_lock (pds s pd))) (\<lambda>l.
     let s = upd_pd pd (\<lambda>p. p\<lparr>pd_lock := l\<rparr>) s in
     rbind (pmap_enter (pd_pmap (pds s pd) = Some KERNEL_PMAP) va pa prot flags (vm_mmu s)) (\<lambda>(ret, m).
     Inr (ret, upd_pd pd (\<lambda>p. p\<lparr>pd_lock := kernlock_unlock (pd_lock p)\<rparr>) (s\<lparr>vm_mmu := m\<rparr>))))"

definition pd_remove :: "u32 \<Rightarrow> vaddr \<Rightarrow> vaddr \<Rightarrow> vm_state \<Rightarrow> (int \<times> vm_state) res" where
  "pd_remove pd b e s =
     rbind (kernlock_lock (pd_lock (pds s pd))) (\<lambda>l.
     let s = upd_pd pd (\<lambda>p. p\<lparr>pd_lock := l\<rparr>) s;
         (ret, m) = pmap_remove b e (vm_mmu s)
     in Inr (ret, upd_pd pd (\<lambda>p. p\<lparr>pd_lock := kernlock_unlock (pd_lock p)\<rparr>) (s\<lparr>vm_mmu := m\<rparr>)))"

definition pd_grab :: "u32 \<Rightarrow> vm_state \<Rightarrow> vm_state res" where
  "pd_grab pd s =
     (if pd = kernel_pd s then Inr s
      else
      rbind (kernlock_lock (pd_refclock (pds s pd))) (\<lambda>l.
      Inr (upd_pd pd (\<lambda>p. p\<lparr>pd_refc := pd_refc p + 1, pd_refclock := kernlock_unlock l\<rparr>) s)))"

section \<open>Page faults (rm_pager.c)\<close>

fun dataspace_map_from ::
  "nat list \<Rightarrow> u32 \<Rightarrow> nat \<Rightarrow> vaddr \<Rightarrow> u16 \<Rightarrow> vm_state \<Rightarrow> vm_state res" where
  "dataspace_map_from [] pd ds base prot s = Inr s"
| "dataspace_map_from (i # is) pd ds base prot s =
     rbind (require (i < length (ds_pages (dss s ds))) Bad_Access) (\<lambda>_.
     rbind (pd_enter pd base (ds_pages (dss s ds) ! i) prot 0 s) (\<lambda>(_, s).
     dataspace_map_from is pd ds (base + SYSARCH_PAGESIZE) prot s))"

definition dataspace_map ::
  "u32 \<Rightarrow> vm_object option \<Rightarrow> vaddr \<Rightarrow> vaddr \<Rightarrow> u16 \<Rightarrow> vm_state \<Rightarrow> vm_state res" where
  "dataspace_map pd ob base sz prot s =
     (case ob of None \<Rightarrow> Inl Null_Deref | Some (Obj_Region_Mapper r) \<Rightarrow> Inl Undefined
      | Some (Obj_Dataspace d) \<Rightarrow>
        let sz = (if sz > ds_size (dss s d) then ds_size (dss s d) else sz);
            n = DIV_PAGESIZE sz;
            n = (if n > ds_n_pages (dss s d) then ds_n_pages (dss s d) else n)
        in dataspace_map_from [0..<unat n] pd d base prot s)"

definition rm_dispatch_pagefault ::
  "u32 \<Rightarrow> vm_object option \<Rightarrow> nat \<Rightarrow> page_fault \<Rightarrow> vm_state \<Rightarrow>
   (int \<times> vm_object option \<times> nat \<times> page_fault \<times> vm_state) res" where
  "rm_dispatch_pagefault pd ob ty f s =
     (if ty = RMO_UNDEFINED then Inr (VM_FAILURE, ob, ty, f, s)
      else if ty = RMO_DATASPACE then
        rbind (dataspace_map pd ob (pf_offset f) (pf_size f) (pf_type f) s) (\<lambda>s.
        Inr (VM_OK, ob, ty, f, s))
      else if ty = RMO_REGION_MAPPER then
        rbind (rm_ll_lookup ob f ty s) (\<lambda>(ob, f, ty). Inr (VM_AGAIN, ob, ty, f, s))
      else Inr (VM_FAILURE, ob, ty, f, s))"

partial_function (option) rm_pagefault_loop ::
  "u32 \<Rightarrow> vm_object option \<Rightarrow> nat \<Rightarrow> page_fault \<Rightarrow> vm_state \<Rightarrow> (int \<times> vm_state) res option" where
  "rm_pagefault_loop pd ob ty f s =
     (case rm_dispatch_pagefault pd ob ty f s of Inl e \<Rightarrow> Some (Inl e)
      | Inr (ret, ob, ty, f, s) \<Rightarrow>
          if ret = VM_AGAIN then rm_pagefault_loop pd ob ty f s else Some (Inr (ret, s)))"

definition rm_pagefault :: "u32 \<Rightarrow> nat \<Rightarrow> vaddr \<Rightarrow> u16 \<Rightarrow> vm_state \<Rightarrow> (int \<times> vm_state) res" where
  "rm_pagefault pd rm va fault_type s =
     (if va < pd_begin (pds s pd) then Inr (VM_SEGFAULT, s)
      else
      let b = pd_begin (pds s pd);
          f = \<lparr>pf_offset = b, pf_ptr = va - b, pf_size = pd_end (pds s pd) - b, pf_type = fault_type\<rparr>;
          f = f\<lparr>pf_size := ROUND_DOWN (pf_size f + (SYSARCH_PAGESIZE - 1))\<rparr>
      in if pf_ptr f \<ge> pf_size f then Inr (VM_SEGFAULT, s)
         else no_return (rm_pagefault_loop pd (Some (Obj_Region_Mapper rm)) RMO_REGION_MAPPER f s))"

section \<open>The regions of a mapper\<close>

definition off :: "(nat \<Rightarrow> region_mapper_object) \<Rightarrow> nat \<Rightarrow> nat" where
  "off f r = unat (rmo_offset (f r))"

definition sz :: "(nat \<Rightarrow> region_mapper_object) \<Rightarrow> nat \<Rightarrow> nat" where
  "sz f r = unat (rmo_size (f r))"

text \<open>The regions \<open>rs\<close> lie between \<open>lo\<close> and \<open>hi\<close>, in order, not empty and without overlap.\<close>

fun regions :: "(nat \<Rightarrow> region_mapper_object) \<Rightarrow> nat \<Rightarrow> nat list \<Rightarrow> nat \<Rightarrow> bool" where
  "regions f lo [] hi = (lo \<le> hi)"
| "regions f lo (r # rs) hi = (lo \<le> off f r \<and> 0 < sz f r \<and> regions f (off f r + sz f r) rs hi)"

definition rm_ok :: "vm_state \<Rightarrow> nat \<Rightarrow> nat list \<Rightarrow> bool" where
  "rm_ok s rm rs \<longleftrightarrow> ring (vm_links s) (Rm_Childs rm) (map Rmo_Member rs) \<and>
     regions (rmos s) 0 rs (unat (rm_size (rms s rm)))"

text \<open>A block of \<open>n\<close> bytes at \<open>x\<close> meets none of the regions.\<close>

definition clear_of :: "(nat \<Rightarrow> region_mapper_object) \<Rightarrow> nat list \<Rightarrow> nat \<Rightarrow> nat \<Rightarrow> bool" where
  "clear_of f rs x n \<longleftrightarrow> (\<forall>r\<in>set rs. x + n \<le> off f r \<or> off f r + sz f r \<le> x)"

text \<open>The reference for the search: the first gap, and the regions in front of it.\<close>

fun first_gap :: "(nat \<Rightarrow> region_mapper_object) \<Rightarrow> nat \<Rightarrow> nat list \<Rightarrow> nat \<Rightarrow> nat \<Rightarrow> (nat list \<times> nat) option" where
  "first_gap f lo [] hi n = (if lo + n \<le> hi then Some ([], lo) else None)"
| "first_gap f lo (r # rs) hi n =
     (if lo + n \<le> off f r then Some ([], lo)
      else map_option (\<lambda>(us, x). (r # us, x)) (first_gap f (off f r + sz f r) rs hi n))"

lemma regions_le: "regions f lo rs hi \<Longrightarrow> lo \<le> hi"
  by (induction f lo rs hi rule: regions.induct) auto

lemma regions_bounds: "regions f lo rs hi \<Longrightarrow> r \<in> set rs \<Longrightarrow> lo \<le> off f r \<and> off f r + sz f r \<le> hi \<and> 0 < sz f r"
proof (induction f lo rs hi rule: regions.induct)
  case (2 f lo q rs hi)
  then show ?case using regions_le [of f "off f q + sz f q" rs hi] by auto
qed simp

lemma regions_append:
  "regions f lo (us @ r # vs) hi \<longleftrightarrow> regions f lo us (off f r) \<and> 0 < sz f r \<and> regions f (off f r + sz f r) vs hi"
  by (induction us arbitrary: lo) auto

lemma regions_cong: "(\<And>r. r \<in> set rs \<Longrightarrow> off f r = off g r \<and> sz f r = sz g r) \<Longrightarrow> regions f lo rs hi = regions g lo rs hi"
  by (induction rs arbitrary: lo) auto

lemma first_gap_Some:
  assumes "regions f lo rs hi" and "first_gap f lo rs hi n = Some (us, x)"
  shows "(\<exists>vs. rs = us @ vs \<and> regions f lo us x \<and> (case vs of [] \<Rightarrow> x + n \<le> hi | r # _ \<Rightarrow> x + n \<le> off f r) \<and>
      regions f (x + n) vs hi) \<and> (\<forall>y\<ge>lo. y + n \<le> hi \<and> clear_of f rs y n \<longrightarrow> x \<le> y)"
  using assms
proof (induction rs arbitrary: lo us x)
  case (Cons r rs)
  show ?case
  proof (cases "lo + n \<le> off f r")
    case True
    then show ?thesis using Cons.prems by auto
  next
    case False
    then obtain ws where w: "first_gap f (off f r + sz f r) rs hi n = Some (ws, x)" "us = r # ws"
      using Cons.prems(2) by auto
    have reg: "lo \<le> off f r" "0 < sz f r" "regions f (off f r + sz f r) rs hi" using Cons.prems(1) by simp_all
    note IH = Cons.IH [OF reg(3) w(1)]
    have "off f r + sz f r \<le> y" if "lo \<le> y" "clear_of f (r # rs) y n" for y
      using that False by (auto simp: clear_of_def)
    with IH have "\<forall>y\<ge>lo. y + n \<le> hi \<and> clear_of f (r # rs) y n \<longrightarrow> x \<le> y"
      by (auto simp: clear_of_def)
    moreover have "\<exists>vs. r # rs = us @ vs \<and> regions f lo us x \<and>
        (case vs of [] \<Rightarrow> x + n \<le> hi | r # _ \<Rightarrow> x + n \<le> off f r) \<and> regions f (x + n) vs hi"
      using IH reg w(2) by auto
    ultimately show ?thesis by blast
  qed
qed (auto split: if_splits)

lemma first_gap_None:
  assumes "regions f lo rs hi" and "first_gap f lo rs hi n = None"
  shows "\<forall>y\<ge>lo. y + n \<le> hi \<longrightarrow> \<not> clear_of f rs y n"
  using assms
proof (induction rs arbitrary: lo)
  case (Cons r rs)
  have nf: "\<not> lo + n \<le> off f r" "first_gap f (off f r + sz f r) rs hi n = None"
    using Cons.prems(2) by (auto split: if_splits)
  have reg: "regions f (off f r + sz f r) rs hi" using Cons.prems(1) by simp
  have "off f r + sz f r \<le> y" if "lo \<le> y" "clear_of f (r # rs) y n" for y
    using that nf by (auto simp: clear_of_def)
  with Cons.IH [OF reg nf(2)] show ?case by (auto simp: clear_of_def)
qed (auto split: if_splits)

text \<open>The loop computes the first gap.\<close>

lemma rm_insert_from_eq:
  assumes "ring (vm_links s) (Rm_Childs rm) (map Rmo_Member (ys @ zs))"
    and "regions (rmos s) (unat b) zs (unat (rm_size (rms s rm)))"
    and "unat (rm_size (rms s rm)) + sz (rmos s) rmo < 4294967296"
  shows "rm_insert_from rm rmo (Some (hd (map Rmo_Member zs @ [Rm_Childs rm]))) b s =
    Some (case first_gap (rmos s) (unat b) zs (unat (rm_size (rms s rm))) (sz (rmos s) rmo) of
        None \<Rightarrow> Inr (0, s)
      | Some (us, x) \<Rightarrow> rm_place (hd (map Rmo_Member (drop (length us) zs) @ [Rm_Childs rm])) rmo (of_nat x) s)"
  using assms
proof (induction zs arbitrary: ys b)
  case Nil
  have "unat (b + rmo_size (rmos s rmo)) = unat b + sz (rmos s) rmo"
    using Nil by (simp add: sz_def unat_add_u32)
  then show ?case
    by (subst rm_insert_from.simps) (simp add: word_less_nat_alt)
next
  case (Cons r zs)
  have le: "unat b \<le> unat (rm_size (rms s rm))" by (rule regions_le [OF Cons.prems(2)])
  then have e: "unat (b + rmo_size (rmos s rmo)) = unat b + sz (rmos s) rmo"
    using Cons.prems by (simp add: sz_def unat_add_u32)
  show ?case
  proof (cases "unat b + sz (rmos s) rmo \<le> off (rmos s) r")
    case True
    then have "\<not> b + rmo_size (rmos s rmo) > rmo_offset (rmos s r)"
      by (simp add: word_less_nat_alt e off_def)
    with True show ?thesis by (subst rm_insert_from.simps) (simp add: rmo_of_node_def)
  next
    case False
    then have gt: "b + rmo_size (rmos s rmo) > rmo_offset (rmos s r)"
      by (simp add: word_less_nat_alt e off_def)
    let ?b = "rmo_offset (rmos s r) + rmo_size (rmos s r)"
    have reg: "regions (rmos s) (off (rmos s) r + sz (rmos s) r) zs (unat (rm_size (rms s rm)))"
      using Cons.prems(2) by simp
    have "unat ?b = off (rmos s) r + sz (rmos s) r"
      using regions_le [OF reg] unat_u32_lt [of "rm_size (rms s rm)"]
      by (simp add: off_def sz_def unat_add_u32)
    moreover have "ring (vm_links s) (Rm_Childs rm) (map Rmo_Member ((ys @ [r]) @ zs))"
      using Cons.prems(1) by simp
    moreover have "nextp (vm_links s) (Rmo_Member r) = Some (hd (map Rmo_Member zs @ [Rm_Childs rm]))"
      using ring_inner(2) [of "vm_links s" "Rm_Childs rm" "map Rmo_Member ys" "Rmo_Member r" "map Rmo_Member zs"]
        Cons.prems(1) by simp
    ultimately show ?thesis
      using Cons.IH [of "ys @ [r]" ?b] reg Cons.prems(3) False gt
      by (subst rm_insert_from.simps) (simp add: rmo_of_node_def split: option.split)
  qed
qed

lemma rm_place_ok:
  assumes "ring (vm_links s) (Rm_Childs rm) (map Rmo_Member (us @ vs))" and "rmo \<notin> set (us @ vs)"
  shows "\<exists>s'. rm_place (hd (map Rmo_Member vs @ [Rm_Childs rm])) rmo b s = Inr (-1, s') \<and>
    ring (vm_links s') (Rm_Childs rm) (map Rmo_Member (us @ rmo # vs)) \<and>
    s' = s\<lparr>vm_links := vm_links s', rmos := (rmos s)(rmo := (rmos s rmo)\<lparr>rmo_offset := b\<rparr>)\<rparr>"
proof -
  let ?pos = "hd (map Rmo_Member vs @ [Rm_Childs rm])"
  have "\<exists>h'. linked_ring_insert (vm_links s) (Some ?pos) (Some (Rmo_Member rmo)) False = Inr h' \<and>
      ring h' (Rm_Childs rm) (map Rmo_Member (us @ rmo # vs))"
  proof (cases vs)
    case Nil
    with assms show ?thesis
      using linked_ring_insert_ok [of "vm_links s" "Rm_Childs rm" "map Rmo_Member us" "Rmo_Member rmo" False]
      by auto
  next
    case (Cons v ws)
    with assms show ?thesis
      using linked_ring_insert_before [of "vm_links s" "Rm_Childs rm" "map Rmo_Member us" "Rmo_Member v"
          "map Rmo_Member ws" "Rmo_Member rmo"] by auto
  qed
  then obtain h' where h: "linked_ring_insert (vm_links s) (Some ?pos) (Some (Rmo_Member rmo)) False = Inr h'"
    "ring h' (Rm_Childs rm) (map Rmo_Member (us @ rmo # vs))" by blast
  let ?s = "s\<lparr>vm_links := h', rmos := (rmos s)(rmo := (rmos s rmo)\<lparr>rmo_offset := b\<rparr>)\<rparr>"
  have "rm_place ?pos rmo b s = Inr (-1, ?s)"
    using h(1) by (simp add: rm_place_def upd_rmo_def list_add_before_eq)
  with h(2) show ?thesis by (intro exI [of _ ?s]) simp
qed

lemma rm_insert_ok:
  assumes ok: "rm_ok s rm rs" and new: "rmo \<notin> set rs" and pos: "0 < sz (rmos s) rmo"
    and nowrap: "unat (rm_size (rms s rm)) + sz (rmos s) rmo < 4294967296"
  shows "(\<exists>us vs x s'. rs = us @ vs \<and> rm_insert rm rmo s = Inr (-1, s') \<and> rm_ok s' rm (us @ rmo # vs) \<and>
      s' = s\<lparr>vm_links := vm_links s', rmos := (rmos s)(rmo := (rmos s rmo)\<lparr>rmo_offset := of_nat x\<rparr>)\<rparr> \<and>
      off (rmos s') rmo = x \<and>
      x + sz (rmos s) rmo \<le> unat (rm_size (rms s rm)) \<and>
      (\<forall>y. y + sz (rmos s) rmo \<le> unat (rm_size (rms s rm)) \<and> clear_of (rmos s) rs y (sz (rmos s) rmo) \<longrightarrow> x \<le> y)) \<or>
    (rm_insert rm rmo s = Inr (0, s) \<and>
     (\<forall>y. y + sz (rmos s) rmo \<le> unat (rm_size (rms s rm)) \<longrightarrow> \<not> clear_of (rmos s) rs y (sz (rmos s) rmo)))"
proof -
  let ?hi = "unat (rm_size (rms s rm))" and ?n = "sz (rmos s) rmo" and ?f = "rmos s"
  have ring: "ring (vm_links s) (Rm_Childs rm) (map Rmo_Member ([] @ rs))" and reg: "regions ?f 0 rs ?hi"
    using ok by (simp_all add: rm_ok_def)
  have run: "rm_insert rm rmo s = (case first_gap ?f 0 rs ?hi ?n of None \<Rightarrow> Inr (0, s)
      | Some (us, x) \<Rightarrow> rm_place (hd (map Rmo_Member (drop (length us) rs) @ [Rm_Childs rm])) rmo (of_nat x) s)"
    using rm_insert_from_eq [OF ring _ nowrap, of 0] reg ring_neighbours(1) [OF ring]
    by (simp add: rm_insert_def no_return_def)
  show ?thesis
  proof (cases "first_gap ?f 0 rs ?hi ?n")
    case None
    with run first_gap_None [OF reg None] show ?thesis by simp
  next
    case (Some p)
    obtain us x where p: "p = (us, x)" by (cases p)
    from first_gap_Some [OF reg Some [unfolded p]] obtain vs where vs: "rs = us @ vs" "regions ?f 0 us x"
      "case vs of [] \<Rightarrow> x + ?n \<le> ?hi | r # _ \<Rightarrow> x + ?n \<le> off ?f r" "regions ?f (x + ?n) vs ?hi"
      and least: "\<forall>y\<ge>0. y + ?n \<le> ?hi \<and> clear_of ?f rs y ?n \<longrightarrow> x \<le> y" by blast
    have hi: "x + ?n \<le> ?hi" using regions_le [OF vs(4)] .
    from rm_place_ok [of s rm us vs rmo "of_nat x"] ring vs(1) new obtain s' where
      s': "rm_place (hd (map Rmo_Member vs @ [Rm_Childs rm])) rmo (of_nat x) s = Inr (-1, s')"
      "ring (vm_links s') (Rm_Childs rm) (map Rmo_Member (us @ rmo # vs))"
      "s' = s\<lparr>vm_links := vm_links s', rmos := ?f(rmo := (?f rmo)\<lparr>rmo_offset := of_nat x\<rparr>)\<rparr>" by auto
    have f': "rmos s' = ?f(rmo := (?f rmo)\<lparr>rmo_offset := of_nat x\<rparr>)" "rms s' = rms s"
      using arg_cong [OF s'(3), of rmos] arg_cong [OF s'(3), of rms] by simp_all
    have x: "off (rmos s') rmo = x" "sz (rmos s') rmo = ?n"
      using hi unat_u32_lt [of "rm_size (rms s rm)"] by (simp_all add: f' off_def sz_def unat_of_nat_u32)
    have same: "off (rmos s') r = off ?f r \<and> sz (rmos s') r = sz ?f r" if "r \<in> set rs" for r
      using that new by (auto simp: f' off_def sz_def)
    have "regions (rmos s') 0 us x" "regions (rmos s') (x + ?n) vs ?hi"
      using vs(1,2,4) same by (simp_all cong: regions_cong)
    then have "rm_ok s' rm (us @ rmo # vs)"
      using s'(2) x pos by (simp add: rm_ok_def regions_append f')
    moreover have "rm_insert rm rmo s = Inr (-1, s')" using run Some p vs(1) s'(1) by simp
    moreover have "\<forall>y. y + ?n \<le> ?hi \<and> clear_of ?f rs y ?n \<longrightarrow> x \<le> y" using least by simp
    ultimately show ?thesis
      using s'(3) x(1) hi by (intro disjI1 exI [of _ us] exI [of _ vs] exI [of _ x] exI [of _ s'] conjI vs(1))
  qed
qed

section \<open>Looking up a region\<close>

definition in_region :: "(nat \<Rightarrow> region_mapper_object) \<Rightarrow> nat \<Rightarrow> nat \<Rightarrow> bool" where
  "in_region f p r \<longleftrightarrow> off f r \<le> p \<and> p < off f r + sz f r"

text \<open>What a hit makes of the fault: the pointer becomes relative to the region, the offset its
  start, and the size is cut to the region.\<close>

definition narrow :: "region_mapper_object \<Rightarrow> page_fault \<Rightarrow> page_fault" where
  "narrow r f = f\<lparr>pf_ptr := pf_ptr f - rmo_offset r, pf_offset := pf_offset f + rmo_offset r,
     pf_size := min (pf_size f - rmo_offset r) (rmo_size r)\<rparr>"

lemma in_region_unique:
  assumes "regions f lo rs hi" and "r \<in> set rs" and "q \<in> set rs" and "in_region f p r" and "in_region f p q"
  shows "r = q"
  using assms
proof (induction f lo rs hi rule: regions.induct)
  case (2 f lo a rs hi)
  have "off f a + sz f a \<le> off f b" if "b \<in> set rs" for b
    using regions_bounds [of f "off f a + sz f a" rs hi b] 2(2) that by simp
  with 2 show ?case by (fastforce simp: in_region_def)
qed simp

lemma rm_lookup_from_eq:
  assumes "ring (vm_links s) (Rm_Childs rm) (map Rmo_Member (ys @ zs))"
    and "regions (rmos s) lo zs (unat (rm_size (rms s rm)))"
  shows "rm_lookup_from rm (Some (hd (map Rmo_Member zs @ [Rm_Childs rm]))) f ty s =
    Some (Inr (case find (in_region (rmos s) (unat (pf_ptr f))) zs of None \<Rightarrow> (None, f, ty)
      | Some r \<Rightarrow> if rmo_type (rmos s r) = RMO_UNDEFINED then (None, f, ty)
          else (rmo_object (rmos s r), narrow (rmos s r) f, rmo_type (rmos s r))))"
  using assms
proof (induction zs arbitrary: ys lo)
  case Nil
  then show ?case by (subst rm_lookup_from.simps) simp
next
  case (Cons r zs)
  let ?p = "unat (pf_ptr f)" and ?f = "rmos s"
  have reg: "regions ?f (off ?f r + sz ?f r) zs (unat (rm_size (rms s rm)))" using Cons.prems(2) by simp
  have e: "unat (rmo_offset (?f r) + rmo_size (?f r)) = off ?f r + sz ?f r"
    using regions_le [OF reg] unat_u32_lt [of "rm_size (rms s rm)"] by (simp add: off_def sz_def unat_add_u32)
  consider (before) "?p < off ?f r" | (hit) "in_region ?f ?p r" | (after) "off ?f r + sz ?f r \<le> ?p"
    unfolding in_region_def by linarith
  then show ?case
  proof cases
    case before
    have "\<not> in_region ?f ?p q" if "q \<in> set (r # zs)" for q
      using before that regions_bounds [OF reg, of q] by (auto simp: in_region_def)
    then have "find (in_region ?f ?p) (r # zs) = None" unfolding find_None_iff by blast
    moreover have "pf_ptr f < rmo_offset (?f r)" using before by (simp add: word_less_nat_alt off_def)
    ultimately show ?thesis by (subst rm_lookup_from.simps) (simp add: rmo_of_node_def)
  next
    case hit
    have "\<not> pf_ptr f < rmo_offset (?f r)" "pf_ptr f < rmo_offset (?f r) + rmo_size (?f r)"
      using hit by (simp_all add: word_less_nat_alt e in_region_def) (simp add: off_def)
    with hit show ?thesis
      by (subst rm_lookup_from.simps) (simp add: rmo_of_node_def narrow_def Let_def min_def not_le)
  next
    case after
    then have ne: "\<not> pf_ptr f < rmo_offset (?f r)" "\<not> pf_ptr f < rmo_offset (?f r) + rmo_size (?f r)"
      by (simp_all add: word_less_nat_alt e) (simp add: off_def)
    have "\<not> in_region ?f ?p r" using after by (simp add: in_region_def)
    moreover have "nextp (vm_links s) (Rmo_Member r) = Some (hd (map Rmo_Member zs @ [Rm_Childs rm]))"
      using ring_inner(2) [of "vm_links s" "Rm_Childs rm" "map Rmo_Member ys" "Rmo_Member r" "map Rmo_Member zs"]
        Cons.prems(1) by simp
    moreover have "ring (vm_links s) (Rm_Childs rm) (map Rmo_Member ((ys @ [r]) @ zs))" using Cons.prems(1) by simp
    note IH = Cons.IH [OF this reg]
    ultimately show ?thesis
      using IH ne by (subst rm_lookup_from.simps) (simp add: rmo_of_node_def)
  qed
qed

lemma rm_ll_lookup_eq:
  assumes "rm_ok s rm rs"
  shows "rm_ll_lookup (Some (Obj_Region_Mapper rm)) f ty s =
    Inr (case find (in_region (rmos s) (unat (pf_ptr f))) rs of None \<Rightarrow> (None, f, ty)
      | Some r \<Rightarrow> if rmo_type (rmos s r) = RMO_UNDEFINED then (None, f, ty)
          else (rmo_object (rmos s r), narrow (rmos s r) f, rmo_type (rmos s r)))"
proof -
  have r: "ring (vm_links s) (Rm_Childs rm) (map Rmo_Member ([] @ rs))" using assms by (simp add: rm_ok_def)
  have "regions (rmos s) 0 rs (unat (rm_size (rms s rm)))" using assms by (simp add: rm_ok_def)
  from rm_lookup_from_eq [OF r this] ring_neighbours(1) [OF r] show ?thesis
    by (simp add: rm_ll_lookup_def no_return_def)
qed

section \<open>Mapping a dataspace\<close>

definition pd_ready :: "vm_state \<Rightarrow> u32 \<Rightarrow> bool" where
  "pd_ready s pd \<longleftrightarrow> pd_lock (pds s pd) = 0 \<and> pd_pmap (pds s pd) = Some KERNEL_PMAP \<and> mmu_ready (vm_mmu s)"

lemma pd_enter_eq:
  assumes "pd_ready s pd" and "0xC1000000 \<le> va" and "kernel_page_dir (vm_mmu s) ! PDX va \<noteq> 0"
  shows "pd_enter pd va pa prot flags s = Inr (0, s\<lparr>vm_mmu := enter_pte va pa prot (vm_mmu s)\<rparr>)"
proof -
  have "(pds s)(pd := (pds s pd)\<lparr>pd_lock := 0\<rparr>) = pds s" using assms(1) by (auto simp: pd_ready_def fun_eq_iff)
  moreover have "pmap_enter True va pa prot flags (vm_mmu s) = Inr (0, enter_pte va pa prot (vm_mmu s))"
    using assms by (intro pmap_enter_pte) (simp_all add: pd_ready_def)
  ultimately show ?thesis
    using assms(1) by (cases s) (simp add: pd_enter_def pd_ready_def upd_pd_def Let_def)
qed

lemma pd_ready_frame [simp]: "pd_ready (s\<lparr>vm_mmu := enter_pages va ps prot (vm_mmu s)\<rparr>) pd = pd_ready s pd"
  "pd_ready (s\<lparr>vm_mmu := enter_pte va pa prot (vm_mmu s)\<rparr>) pd = pd_ready s pd"
  by (simp_all add: pd_ready_def)

lemma dataspace_map_from_eq:
  assumes "pd_ready s pd" and "mappable (vm_mmu s) base (length is)"
    and "\<forall>i\<in>set is. i < length (ds_pages (dss s d))"
  shows "dataspace_map_from is pd d base prot s =
    Inr (s\<lparr>vm_mmu := enter_pages base (map (\<lambda>i. ds_pages (dss s d) ! i) is) prot (vm_mmu s)\<rparr>)"
  using assms
proof (induction "is" arbitrary: base s)
  case (Cons i "is")
  have mp: "mappable (vm_mmu s) base (Suc (length is))" using Cons.prems(2) by simp
  note d = mappable_Suc [OF mp]
  let ?s = "s\<lparr>vm_mmu := enter_pte base (ds_pages (dss s d) ! i) prot (vm_mmu s)\<rparr>"
  have "dataspace_map_from is pd d (base + 0x1000) prot ?s =
      Inr (?s\<lparr>vm_mmu := enter_pages (base + 0x1000) (map (\<lambda>i. ds_pages (dss ?s d) ! i) is) prot (vm_mmu ?s)\<rparr>)"
    using Cons.prems d by (intro Cons.IH) simp_all
  then show ?case
    using Cons.prems(3) pd_enter_eq [OF Cons.prems(1) d(1,2)] by (simp add: SYSARCH_PAGESIZE_def)
qed simp

text \<open>A region that holds a whole dataspace, as \<^verbatim>\<open>rm_kalloc\<close> makes them.\<close>

definition ds_region :: "vm_state \<Rightarrow> nat \<Rightarrow> nat \<Rightarrow> bool" where
  "ds_region s r d \<longleftrightarrow> rmo_type (rmos s r) = RMO_DATASPACE \<and> rmo_object (rmos s r) = Some (Obj_Dataspace d) \<and>
     rmo_size (rmos s r) = ds_size (dss s d) \<and> sz (rmos s) r = 4096 * unat (ds_n_pages (dss s d)) \<and>
     unat (ds_n_pages (dss s d)) \<le> length (ds_pages (dss s d))"

lemma dataspace_map_eq:
  assumes "pd_ready s pd" and "ds_region s r d" and "mappable (vm_mmu s) base (unat (ds_n_pages (dss s d)))"
    and "sz (rmos s) r \<le> unat n"
  shows "dataspace_map pd (Some (Obj_Dataspace d)) base (min n (rmo_size (rmos s r))) prot s =
    Inr (s\<lparr>vm_mmu := enter_pages base (take (unat (ds_n_pages (dss s d))) (ds_pages (dss s d))) prot (vm_mmu s)\<rparr>)"
proof -
  let ?k = "unat (ds_n_pages (dss s d))"
  have size: "min n (rmo_size (rmos s r)) = ds_size (dss s d)"
    using assms(2,4) by (auto simp: ds_region_def sz_def min_def word_le_nat_alt word_unat_eq_iff)
  have "unat (DIV_PAGESIZE (ds_size (dss s d))) = ?k"
    using assms(2) by (auto simp: ds_region_def sz_def DIV_PAGESIZE_def drop_bit_eq_div unat_div)
  then have k: "DIV_PAGESIZE (ds_size (dss s d)) = ds_n_pages (dss s d)" by (simp add: word_unat_eq_iff)
  have "map (\<lambda>i. ds_pages (dss s d) ! i) [0..<?k] = take ?k (ds_pages (dss s d))"
    using assms(2) by (intro nth_equalityI) (auto simp: ds_region_def)
  moreover have "\<forall>i\<in>set [0..<?k]. i < length (ds_pages (dss s d))" using assms(2) by (auto simp: ds_region_def)
  ultimately show ?thesis
    using dataspace_map_from_eq [OF assms(1), of base "[0..<?k]" d prot] assms(3)
    by (simp add: dataspace_map_def size k Let_def)
qed

section \<open>Page faults\<close>

text \<open>The span of a domain, rounded up to whole pages, as the pager computes it.\<close>

definition pd_span :: "vm_state \<Rightarrow> u32 \<Rightarrow> u32" where
  "pd_span s pd = ROUND_DOWN (pd_end (pds s pd) - pd_begin (pds s pd) + 0xFFF)"

text \<open>The mapper covers the domain and all its regions are dataspaces that can be mapped.\<close>

definition flat_mapper :: "vm_state \<Rightarrow> u32 \<Rightarrow> nat \<Rightarrow> nat list \<Rightarrow> bool" where
  "flat_mapper s pd rm rs \<longleftrightarrow> rm_ok s rm rs \<and> pd_ready s pd \<and> rm_size (rms s rm) = pd_span s pd \<and>
     (\<forall>r\<in>set rs. \<exists>d. ds_region s r d \<and>
        mappable (vm_mmu s) (pd_begin (pds s pd) + rmo_offset (rmos s r)) (unat (ds_n_pages (dss s d))))"

lemma rm_pagefault_loop_simps:
  "rm_dispatch_pagefault pd ob ty f s = Inl e \<Longrightarrow> rm_pagefault_loop pd ob ty f s = Some (Inl e)"
  "rm_dispatch_pagefault pd ob ty f s = Inr (ret, ob', ty', f', s') \<Longrightarrow>
     rm_pagefault_loop pd ob ty f s =
       (if ret = VM_AGAIN then rm_pagefault_loop pd ob' ty' f' s' else Some (Inr (ret, s')))"
  by (subst rm_pagefault_loop.simps, simp)+

lemma rm_pagefault_hit:
  assumes ok: "flat_mapper s pd rm rs" and r: "r \<in> set rs" and d: "ds_region s r d"
    and hit: "in_region (rmos s) (unat (pf_ptr f)) r" and size: "pf_size f = pd_span s pd"
    and offset: "pf_offset f = pd_begin (pds s pd)"
  shows "rm_pagefault_loop pd (Some (Obj_Region_Mapper rm)) RMO_REGION_MAPPER f s =
    Some (Inr (VM_OK, s\<lparr>vm_mmu := enter_pages (pd_begin (pds s pd) + rmo_offset (rmos s r))
      (take (unat (ds_n_pages (dss s d))) (ds_pages (dss s d))) (pf_type f) (vm_mmu s)\<rparr>))"
proof -
  let ?f = "narrow (rmos s r) f"
  have rm: "rm_ok s rm rs" and pdr: "pd_ready s pd" and sp: "rm_size (rms s rm) = pd_span s pd"
    using ok by (simp_all add: flat_mapper_def)
  have reg: "regions (rmos s) 0 rs (unat (pd_span s pd))" using rm sp by (simp add: rm_ok_def)
  obtain q where q: "find (in_region (rmos s) (unat (pf_ptr f))) rs = Some q"
    using r hit by (cases "find (in_region (rmos s) (unat (pf_ptr f))) rs") (auto simp: find_None_iff)
  then have "q = r" using in_region_unique [OF reg _ r _ hit, of q] by (auto simp: find_Some_iff)
  with q d have "rm_ll_lookup (Some (Obj_Region_Mapper rm)) f RMO_REGION_MAPPER s =
      Inr (Some (Obj_Dataspace d), ?f, RMO_DATASPACE)"
    by (simp add: rm_ll_lookup_eq [OF rm] ds_region_def RMO_DATASPACE_def RMO_UNDEFINED_def)
  then have d1: "rm_dispatch_pagefault pd (Some (Obj_Region_Mapper rm)) RMO_REGION_MAPPER f s =
      Inr (VM_AGAIN, Some (Obj_Dataspace d), RMO_DATASPACE, ?f, s)"
    by (simp add: rm_dispatch_pagefault_def RMO_DATASPACE_def RMO_UNDEFINED_def RMO_REGION_MAPPER_def)
  have bd: "off (rmos s) r + sz (rmos s) r \<le> unat (pd_span s pd)"
    using regions_bounds [OF reg r] by simp
  then have "unat (pd_span s pd - rmo_offset (rmos s r)) = unat (pd_span s pd) - off (rmos s) r"
    by (simp add: unat_sub_u32 word_le_nat_alt off_def)
  with bd have fit: "sz (rmos s) r \<le> unat (pf_size f - rmo_offset (rmos s r))" by (simp add: size)
  obtain d' where d': "ds_region s r d'"
    "mappable (vm_mmu s) (pd_begin (pds s pd) + rmo_offset (rmos s r)) (unat (ds_n_pages (dss s d')))"
    using ok r unfolding flat_mapper_def by blast
  moreover have "d' = d" using d d'(1) by (simp add: ds_region_def)
  ultimately have "dataspace_map pd (Some (Obj_Dataspace d)) (pf_offset ?f) (pf_size ?f) (pf_type f) s =
      Inr (s\<lparr>vm_mmu := enter_pages (pd_begin (pds s pd) + rmo_offset (rmos s r))
        (take (unat (ds_n_pages (dss s d))) (ds_pages (dss s d))) (pf_type f) (vm_mmu s)\<rparr>)"
    using dataspace_map_eq [OF pdr d _ fit, of _ "pf_type f"] by (simp add: narrow_def offset)
  then have d2: "rm_dispatch_pagefault pd (Some (Obj_Dataspace d)) RMO_DATASPACE ?f s =
      Inr (VM_OK, Some (Obj_Dataspace d), RMO_DATASPACE, ?f, s\<lparr>vm_mmu := enter_pages (pd_begin (pds s pd) + rmo_offset (rmos s r))
        (take (unat (ds_n_pages (dss s d))) (ds_pages (dss s d))) (pf_type f) (vm_mmu s)\<rparr>)"
    by (simp add: rm_dispatch_pagefault_def RMO_DATASPACE_def RMO_UNDEFINED_def narrow_def)
  show ?thesis
    by (simp add: rm_pagefault_loop_simps(2) [OF d1] rm_pagefault_loop_simps(2) [OF d2])
       (simp add: VM_OK_def VM_AGAIN_def)
qed

lemma rm_pagefault_miss:
  assumes "rm_ok s rm rs" and "\<forall>r\<in>set rs. \<not> in_region (rmos s) (unat (pf_ptr f)) r"
  shows "rm_pagefault_loop pd (Some (Obj_Region_Mapper rm)) RMO_REGION_MAPPER f s = Some (Inl Null_Deref)"
proof -
  have "find (in_region (rmos s) (unat (pf_ptr f))) rs = None" using assms(2) by (auto simp: find_None_iff)
  then have d1: "rm_dispatch_pagefault pd (Some (Obj_Region_Mapper rm)) RMO_REGION_MAPPER f s =
      Inr (VM_AGAIN, None, RMO_REGION_MAPPER, f, s)"
    by (simp add: rm_dispatch_pagefault_def rm_ll_lookup_eq [OF assms(1)] RMO_DATASPACE_def RMO_UNDEFINED_def
        RMO_REGION_MAPPER_def)
  have d2: "rm_dispatch_pagefault pd None RMO_REGION_MAPPER f s = Inl Null_Deref"
    by (simp add: rm_dispatch_pagefault_def rm_ll_lookup_def RMO_DATASPACE_def RMO_UNDEFINED_def
        RMO_REGION_MAPPER_def)
  show ?thesis by (simp add: rm_pagefault_loop_simps(2) [OF d1] rm_pagefault_loop_simps(1) [OF d2])
qed

section \<open>Initialisation\<close>

lemma clear_pages_fold:
  assumes "n \<le> length (ds_pages (dss s i))"
  shows "fold (\<lambda>k. upd_ds i (\<lambda>d. d\<lparr>ds_pages := (ds_pages d)[k := 0]\<rparr>)) [0..<n] s =
    upd_ds i (\<lambda>d. d\<lparr>ds_pages := replicate n 0 @ drop n (ds_pages d)\<rparr>) s"
  using assms
proof (induction n)
  case 0
  show ?case by (simp add: upd_ds_def)
next
  case (Suc n)
  have "(replicate n 0 @ drop n xs)[n := 0] = replicate (Suc n) 0 @ drop (Suc n) xs" if "Suc n \<le> length xs" for xs :: "u32 list"
    using that by (simp add: list_update_append Cons_nth_drop_Suc [symmetric] replicate_append_same [symmetric])
  with Suc show ?case by (simp add: upd_ds_def)
qed

text \<open>The object and the dataspace that \<^verbatim>\<open>rm_kalloc\<close> hands out.\<close>

definition kalloc_rmo :: "nat \<Rightarrow> region_mapper_object \<Rightarrow> region_mapper_object" where
  "kalloc_rmo i r = r\<lparr>rmo_static := True, rmo_type := RMO_DATASPACE, rmo_object := Some (Obj_Dataspace i),
     rmo_size := 0x80000\<rparr>"

definition kalloc_ds :: "dataspace \<Rightarrow> dataspace" where
  "kalloc_ds d = d\<lparr>ds_lock := 0, ds_refc := 1, ds_n_pages := 128,
     ds_pages := replicate 128 0 @ drop 128 (ds_pages d), ds_size := 0x80000\<rparr>"

definition vm_up :: "vm_state \<Rightarrow> bool" where
  "vm_up s \<longleftrightarrow> term_up (vm_term s) \<and> length (vm_numbuf s) = 100"

definition capacity_text :: "u8 list" where
  "capacity_text = bytes ''Capacity: ds->ds_size '' @ dec_text 524288 @ [10]"

lemma capacity_message:
  assumes "vm_up s"
  obtains kt where "vm_message (bytes ''Capacity: ds->ds_size %d'' @ [10]) [0x80000] s = Inr (s\<lparr>vm_term := kt\<rparr>)"
    "term_up kt" "screen kt = show_text capacity_text (screen (vm_term s))"
proof -
  have f: "bytes ''Capacity: ds->ds_size %d'' @ [10] = bytes ''Capacity: ds->ds_size '' @ [ch CHR ''%'', ch CHR ''d'', 10]"
    by (simp add: bytes_def)
  have p: "ch CHR ''%'' \<notin> set (bytes ''Capacity: ds->ds_size '')" "0 \<notin> set (bytes ''Capacity: ds->ds_size '')"
    "length (bytes ''Capacity: ds->ds_size '') < 100" "unat (0x80000 :: u32) < 2147483648" "unat (0x80000 :: u32) = 524288"
    by (simp_all add: bytes_def ch_def)
  have u: "term_up (vm_term s)" "length (vm_numbuf s) = 100" using assms by (simp_all add: vm_up_def)
  show thesis
    by (rule message_one [OF u p(1-4)], rule that) (simp_all only: vm_message_def f rbind_Inr capacity_text_def p(5))
qed

text \<open>\<^verbatim>\<open>rm_kalloc\<close> up to the message.\<close>

lemma rm_kalloc_eq:
  assumes "kernel_lock s = 0" and "unat (kernel_rmoi s) < 4"
    and "length (ds_pages (dss s (unat (kernel_rmoi s)))) = 130" and "vm_up s"
  shows "\<exists>kt. term_up kt \<and> screen kt = show_text capacity_text (screen (vm_term s)) \<and>
    rm_kalloc s = (let i = unat (kernel_rmoi s) in Inr (Some i,
    s\<lparr>kernel_rmoi := kernel_rmoi s + 1, vm_term := kt,
      vm_links := (vm_links s)\<lparr>nextp := (nextp (vm_links s))(Rmo_Member i := None),
        prevp := (prevp (vm_links s))(Rmo_Member i := None)\<rparr>,
      rmos := (rmos s)(i := kalloc_rmo i (rmos s i)), dss := (dss s)(i := kalloc_ds (dss s i))\<rparr>))"
proof -
  have c: "rmo_construct i s' = Inr (upd_rmo i (\<lambda>r. r\<lparr>rmo_object := None, rmo_type := RMO_UNDEFINED, rmo_static := False\<rparr>)
      (s'\<lparr>vm_links := (vm_links s')\<lparr>nextp := (nextp (vm_links s'))(Rmo_Member i := None),
        prevp := (prevp (vm_links s'))(Rmo_Member i := None)\<rparr>\<rparr>))" for i s'
    by (simp add: rmo_construct_def list_clear_def links_access)
  have d: "ds_construct i 536 s' = upd_ds i (\<lambda>ds. ds\<lparr>ds_lock := 0, ds_n_pages := 130, ds_refc := 1, ds_size := 0\<rparr>) s'" for i s'
    by (simp add: ds_construct_def sizeof_dataspace_def Let_def)
  let ?i = "unat (kernel_rmoi s)"
  let ?s = "s\<lparr>kernel_lock := -1, kernel_rmoi := kernel_rmoi s + 1,
      vm_links := (vm_links s)\<lparr>nextp := (nextp (vm_links s))(Rmo_Member ?i := None),
        prevp := (prevp (vm_links s))(Rmo_Member ?i := None)\<rparr>,
      rmos := (rmos s)(?i := (rmos s ?i)\<lparr>rmo_object := None, rmo_type := RMO_UNDEFINED, rmo_static := False\<rparr>),
      dss := (dss s)(?i := kalloc_ds (dss s ?i))\<rparr>"
  have "vm_up ?s" using assms(4) by (simp add: vm_up_def)
  then obtain kt where kt: "vm_message (bytes ''Capacity: ds->ds_size %d'' @ [10]) [0x80000] ?s = Inr (?s\<lparr>vm_term := kt\<rparr>)"
    "term_up kt" "screen kt = show_text capacity_text (screen (vm_term ?s))" by (rule capacity_message)
  have "rm_kalloc s = rbind (vm_message (bytes ''Capacity: ds->ds_size %d'' @ [10]) [0x80000] ?s) (\<lambda>s.
      let s = upd_rmo ?i (\<lambda>r. r\<lparr>rmo_static := True, rmo_type := RMO_DATASPACE,
               rmo_object := Some (Obj_Dataspace ?i), rmo_size := ds_size (dss s ?i)\<rparr>) s
     in Inr (Some ?i, s\<lparr>kernel_lock := kernlock_unlock (kernel_lock s)\<rparr>))"
    using assms(1-3)
    by (cases s) (simp add: rm_kalloc_def N_RMOS_def c d Let_def upd_ds_def upd_rmo_def clear_pages_fold
        kalloc_ds_def SYSARCH_PAGESIZE_def)
  then show ?thesis
    using kt assms(1) by (cases s) (simp add: Let_def upd_rmo_def kalloc_rmo_def kalloc_ds_def)
qed

lemma rm_init_eq:
  assumes "vm_pmap s = p_inst_kernel dir" and "length (ds_pages (dss s 0)) = 130" and "vm_up s"
  shows "\<exists>s'. rm_init s = Inr s' \<and> rm_ok s' KERNEL_RM [0] \<and> rm_size (rms s' KERNEL_RM) = 0x3D000000 \<and>
    rmos s' = (rmos s)(0 := (kalloc_rmo 0 (rmos s 0))\<lparr>rmo_offset := 0\<rparr>) \<and>
    dss s' = (dss s)(0 := kalloc_ds (dss s 0)) \<and> kernel_lock s' = 0 \<and> kernel_rmoi s' = 1 \<and>
    pds s' = pds s \<and> kernel_pd s' = kernel_pd s \<and> vm_pmap s' = vm_pmap s \<and> vm_mmu s' = vm_mmu s \<and>
    vm_phys s' = vm_phys s \<and> vm_up s' \<and> vm_numbuf s' = vm_numbuf s \<and>
    screen (vm_term s') = show_text capacity_text (screen (vm_term s))"
proof -
  let ?h = "(vm_links s)\<lparr>nextp := (nextp (vm_links s))(Rm_Childs 0 := Some (Rm_Childs 0)),
      prevp := (prevp (vm_links s))(Rm_Childs 0 := Some (Rm_Childs 0))\<rparr>"
  let ?s1 = "s\<lparr>kernel_lock := 0, kernel_rmoi := 0, vm_links := ?h,
      rms := (rms s)(0 := \<lparr>rm_size = 0x3D000000, rm_refc = 1, rm_lock = 0\<rparr>)\<rparr>"
  let ?h2 = "?h\<lparr>nextp := (nextp ?h)(Rmo_Member 0 := None), prevp := (prevp ?h)(Rmo_Member 0 := None)\<rparr>"
  obtain kt where kt: "rm_kalloc ?s1 = Inr (Some 0, ?s1\<lparr>kernel_rmoi := 1, vm_term := kt, vm_links := ?h2,
      rmos := (rmos s)(0 := kalloc_rmo 0 (rmos s 0)), dss := (dss s)(0 := kalloc_ds (dss s 0))\<rparr>)" "term_up kt"
    "screen kt = show_text capacity_text (screen (vm_term s))"
    using rm_kalloc_eq [of ?s1] assms(2,3) by (auto simp: Let_def vm_up_def)
  let ?s2 = "?s1\<lparr>kernel_rmoi := 1, vm_term := kt, vm_links := ?h2,
      rmos := (rmos s)(0 := kalloc_rmo 0 (rmos s 0)), dss := (dss s)(0 := kalloc_ds (dss s 0))\<rparr>"
  have k: "rm_kalloc ?s1 = Inr (Some 0, ?s2)" by (rule kt(1))
  have "ring ?h2 (Rm_Childs 0) []" by (intro ring_init_frame ring_init) simp
  then have rm: "rm_ok ?s2 0 []" by (simp add: rm_ok_def)
  have sz: "sz (rmos ?s2) 0 = 0x80000" by (simp add: sz_def kalloc_rmo_def)
  have "clear_of (rmos ?s2) [] 0 (sz (rmos ?s2) 0)" by (simp add: clear_of_def)
  with rm_insert_ok [OF rm, of 0] sz obtain x s3 where s3: "rm_insert 0 0 ?s2 = Inr (-1, s3)" "rm_ok s3 0 [0]"
    "s3 = ?s2\<lparr>vm_links := vm_links s3, rmos := (rmos ?s2)(0 := (rmos ?s2 0)\<lparr>rmo_offset := of_nat x\<rparr>)\<rparr>" "x = 0"
    by auto
  have init: "rm_init s = Inr s3"
    using assms(1) k s3(1)
    by (simp add: rm_init_def pmap_get_address_range_def p_inst_kernel_def ROUND_DOWN_def SYSARCH_PAGESIZE_def
        KERNEL_RM_def rm_construct_def list_init_def links_access)
  have f: "rmos s3 = (rmos ?s2)(0 := (rmos ?s2 0)\<lparr>rmo_offset := 0\<rparr>)" "rms s3 = rms ?s2" "dss s3 = dss ?s2"
    "kernel_lock s3 = 0" "kernel_rmoi s3 = 1" "pds s3 = pds s" "kernel_pd s3 = kernel_pd s" "vm_pmap s3 = vm_pmap s"
    "vm_mmu s3 = vm_mmu s" "vm_phys s3 = vm_phys s" "vm_term s3 = kt" "vm_numbuf s3 = vm_numbuf s"
    by (subst s3(3), simp add: s3(4))+
  from init s3(2) kt(2,3) assms(3) show ?thesis by (intro exI [of _ s3]) (simp add: f KERNEL_RM_def vm_up_def)
qed

section \<open>Properties\<close>

text \<open>A mapper of 16 MB with one region, a dataspace of two pages; object 1 is not inserted yet.\<close>

definition example_vm :: vm_state where
  "example_vm = \<lparr>vm_links = \<lparr>nextp = [Rm_Childs 0 \<mapsto> Rmo_Member 0, Rmo_Member 0 \<mapsto> Rm_Childs 0],
       prevp = [Rm_Childs 0 \<mapsto> Rmo_Member 0, Rmo_Member 0 \<mapsto> Rm_Childs 0]\<rparr>,
     rms = (\<lambda>_. \<lparr>rm_size = 0x1000000, rm_refc = 1, rm_lock = 0\<rparr>),
     rmos = (\<lambda>_. \<lparr>rmo_offset = 0, rmo_size = 0x2000, rmo_object = Some (Obj_Dataspace 0),
       rmo_type = RMO_DATASPACE, rmo_static = True\<rparr>),
     dss = (\<lambda>_. \<lparr>ds_lock = 0, ds_n_pages = 2, ds_refc = 1, ds_size = 0x2000, ds_pages = [0x9000, 0xA000]\<rparr>),
     kernel_lock = 0, kernel_rmoi = 1,
     pds = (\<lambda>_. \<lparr>pd_begin = 0xC1000000, pd_end = 0xC1FFFFFF, pd_pmap = Some KERNEL_PMAP, pd_refc = 0, pd_lock = 0,
       pd_refclock = 0\<rparr>),
     kernel_pd = 0x1000, vm_pmap = p_inst_kernel 0xC0010000, vm_mmu = example_mmu, vm_phys = example_phys,
     vm_term = boot_kterm, vm_numbuf = replicate 100 0\<rparr>"

lemma example_vm_up: "vm_up example_vm"
  using boot_kterm_up by (simp add: vm_up_def example_vm_def)

lemma example_vm_rm: "rm_ok example_vm 0 [0]"
  by (simp add: rm_ok_def example_vm_def ring_def off_def sz_def)

lemma example_vm_flat: "flat_mapper example_vm 7 0 [0]"
proof -
  have "mappable example_mmu 0xC1000000 2"
    unfolding mappable_def all_less_2 by (simp add: PDX_def example_mmu_def)
  then show ?thesis
    using example_vm_rm example_mmu_ok
    by (auto simp: flat_mapper_def pd_ready_def mmu_ready_def example_vm_def pd_span_def ROUND_DOWN_def ds_region_def sz_def)
qed

text \<open>C10. Placing a region: in a mapper whose regions are in order and apart,
  \<^verbatim>\<open>rm_insert\<close> of an object that is not in it does not fault and ends; if it returns
  \<open>-1\<close>, the object is placed at the lowest offset where a block of its size meets no region
  and ends inside the mapper, the regions are again in order and apart and nothing but the
  offset of the object has changed; it returns 0 and changes nothing only when there is no such
  offset. The sizes must not wrap: the end of the mapper plus the size stays below \<open>2^32\<close>.\<close>

theorem rm_insert_first_fit:
  assumes "rm_ok s rm rs" and "rmo \<notin> set rs" and "0 < sz (rmos s) rmo"
    and "unat (rm_size (rms s rm)) + sz (rmos s) rmo < 4294967296"
  shows "(\<exists>us vs x s'. rs = us @ vs \<and> rm_insert rm rmo s = Inr (-1, s') \<and> rm_ok s' rm (us @ rmo # vs) \<and>
      s' = s\<lparr>vm_links := vm_links s', rmos := (rmos s)(rmo := (rmos s rmo)\<lparr>rmo_offset := of_nat x\<rparr>)\<rparr> \<and>
      x + sz (rmos s) rmo \<le> unat (rm_size (rms s rm)) \<and>
      (\<forall>y. y + sz (rmos s) rmo \<le> unat (rm_size (rms s rm)) \<and> clear_of (rmos s) rs y (sz (rmos s) rmo) \<longrightarrow> x \<le> y)) \<or>
    (rm_insert rm rmo s = Inr (0, s) \<and>
     (\<forall>y. y + sz (rmos s) rmo \<le> unat (rm_size (rms s rm)) \<longrightarrow> \<not> clear_of (rmos s) rs y (sz (rmos s) rmo)))"
  using rm_insert_ok [OF assms] by blast

theorem rm_insert_first_fit_witness:
  "\<exists>s' rs. rm_insert 0 1 example_vm = Inr (-1, s') \<and> rm_ok s' 0 rs \<and> set rs = {0, 1}"
proof -
  have sz: "sz (rmos example_vm) 1 = 0x2000" "unat (rm_size (rms example_vm 0)) = 0x1000000"
    by (simp_all add: sz_def example_vm_def)
  have "clear_of (rmos example_vm) [0] 0x2000 0x2000" by (simp add: clear_of_def off_def sz_def example_vm_def)
  then have "\<not> (\<forall>y. y + 0x2000 \<le> 0x1000000 \<longrightarrow> \<not> clear_of (rmos example_vm) [0] y 0x2000)"
    by (intro notI) (drule spec [of _ "0x2000"], simp)
  moreover have "(1 :: nat) \<notin> set [0]" by simp
  ultimately obtain us vs s' where "[0] = us @ vs" "rm_insert 0 1 example_vm = Inr (-1, s')" "rm_ok s' 0 (us @ 1 # vs)"
    using rm_insert_first_fit [OF example_vm_rm, of 1] unfolding sz by auto
  moreover have "set (us @ 1 # vs) = insert 1 (set (us @ vs))" by auto
  ultimately show ?thesis by (metis insert_commute list.set(1) list.set(2))
qed

text \<open>C11. Page faults. In a domain whose mapper has only dataspaces as regions, a fault outside
  the span of the domain returns \<^verbatim>\<open>VM_SEGFAULT\<close>; a fault in a region returns
  \<^verbatim>\<open>VM_OK\<close> after which every page of the dataspace is translated to its page with the
  protection of the fault, and no other address has changed; a fault inside the span but in no
  region does not return \<^verbatim>\<open>VM_SEGFAULT\<close>: the pager goes on with a null object and
  dereferences it.\<close>

theorem rm_pagefault_outcomes:
  assumes "flat_mapper s pd rm rs"
  shows "if va < pd_begin (pds s pd) \<or> pd_span s pd \<le> va - pd_begin (pds s pd)
    then rm_pagefault pd rm va prot s = Inr (VM_SEGFAULT, s)
    else (case find (in_region (rmos s) (unat (va - pd_begin (pds s pd)))) rs of
        None \<Rightarrow> rm_pagefault pd rm va prot s = Inl Null_Deref
      | Some r \<Rightarrow> \<exists>d s'. rmo_object (rmos s r) = Some (Obj_Dataspace d) \<and>
          rm_pagefault pd rm va prot s = Inr (VM_OK, s') \<and> s' = s\<lparr>vm_mmu := vm_mmu s'\<rparr> \<and>
          (\<forall>i<unat (ds_n_pages (dss s d)).
             mmu_walk (vm_mmu s') (pd_begin (pds s pd) + rmo_offset (rmos s r) + of_nat (4096 * i)) =
               Some (PTE_ADDR (ds_pages (dss s d) ! i), prot AND VM_PROT_WRITE \<noteq> 0)) \<and>
          (\<forall>vb\<ge>0xC1000000. unat vb div 4096 < unat (pd_begin (pds s pd) + rmo_offset (rmos s r)) div 4096 \<or>
               unat (pd_begin (pds s pd) + rmo_offset (rmos s r)) div 4096 + unat (ds_n_pages (dss s d)) \<le> unat vb div 4096
             \<longrightarrow> mmu_walk (vm_mmu s') vb = mmu_walk (vm_mmu s) vb))"
proof -
  let ?b = "pd_begin (pds s pd)"
  let ?f = "\<lparr>pf_offset = ?b, pf_ptr = va - ?b, pf_size = pd_span s pd, pf_type = prot\<rparr>"
  have run: "rm_pagefault pd rm va prot s =
      (if va < ?b \<or> pd_span s pd \<le> va - ?b then Inr (VM_SEGFAULT, s)
       else no_return (rm_pagefault_loop pd (Some (Obj_Region_Mapper rm)) RMO_REGION_MAPPER ?f s))"
    by (simp add: rm_pagefault_def Let_def pd_span_def SYSARCH_PAGESIZE_def)
  have rm: "rm_ok s rm rs" and ready: "mmu_ready (vm_mmu s)" using assms by (simp_all add: flat_mapper_def pd_ready_def)
  show ?thesis
  proof (cases "find (in_region (rmos s) (unat (va - ?b))) rs")
    case None
    then have "\<forall>r\<in>set rs. \<not> in_region (rmos s) (unat (pf_ptr ?f)) r" by (auto simp: find_None_iff)
    from rm_pagefault_miss [OF rm this] None show ?thesis by (simp add: run no_return_def)
  next
    case (Some r)
    then have r: "r \<in> set rs" "in_region (rmos s) (unat (pf_ptr ?f)) r" by (auto simp: find_Some_iff)
    with assms obtain d where d: "ds_region s r d"
      "mappable (vm_mmu s) (?b + rmo_offset (rmos s r)) (unat (ds_n_pages (dss s d)))"
      unfolding flat_mapper_def by blast
    let ?ps = "take (unat (ds_n_pages (dss s d))) (ds_pages (dss s d))"
    let ?m = "enter_pages (?b + rmo_offset (rmos s r)) ?ps prot (vm_mmu s)"
    have len: "length ?ps = unat (ds_n_pages (dss s d))" using d(1) by (simp add: ds_region_def)
    have mp: "mappable (vm_mmu s) (?b + rmo_offset (rmos s r)) (length ?ps)" using d(2) len by simp
    have hit: "rm_pagefault_loop pd (Some (Obj_Region_Mapper rm)) RMO_REGION_MAPPER ?f s = Some (Inr (VM_OK, s\<lparr>vm_mmu := ?m\<rparr>))"
      using rm_pagefault_hit [OF assms r(1) d(1) r(2)] by simp
    have "mmu_walk ?m (?b + rmo_offset (rmos s r) + of_nat (4096 * i)) =
        Some (PTE_ADDR (ds_pages (dss s d) ! i), prot AND VM_PROT_WRITE \<noteq> 0)"
      if "i < unat (ds_n_pages (dss s d))" for i
      using walk_enter_pages [OF ready mp, of i] that len by simp
    moreover have "mmu_walk ?m vb = mmu_walk (vm_mmu s) vb"
      if "0xC1000000 \<le> vb" "unat vb div 4096 < unat (?b + rmo_offset (rmos s r)) div 4096 \<or>
        unat (?b + rmo_offset (rmos s r)) div 4096 + unat (ds_n_pages (dss s d)) \<le> unat vb div 4096" for vb
      using walk_enter_pages_other [OF ready mp that(1)] that(2) len by simp
    moreover have "rmo_object (rmos s r) = Some (Obj_Dataspace d)" using d(1) by (simp add: ds_region_def)
    ultimately show ?thesis
      unfolding run hit Some by (simp add: no_return_def del: of_nat_mult)
  qed
qed

theorem rm_pagefault_outcomes_witness:
  "rm_pagefault 7 0 0xC0000000 VM_PROT_WRITE example_vm = Inr (VM_SEGFAULT, example_vm) \<and>
   rm_pagefault 7 0 0xC1002000 VM_PROT_WRITE example_vm = Inl Null_Deref \<and>
   (\<exists>s'. rm_pagefault 7 0 0xC1001004 VM_PROT_WRITE example_vm = Inr (VM_OK, s') \<and>
      mmu_walk (vm_mmu s') 0xC1001000 = Some (0xA000, True))"
proof -
  note out = rm_pagefault_outcomes [OF example_vm_flat, of _ VM_PROT_WRITE]
  have pd: "pd_begin (pds example_vm 7) = 0xC1000000" "pd_span example_vm 7 = 0x1000000"
    "rmo_offset (rmos example_vm 0) = 0" "rmo_object (rmos example_vm 0) = Some (Obj_Dataspace 0)"
    "unat (ds_n_pages (dss example_vm 0)) = 2" "ds_pages (dss example_vm 0) ! 1 = 0xA000"
    by (simp_all add: example_vm_def pd_span_def ROUND_DOWN_def)
  have f: "\<not> in_region (rmos example_vm) 0x2000 0" "in_region (rmos example_vm) 0x1004 0"
    by (simp_all add: in_region_def off_def sz_def example_vm_def)
  have 1: "rm_pagefault 7 0 0xC0000000 VM_PROT_WRITE example_vm = Inr (VM_SEGFAULT, example_vm)"
    using out [of "0xC0000000"] by (simp add: pd)
  have 2: "rm_pagefault 7 0 0xC1002000 VM_PROT_WRITE example_vm = Inl Null_Deref"
    using out [of "0xC1002000"] by (simp add: pd f)
  obtain s' where 3: "rm_pagefault 7 0 0xC1001004 VM_PROT_WRITE example_vm = Inr (VM_OK, s')"
    "\<forall>i<2. mmu_walk (vm_mmu s') (0xC1000000 + of_nat (4096 * i)) =
       Some (PTE_ADDR (ds_pages (dss example_vm 0) ! i), VM_PROT_WRITE AND VM_PROT_WRITE \<noteq> 0)"
    using out [of "0xC1001004"] by (auto simp: pd f simp del: of_nat_mult)
  have "mmu_walk (vm_mmu s') 0xC1001000 = Some (0xA000, True)"
    using spec [OF 3(2), of 1] pd(6) by (simp add: PTE_ADDR_def VM_PROT_WRITE_def)
  with 1 2 3(1) show ?thesis by blast
qed

text \<open>The kernel's mapper after \<^verbatim>\<open>rm_init\<close>: it spans \<open>0x3D000000\<close> bytes, from
  \<open>0xC1000000\<close> on, with one region at offset 0, a dataspace of 128 pages none of which is
  present; one of the four static objects is used and the lock is free.\<close>

theorem rm_init_establishes:
  assumes "vm_pmap s = p_inst_kernel dir" and "length (ds_pages (dss s 0)) = 130" and "vm_up s"
  shows "\<exists>s'. rm_init s = Inr s' \<and> rm_ok s' KERNEL_RM [0] \<and> rm_size (rms s' KERNEL_RM) = 0x3D000000 \<and>
    ds_region s' 0 0 \<and> off (rmos s') 0 = 0 \<and> ds_n_pages (dss s' 0) = 128 \<and> take 128 (ds_pages (dss s' 0)) = replicate 128 0 \<and>
    kernel_lock s' = 0 \<and> kernel_rmoi s' = 1 \<and> pds s' = pds s \<and> vm_mmu s' = vm_mmu s \<and> vm_phys s' = vm_phys s"
proof -
  obtain s' where "rm_init s = Inr s'" "rm_ok s' KERNEL_RM [0]" "rm_size (rms s' KERNEL_RM) = 0x3D000000"
    "rmos s' = (rmos s)(0 := (kalloc_rmo 0 (rmos s 0))\<lparr>rmo_offset := 0\<rparr>)" "dss s' = (dss s)(0 := kalloc_ds (dss s 0))"
    "kernel_lock s' = 0" "kernel_rmoi s' = 1" "pds s' = pds s" "vm_mmu s' = vm_mmu s" "vm_phys s' = vm_phys s"
    using rm_init_eq [OF assms] by blast
  then show ?thesis
    by (intro exI [of _ s']) (simp add: ds_region_def kalloc_rmo_def kalloc_ds_def sz_def off_def)
qed

theorem rm_init_establishes_witness:
  "\<exists>s'. rm_init (example_vm\<lparr>dss := \<lambda>_. \<lparr>ds_lock = 0, ds_n_pages = 0, ds_refc = 0, ds_size = 0, ds_pages = replicate 130 7\<rparr>\<rparr>) =
     Inr s' \<and> rm_ok s' KERNEL_RM [0] \<and> kernel_lock s' = 0"
  using rm_init_establishes [of "example_vm\<lparr>dss := \<lambda>_. \<lparr>ds_lock = 0, ds_n_pages = 0, ds_refc = 0, ds_size = 0,
      ds_pages = replicate 130 7\<rparr>\<rparr>" "0xC0010000"] example_vm_up
  by (simp add: example_vm_def vm_up_def) blast

text \<open>The static objects run out with the lock held: once all four are used,
  \<^verbatim>\<open>rm_kalloc\<close> returns null without unlocking, and every later call spins for
  ever.\<close>

theorem rm_kalloc_exhausted_deadlock:
  assumes "kernel_lock s = 0" and "4 \<le> unat (kernel_rmoi s)"
  shows "\<exists>s'. rm_kalloc s = Inr (None, s') \<and> rm_kalloc s' = Inl Spin_Forever"
  using assms by (simp add: rm_kalloc_def N_RMOS_def kernlock_lock_def kernlock_try_lock_def)

theorem rm_kalloc_exhausted_deadlock_witness:
  "\<exists>s'. rm_kalloc (example_vm\<lparr>kernel_rmoi := 4\<rparr>) = Inr (None, s') \<and> rm_kalloc s' = Inl Spin_Forever"
  using rm_kalloc_exhausted_deadlock [of "example_vm\<lparr>kernel_rmoi := 4\<rparr>"] by (simp add: example_vm_def)

text \<open>A size that wraps is accepted: behind a region of \<open>0x2000\<close> bytes,
  \<^verbatim>\<open>rm_insert\<close> places an object of \<open>0xFFFFF000\<close> bytes in a mapper of 16 MB, because
  \<^verbatim>\<open>begin+rmo->rmo_size\<close> wraps to \<open>0x1000\<close>.\<close>

theorem rm_insert_wraps:
  "(case rm_insert 0 1 (example_vm\<lparr>rmos := (rmos example_vm)(1 := (rmos example_vm 1)\<lparr>rmo_size := 0xFFFFF000\<rparr>)\<rparr>) of
      Inl e \<Rightarrow> False
    | Inr (ret, s') \<Rightarrow> ret = -1 \<and> rmo_offset (rmos s' 1) = 0x2000 \<and>
        unat (rm_size (rms s' 0)) < off (rmos s') 1 + sz (rmos s') 1)"
  unfolding rm_insert_def example_vm_def
  by (simp add: no_return_def rm_insert_from.simps rmo_of_node_def rm_place_def upd_rmo_def list_add_before_def
      links_access off_def sz_def)

end
