(* ===== verification/Kmem.thy ===== *)
theory Kmem
  imports Kern_Stacks Zone_Alloc Vm_Regions
begin

text \<open>
  The kernel's memory: \<open>system/vm/kmem_util2.c\<close> hands out runs of freshly mapped pages of the
  first dataspace of the kernel's region mapper. The theory models its two allocators, shows what
  a call maps, and interprets the locale \<open>kernel_memory\<close> on them, on which the stacks, the
  zones and the threads rest. An allocator that returns 1 is \<open>Some\<close> of the address and the size
  it stored.
\<close>

definition VM_PROT_KMEM :: u16 where
  "VM_PROT_KMEM = VM_PROT_READ OR VM_PROT_WRITE"

text \<open>The search for the first page that is not present.\<close>

function scan_pages :: "paddr list \<Rightarrow> nat \<Rightarrow> nat \<Rightarrow> nat res" where
  "scan_pages ps n i =
     (if i < n then
        if i < length ps then if ps ! i = 0 then Inr i else scan_pages ps n (Suc i)
        else Inl Bad_Access
      else Inr i)"
  by pat_completeness auto
termination
  by (relation "measure (\<lambda>(ps, n, i). n - i)") auto

text \<open>The loop over \<^verbatim>\<open>j\<close>; its first argument is the number of iterations left.\<close>

fun grow_loop :: "nat \<Rightarrow> nat \<Rightarrow> vaddr \<Rightarrow> vaddr \<Rightarrow> nat \<Rightarrow> vm_state \<Rightarrow> (vaddr \<times> vm_state) res" where
  "grow_loop 0 i va sr d s = Inr (sr, s)"
| "grow_loop (Suc k) i va sr d s =
     (if i = unat (ds_n_pages (dss s d)) then Inr (sr, s)
      else
      rbind (vm_phys_alloc (vm_phys s)) (\<lambda>(r, p).
      let s = s\<lparr>vm_phys := p\<rparr> in
      case r of None \<Rightarrow> Inr (sr, s)
      | Some curpage \<Rightarrow>
          rbind (require (i < length (ds_pages (dss s d))) Bad_Access) (\<lambda>_.
          rbind (pd_enter (kernel_pd s) va curpage VM_PROT_KMEM 0
                   (upd_ds d (\<lambda>ds. ds\<lparr>ds_pages := (ds_pages ds)[i := curpage]\<rparr>) s)) (\<lambda>(_, s).
          grow_loop k (Suc i) (va + SYSARCH_PAGESIZE) (sr + SYSARCH_PAGESIZE) d s))))"

definition grow_critical :: "int \<Rightarrow> vm_state \<Rightarrow> ((vaddr \<times> vaddr) option \<times> vm_state) res" where
  "grow_critical n s =
     (let list = Rm_Childs KERNEL_RM;
          nxt = nextp (vm_links s) list
      in if nxt = Some list then Inr (None, s)
      else
      rbind (rmo_of_node nxt) (\<lambda>rmo.
      if rmo_type (rmos s rmo) \<noteq> RMO_DATASPACE then Inr (None, s)
      else
      rbind (case rmo_object (rmos s rmo) of None \<Rightarrow> Inl Null_Deref
             | Some (Obj_Region_Mapper _) \<Rightarrow> Inl Undefined | Some (Obj_Dataspace d) \<Rightarrow> Inr d) (\<lambda>d.
      rbind (scan_pages (ds_pages (dss s d)) (unat (ds_n_pages (dss s d))) 0) (\<lambda>i.
      if i \<ge> unat (ds_n_pages (dss s d)) then Inr (None, s)
      else
      let va = pd_begin (pds s (kernel_pd s)) + rmo_offset (rmos s rmo);
          va = va + of_nat i * SYSARCH_PAGESIZE
      in
      rbind (grow_loop (nat n) i va 0 d s) (\<lambda>(sr, s).
      Inr (if sr = 0 then None else Some (va, sr), s))))))"

definition vm_alloc_critical :: "vm_state kalloc" where
  "vm_alloc_critical s req =
     (let req = req + (SYSARCH_PAGESIZE - 1);
          req = ROUND_DOWN req
      in
      rbind (vm_message (bytes ''Critical: %d'' @ [10]) [drop_bit 12 req] s) (\<lambda>s.
      grow_critical (uint (DIV_PAGESIZE req)) s))"

definition vm_kalloc_ll :: "vm_state kalloc" where
  "vm_kalloc_ll s req =
     (let req = req + (SYSARCH_PAGESIZE - 1);
          req = ROUND_DOWN req
      in
      rbind (vm_message (bytes ''LL: %d'' @ [10]) [drop_bit 12 req] s) (\<lambda>s.
      grow_critical (uint (DIV_PAGESIZE req)) s))"

declare scan_pages.simps [simp del]

section \<open>The invariant\<close>

text \<open>The first region of the kernel's mapper is object \<open>r\<close> with dataspace \<open>d\<close>, of whose
  pages the first \<open>u\<close> are present: mapped, writable, and different pages of the page
  allocator. The addresses of the dataspace are page-aligned, belong to the kernel and have
  their page tables; the terminal is up. Page 0 is not handed out by the page allocator (a page number 0 would be
  taken for a slot that is free).\<close>

definition kmem_addr :: "vm_state \<Rightarrow> nat \<Rightarrow> vaddr" where
  "kmem_addr s r = pd_begin (pds s (kernel_pd s)) + rmo_offset (rmos s r)"

definition kmem_layout :: "vm_state \<Rightarrow> nat \<Rightarrow> nat \<Rightarrow> bool" where
  "kmem_layout s r d \<longleftrightarrow> nextp (vm_links s) (Rm_Childs KERNEL_RM) = Some (Rmo_Member r) \<and>
     rmo_type (rmos s r) = RMO_DATASPACE \<and> rmo_object (rmos s r) = Some (Obj_Dataspace d) \<and>
     unat (ds_n_pages (dss s d)) \<le> length (ds_pages (dss s d)) \<and> pd_ready s (kernel_pd s) \<and>
     mappable (vm_mmu s) (kmem_addr s r) (unat (ds_n_pages (dss s d))) \<and> 4096 dvd unat (kmem_addr s r) \<and> vm_up s"

definition kmem_phys :: "vm_state \<Rightarrow> bool" where
  "kmem_phys s \<longleftrightarrow> phys_inv (vm_phys s) \<and> pages_aligned (vm_phys s) \<and>
     (0 \<in> page_pool (vm_phys s) \<longrightarrow> 0 \<in> allocated (vm_phys s))"

definition kmem_inv :: "vm_state \<Rightarrow> nat \<Rightarrow> nat \<Rightarrow> nat \<Rightarrow> bool" where
  "kmem_inv s r d u \<longleftrightarrow> kmem_layout s r d \<and> kmem_phys s \<and> u \<le> unat (ds_n_pages (dss s d)) \<and>
     (\<forall>i<u. ds_pages (dss s d) ! i \<noteq> 0 \<and> ds_pages (dss s d) ! i \<in> allocated (vm_phys s) \<and>
        mmu_walk (vm_mmu s) (kmem_addr s r + of_nat (4096 * i)) = Some (ds_pages (dss s d) ! i, True)) \<and>
     (\<forall>i. u \<le> i \<and> i < unat (ds_n_pages (dss s d)) \<longrightarrow> ds_pages (dss s d) ! i = 0 \<and>
        mmu_walk (vm_mmu s) (kmem_addr s r + of_nat (4096 * i)) = None) \<and>
     distinct (take u (ds_pages (dss s d)))"

lemma scan_pages_inv:
  assumes "\<forall>i<u. ps ! i \<noteq> 0" and "u < n \<longrightarrow> ps ! u = 0" and "u \<le> n" and "n \<le> length ps" and "i \<le> u"
  shows "scan_pages ps n i = Inr u"
  using assms
proof (induction "u - i" arbitrary: i)
  case 0
  then show ?case by (simp add: scan_pages.simps [of ps n i])
next
  case (Suc k)
  then have "scan_pages ps n (Suc i) = Inr u" by (intro Suc.hyps(1)) auto
  with Suc show ?case by (simp add: scan_pages.simps [of ps n i])
qed

lemma kmem_prot: "VM_PROT_KMEM AND VM_PROT_WRITE \<noteq> 0"
  by (simp add: VM_PROT_KMEM_def VM_PROT_READ_def VM_PROT_WRITE_def)

text \<open>One page more.\<close>

definition add_page :: "nat \<Rightarrow> nat \<Rightarrow> vaddr \<Rightarrow> paddr \<Rightarrow> phys_state \<Rightarrow> vm_state \<Rightarrow> vm_state" where
  "add_page d i va q p s = s\<lparr>vm_phys := p, dss := (dss s)(d := (dss s d)\<lparr>ds_pages := (ds_pages (dss s d))[i := q]\<rparr>),
     vm_mmu := enter_pte va q VM_PROT_KMEM (vm_mmu s)\<rparr>"

lemma add_page_frame [simp]:
  "vm_links (add_page d i va q p s) = vm_links s" "rmos (add_page d i va q p s) = rmos s"
  "pds (add_page d i va q p s) = pds s" "kernel_pd (add_page d i va q p s) = kernel_pd s"
  "vm_phys (add_page d i va q p s) = p" "kmem_addr (add_page d i va q p s) r = kmem_addr s r"
  "ds_n_pages (dss (add_page d i va q p s) d) = ds_n_pages (dss s d)"
  "ds_pages (dss (add_page d i va q p s) d) = (ds_pages (dss s d))[i := q]"
  "vm_mmu (add_page d i va q p s) = enter_pte va q VM_PROT_KMEM (vm_mmu s)"
  "vm_term (add_page d i va q p s) = vm_term s" "vm_numbuf (add_page d i va q p s) = vm_numbuf s"
  by (simp_all add: add_page_def kmem_addr_def)

lemma kmem_layout_add_page [simp]: "kmem_layout (add_page d i va q p s) r d = kmem_layout s r d"
  by (simp add: kmem_layout_def pd_ready_def vm_up_def)

lemma kmem_page_at:
  assumes "kmem_layout s r d" and "i < unat (ds_n_pages (dss s d))"
  shows "0xC1000000 \<le> kmem_addr s r + of_nat (4096 * i)"
    "kernel_page_dir (vm_mmu s) ! PDX (kmem_addr s r + of_nat (4096 * i)) \<noteq> 0"
    "unat (kmem_addr s r + of_nat (4096 * i)) = unat (kmem_addr s r) + 4096 * i"
proof -
  have mp: "mappable (vm_mmu s) (kmem_addr s r) (unat (ds_n_pages (dss s d)))"
    using assms(1) by (simp add: kmem_layout_def)
  then show u: "unat (kmem_addr s r + of_nat (4096 * i)) = unat (kmem_addr s r) + 4096 * i"
    using assms(2) by (intro unat_page_at) (auto simp: mappable_def)
  have "unat (0xC1000000 :: u32) \<le> unat (kmem_addr s r)"
    using mp unfolding mappable_def word_le_nat_alt by blast
  then have "unat (0xC1000000 :: u32) \<le> unat (kmem_addr s r + of_nat (4096 * i))" unfolding u by linarith
  then show "0xC1000000 \<le> kmem_addr s r + of_nat (4096 * i)" unfolding word_le_nat_alt .
  show "kernel_page_dir (vm_mmu s) ! PDX (kmem_addr s r + of_nat (4096 * i)) \<noteq> 0"
    using mp assms(2) unfolding mappable_def by blast
qed

lemma kmem_inv_add_page:
  assumes inv: "kmem_inv s r d u" and u: "u < unat (ds_n_pages (dss s d))"
    and q: "q \<in> page_pool (vm_phys s) - allocated (vm_phys s)"
    and p: "allocated p = insert q (allocated (vm_phys s))" "page_pool p = page_pool (vm_phys s)" "phys_inv p"
  shows "kmem_inv (add_page d u (kmem_addr s r + of_nat (4096 * u)) q p s) r d (Suc u)"
    (is "kmem_inv ?s r d (Suc u)")
proof -
  let ?va = "\<lambda>i. kmem_addr s r + of_nat (4096 * i)" and ?ps = "ds_pages (dss s d)"
  have lay: "kmem_layout s r d" and ph: "kmem_phys s" using inv by (simp_all add: kmem_inv_def)
  have len: "u < length ?ps" using lay u by (simp add: kmem_layout_def)
  have ready: "mmu_ready (vm_mmu s)" using lay by (simp add: kmem_layout_def pd_ready_def)
  have qa: "PTE_ADDR q = q" "q \<noteq> 0" using q ph by (auto simp: kmem_phys_def pages_aligned_def)
  note at = kmem_page_at [OF lay]
  have new: "mmu_walk (vm_mmu ?s) (?va u) = Some (q, True)"
    using walk_enter_pte [OF ready at(1,2) [OF u], of q VM_PROT_KMEM] kmem_prot qa by simp
  have old: "mmu_walk (vm_mmu ?s) (?va i) = mmu_walk (vm_mmu s) (?va i)" if "i \<noteq> u" and i: "i < unat (ds_n_pages (dss s d))" for i
  proof -
    have dv: "4096 dvd unat (kmem_addr s r)" using lay by (simp add: kmem_layout_def)
    have "(unat (kmem_addr s r) + 4096 * i) div 4096 \<noteq> (unat (kmem_addr s r) + 4096 * u) div 4096"
      using that(1) dv by (auto elim!: dvdE)
    then have "drop_bit 12 (?va i) \<noteq> drop_bit 12 (?va u)"
      unfolding page_of_iff at(3) [OF i] at(3) [OF u] .
    then show ?thesis
      using walk_enter_pte_other [OF ready at(1,2) [OF u] at(1) [OF i]] by simp
  qed
  have pages: "\<forall>i<u. ?ps ! i \<noteq> 0 \<and> ?ps ! i \<in> allocated (vm_phys s) \<and> mmu_walk (vm_mmu s) (?va i) = Some (?ps ! i, True)"
    "\<forall>i. u \<le> i \<and> i < unat (ds_n_pages (dss s d)) \<longrightarrow> ?ps ! i = 0 \<and> mmu_walk (vm_mmu s) (?va i) = None" "distinct (take u ?ps)"
    using inv unfolding kmem_inv_def by blast+
  have 1: "\<forall>i<Suc u. ds_pages (dss ?s d) ! i \<noteq> 0 \<and> ds_pages (dss ?s d) ! i \<in> allocated (vm_phys ?s) \<and>
      mmu_walk (vm_mmu ?s) (?va i) = Some (ds_pages (dss ?s d) ! i, True)"
  proof (intro allI impI)
    fix i
    assume "i < Suc u"
    then consider "i = u" | "i < u" by linarith
    then show "ds_pages (dss ?s d) ! i \<noteq> 0 \<and> ds_pages (dss ?s d) ! i \<in> allocated (vm_phys ?s) \<and>
        mmu_walk (vm_mmu ?s) (?va i) = Some (ds_pages (dss ?s d) ! i, True)"
    proof cases
      case 1
      then show ?thesis using new qa len p(1) by simp
    next
      case 2
      then show ?thesis using pages(1) old [of i] u p(1) by (simp del: of_nat_mult)
    qed
  qed
  have "q \<notin> set (take u ?ps)"
  proof
    assume "q \<in> set (take u ?ps)"
    then obtain i where "i < u" "q = ?ps ! i" by (auto simp: in_set_conv_nth)
    with pages(1) q show False by auto
  qed
  then have 2: "distinct (take (Suc u) (ds_pages (dss ?s d)))"
    using pages(3) len by (simp add: take_Suc_conv_app_nth)
  have 3: "\<forall>i. Suc u \<le> i \<and> i < unat (ds_n_pages (dss s d)) \<longrightarrow> ds_pages (dss ?s d) ! i = 0 \<and> mmu_walk (vm_mmu ?s) (?va i) = None"
    using pages(2) old by (simp del: of_nat_mult)
  have 4: "kmem_phys ?s" using ph p q by (auto simp: kmem_phys_def pages_aligned_def)
  show ?thesis unfolding kmem_inv_def add_page_frame(6,7) kmem_layout_add_page using lay 4 u 1 2 3 by (simp del: of_nat_mult)
qed

text \<open>The loop adds as many pages as were asked for, unless the dataspace or the page allocator
  runs out first.\<close>

lemma grow_loop_ok:
  assumes "kmem_inv s r d u"
  shows "\<exists>s'. grow_loop k u (kmem_addr s r + of_nat (4096 * u)) sr d s =
      Inr (sr + of_nat (4096 * min k (min (unat (ds_n_pages (dss s d)) - u) (card (page_pool (vm_phys s) - allocated (vm_phys s))))), s') \<and>
    kmem_inv s' r d (u + min k (min (unat (ds_n_pages (dss s d)) - u) (card (page_pool (vm_phys s) - allocated (vm_phys s))))) \<and>
    kmem_addr s' r = kmem_addr s r \<and> ds_n_pages (dss s' d) = ds_n_pages (dss s d) \<and> vm_term s' = vm_term s \<and>
    (\<forall>T. tlb_ok T (vm_mmu s) \<longrightarrow> tlb_ok T (vm_mmu s')) \<and>
    card (page_pool (vm_phys s') - allocated (vm_phys s')) = card (page_pool (vm_phys s) - allocated (vm_phys s)) -
      min k (min (unat (ds_n_pages (dss s d)) - u) (card (page_pool (vm_phys s) - allocated (vm_phys s))))"
  using assms
proof (induction k arbitrary: u sr s)
  case 0
  then show ?case by simp
next
  case (Suc k)
  let ?n = "unat (ds_n_pages (dss s d))" and ?free = "\<lambda>p. page_pool p - allocated p"
  have lay: "kmem_layout s r d" and ph: "phys_inv (vm_phys s)" and un: "u \<le> ?n"
    using Suc.prems by (simp_all add: kmem_inv_def kmem_phys_def)
  show ?case
  proof (cases "u = ?n")
    case True
    then show ?thesis using Suc.prems by simp
  next
    case False
    then have u: "u < ?n" using un by simp
    from vm_phys_alloc_ok [OF ph] consider
        (some) q p where "vm_phys_alloc (vm_phys s) = Inr (Some q, p)" "q \<in> ?free (vm_phys s)"
          "allocated p = insert q (allocated (vm_phys s))" "page_pool p = page_pool (vm_phys s)" "phys_inv p"
      | (none) "allocated (vm_phys s) = page_pool (vm_phys s)" "vm_phys_alloc (vm_phys s) = Inr (None, vm_phys s)" by blast
    then show ?thesis
    proof cases
      case none
      then show ?thesis using Suc.prems False by simp
    next
      case some
      let ?va = "kmem_addr s r + of_nat (4096 * u)"
      let ?s = "add_page d u ?va q p s"
      note inv = kmem_inv_add_page [OF Suc.prems u some(2-5)]
      have len: "u < length (ds_pages (dss s d))" using lay u by (simp add: kmem_layout_def)
      have nxt: "kmem_addr s r + of_nat (4096 * Suc u) = ?va + 0x1000" by (simp add: algebra_simps)
      have ready: "pd_ready s (kernel_pd s)" using lay by (simp add: kmem_layout_def)
      let ?t = "upd_ds d (\<lambda>ds. ds\<lparr>ds_pages := (ds_pages ds)[u := q]\<rparr>) (s\<lparr>vm_phys := p\<rparr>)"
      have "pd_enter (kernel_pd s) ?va q VM_PROT_KMEM 0 ?t = Inr (0, ?t\<lparr>vm_mmu := enter_pte ?va q VM_PROT_KMEM (vm_mmu ?t)\<rparr>)"
        using ready kmem_page_at(1,2) [OF lay u] by (intro pd_enter_eq) (simp_all add: upd_ds_def pd_ready_def)
      then have enter: "pd_enter (kernel_pd s) ?va q VM_PROT_KMEM 0 ?t = Inr (0, ?s)"
        by (simp add: upd_ds_def add_page_def del: of_nat_mult)
      have run: "grow_loop (Suc k) u ?va sr d s = grow_loop k (Suc u) (?va + 0x1000) (sr + 0x1000) d ?s"
        using some(1) False len enter by (simp add: SYSARCH_PAGESIZE_def del: of_nat_mult)
      have "?free p = ?free (vm_phys s) - {q}" using some(3,4) by auto
      then have c: "card (?free (vm_phys s)) = Suc (card (?free p))"
        using card_Suc_Diff1 [of "?free (vm_phys s)" q] some(2) by simp
      have m: "min (Suc k) (min (?n - u) (card (?free (vm_phys s)))) = Suc (min k (min (?n - Suc u) (card (?free p))))"
        using u unfolding c by linarith
      have "tlb_ok T (vm_mmu ?s)" if "tlb_ok T (vm_mmu s)" for T
      proof -
        have rd: "mmu_ready (vm_mmu s)" using ready by (simp add: pd_ready_def)
        have "mmu_walk (vm_mmu s) ?va = None" using Suc.prems u unfolding kmem_inv_def by blast
        then show ?thesis
          using tlb_enter_pte [OF rd kmem_page_at(1,2) [OF lay u] that] tlb_unmapped [OF that kmem_page_at(1) [OF lay u]] by simp
      qed
      with Suc.IH [OF inv, of "sr + 0x1000"] show ?thesis
        unfolding run m nxt add_page_frame(1-8,10-11) unfolding c diff_Suc_Suc by (auto simp: algebra_simps)
    qed
  qed
qed

text \<open>The number of pages a call of the allocator gets.\<close>

definition kmem_grant :: "vm_state \<Rightarrow> nat \<Rightarrow> nat \<Rightarrow> nat \<Rightarrow> nat" where
  "kmem_grant s d u k = min k (min (unat (ds_n_pages (dss s d)) - u) (card (page_pool (vm_phys s) - allocated (vm_phys s))))"

lemma grow_critical_ok:
  assumes inv: "kmem_inv s r d u"
  shows "\<exists>s'. grow_critical n s =
      Inr (if kmem_grant s d u (nat n) = 0 then None
           else Some (kmem_addr s r + of_nat (4096 * u), of_nat (4096 * kmem_grant s d u (nat n))), s') \<and>
    kmem_inv s' r d (u + kmem_grant s d u (nat n)) \<and> kmem_addr s' r = kmem_addr s r \<and>
    ds_n_pages (dss s' d) = ds_n_pages (dss s d) \<and> vm_term s' = vm_term s \<and>
    (\<forall>T. tlb_ok T (vm_mmu s) \<longrightarrow> tlb_ok T (vm_mmu s')) \<and>
    card (page_pool (vm_phys s') - allocated (vm_phys s')) =
      card (page_pool (vm_phys s) - allocated (vm_phys s)) - kmem_grant s d u (nat n)"
proof -
  let ?n = "unat (ds_n_pages (dss s d))" and ?g = "kmem_grant s d u (nat n)"
  have lay: "kmem_layout s r d" and un: "u \<le> ?n"
    and pg: "\<forall>i<u. ds_pages (dss s d) ! i \<noteq> 0" "u < ?n \<longrightarrow> ds_pages (dss s d) ! u = 0"
    using inv by (simp_all add: kmem_inv_def)
  have len: "?n \<le> length (ds_pages (dss s d))" using lay by (simp add: kmem_layout_def)
  have scan: "scan_pages (ds_pages (dss s d)) ?n 0 = Inr u"
    by (rule scan_pages_inv) (use pg un len in auto)
  have mp: "unat (kmem_addr s r) + 4096 * ?n < 4294967296"
    using lay by (simp add: kmem_layout_def mappable_def)
  obtain s' where s': "grow_loop (nat n) u (kmem_addr s r + of_nat (4096 * u)) 0 d s = Inr (of_nat (4096 * ?g), s')"
    "kmem_inv s' r d (u + ?g)" "kmem_addr s' r = kmem_addr s r" "ds_n_pages (dss s' d) = ds_n_pages (dss s d)"
    "vm_term s' = vm_term s" "\<forall>T. tlb_ok T (vm_mmu s) \<longrightarrow> tlb_ok T (vm_mmu s')"
    "card (page_pool (vm_phys s') - allocated (vm_phys s')) = card (page_pool (vm_phys s) - allocated (vm_phys s)) - ?g"
    using grow_loop_ok [OF inv, of "nat n" 0] unfolding kmem_grant_def by auto
  have gn: "?g \<le> ?n" by (simp add: kmem_grant_def)
  with mp have "4096 * ?g < 4294967296" by linarith
  from of_nat_u32_eq_0 [OF this] have z: "(of_nat (4096 * ?g) :: u32) = 0 \<longleftrightarrow> ?g = 0" by simp
  have va: "kmem_addr s r + of_nat u * SYSARCH_PAGESIZE = kmem_addr s r + of_nat (4096 * u)"
    by (simp add: SYSARCH_PAGESIZE_def)
  show ?thesis
  proof (cases "u = ?n")
    case True
    then have "?g = 0" by (simp add: kmem_grant_def)
    with True lay scan inv show ?thesis
      by (simp add: grow_critical_def kmem_layout_def rmo_of_node_def Let_def)
  next
    case False
    with un have "\<not> u \<ge> ?n" by simp
    with lay scan s' z va show ?thesis
      by (simp add: grow_critical_def kmem_layout_def rmo_of_node_def Let_def kmem_addr_def [of s, symmetric]
          del: of_nat_mult)
  qed
qed

section \<open>The contract of the kernel's memory\<close>

definition kmem_rmo :: "vm_state \<Rightarrow> nat" where
  "kmem_rmo s = (case rmo_of_node (nextp (vm_links s) (Rm_Childs KERNEL_RM)) of Inl _ \<Rightarrow> 0 | Inr r \<Rightarrow> r)"

definition kmem_ds :: "vm_state \<Rightarrow> nat" where
  "kmem_ds s = (case rmo_object (rmos s (kmem_rmo s)) of Some (Obj_Dataspace d) \<Rightarrow> d | _ \<Rightarrow> 0)"

definition kmem_used :: "vm_state \<Rightarrow> nat" where
  "kmem_used s = length (takeWhile (\<lambda>p. p \<noteq> 0) (take (unat (ds_n_pages (dss s (kmem_ds s)))) (ds_pages (dss s (kmem_ds s)))))"

definition kmem_ok :: "vm_state \<Rightarrow> bool" where
  "kmem_ok s \<longleftrightarrow> kmem_inv s (kmem_rmo s) (kmem_ds s) (kmem_used s)"

definition kmem_taken :: "vm_state \<Rightarrow> nat set" where
  "kmem_taken s = {unat (kmem_addr s (kmem_rmo s)) ..< unat (kmem_addr s (kmem_rmo s)) + 4096 * kmem_used s}"

lemma kmem_inv_state:
  assumes inv: "kmem_inv s r d u"
  shows "kmem_rmo s = r" "kmem_ds s = d" "kmem_used s = u"
proof -
  have lay: "kmem_layout s r d" using inv by (simp add: kmem_inv_def)
  show r: "kmem_rmo s = r" using lay by (simp add: kmem_rmo_def kmem_layout_def rmo_of_node_def)
  show d: "kmem_ds s = d" using lay by (simp add: kmem_ds_def kmem_layout_def r)
  let ?n = "unat (ds_n_pages (dss s d))" and ?ps = "ds_pages (dss s d)"
  have u: "u \<le> ?n" "?n \<le> length ?ps" "\<forall>i<u. ?ps ! i \<noteq> 0" "u < ?n \<longrightarrow> ?ps ! u = 0"
    using inv by (simp_all add: kmem_inv_def kmem_layout_def)
  have "length (takeWhile (\<lambda>p. p \<noteq> 0) (take ?n ?ps)) = u"
    by (rule length_takeWhile_eqI) (use u in auto)
  then show "kmem_used s = u" by (simp add: kmem_used_def d)
qed

lemma kmem_call_ok:
  assumes ok: "kmem_ok s"
  shows "\<exists>r s'. grow_critical n s = Inr (r, s') \<and> kmem_ok s' \<and>
    (case r of None \<Rightarrow> kmem_taken s' = kmem_taken s
     | Some (b, k) \<Rightarrow> chunk_ok b k \<and> chunk b k \<inter> kmem_taken s = {} \<and> kmem_taken s' = kmem_taken s \<union> chunk b k)"
proof -
  let ?r = "kmem_rmo s" and ?d = "kmem_ds s" and ?u = "kmem_used s"
  let ?g = "kmem_grant s ?d ?u (nat n)" and ?a = "kmem_addr s ?r"
  have inv: "kmem_inv s ?r ?d ?u" using ok by (simp add: kmem_ok_def)
  from grow_critical_ok [OF inv, of n] obtain s' where s': "grow_critical n s =
      Inr (if ?g = 0 then None else Some (?a + of_nat (4096 * ?u), of_nat (4096 * ?g)), s')"
    "kmem_inv s' ?r ?d (?u + ?g)" "kmem_addr s' ?r = ?a" by blast
  note st = kmem_inv_state [OF s'(2)]
  have ok': "kmem_ok s'" using s'(2) unfolding kmem_ok_def st .
  have lay: "mappable (vm_mmu s) ?a (unat (ds_n_pages (dss s ?d)))" "4096 dvd unat ?a" "?u \<le> unat (ds_n_pages (dss s ?d))"
    using inv by (simp_all add: kmem_inv_def kmem_layout_def)
  have ug: "?u + ?g \<le> unat (ds_n_pages (dss s ?d))" using lay(3) by (simp add: kmem_grant_def)
  have a: "unat (?a + of_nat (4096 * ?u)) = unat ?a + 4096 * ?u"
    using lay by (intro unat_page_at [where n = "unat (ds_n_pages (dss s ?d))"]) (auto simp: mappable_def)
  have top: "unat ?a + 4096 * (?u + ?g) < 4294967296" using lay(1) ug by (simp add: mappable_def)
  then have g: "unat (of_nat (4096 * ?g) :: u32) = 4096 * ?g" by (intro unat_of_nat_u32) simp
  have tk: "kmem_taken s = {unat ?a ..< unat ?a + 4096 * ?u}" "kmem_taken s' = {unat ?a ..< unat ?a + 4096 * (?u + ?g)}"
    unfolding kmem_taken_def st s'(3) by (rule refl)+
  have pos: "0 < unat ?a" using lay(1) by (simp add: mappable_def word_le_nat_alt)
  show ?thesis
  proof (cases "?g = 0")
    case True
    then show ?thesis using s'(1) ok' tk by simp
  next
    case False
    have "chunk (?a + of_nat (4096 * ?u)) (of_nat (4096 * ?g)) = {unat ?a + 4096 * ?u ..< unat ?a + 4096 * (?u + ?g)}"
      unfolding chunk_def a g by (simp add: algebra_simps)
    moreover have "chunk_ok (?a + of_nat (4096 * ?u)) (of_nat (4096 * ?g))"
      unfolding chunk_ok_def a g using False pos top lay(2) by simp
    ultimately show ?thesis
      using s'(1) ok' tk False by (auto simp del: of_nat_mult)
  qed
qed

text \<open>The message in front of the work.\<close>

lemma kmem_pages: "unat (drop_bit 12 (ROUND_DOWN (req + (SYSARCH_PAGESIZE - 1)))) = kmem_request req"
  "nat (uint (DIV_PAGESIZE (ROUND_DOWN (req + (SYSARCH_PAGESIZE - 1))))) = kmem_request req"
proof -
  have e: "SYSARCH_PAGESIZE - 1 = 0xFFF" by (simp add: SYSARCH_PAGESIZE_def)
  have a: "nat (uint (DIV_PAGESIZE (ROUND_DOWN w))) = unat w div 4096" for w
    using unat_round_down [of w] by (simp add: DIV_PAGESIZE_def ROUND_DOWN_def drop_bit_eq_div unat_div del: bit.compl_eq_compl_iff)
  have b: "unat (req + 0xFFF) div 4096 = kmem_request req"
  proof (cases "unat req + 4095 < 4294967296")
    case True
    then show ?thesis by (simp add: kmem_request_def unat_add_u32)
  next
    case False
    have "unat (req + 0xFFF) = (unat req + 4095) mod 4294967296" by (simp add: unat_word_ariths)
    also have "\<dots> = unat req + 4095 - 4294967296" using False unat_u32_lt [of req] by (simp add: mod_if)
    also have "\<dots> < 4096" using unat_u32_lt [of req] by linarith
    finally show ?thesis using False by (simp add: kmem_request_def)
  qed
  show "nat (uint (DIV_PAGESIZE (ROUND_DOWN (req + (SYSARCH_PAGESIZE - 1))))) = kmem_request req" unfolding e a b ..
  then show "unat (drop_bit 12 (ROUND_DOWN (req + (SYSARCH_PAGESIZE - 1)))) = kmem_request req" by (simp add: DIV_PAGESIZE_def)
qed

lemma kmem_request_less: "kmem_request req < 2147483648"
  using unat_u32_lt [of req] by (auto simp: kmem_request_def)

lemma kmem_message:
  assumes "kmem_inv s r d u" and "ch CHR ''%'' \<notin> set pre" and "0 \<notin> set pre" and "length pre < 100"
  obtains kt where
    "vm_message (pre @ [ch CHR ''%'', ch CHR ''d'', 10]) [drop_bit 12 (ROUND_DOWN (req + (SYSARCH_PAGESIZE - 1)))] s = Inr (s\<lparr>vm_term := kt\<rparr>)"
    "kmem_inv (s\<lparr>vm_term := kt\<rparr>) r d u" "screen kt = show_text (pre @ dec_text (kmem_request req) @ [10]) (screen (vm_term s))"
proof -
  have up: "term_up (vm_term s)" "length (vm_numbuf s) = 100" using assms(1) by (simp_all add: kmem_inv_def kmem_layout_def vm_up_def)
  obtain kt where kt: "message (vm_numbuf s) (pre @ [ch CHR ''%'', ch CHR ''d'', 10])
      [drop_bit 12 (ROUND_DOWN (req + (SYSARCH_PAGESIZE - 1)))] (vm_term s) = Inr kt" "term_up kt"
    "screen kt = show_text (pre @ dec_text (kmem_request req) @ [10]) (screen (vm_term s))"
    using message_one [OF up assms(2-4), of "drop_bit 12 (ROUND_DOWN (req + (SYSARCH_PAGESIZE - 1)))"] kmem_request_less
    unfolding kmem_pages(1) by blast
  then have "kmem_inv (s\<lparr>vm_term := kt\<rparr>) r d u"
    using assms(1) by (simp add: kmem_inv_def kmem_layout_def kmem_phys_def kmem_addr_def pd_ready_def vm_up_def)
  with kt show thesis by (intro that) (simp_all add: vm_message_def)
qed

lemma kmem_formats:
  "bytes ''LL: %d'' @ [10] = bytes ''LL: '' @ [ch CHR ''%'', ch CHR ''d'', 10]"
  "bytes ''Critical: %d'' @ [10] = bytes ''Critical: '' @ [ch CHR ''%'', ch CHR ''d'', 10]"
  "ch CHR ''%'' \<notin> set (bytes ''LL: '')" "0 \<notin> set (bytes ''LL: '')" "length (bytes ''LL: '') < 100"
  "ch CHR ''%'' \<notin> set (bytes ''Critical: '')" "0 \<notin> set (bytes ''Critical: '')" "length (bytes ''Critical: '') < 100"
  by (simp_all add: bytes_def ch_def)

definition kmem_avail :: "vm_state \<Rightarrow> nat" where
  "kmem_avail s = min (unat (ds_n_pages (dss s (kmem_ds s))) - kmem_used s) (card (page_pool (vm_phys s) - allocated (vm_phys s)))"

definition kmem_view :: "vm_state \<Rightarrow> console" where
  "kmem_view s = screen (vm_term s)"

definition ll_text :: "nat \<Rightarrow> u8 list" where
  "ll_text k = bytes ''LL: '' @ dec_text k @ [10]"

text \<open>A call in terms of the invariant.\<close>

lemma vm_kalloc_ll_inv:
  assumes inv: "kmem_inv s r d u"
  shows "\<exists>s'. vm_kalloc_ll s req = Inr (if kmem_grant s d u (kmem_request req) = 0 then None
           else Some (kmem_addr s r + of_nat (4096 * u), of_nat (4096 * kmem_grant s d u (kmem_request req))), s') \<and>
    kmem_inv s' r d (u + kmem_grant s d u (kmem_request req)) \<and> kmem_addr s' r = kmem_addr s r \<and>
    ds_n_pages (dss s' d) = ds_n_pages (dss s d) \<and> screen (vm_term s') = show_text (ll_text (kmem_request req)) (screen (vm_term s)) \<and>
    (\<forall>T. tlb_ok T (vm_mmu s) \<longrightarrow> tlb_ok T (vm_mmu s')) \<and>
    card (page_pool (vm_phys s') - allocated (vm_phys s')) =
      card (page_pool (vm_phys s) - allocated (vm_phys s)) - kmem_grant s d u (kmem_request req)"
proof -
  let ?n = "uint (DIV_PAGESIZE (ROUND_DOWN (req + (SYSARCH_PAGESIZE - 1))))"
  obtain kt where kt: "vm_message (bytes ''LL: %d'' @ [10]) [drop_bit 12 (ROUND_DOWN (req + (SYSARCH_PAGESIZE - 1)))] s =
      Inr (s\<lparr>vm_term := kt\<rparr>)" "kmem_inv (s\<lparr>vm_term := kt\<rparr>) r d u"
    "screen kt = show_text (bytes ''LL: '' @ dec_text (kmem_request req) @ [10]) (screen (vm_term s))"
    unfolding kmem_formats(1) by (rule kmem_message [OF inv kmem_formats(3-5)])
  from kt(1) have run: "vm_kalloc_ll s req = grow_critical ?n (s\<lparr>vm_term := kt\<rparr>)" by (simp add: vm_kalloc_ll_def Let_def)
  have g: "kmem_grant (s\<lparr>vm_term := kt\<rparr>) d u k = kmem_grant s d u k" "kmem_addr (s\<lparr>vm_term := kt\<rparr>) r = kmem_addr s r" for k
    by (simp_all add: kmem_grant_def kmem_addr_def)
  from grow_critical_ok [OF kt(2), of ?n] kt(3) show ?thesis unfolding run kmem_pages(2) g ll_text_def by auto
qed

interpretation km: zone_supply vm_kalloc_ll vm_alloc_critical kmem_ok kmem_taken kmem_avail kmem_view "\<lambda>k. show_text (ll_text k)"
proof unfold_locales
  fix s :: vm_state and n
  assume "kmem_ok s"
  then have inv: "kmem_inv s (kmem_rmo s) (kmem_ds s) (kmem_used s)" by (simp add: kmem_ok_def)
  have call: "\<exists>r s'. grow_critical k (s\<lparr>vm_term := kt\<rparr>) = Inr (r, s') \<and> kmem_ok s' \<and> (case r of None \<Rightarrow> kmem_taken s' = kmem_taken s
      | Some (b, l) \<Rightarrow> chunk_ok b l \<and> chunk b l \<inter> kmem_taken s = {} \<and> kmem_taken s' = kmem_taken s \<union> chunk b l)"
    if "kmem_inv (s\<lparr>vm_term := kt\<rparr>) (kmem_rmo s) (kmem_ds s) (kmem_used s)" for kt k
  proof -
    have ok: "kmem_ok (s\<lparr>vm_term := kt\<rparr>)" using that kmem_inv_state [OF that] by (simp add: kmem_ok_def)
    have tk: "kmem_taken (s\<lparr>vm_term := kt\<rparr>) = kmem_taken s"
      using kmem_inv_state [OF that] by (simp add: kmem_taken_def kmem_addr_def)
    show ?thesis using kmem_call_ok [OF ok, of k] unfolding tk .
  qed
  show "\<exists>r s'. vm_kalloc_ll s n = Inr (r, s') \<and> kmem_ok s' \<and> (case r of None \<Rightarrow> kmem_taken s' = kmem_taken s
      | Some (b, l) \<Rightarrow> chunk_ok b l \<and> chunk b l \<inter> kmem_taken s = {} \<and> kmem_taken s' = kmem_taken s \<union> chunk b l)"
  proof (rule kmem_message [OF inv kmem_formats(3-5), where req = n])
    fix kt
    assume "vm_message (bytes ''LL: '' @ [ch CHR ''%'', ch CHR ''d'', 10]) [drop_bit 12 (ROUND_DOWN (n + (SYSARCH_PAGESIZE - 1)))] s =
        Inr (s\<lparr>vm_term := kt\<rparr>)" and i: "kmem_inv (s\<lparr>vm_term := kt\<rparr>) (kmem_rmo s) (kmem_ds s) (kmem_used s)"
    then show ?thesis using call [OF i] by (simp add: vm_kalloc_ll_def Let_def kmem_formats(1))
  qed
  show "\<exists>r s'. vm_alloc_critical s n = Inr (r, s') \<and> kmem_ok s' \<and> (case r of None \<Rightarrow> kmem_taken s' = kmem_taken s
      | Some (b, l) \<Rightarrow> chunk_ok b l \<and> chunk b l \<inter> kmem_taken s = {} \<and> kmem_taken s' = kmem_taken s \<union> chunk b l)"
  proof (rule kmem_message [OF inv kmem_formats(6-8), where req = n])
    fix kt
    assume "vm_message (bytes ''Critical: '' @ [ch CHR ''%'', ch CHR ''d'', 10]) [drop_bit 12 (ROUND_DOWN (n + (SYSARCH_PAGESIZE - 1)))] s =
        Inr (s\<lparr>vm_term := kt\<rparr>)" and i: "kmem_inv (s\<lparr>vm_term := kt\<rparr>) (kmem_rmo s) (kmem_ds s) (kmem_used s)"
    then show ?thesis using call [OF i] by (simp add: vm_alloc_critical_def Let_def kmem_formats(2))
  qed
  assume k: "0 < kmem_request n" "kmem_request n \<le> kmem_avail s"
  from k(2) have g: "kmem_grant s (kmem_ds s) (kmem_used s) (kmem_request n) = kmem_request n" by (simp add: kmem_grant_def kmem_avail_def)
  obtain s' where s': "vm_kalloc_ll s n = Inr (Some (kmem_addr s (kmem_rmo s) + of_nat (4096 * kmem_used s), of_nat (4096 * kmem_request n)), s')"
    "kmem_inv s' (kmem_rmo s) (kmem_ds s) (kmem_used s + kmem_request n)" "ds_n_pages (dss s' (kmem_ds s)) = ds_n_pages (dss s (kmem_ds s))"
    "screen (vm_term s') = show_text (ll_text (kmem_request n)) (screen (vm_term s))"
    "card (page_pool (vm_phys s') - allocated (vm_phys s')) = card (page_pool (vm_phys s) - allocated (vm_phys s)) - kmem_request n"
    using vm_kalloc_ll_inv [OF inv, of n] k(1) unfolding g by auto
  have "kmem_avail s' = kmem_avail s - kmem_request n" using kmem_inv_state [OF s'(2)] s'(3,5) by (simp add: kmem_avail_def)
  then show "\<exists>b s'. vm_kalloc_ll s n = Inr (Some (b, of_nat (4096 * kmem_request n)), s') \<and>
      kmem_avail s' = kmem_avail s - kmem_request n \<and> kmem_view s' = show_text (ll_text (kmem_request n)) (kmem_view s)"
    using s'(1,4) by (auto simp: kmem_view_def)
qed

section \<open>Properties\<close>

text \<open>C8. The kernel's page-level allocator. From a state that satisfies the invariant
  \<^verbatim>\<open>vm_kalloc_ll\<close> does not fault and keeps it. It gets as many pages as the request rounds
  up to, or as many as the dataspace has slots or the page allocator has pages left, if that is
  less; it returns their run of addresses, directly behind the one of the last call, each
  translated, writable, to a page of its own, and no address behind them is translated; with no page at
  all it fails. The terminal shows the number of pages asked for. No flush is needed: a TLB that is coherent
  with the page tables before the call is so after it.\<close>

theorem vm_kalloc_ll_maps:
  assumes "kmem_inv s r d u"
  shows "\<exists>s'. let g = kmem_grant s d u (kmem_request req); a = kmem_addr s r + of_nat (4096 * u) in
    vm_kalloc_ll s req = Inr (if g = 0 then None else Some (a, of_nat (4096 * g)), s') \<and>
    kmem_inv s' r d (u + g) \<and> kmem_addr s' r = kmem_addr s r \<and> distinct (take (u + g) (ds_pages (dss s' d))) \<and>
    screen (vm_term s') = show_text (bytes ''LL: '' @ dec_text (kmem_request req) @ [10]) (screen (vm_term s)) \<and>
    (\<forall>i<g. mmu_walk (vm_mmu s') (a + of_nat (4096 * i)) = Some (ds_pages (dss s' d) ! (u + i), True)) \<and>
    (\<forall>i. u + g \<le> i \<and> i < unat (ds_n_pages (dss s' d)) \<longrightarrow> mmu_walk (vm_mmu s') (kmem_addr s' r + of_nat (4096 * i)) = None) \<and>
    (\<forall>T. tlb_ok T (vm_mmu s) \<longrightarrow> tlb_ok T (vm_mmu s'))"
proof -
  let ?g = "kmem_grant s d u (kmem_request req)" and ?a = "kmem_addr s r + of_nat (4096 * u)"
  from vm_kalloc_ll_inv [OF assms, of req]
  obtain s' where s': "vm_kalloc_ll s req = Inr (if ?g = 0 then None else Some (?a, of_nat (4096 * ?g)), s')"
    "kmem_inv s' r d (u + ?g)" "kmem_addr s' r = kmem_addr s r"
    "screen (vm_term s') = show_text (bytes ''LL: '' @ dec_text (kmem_request req) @ [10]) (screen (vm_term s))"
    "\<forall>T. tlb_ok T (vm_mmu s) \<longrightarrow> tlb_ok T (vm_mmu s')"
    unfolding ll_text_def by blast
  have "mmu_walk (vm_mmu s') (?a + of_nat (4096 * i)) = Some (ds_pages (dss s' d) ! (u + i), True)" if "i < ?g" for i
  proof -
    have "mmu_walk (vm_mmu s') (kmem_addr s' r + of_nat (4096 * (u + i))) = Some (ds_pages (dss s' d) ! (u + i), True)"
      using s'(2) that unfolding kmem_inv_def by (metis add_less_cancel_left)
    then show ?thesis unfolding s'(3) by (simp add: algebra_simps)
  qed
  moreover have "distinct (take (u + ?g) (ds_pages (dss s' d)))" using s'(2) by (simp add: kmem_inv_def)
  moreover have "\<forall>i. u + ?g \<le> i \<and> i < unat (ds_n_pages (dss s' d)) \<longrightarrow> mmu_walk (vm_mmu s') (kmem_addr s' r + of_nat (4096 * i)) = None"
    using s'(2) unfolding kmem_inv_def by blast
  ultimately show ?thesis using s' by (intro exI [of _ s']) (unfold Let_def, blast)
qed

text \<open>The memory of the example has its first region present: two pages, both used.\<close>

definition example_kmem :: vm_state where
  "example_kmem = example_vm\<lparr>dss := \<lambda>_. \<lparr>ds_lock = 0, ds_n_pages = 2, ds_refc = 1, ds_size = 0x2000, ds_pages = [0, 0]\<rparr>\<rparr>"

lemma example_kmem_inv: "kmem_inv example_kmem 0 0 0"
proof -
  have mp: "mappable example_mmu 0xC1000000 2"
    unfolding mappable_def all_less_2 by (simp add: PDX_def example_mmu_def)
  have "kmem_phys example_kmem"
    by (simp add: example_phys_pool kmem_phys_def pages_aligned_def example_kmem_def example_vm_def example_phys_inv example_phys_alloc PTE_ADDR_def)
  moreover have "kmem_layout example_kmem 0 0"
    using mp example_mmu_ok
    using example_vm_up
    by (simp add: kmem_layout_def example_kmem_def example_vm_def KERNEL_RM_def kmem_addr_def pd_ready_def mmu_ready_def vm_up_def)
  moreover have "mmu_walk (vm_mmu example_kmem) va = None" for va
    by (simp add: example_kmem_def example_vm_def mmu_walk_def example_mmu_def Let_def)
  ultimately show ?thesis
    by (auto simp: kmem_inv_def example_kmem_def less_2_cases_iff)
qed

theorem vm_kalloc_ll_maps_witness:
  "\<exists>s'. vm_kalloc_ll example_kmem 5000 = Inr (Some (0xC1000000, 0x2000), s') \<and> kmem_inv s' 0 0 2"
proof -
  have "kmem_addr example_kmem 0 = 0xC1000000" by (simp add: kmem_addr_def example_kmem_def example_vm_def)
  moreover have "card (page_pool example_phys - allocated example_phys) = 3"
    by (simp add: example_phys_pool example_phys_alloc insert_Diff_if)
  then have "kmem_grant example_kmem 0 0 (kmem_request 5000) = 2"
    by (simp add: kmem_grant_def kmem_request_def example_kmem_def example_vm_def)
  ultimately show ?thesis using vm_kalloc_ll_maps [OF example_kmem_inv, of 5000] by (auto simp: Let_def)
qed

end
