(* ===== verification/Kernel_Core.thy ===== *)
theory Kernel_Core
  imports Threads Zone_Alloc Kmem
begin

text \<open>
  The allocators of the kernel put together. The state of the zones carries the state of the
  virtual memory below it, so that a zone refills itself from \<^verbatim>\<open>vm_kalloc_ll\<close>, and the
  state of the stacks carries both. On these the theory interprets \<open>thread_memory\<close>, so
  that \<^verbatim>\<open>thread_allocate\<close> is shown correct over the zones, the stacks, the page allocator
  and the MMU at once. It also models \<^verbatim>\<open>vm_init\<close> (\<open>system/vm/vm_init.c\<close>), which
  brings all of them up, and \<^verbatim>\<open>pd_drop\<close> (\<open>system/vm/protection_domain.c\<close>), which frees a
  protection domain to its zone, and \<^verbatim>\<open>thread_init\<close> (\<open>system/kern/kern_thread.c\<close>) and
  \<^verbatim>\<open>sched_init\<close> (\<open>system/kern/kern_sched.c\<close>), which create the zones of threads and
  of schedulers.
\<close>

section \<open>Initialisation and release\<close>

text \<open>\<open>s_zone_zone\<close> and \<open>szz_buf\<close> are the addresses of the static zone and its buffer,
  \<open>dir\<close> that of the kernel's page directory.\<close>

definition vm_init :: "u32 \<Rightarrow> u32 \<Rightarrow> u32 \<Rightarrow> vm_state zstate \<Rightarrow> vm_state zstate res" where
  "vm_init s_zone_zone szz_buf dir m =
     rbind (zone_bootstrap s_zone_zone szz_buf m) (\<lambda>m.
     rbind (pmap_init dir (vm_phys (zvm m)) (vm_mmu (zvm m))) (\<lambda>(pm, p, mmu).
     let s = (zvm m)\<lparr>vm_pmap := pm, vm_phys := p, vm_mmu := mmu\<rparr>;
         s = pd_init s
     in rbind (rm_init s) (\<lambda>s. Inr (m\<lparr>zvm := s\<rparr>))))"

definition pd_drop :: "u32 \<Rightarrow> vm_state zstate \<Rightarrow> vm_state zstate res" where
  "pd_drop pd m =
     (if pd = kernel_pd (zvm m) then Inr m
      else
      rbind (kernlock_lock (pd_refclock (pds (zvm m) pd))) (\<lambda>l.
      let s = upd_pd pd (\<lambda>p. p\<lparr>pd_refc := pd_refc p - 1\<rparr>) (zvm m);
          f = (pd_refc (pds s pd) \<noteq> 0);
          m = m\<lparr>zvm := upd_pd pd (\<lambda>p. p\<lparr>pd_refclock := kernlock_unlock l\<rparr>) s\<rparr>
      in if f then Inr m else zfree pd m))"

text \<open>The zones of the threads and of the schedulers; the template of the threads is in \<open>Threads\<close>.
  A \<^verbatim>\<open>struct thread\<close> has 76 bytes, a \<^verbatim>\<open>struct scheduler\<close> 536.\<close>

definition sizeof_thread :: u32 where "sizeof_thread = 76"
definition sizeof_scheduler :: u32 where "sizeof_scheduler = 536"

definition thread_init :: "vm_state zstate \<Rightarrow> (u32 \<times> vm_state zstate) res" where
  "thread_init m = zinit vm_kalloc_ll vm_alloc_critical sizeof_thread ZONE_AUTO_REFILL (Some ''threads'') m"

definition sched_init :: "vm_state zstate \<Rightarrow> (u32 \<times> vm_state zstate) res" where
  "sched_init m = zinit vm_kalloc_ll vm_alloc_critical sizeof_scheduler ZONE_AUTO_REFILL (Some ''Scheduler allocator'') m"

section \<open>One memory for zones, stacks and threads\<close>

text \<open>\<^verbatim>\<open>vm_kalloc_ll\<close> on the state of the zones, and the zone of the threads.\<close>

definition zkalloc :: "vm_state zstate kalloc" where
  "zkalloc m n = rbind (vm_kalloc_ll (zvm m) n) (\<lambda>(r, v). Inr (r, m\<lparr>zvm := v\<rparr>))"

definition thread_zalloc :: "u32 \<Rightarrow> vm_state zstate \<Rightarrow> (nat option \<times> vm_state zstate) res" where
  "thread_zalloc z m = rbind (zalloc vm_kalloc_ll vm_alloc_critical z m) (\<lambda>(r, m).
     Inr (if r = 0 then None else Some (unat r), m))"

definition thread_zfree :: "nat option \<Rightarrow> vm_state zstate \<Rightarrow> vm_state zstate res" where
  "thread_zfree t m = zfree (case t of None \<Rightarrow> 0 | Some k \<Rightarrow> of_nat k) m"

definition thread_zone :: "u32 \<Rightarrow> vm_state zstate \<Rightarrow> nat set \<Rightarrow> bool" where
  "thread_zone z m T \<longleftrightarrow> zone_idle kmem_ok kmem_taken z m (of_nat ` T) \<and> (\<forall>t\<in>T. t < 4294967296)"

text \<open>The threads that can be handed out without new memory.\<close>

definition thread_free :: "u32 \<Rightarrow> vm_state zstate \<Rightarrow> nat set" where
  "thread_free z m = unat ` zone_free z m"

lemma thread_free_mem: "k < 4294967296 \<Longrightarrow> k \<in> thread_free z m \<longleftrightarrow> of_nat k \<in> zone_free z m"
  unfolding thread_free_def by (metis (no_types, opaque_lifting) image_iff of_nat_unat_u32 unat_of_nat_u32)

lemma thread_zone_free:
  assumes "thread_zone z m T"
  shows "thread_free z m \<inter> T = {}"
proof -
  have "zone_free z m \<inter> of_nat ` T = {}" using assms km.zon.pool_free_live by (auto simp: thread_zone_def)
  then show ?thesis using assms thread_free_mem [of _ z m] by (fastforce simp: thread_zone_def)
qed

lemma thread_zalloc_free:
  assumes z: "thread_zone z m T" and run: "thread_zalloc z m = Inr (r, m')"
  shows "\<exists>N. N \<inter> (thread_free z m \<union> T) = {} \<and> (case r of None \<Rightarrow> thread_free z m = {} \<and> N = {} \<and> thread_free z m' = {}
    | Some k \<Rightarrow> k \<in> thread_free z m \<union> N \<and> thread_free z m' = thread_free z m \<union> N - {k})"
proof -
  from run obtain q where q: "zalloc vm_kalloc_ll vm_alloc_critical z m = Inr (q, m')" "r = (if q = 0 then None else Some (unat q))"
    by (auto simp: thread_zalloc_def res_inv)
  have zi: "zone_idle kmem_ok kmem_taken z m (of_nat ` T)" "\<forall>t\<in>T. t < 4294967296" using z by (simp_all add: thread_zone_def)
  have "zalloc_opt vm_kalloc_ll vm_alloc_critical z m = Inr (null_opt q, m')" using q(1) by (simp add: zalloc_opt_def)
  from km.zon.pool_alloc_free [OF zi(1) this] obtain N where N: "N \<inter> (zone_free z m \<union> of_nat ` T) = {}"
    "case null_opt q of None \<Rightarrow> zone_free z m = {} \<and> N = {} \<and> zone_free z m' = {}
     | Some k \<Rightarrow> k \<in> zone_free z m \<union> N \<and> zone_free z m' = zone_free z m \<union> N - {k}" by blast
  have inj: "inj (unat :: u32 \<Rightarrow> nat)" by (rule injI) (simp only: word_unat_eq_iff)
  have "unat x \<notin> T" if "x \<in> N" for x using N(1) that zi(2) by (metis disjoint_iff image_eqI of_nat_unat_u32 Un_iff)
  then have "unat ` N \<inter> (thread_free z m \<union> T) = {}" using N(1) by (auto simp: thread_free_def dest!: injD [OF inj])
  moreover have "unat ` (zone_free z m \<union> N - {q}) = unat ` zone_free z m \<union> unat ` N - {unat q}"
    by (simp add: image_set_diff [OF inj] image_Un)
  ultimately show ?thesis using N(2) q(2)
    by (intro exI [of _ "unat ` N"]) (auto simp: null_opt_def thread_free_def split: if_splits)
qed

lemma thread_zfree_free:
  assumes "thread_zone z m T" and "k \<in> T" and "thread_zfree (Some k) m = Inr m'"
  shows "thread_free z m' = insert k (thread_free z m)"
proof -
  have zi: "zone_idle kmem_ok kmem_taken z m (of_nat ` T)" "k < 4294967296" using assms(1,2) by (auto simp: thread_zone_def)
  have "zone_free z m' = insert (of_nat k) (zone_free z m)"
    using km.zon.pool_release_free [OF zi(1), of "of_nat k"] assms(2,3) by (simp add: thread_zfree_def zfree_opt_def)
  then show ?thesis using zi(2) by (simp add: thread_free_def unat_of_nat_u32)
qed

lemma thread_zalloc_ok:
  assumes "thread_zone z m T"
  shows "\<exists>r m'. thread_zalloc z m = Inr (r, m') \<and> kmem_taken (zvm m) \<subseteq> kmem_taken (zvm m') \<and>
    (case r of None \<Rightarrow> thread_zone z m' T | Some k \<Rightarrow> k \<notin> T \<and> thread_zone z m' (insert k T))"
proof -
  have p: "zone_pool kmem_ok kmem_taken z m (of_nat ` T)" "zn_lock (zones m z) = 0" "\<forall>t\<in>T. t < 4294967296"
    using assms by (auto simp: thread_zone_def zone_idle_def)
  from km.zalloc_pool [OF p(1,2)] obtain r m' where r: "zalloc vm_kalloc_ll vm_alloc_critical z m = Inr (r, m')"
    "zn_lock (zones m' z) = 0" "kmem_taken (zvm m) \<subseteq> kmem_taken (zvm m')"
    "if r = 0 then zone_pool kmem_ok kmem_taken z m' (of_nat ` T)
     else r \<notin> of_nat ` T \<and> zone_pool kmem_ok kmem_taken z m' (insert r (of_nat ` T))"
    unfolding km.zone_frame_def by blast
  have run: "thread_zalloc z m = Inr (if r = 0 then None else Some (unat r), m')"
    using r(1) by (simp add: thread_zalloc_def)
  show ?thesis
  proof (cases "r = 0")
    case True
    then show ?thesis using run r p(3) by (simp add: thread_zone_def zone_idle_def)
  next
    case False
    have "unat r \<notin> T" using r(4) False p(3) by (metis image_eqI of_nat_unat_u32)
    moreover have "of_nat ` insert (unat r) T = insert r (of_nat ` T)" by simp
    ultimately show ?thesis
      using run r False p(3) unat_u32_lt [of r] by (simp add: thread_zone_def zone_idle_def)
  qed
qed

lemma thread_zfree_ok:
  assumes "thread_zone z m T" and "t \<in> T"
  shows "\<exists>m'. thread_zfree (Some t) m = Inr m' \<and> thread_zone z m' (T - {t})"
proof -
  have T: "\<forall>t\<in>T. t < 4294967296" and z: "zone_idle kmem_ok kmem_taken z m (of_nat ` T)"
    using assms by (auto simp: thread_zone_def)
  have inj: "inj_on (of_nat :: nat \<Rightarrow> u32) T"
    using T by (intro inj_onI) (metis unat_of_nat_u32)
  from km.zon.pool_release_ok [OF z, of "of_nat t"] assms(2) obtain m' where
    m': "zfree (of_nat t) m = Inr m'" "zone_idle kmem_ok kmem_taken z m' (of_nat ` T - {of_nat t})"
    by (auto simp: zfree_opt_def)
  moreover have "of_nat ` (T - {t}) = of_nat ` T - {of_nat t :: u32}"
    using inj_on_image_set_diff [OF inj, of T "{t}"] assms(2) by simp
  ultimately show ?thesis using T by (simp add: thread_zfree_def thread_zone_def)
qed

interpretation tm: thread_supply zkalloc "\<lambda>m. kmem_ok (zvm m)" "\<lambda>m. kmem_taken (zvm m)"
  "thread_zalloc z" thread_zfree "thread_zone z" "thread_free z" "\<lambda>m. kmem_avail (zvm m)" "\<lambda>m. kmem_view (zvm m)" "\<lambda>k. show_text (ll_text k)" for z
proof unfold_locales
  fix v :: "vm_state zstate" and n
  assume "kmem_ok (zvm v)"
  from km.kalloc_ok [OF this, of n] obtain r s where r: "vm_kalloc_ll (zvm v) n = Inr (r, s)" "kmem_ok s"
    "case r of None \<Rightarrow> kmem_taken s = kmem_taken (zvm v)
     | Some (b, k) \<Rightarrow> chunk_ok b k \<and> chunk b k \<inter> kmem_taken (zvm v) = {} \<and>
         kmem_taken s = kmem_taken (zvm v) \<union> chunk b k" by blast
  then show "\<exists>r v'. zkalloc v n = Inr (r, v') \<and> kmem_ok (zvm v') \<and>
      (case r of None \<Rightarrow> kmem_taken (zvm v') = kmem_taken (zvm v)
       | Some (b, s) \<Rightarrow> chunk_ok b s \<and> chunk b s \<inter> kmem_taken (zvm v) = {} \<and>
           kmem_taken (zvm v') = kmem_taken (zvm v) \<union> chunk b s)"
    by (intro exI [of _ r] exI [of _ "v\<lparr>zvm := s\<rparr>"]) (auto simp: zkalloc_def split: option.splits)
next
  fix m :: "vm_state zstate" and L
  assume "thread_zone z m L"
  from thread_zalloc_ok [OF this] show "\<exists>r m'. thread_zalloc z m = Inr (r, m') \<and>
      (case r of None \<Rightarrow> thread_zone z m' L | Some k \<Rightarrow> k \<notin> L \<and> thread_zone z m' (insert k L))"
    by blast
next
  fix m :: "vm_state zstate" and L k
  assume "thread_zone z m L" "k \<in> L"
  then show "\<exists>m'. thread_zfree (Some k) m = Inr m' \<and> thread_zone z m' (L - {k})" by (rule thread_zfree_ok)
next
  fix m :: "vm_state zstate"
  show "thread_zfree None m = Inr m" by (simp add: thread_zfree_def zfree_def)
next
  fix m :: "vm_state zstate" and L
  assume "thread_zone z m L"
  then show "thread_free z m \<inter> L = {}" by (rule thread_zone_free)
next
  fix m m' :: "vm_state zstate" and L r
  assume "thread_zone z m L" "thread_zalloc z m = Inr (r, m')"
  then show "\<exists>N. N \<inter> (thread_free z m \<union> L) = {} \<and> (case r of None \<Rightarrow> thread_free z m = {} \<and> N = {} \<and> thread_free z m' = {}
    | Some k \<Rightarrow> k \<in> thread_free z m \<union> N \<and> thread_free z m' = thread_free z m \<union> N - {k})" by (rule thread_zalloc_free)
next
  fix m m' :: "vm_state zstate" and L k
  assume "thread_zone z m L" "k \<in> L" "thread_zfree (Some k) m = Inr m'"
  then show "thread_free z m' = insert k (thread_free z m)" by (rule thread_zfree_free)
next
  fix v v' :: "vm_state zstate" and n r
  assume "zkalloc v n = Inr (r, v')"
  then show "thread_free z v' = thread_free z v" by (auto simp: zkalloc_def thread_free_def res_inv)
next
  fix v :: "vm_state zstate" and T
  assume "thread_zone z v T"
  then show "kmem_ok (zvm v)" by (auto simp: thread_zone_def zone_idle_def zone_pool_def)
next
  fix v v' :: "vm_state zstate" and n r T
  assume r: "zkalloc v n = Inr (r, v')" and z: "thread_zone z v T"
  then have k: "kmem_ok (zvm v)" by (auto simp: thread_zone_def zone_idle_def zone_pool_def)
  from k obtain s where s: "v' = v\<lparr>zvm := s\<rparr>" "kmem_ok s" "kmem_taken (zvm v) \<subseteq> kmem_taken s"
    by (cases rule: km.kalloc_cases [where n = n]) (use r in \<open>auto simp: zkalloc_def\<close>)
  with z show "thread_zone z v' T"
    using zone_pool_zvm [of kmem_ok kmem_taken z v "of_nat ` T" s] by (auto simp: thread_zone_def zone_idle_def)
next
  fix v v' :: "vm_state zstate" and r T
  assume "thread_zalloc z v = Inr (r, v')" "thread_zone z v T"
  then show "kmem_taken (zvm v) \<subseteq> kmem_taken (zvm v')" using thread_zalloc_ok [of z v T] by auto
next
  fix v v' :: "vm_state zstate" and p T
  assume "thread_zfree p v = Inr v'"
  then have "zvm v' = zvm v" using zfree_zvm by (auto simp: thread_zfree_def)
  then show "kmem_taken (zvm v) \<subseteq> kmem_taken (zvm v')" by simp
next
  fix v :: "vm_state zstate" and n
  assume "kmem_ok (zvm v)" "0 < kmem_request n" "kmem_request n \<le> kmem_avail (zvm v)"
  from km.kalloc_supply [OF this] show "\<exists>b v'. zkalloc v n = Inr (Some (b, of_nat (4096 * kmem_request n)), v') \<and>
      kmem_avail (zvm v') = kmem_avail (zvm v) - kmem_request n \<and> kmem_view (zvm v') = show_text (ll_text (kmem_request n)) (kmem_view (zvm v))"
    by (auto simp: zkalloc_def)
qed

section \<open>Bringing up the memory\<close>

lemma calc_bufsize_zone: "calc_bufsize sizeof_zone = Some 32"
proof -
  have s: "calc_bufsize_loop num mul 28 =
      (if num < 28 then if num < 128 then calc_bufsize_loop (push_bit 1 mul) (push_bit 1 mul) 28
         else calc_bufsize_loop (num + mul) mul 28 else Some num)" for num mul
    by (subst calc_bufsize_loop.simps) (simp add: BUF_LINE_def)
  have "calc_bufsize_loop 0 1 28 = calc_bufsize_loop 2 2 28" by (subst s) simp
  also have "\<dots> = calc_bufsize_loop 4 4 28" by (subst s) simp
  also have "\<dots> = calc_bufsize_loop 8 8 28" by (subst s) simp
  also have "\<dots> = calc_bufsize_loop 16 16 28" by (subst s) simp
  also have "\<dots> = calc_bufsize_loop 32 32 28" by (subst s) simp
  also have "\<dots> = Some 32" by (subst s) simp
  finally show ?thesis by (simp add: calc_bufsize_def sizeof_zone_def sizeof_Pointer_def)
qed

lemma zone_bootstrap_ok:
  assumes "0 < unat buf" and "unat buf + 65536 < 4294967296"
  shows "\<exists>m'. zone_bootstrap z buf m = Inr m' \<and> zvm m' = zvm m \<and> zone_zone m' = z \<and> zn_lock (zones m' z) = 0 \<and>
    zn_count (zones m' z) = 2048 \<and> zone_ok m' z (rev (cram_list (unat buf) 65536 32)) \<and>
    zn_memtype (zones m' z) = zn_memtype (zones m z) \<and> (\<forall>y. y \<noteq> z \<longrightarrow> zones m' y = zones m y)"
proof -
  let ?m = "upd_zone z (\<lambda>c. c\<lparr>zn_bufsize := 32, zn_freelist := 0, zn_name := ''zone'', zn_count := 0, zn_lock := 0\<rparr>) m"
  have u: "unat (0x10000 :: u32) = 65536" "unat (32 :: u32) = 32" by simp_all
  have "zone_ok ?m z []" by (simp add: zone_ok_def)
  then obtain m' where m': "zcram_loop 32 z buf 0x10000 ?m = Some m'"
    "zone_ok m' z (rev (cram_list (unat buf) 65536 32))" "zvm m' = zvm ?m" "zn_lock (zones m' z) = zn_lock (zones ?m z)"
    "zn_memtype (zones m' z) = zn_memtype (zones ?m z)" "\<forall>y. y \<noteq> z \<longrightarrow> zones m' y = zones ?m y"
    using zcram_loop_ok [of 32 buf "0x10000" ?m z "[]"] assms unfolding u by auto
  have "zn_count (zones m' z) = 2048" using m'(2) by (simp add: zone_ok_def cram_list_def)
  moreover have "buf \<noteq> 0" using assms(1) by auto
  ultimately show ?thesis
    using m' by (simp add: zone_bootstrap_def calc_bufsize_zone zcram_internal_def zone_ok_def)
qed

text \<open>The page allocator at boot: well formed, page-aligned, with a table's worth of pages; page 0 is
  not in it, or taken, or the first page it hands out (it becomes a page table then).\<close>

definition boot_phys :: "phys_state \<Rightarrow> bool" where
  "boot_phys p \<longleftrightarrow> phys_inv p \<and> pages_aligned p \<and> 252 \<le> card (page_pool p - allocated p) \<and>
     (0 \<notin> page_pool p \<or> 0 \<in> allocated p \<or> (\<exists>p1. vm_phys_alloc p = Inr (Some 0, p1)))"

lemma vm_init_ok:
  assumes p: "boot_phys (vm_phys (zvm m))" and mm: "mmu_ok (vm_mmu (zvm m))" "window_free (vm_mmu (zvm m))"
    and buf: "0 < unat buf" "unat buf + 65536 < 4294967296" and ds: "length (ds_pages (dss (zvm m) 0)) = 130" and up: "vm_up (zvm m)"
  shows "\<exists>m'. vm_init z buf dir m = Inr m' \<and> kmem_inv (zvm m') 0 0 0 \<and> kmem_addr (zvm m') 0 = 0xC1000000 \<and>
    ds_n_pages (dss (zvm m') 0) = 128 \<and> zone_zone m' = z \<and> zn_count (zones m' z) = 2048 \<and>
    screen (vm_term (zvm m')) = show_text capacity_text (screen (vm_term (zvm m))) \<and>
    card (page_pool (vm_phys (zvm m')) - allocated (vm_phys (zvm m'))) =
      card (page_pool (vm_phys (zvm m)) - allocated (vm_phys (zvm m))) - 252"
proof -
  obtain m1 where m1: "zone_bootstrap z buf m = Inr m1" "zvm m1 = zvm m" "zone_zone m1 = z" "zn_count (zones m1 z) = 2048"
    using zone_bootstrap_ok [OF buf] by blast
  let ?p = "vm_phys (zvm m)"
  have p': "phys_inv ?p" "pages_aligned ?p" "252 \<le> card (page_pool ?p - allocated ?p)" using p by (simp_all add: boot_phys_def)
  have "tables_upto 772 ?p (vm_mmu (zvm m))" by (auto simp: tables_upto_def)
  from pmap_init_tables_ok [OF p'(1) mm p'(2) this] obtain q mu where q:
    "pmap_init_tables [772..<1024] ?p (vm_mmu (zvm m)) = Inr (q, mu)" "phys_inv q" "mmu_ok mu" "window_free mu"
    "page_pool q = page_pool ?p" "tables_upto 1024 q mu" "\<forall>i. 772 \<le> i \<and> i < 1024 \<longrightarrow> kernel_page_dir mu ! i \<noteq> 0"
    "allocated ?p \<subseteq> allocated q" "\<forall>r p1. vm_phys_alloc ?p = Inr (Some r, p1) \<longrightarrow> r \<in> allocated q"
    using p'(3) by auto
  have zero: "0 \<in> page_pool q \<longrightarrow> 0 \<in> allocated q" using p q(5,8,9) by (auto simp: boot_phys_def)
  let ?s = "pd_init ((zvm m)\<lparr>vm_pmap := p_inst_kernel dir, vm_phys := q, vm_mmu := mu\<rparr>)"
  have s: "vm_pmap ?s = p_inst_kernel dir" "dss ?s = dss (zvm m)" "vm_phys ?s = q" "vm_mmu ?s = mu" "kernel_pd ?s = kernel_pd (zvm m)"
    "pd_begin (pds ?s (kernel_pd (zvm m))) = 0xC1000000" "pd_lock (pds ?s (kernel_pd (zvm m))) = 0"
    "pd_pmap (pds ?s (kernel_pd (zvm m))) = Some KERNEL_PMAP" "vm_up ?s" "vm_term ?s = vm_term (zvm m)"
    using up by (simp_all add: pd_init_def pmap_get_address_range_def upd_pd_def p_inst_kernel_def vm_up_def)
  obtain t where t: "rm_init ?s = Inr t" "rm_ok t KERNEL_RM [0]" "rmos t = (rmos ?s)(0 := (kalloc_rmo 0 (rmos ?s 0))\<lparr>rmo_offset := 0\<rparr>)"
    "dss t = (dss ?s)(0 := kalloc_ds (dss ?s 0))" "pds t = pds ?s" "kernel_pd t = kernel_pd ?s" "vm_mmu t = vm_mmu ?s" "vm_phys t = vm_phys ?s"
    "vm_up t" "screen (vm_term t) = show_text capacity_text (screen (vm_term ?s))"
    using rm_init_eq [OF s(1)] ds s(2,9) by auto
  have "pmap_init dir ?p (vm_mmu (zvm m)) = Inr (p_inst_kernel dir, q, mu)" unfolding pmap_init_def q(1) by simp
  then have run: "vm_init z buf dir m = Inr (m1\<lparr>zvm := t\<rparr>)"
    using m1(1,2) t(1) by (simp add: vm_init_def Let_def)
  have addr: "kmem_addr t 0 = 0xC1000000" using t(3,5,6) s(5,6) by (simp add: kmem_addr_def)
  have "mappable mu 0xC1000000 128"
  proof -
    have "kernel_page_dir mu ! PDX (0xC1000000 + of_nat (4096 * i)) \<noteq> 0" if "i < 128" for i
    proof -
      have "unat (0xC1000000 + of_nat (4096 * i) :: u32) = 0xC1000000 + 4096 * i"
        using unat_page_at [of "0xC1000000" 128 i] that by simp
      then have "0xC1000000 \<le> (0xC1000000 + of_nat (4096 * i) :: u32)" unfolding word_le_nat_alt by simp
      then show ?thesis using q(7) PDX_bounds by blast
    qed
    then show ?thesis by (simp add: mappable_def del: of_nat_mult)
  qed
  moreover have "nextp (vm_links t) (Rm_Childs KERNEL_RM) = Some (Rmo_Member 0)"
    using ring_neighbours(1) [of "vm_links t" "Rm_Childs KERNEL_RM" "[Rmo_Member 0]"] t(2) by (simp add: rm_ok_def)
  moreover have "mmu_ready mu" using q(3,4) tables_upto_ok [OF q(6)] by (simp add: mmu_ready_def)
  ultimately have lay: "kmem_layout t 0 0"
    using addr t s by (simp add: kmem_layout_def pd_ready_def kalloc_rmo_def kalloc_ds_def)
  have "kmem_phys t" using zero q(2,5) p'(2) t(8) s(3) by (simp add: kmem_phys_def pages_aligned_def)
  moreover have "mmu_walk mu (0xC1000000 + of_nat (4096 * i)) = None" if "i < 128" for i
  proof (rule tables_upto_walk [OF q(6)])
    have "unat (0xC1000000 + of_nat (4096 * i) :: u32) = 0xC1000000 + 4096 * i"
      using unat_page_at [of "0xC1000000" 128 i] that by simp
    then show "0xC1000000 \<le> (0xC1000000 + of_nat (4096 * i) :: u32)" unfolding word_le_nat_alt by simp
  qed
  ultimately have "kmem_inv t 0 0 0"
    using lay t(4,7) s(4) addr by (simp add: kmem_inv_def kalloc_ds_def nth_append del: of_nat_mult)
  moreover have "card (page_pool q - allocated q) = card (page_pool ?p - allocated ?p) - 252"
    using pmap_init_tables_card [OF p'(1) q(1)] by simp
  ultimately show ?thesis using run addr t(4,8,10) s(3,10) m1(3,4) by (simp add: kalloc_ds_def)
qed

section \<open>The first zones\<close>

text \<open>The zone of zones at \<open>z\<close>, with its free buffers \<open>ys\<close>: they lie below the memory that
  \<^verbatim>\<open>vm_kalloc_ll\<close> hands out, and the counters of the zones to come are zero, as
  \<^verbatim>\<open>zinit\<close> does not set them.\<close>

definition zones_ready :: "u32 \<Rightarrow> vm_state zstate \<Rightarrow> u32 list \<Rightarrow> bool" where
  "zones_ready z m ys \<longleftrightarrow> zone_zone m = z \<and> z \<noteq> 0 \<and> zone_ok m z ys \<and> zn_lock (zones m z) = 0 \<and>
     zn_memtype (zones m z) AND ZONE_AUTO_REFILL = 0 \<and>
     (\<forall>c\<in>set ys. unat c + 4 < 0xC1000000 \<and> c + 4 \<noteq> z \<and> zn_count (zones m (c + 4)) = 0)"

lemma kmem_taken_high: "kmem_ok s \<Longrightarrow> a \<in> kmem_taken s \<Longrightarrow> 0xC1000000 \<le> a"
  by (auto simp: kmem_ok_def kmem_inv_def kmem_layout_def mappable_def kmem_taken_def word_le_nat_alt)

text \<open>A zone with a free buffer that does not refill itself hands out the first one.\<close>

lemma zalloc_top:
  assumes "zone_ok m z (c # ys)" and "zn_lock (zones m z) = 0" and "zn_memtype (zones m z) AND ZONE_AUTO_REFILL = 0" and "z \<noteq> 0"
  shows "\<exists>m'. zalloc ka kc z m = Inr (c + 4, m') \<and> zone_ok m' z ys \<and> zvm m' = zvm m \<and> zone_zone m' = zone_zone m \<and>
    (\<forall>y. y \<noteq> z \<longrightarrow> zones m' y = zones m y) \<and> zn_lock (zones m' z) = 0 \<and> zn_memtype (zones m' z) = zn_memtype (zones m z) \<and>
    (\<forall>a. a \<noteq> c \<longrightarrow> zmem m' a = zmem m a)"
proof -
  have top: "zn_freelist (zones m z) = c" "c \<noteq> 0" "free_chain (zmem m) (zmem m c) ys" "c \<notin> set ys" "distinct ys"
    "zn_count (zones m z) - 1 = of_nat (length ys)"
    using assms(1) by (auto simp: zone_ok_def)
  then show ?thesis using assms(2-4)
    by (simp add: zalloc_def lock_zone_def unlock_zone_def remove_top_def Let_def sizeof_Pointer_def zone_ok_def free_chain_frame)
qed

text \<open>Creating a zone from the zone of zones.\<close>

lemma zinit_ready:
  assumes r: "zones_ready z m (c # ys)" and n: "4 < unat n0" "calc_bufsize n0 = Some n" "unat n0 \<le> unat n" and k: "kmem_ok (zvm m)"
  obtains m' where "zinit ka kc n0 mt nm m = Inr (c + 4, m')" "zones_ready z m' ys" "zvm m' = zvm m"
    "zone_idle kmem_ok kmem_taken (c + 4) m' {}" "zn_bufsize (zones m' (c + 4)) = n" "zn_memtype (zones m' (c + 4)) = mt"
    "zn_count (zones m' (c + 4)) = 0" "zn_freelist (zones m' (c + 4)) = 0" "c + 4 \<noteq> z" "c + 4 \<notin> (\<lambda>d. d + 4) ` set ys"
    "\<forall>y. y \<noteq> z \<and> y \<noteq> c + 4 \<longrightarrow> zones m' y = zones m y" "\<forall>a. 0xC1000000 \<le> unat a \<longrightarrow> zmem m' a = zmem m a"
proof -
  have z: "zone_zone m = z" "z \<noteq> 0" "zone_ok m z (c # ys)" "zn_lock (zones m z) = 0" "zn_memtype (zones m z) AND ZONE_AUTO_REFILL = 0"
    and b: "\<forall>d\<in>set (c # ys). unat d + 4 < 0xC1000000 \<and> d + 4 \<noteq> z \<and> zn_count (zones m (d + 4)) = 0"
    using r unfolding zones_ready_def by blast+
  obtain m1 where m1: "zalloc ka kc z m = Inr (c + 4, m1)" "zone_ok m1 z ys" "zvm m1 = zvm m" "zone_zone m1 = z"
    "\<forall>y. y \<noteq> z \<longrightarrow> zones m1 y = zones m y" "zn_lock (zones m1 z) = 0" "zn_memtype (zones m1 z) = zn_memtype (zones m z)"
    "\<forall>a. a \<noteq> c \<longrightarrow> zmem m1 a = zmem m a" using zalloc_top [OF z(3-5,2)] z(1) by blast
  have "unat (c + 4) = unat c + 4" using b by (subst unat_add_u32) auto
  then have c: "c + 4 \<noteq> 0" by (metis add_is_0 unat_0 zero_neq_numeral)
  have cz: "c + 4 \<noteq> z" "c \<notin> set ys" "zn_count (zones m1 (c + 4)) = 0" using b z(3) m1(5) by (simp_all add: zone_ok_def)
  let ?m = "upd_zone (c + 4) (\<lambda>d. d\<lparr>zn_bufsize := n, zn_freelist := 0, zn_memtype := mt,
            zn_name := (case nm of Some n \<Rightarrow> n | None \<Rightarrow> ''(null)''), zn_lock := kernlock_init (zn_lock d)\<rparr>) m1"
  have run: "zinit ka kc n0 mt nm m = Inr (c + 4, ?m)" using m1(1) n(2) c z(1,2) by (simp add: zinit_def)
  have rest: "c + 4 \<notin> (\<lambda>d. d + 4) ` set ys" using cz(2) by auto
  have "zones_ready z ?m ys"
    unfolding zones_ready_def using z(2,5) m1(2,4,5,6,7) b cz(1,2) by (auto simp: zone_ok_def)
  moreover have "zone_idle kmem_ok kmem_taken (c + 4) ?m {}"
    using m1(3) c k n(1,3) cz(3) by (auto simp: zone_idle_def zone_pool_def zone_ok_def intro!: exI [of _ "[]"])
  moreover have "\<forall>a. 0xC1000000 \<le> unat a \<longrightarrow> zmem ?m a = zmem m a"
  proof (intro allI impI)
    fix a :: u32
    assume "0xC1000000 \<le> unat a"
    then have "a \<noteq> c" using b by auto
    then show "zmem ?m a = zmem m a" using m1(8) by simp
  qed
  ultimately show thesis using that [OF run] m1(3,5) cz(1,3) rest by simp
qed

text \<open>A zone in kernel memory leaves the zone of zones alone.\<close>

lemma zones_ready_frame:
  assumes "zones_ready z m ys" and f: "km.zone_frame t m m'" and t: "t \<noteq> z" "t \<notin> (\<lambda>d. d + 4) ` set ys" and k: "kmem_ok (zvm m')"
  shows "zones_ready z m' ys"
proof -
  have eq: "zmem m' c = zmem m c" if "c \<in> set ys" for c
  proof -
    have "unat c \<notin> kmem_taken (zvm m')" using assms(1) that kmem_taken_high [OF k, of "unat c"] by (auto simp: zones_ready_def)
    then show ?thesis using f by (simp add: km.zone_frame_def)
  qed
  have "free_chain (zmem m') p xs = free_chain (zmem m) p xs" if "set xs \<subseteq> set ys" for p xs
    using that eq by (induction xs arbitrary: p) auto
  then have "zone_ok m' z ys" using assms(1) t(1) f by (simp add: zones_ready_def zone_ok_def km.zone_frame_def)
  moreover have "\<forall>c\<in>set ys. zones m' (c + 4) = zones m (c + 4)" using t(2) f by (auto simp: km.zone_frame_def)
  ultimately show ?thesis using assms(1) t(1) f by (simp add: zones_ready_def km.zone_frame_def)
qed

lemma zones_ready_zvm [simp]: "zones_ready z (m\<lparr>zvm := s\<rparr>) ys = zones_ready z m ys"
  by (simp add: zones_ready_def zone_ok_def)

text \<open>The zones after \<^verbatim>\<open>vm_init\<close> are those of \<^verbatim>\<open>zone_bootstrap\<close>.\<close>

lemma vm_init_ready:
  assumes v: "vm_init z buf dir m = Inr m'" "zone_zone m' = z" and b: "0 < unat buf" "unat buf + 65536 \<le> 0xC1000000"
    and z: "z \<noteq> 0" "unat z < unat buf \<or> unat buf + 65536 \<le> unat z" "zn_memtype (zones m z) = 0"
    and c: "\<forall>y. zn_count (zones m y) = 0"
  shows "\<exists>ys. zones_ready z m' ys \<and> length ys = 2048"
proof -
  let ?ys = "rev (cram_list (unat buf) 65536 32)"
  have b2: "unat buf + 65536 < 4294967296" using b(2) by simp
  obtain m1 where m1: "zone_bootstrap z buf m = Inr m1" "zones m' = zones m1" "zmem m' = zmem m1"
    using v(1) by (auto simp: vm_init_def res_inv Let_def)
  with zone_bootstrap_ok [OF b(1) b2, of z m] have m: "zn_lock (zones m' z) = 0" "zone_ok m' z ?ys"
    "zn_memtype (zones m' z) = 0" "\<forall>y. y \<noteq> z \<longrightarrow> zones m' y = zones m y" using z(3) by (auto simp: zone_ok_def)
  have "unat d + 4 < 0xC1000000 \<and> d + 4 \<noteq> z" if "d \<in> set ?ys" for d
  proof -
    have d: "unat buf \<le> unat d" "unat d + 32 \<le> unat buf + 65536" using cram_list_mem [of d "unat buf" 65536 32] that b2 by auto
    then have "unat (d + 4) = unat d + 4" using b(2) by (subst unat_add_u32) auto
    then have "unat (d + 4) \<noteq> unat z" using d z(2) by linarith
    then show ?thesis using d b(2) by auto
  qed
  then have "zones_ready z m' ?ys" unfolding zones_ready_def using m v(2) z(1) c by auto
  moreover have "length ?ys = 2048" by (simp add: cram_list_def)
  ultimately show ?thesis by blast
qed

text \<open>The buffers of threads and schedulers.\<close>

lemma calc_bufsize_objects: "calc_bufsize sizeof_thread = Some 128" "calc_bufsize sizeof_scheduler = Some 640"
proof -
  have u: "unat sizeof_thread = 76" "unat sizeof_scheduler = 536" by (simp_all add: sizeof_thread_def sizeof_scheduler_def)
  obtain a where a: "calc_bufsize sizeof_thread = Some a" "80 \<le> unat a"
    "128 dvd unat a \<and> unat a < 208 \<or> (\<exists>j\<le>7. unat a = 2 ^ j)" using calc_bufsize_ok [of sizeof_thread] u by auto
  have "unat a = 128"
  proof (cases "128 dvd unat a \<and> unat a < 208")
    case True
    then show ?thesis using a(2) by (auto elim!: dvdE)
  next
    case False
    then obtain j where j: "j \<le> 7" "unat a = 2 ^ j" using a(3) by blast
    have "j = 7"
    proof (rule ccontr)
      assume "j \<noteq> 7"
      then have "(2 :: nat) ^ j \<le> 2 ^ 6" using j(1) by (intro power_increasing) auto
      then show False using a(2) j(2) by simp
    qed
    then show ?thesis using j(2) by simp
  qed
  then have "a = 128" using of_nat_unat_u32 [of a 128] by simp
  then show "calc_bufsize sizeof_thread = Some 128" using a(1) by simp
  obtain n where n: "calc_bufsize sizeof_scheduler = Some n" "540 \<le> unat n"
    "128 dvd unat n \<and> unat n < 668 \<or> (\<exists>j\<le>7. unat n = 2 ^ j)" using calc_bufsize_ok [of sizeof_scheduler] u by auto
  have "\<not> (\<exists>j\<le>7. unat n = 2 ^ j)"
  proof
    assume "\<exists>j\<le>7. unat n = 2 ^ j"
    then obtain j where "j \<le> 7" "unat n = 2 ^ j" by blast
    moreover then have "(2 :: nat) ^ j \<le> 2 ^ 7" by (intro power_increasing) auto
    ultimately show False using n(2) by simp
  qed
  then have "unat n = 640" using n(2,3) by (auto elim!: dvdE)
  then have "n = 640" using of_nat_unat_u32 [of n 640] by simp
  then show "calc_bufsize sizeof_scheduler = Some 640" using n(1) by simp
qed

end
