(* ===== verification/Wait_Queue.thy ===== *)
theory Wait_Queue
  imports Field_Invariant Kernel_Core
begin

text \<open>
  The wait queues, \<open>system/kern/kern_wait.c\<close>. \<^verbatim>\<open>waitqueue_wait\<close> gives up the CPU in
  the middle: it is modelled by the part before the switch, \<open>waitqueue_wait_begin\<close>, and the
  part after it, \<open>waitqueue_wait_end\<close>; other threads run in between.
  \<^verbatim>\<open>hal_induce_preemption\<close> masks the interrupts and calls the assembly
  \<^verbatim>\<open>__i686_switch\<close>, which saves the registers and calls \<^verbatim>\<open>sched_preempt\<close>.
\<close>

section \<open>The operations\<close>

definition waitqueue_elem :: "nat option \<Rightarrow> world \<Rightarrow> (ring_ptr option \<times> world) res" where
  "waitqueue_elem thread w =
     rbind (deref thread) (\<lambda>t. Inr (Some (T_Wait_Entry t),
       w\<lparr>rings := (rings w)\<lparr>datap := (datap (rings w))(T_Wait_Entry t := Some t)\<rparr>\<rparr>))"

definition waitqueue_enter :: "nat \<Rightarrow> nat option \<Rightarrow> bool \<Rightarrow> world \<Rightarrow> world res" where
  "waitqueue_enter queue thread after w =
     rbind (waitqueue_elem thread w) (\<lambda>(el, w). ring_insert (Some (Wq_Threads queue)) el after w)"

definition waitqueue_get_first :: "nat \<Rightarrow> world \<Rightarrow> (int \<times> world) res" where
  "waitqueue_get_first queue w =
     (let head = Some (Wq_Threads queue) in
      rbind (get_prev (rings w) head) (\<lambda>elem.
      if elem = head then Inr (0, w)
      else
      rbind (deref elem) (\<lambda>e.
      let thread = datap (rings w) e in
      rbind (ring_remove elem w) (\<lambda>w.
      rbind (upd_thread thread (\<lambda>t. t\<lparr>t_wait_queue := None\<rparr>) w) (\<lambda>w.
      rbind (sched_actualize thread w) (\<lambda>w.
      Inr (1, w)))))))"

definition hal_induce_preemption :: "nat \<Rightarrow> world \<Rightarrow> world res" where
  "hal_induce_preemption fuel w = sched_preempt fuel w"

definition waitqueue_wait_begin ::
  "nat \<Rightarrow> nat \<Rightarrow> bool \<Rightarrow> kspinlock_t \<times> world \<Rightarrow> (kspinlock_t \<times> world) res" where
  "waitqueue_wait_begin fuel queue after = (\<lambda>(lock, w).
     let self = kernel_get_current_thread w in
     rbind (waitqueue_enter queue self after w) (\<lambda>w.
     let lock = kernlock_unlock lock in
     rbind (set_flags self THREAD_SF_QUEUE_WAIT w) (\<lambda>w.
     rbind (hal_induce_preemption fuel w) (\<lambda>w.
     Inr (lock, w)))))"

definition waitqueue_wait_end ::
  "nat option \<Rightarrow> kspinlock_t \<times> world \<Rightarrow> (kspinlock_t \<times> world) res" where
  "waitqueue_wait_end self = (\<lambda>(lock, w).
     rbind (clear_flags self THREAD_SF_QUEUE_WAIT w) (\<lambda>w.
     rbind (kernlock_lock lock) (\<lambda>lock.
     Inr (lock, w))))"

section \<open>Queue order\<close>

lemma waitqueue_enter_ok:
  assumes "sched_rings w H q" and "Wq_Threads n \<in> H" and "\<forall>m\<in>H. T_Wait_Entry t \<notin> set (q m)"
  shows "\<exists>w'. waitqueue_enter n (Some t) after w = Inr w' \<and>
    sched_rings w' H (q(Wq_Threads n := (if after then T_Wait_Entry t # q (Wq_Threads n)
      else q (Wq_Threads n) @ [T_Wait_Entry t]))) \<and>
    threads w' = threads w \<and> schedulers w' = schedulers w \<and> cpus w' = cpus w \<and> this_cpu w' = this_cpu w"
  using sched_rings_insert [OF assms, of t after] by (simp add: waitqueue_enter_def waitqueue_elem_def)

lemma waitqueue_get_first_empty:
  assumes "sched_rings w H q" and "Wq_Threads n \<in> H" and "q (Wq_Threads n) = []"
  shows "waitqueue_get_first n w = Inr (0, w)"
proof -
  have "ring (rings w) (Wq_Threads n) []"
    using assms rings_okD [of "rings w" H q "Wq_Threads n"] by (simp add: sched_rings_def)
  from ring_neighbours(2) [OF this] show ?thesis by (simp add: waitqueue_get_first_def get_prev_def)
qed

lemma waitqueue_get_first_some:
  assumes ok: "sched_rings w H q" and l: "Wq_Threads n \<in> H" and ql: "q (Wq_Threads n) = ys @ [T_Wait_Entry t]"
  shows "\<exists>w1. sched_rings w1 H (q(Wq_Threads n := ys)) \<and>
    threads w1 = (threads w)(t := (threads w t)\<lparr>t_wait_queue := None\<rparr>) \<and>
    schedulers w1 = schedulers w \<and> cpus w1 = cpus w \<and> this_cpu w1 = this_cpu w \<and>
    waitqueue_get_first n w = rbind (sched_actualize (Some t) w1) (\<lambda>w2. Inr (1, w2))"
proof -
  have r: "ring (rings w) (Wq_Threads n) (ys @ [T_Wait_Entry t])"
    using ok l ql rings_okD [of "rings w" H q "Wq_Threads n"] by (simp add: sched_rings_def)
  have prev: "prevp (rings w) (Wq_Threads n) = Some (T_Wait_Entry t)"
    using ring_neighbours(2) [OF r] by simp
  have data: "datap (rings w) (T_Wait_Entry t) = Some t" using ok l ql by (auto simp: sched_rings_def)
  obtain w0 where w0: "ring_remove (Some (T_Wait_Entry t)) w = Inr w0" "sched_rings w0 H (q(Wq_Threads n := ys))"
    "threads w0 = threads w" "schedulers w0 = schedulers w" "cpus w0 = cpus w" "this_cpu w0 = this_cpu w"
    using sched_rings_remove [OF ok l, of ys "T_Wait_Entry t" "[]"] ql by auto
  let ?w1 = "w0\<lparr>threads := (threads w0)(t := (threads w0 t)\<lparr>t_wait_queue := None\<rparr>)\<rparr>"
  have "waitqueue_get_first n w = rbind (sched_actualize (Some t) ?w1) (\<lambda>w2. Inr (1, w2))"
    using prev data w0(1) by (simp add: waitqueue_get_first_def get_prev_def Let_def)
  moreover have "sched_rings ?w1 H (q(Wq_Threads n := ys))"
    using w0(2) sched_rings_cong [of ?w1 w0] by simp
  ultimately show ?thesis using w0(3-6) by (intro exI [of _ ?w1]) simp
qed

text \<open>A thread alone in a queue that enters it again: its entry is its own neighbour on one side, and taking the entry out of the
  ring writes back the links that are there.\<close>

lemma waitqueue_reenter_alone:
  assumes ok: "sched_rings w H q" and l: "Wq_Threads n \<in> H" and ql: "q (Wq_Threads n) = [T_Wait_Entry t]"
    and enter: "waitqueue_enter n (Some t) after w = Inr w'"
  shows "\<exists>w1. rings w1 = rings w' \<and> t_wait_queue (threads w1 t) = None \<and>
    waitqueue_get_first n w' = rbind (sched_actualize (Some t) w1) (\<lambda>w2. Inr (1, w2))"
proof -
  let ?l = "Wq_Threads n" and ?e = "T_Wait_Entry t"
  have r: "ring (rings w) ?l [?e]"
    using ok l ql rings_okD [of "rings w" H q "Wq_Threads n"] by (simp add: sched_rings_def)
  then have links: "nextp (rings w) ?l = Some ?e" "prevp (rings w) ?l = Some ?e" by (simp_all add: ring_def)
  have w': "prevp (rings w') ?l = Some ?e" "datap (rings w') ?e = Some t"
    "nextp (rings w') ?e = Some (if after then ?e else ?l)" "prevp (rings w') ?e = Some (if after then ?l else ?e)"
    "nextp (rings w') ?l = Some ?e"
    using enter links by (auto simp: waitqueue_enter_def waitqueue_elem_def ring_insert_def linked_ring_insert_def links_access split: if_splits)
  have "ring_remove (Some ?e) w' = Inr w'"
    using w' by (cases after) (simp_all add: ring_remove_def linked_ring_remove_def links_access fun_upd_idem)
  then show ?thesis using w' 
    by (intro exI [of _ "w'\<lparr>threads := (threads w')(t := (threads w' t)\<lparr>t_wait_queue := None\<rparr>)\<rparr>"])
      (simp add: waitqueue_get_first_def get_prev_def Let_def)
qed

section \<open>Sequences of operations\<close>

text \<open>One operation of the threads, the scheduler or a wait queue, by any thread, with whatever lock the caller
  holds: the steps a kernel is made of.\<close>

inductive kern_step :: "world \<Rightarrow> world \<Rightarrow> bool" where
  insert: "sched_insert c p w = Inr w' \<Longrightarrow> kern_step w w'"
| remove: "sched_remove fuel c w = Inr (t, w') \<Longrightarrow> kern_step w w'"
| actualize: "sched_actualize p w = Inr w' \<Longrightarrow> kern_step w w'"
| preempt: "sched_preempt fuel w = Inr w' \<Longrightarrow> kern_step w w'"
| instanciate: "sched_instanciate s c w = Inr w' \<Longrightarrow> kern_step w w'"
| enter: "waitqueue_enter n p a w = Inr w' \<Longrightarrow> kern_step w w'"
| get_first: "waitqueue_get_first n w = Inr (r, w') \<Longrightarrow> kern_step w w'"
| wait_begin: "waitqueue_wait_begin fuel n a (l, w) = Inr (l', w') \<Longrightarrow> kern_step w w'"
| wait_end: "waitqueue_wait_end p (l, w) = Inr (l', w') \<Longrightarrow> kern_step w w'"
| set_current: "kernel_set_current_thread p w = Inr w' \<Longrightarrow> kern_step w w'"
| int_stack: "thread_update_int_stack p w = Inr w' \<Longrightarrow> kern_step w w'"
| enter_syscall: "thread_enter_syscall w = Inr w' \<Longrightarrow> kern_step w w'"
| exit_syscall: "thread_exit_syscall w = Inr w' \<Longrightarrow> kern_step w w'"
| allocate: "thread_allocate (thread_zalloc z) thread_zfree zkalloc m w = Inr (r, m', w') \<Longrightarrow> kern_step w w'"
| other_cpu: "kern_step w (w\<lparr>this_cpu := c\<rparr>)"

inductive kern_steps :: "world \<Rightarrow> world \<Rightarrow> bool" where
  refl: "kern_steps w w"
| step: "kern_steps w v \<Longrightarrow> kern_step v u \<Longrightarrow> kern_steps w u"

context field_invariant
begin

lemma keeps_enter: "all_ok w \<Longrightarrow> res_post (waitqueue_enter n p a w) all_ok"
  by (auto simp: waitqueue_enter_def waitqueue_elem_def res_post_def ring_insert_def res_inv)

lemma keeps_get_first: "all_ok w \<Longrightarrow> res_post (waitqueue_get_first n w) (\<lambda>(_, w). all_ok w)"
  unfolding waitqueue_get_first_def Let_def
  by (auto intro!: reads res_post_bind [OF keeps_rings(2)] res_post_bind [OF keeps_upd_thread] res_post_bind [OF keeps_actualize] tok_queue)

lemma keeps_wait_begin: "all_ok w \<Longrightarrow> res_post (waitqueue_wait_begin fuel n a (l, w)) (\<lambda>(_, w). all_ok w)"
  unfolding waitqueue_wait_begin_def Let_def prod.case hal_induce_preemption_def
  by (auto intro!: res_post_bind [OF keeps_enter] res_post_bind [OF keeps_flags(1)] res_post_bind [OF keeps_preempt])

lemma keeps_wait_end: "all_ok w \<Longrightarrow> res_post (waitqueue_wait_end p (l, w)) (\<lambda>(_, w). all_ok w)"
  unfolding waitqueue_wait_end_def prod.case
  by (auto intro!: res_post_bind [OF keeps_flags(2)] read_bind [where m = "kernlock_lock l"])

lemma kern_step_keeps: "kern_step w w' \<Longrightarrow> all_ok w \<Longrightarrow> all_ok w'"
proof (induction rule: kern_step.induct)
  case (insert c p w w')
  with keeps_insert [of w c p] show ?case by simp
next
  case (remove fuel c w t w')
  with keeps_remove [of w fuel c] show ?case by simp
next
  case (actualize p w w')
  with keeps_actualize [of w p] show ?case by simp
next
  case (preempt fuel w w')
  with keeps_preempt [of w fuel] show ?case by simp
next
  case (instanciate s c w w')
  with keeps_instanciate [of w s c] show ?case by simp
next
  case (enter n p a w w')
  with keeps_enter [of w n p a] show ?case by simp
next
  case (get_first n w r w')
  with keeps_get_first [of w n] show ?case by simp
next
  case (wait_begin fuel n a l w l' w')
  with keeps_wait_begin [of w fuel n a l] show ?case by simp
next
  case (wait_end p l w l' w')
  with keeps_wait_end [of w p l] show ?case by simp
next
  case (set_current p w w')
  with keeps_set_current [of w p] show ?case by simp
next
  case (int_stack p w w')
  with keeps_int_stack [of w p] show ?case by simp
next
  case (enter_syscall w w')
  with keeps_syscall(1) [of w] show ?case by simp
next
  case (exit_syscall w w')
  with keeps_syscall(2) [of w] show ?case by simp
next
  case (allocate z m w r m' w')
  with keeps_thread_allocate [of w "thread_zalloc z" thread_zfree zkalloc m] show ?case by simp
qed simp

lemma kern_steps_keep: "kern_steps w w' \<Longrightarrow> all_ok w \<Longrightarrow> all_ok w'"
  by (induction rule: kern_steps.induct) (auto dest: kern_step_keeps)

end

section \<open>Properties\<close>

text \<open>C33. The order of a wait queue. A thread that enters with \<^verbatim>\<open>after\<close> set is woken after
  all that are in the queue, one that enters with it cleared is woken next; a wake-up takes the
  thread out of the queue, clears its \<^verbatim>\<open>t_wait_queue\<close> and hands it to
  \<^verbatim>\<open>sched_actualize\<close>; on an empty queue it returns 0 and changes nothing.\<close>

theorem waitqueue_order:
  assumes ok: "sched_rings w H q" and l: "Wq_Threads n \<in> H" and fresh: "\<forall>m\<in>H. T_Wait_Entry t \<notin> set (q m)"
  shows "\<exists>w1. waitqueue_enter n (Some t) after w = Inr w1 \<and>
    sched_rings w1 H (q(Wq_Threads n := (if after then T_Wait_Entry t # q (Wq_Threads n)
      else q (Wq_Threads n) @ [T_Wait_Entry t]))) \<and>
    (if after then \<forall>ys u. q (Wq_Threads n) = ys @ [T_Wait_Entry u] \<longrightarrow>
       (\<exists>w2. sched_rings w2 H (q(Wq_Threads n := T_Wait_Entry t # ys)) \<and>
         t_wait_queue (threads w2 u) = None \<and>
         waitqueue_get_first n w1 = rbind (sched_actualize (Some u) w2) (\<lambda>w3. Inr (1, w3)))
     else \<exists>w2. sched_rings w2 H q \<and> t_wait_queue (threads w2 t) = None \<and>
         waitqueue_get_first n w1 = rbind (sched_actualize (Some t) w2) (\<lambda>w3. Inr (1, w3))) \<and>
    (q (Wq_Threads n) = [] \<longrightarrow> waitqueue_get_first n w = Inr (0, w))"
proof -
  let ?Q = "Wq_Threads n" and ?e = "T_Wait_Entry t"
  let ?q = "q(?Q := (if after then ?e # q ?Q else q ?Q @ [?e]))"
  obtain w1 where w1: "waitqueue_enter n (Some t) after w = Inr w1" "sched_rings w1 H ?q"
    using waitqueue_enter_ok [OF assms, of after] by blast
  have first: "\<exists>w2. sched_rings w2 H (?q(?Q := ys)) \<and> t_wait_queue (threads w2 u) = None \<and>
      waitqueue_get_first n w1 = rbind (sched_actualize (Some u) w2) (\<lambda>w3. Inr (1, w3))"
    if "?q ?Q = ys @ [T_Wait_Entry u]" for ys u
    using waitqueue_get_first_some [OF w1(2) l that] by fastforce
  have "\<exists>w2. sched_rings w2 H q \<and> t_wait_queue (threads w2 t) = None \<and>
         waitqueue_get_first n w1 = rbind (sched_actualize (Some t) w2) (\<lambda>w3. Inr (1, w3))" if "\<not> after"
    using first [of "q ?Q" t] that by simp
  moreover have "\<exists>w2. sched_rings w2 H (q(?Q := ?e # ys)) \<and> t_wait_queue (threads w2 u) = None \<and>
         waitqueue_get_first n w1 = rbind (sched_actualize (Some u) w2) (\<lambda>w3. Inr (1, w3))"
    if "after" "q ?Q = ys @ [T_Wait_Entry u]" for ys u
    using first [of "?e # ys" u] that by simp
  ultimately show ?thesis using w1 waitqueue_get_first_empty [OF ok l] by auto
qed

definition example_wait :: world where
  "example_wait = example_world\<lparr>rings := (rings example_world)\<lparr>
     nextp := (nextp (rings example_world))(Wq_Threads 0 := Some (Wq_Threads 0)),
     prevp := (prevp (rings example_world))(Wq_Threads 0 := Some (Wq_Threads 0))\<rparr>\<rparr>"

lemma example_wait_rings: "sched_rings example_wait {Wq_Threads 0} (\<lambda>_. [])"
  by (simp add: sched_rings_def rings_ok_def ring_def example_wait_def example_world_def)

theorem waitqueue_order_witness:
  "\<exists>w1 w2. waitqueue_enter 0 (Some 1) False example_wait = Inr w1 \<and>
    waitqueue_get_first 0 w1 = rbind (sched_actualize (Some 1) w2) (\<lambda>w3. Inr (1, w3)) \<and>
    waitqueue_get_first 0 example_wait = Inr (0, example_wait)"
  using waitqueue_order [OF example_wait_rings, of 0 1 False] by auto

text \<open>C35. No thread ever blocks. \<^verbatim>\<open>waitqueue_enter\<close> does not store the queue in
  \<^verbatim>\<open>t_wait_queue\<close>, and no other operation does: after any sequence of operations of the
  scheduler and the wait queues, from a state in which no thread has a wait queue recorded (every
  thread is a copy of the template, where it is null), \<^verbatim>\<open>sched_is_suspended\<close> is false for
  every thread, also for one that has entered a queue and set
  \<^verbatim>\<open>THREAD_SF_QUEUE_WAIT\<close>.\<close>

theorem threads_never_block:
  assumes "kern_steps w w'" and "\<forall>t. t_wait_queue (threads w t) = None"
  shows "sched_is_suspended w' (Some t) = Inr False"
  using nw.kern_steps_keep [OF assms(1)] assms(2) by (simp add: nw.all_ok_def sched_is_suspended_def)

theorem threads_never_block_witness:
  "\<exists>w'. waitqueue_enter 0 (Some 1) True example_wait = Inr w' \<and> sched_is_suspended w' (Some 1) = Inr False"
proof -
  obtain w' where w': "waitqueue_enter 0 (Some 1) True example_wait = Inr w'"
    using waitqueue_enter_ok [OF example_wait_rings, of 0 1 True] by auto
  have "kern_steps example_wait w'"
    by (rule kern_steps.step [OF kern_steps.refl kern_step.enter [OF w']])
  moreover have "\<forall>t. t_wait_queue (threads example_wait t) = None"
    by (simp add: example_wait_def example_world_def example_thread_def thread_template_def)
  ultimately have "sched_is_suspended w' (Some 1) = Inr False" by (rule threads_never_block)
  with w' show ?thesis by blast
qed

text \<open>That no thread blocks has a consequence for the loops of \<open>kern_lock.c\<close>: a thread that finds its condition still false when
  \<^verbatim>\<open>waitqueue_wait\<close> returns enters the queue again, although nobody has taken its entry out.\<close>

text \<open>C37. A wait queue does not survive a thread that enters it while its entry is linked in it: \<^verbatim>\<open>waitqueue_enter\<close> does not
  fault and does not test for this, it links the entry anew. Wherever in
  the queue the entry is, and for both values of \<^verbatim>\<open>after\<close>, the queue is then no ring of any list of entries; and if the thread was
  alone in the queue, \<^verbatim>\<open>waitqueue_get_first\<close> does not take it out: it hands the thread to \<^verbatim>\<open>sched_actualize\<close> with all links
  as they were.\<close>

theorem waitqueue_reenter_corrupts:
  assumes ok: "sched_rings w H q" and l: "Wq_Threads n \<in> H" and t: "T_Wait_Entry t \<in> set (q (Wq_Threads n))"
  shows "\<exists>w'. waitqueue_enter n (Some t) after w = Inr w' \<and> (\<forall>xs. \<not> ring (rings w') (Wq_Threads n) xs) \<and>
    (q (Wq_Threads n) = [T_Wait_Entry t] \<longrightarrow> (\<exists>w1. rings w1 = rings w' \<and> t_wait_queue (threads w1 t) = None \<and>
       waitqueue_get_first n w' = rbind (sched_actualize (Some t) w1) (\<lambda>w2. Inr (1, w2))))"
proof -
  let ?h = "(rings w)\<lparr>datap := (datap (rings w))(T_Wait_Entry t := Some t)\<rparr>"
  obtain ys zs where q: "q (Wq_Threads n) = ys @ T_Wait_Entry t # zs" using t by (auto dest: split_list)
  have "ring ?h (Wq_Threads n) (ys @ T_Wait_Entry t # zs)"
    using ok l q rings_okD [of "rings w" H q "Wq_Threads n"] by (simp add: sched_rings_def)
  from linked_ring_insert_again [OF this, of after] obtain h' where
    h': "linked_ring_insert ?h (Some (Wq_Threads n)) (Some (T_Wait_Entry t)) after = Inr h'" "\<forall>xs. \<not> ring h' (Wq_Threads n) xs"
    by blast
  then have enter: "waitqueue_enter n (Some t) after w = Inr (w\<lparr>rings := h'\<rparr>)"
    by (simp add: waitqueue_enter_def waitqueue_elem_def ring_insert_def)
  show ?thesis using enter h'(2) waitqueue_reenter_alone [OF ok l _ enter] by auto
qed

theorem waitqueue_reenter_corrupts_witness:
  "\<exists>w w'. waitqueue_enter 0 (Some 1) True example_wait = Inr w \<and> waitqueue_enter 0 (Some 1) True w = Inr w' \<and>
    (\<forall>xs. \<not> ring (rings w') (Wq_Threads 0) xs) \<and>
    (\<exists>w1. rings w1 = rings w' \<and> waitqueue_get_first 0 w' = rbind (sched_actualize (Some 1) w1) (\<lambda>w2. Inr (1, w2)))"
proof -
  let ?q = "(\<lambda>_. [])(Wq_Threads 0 := [T_Wait_Entry 1])"
  obtain w where w: "waitqueue_enter 0 (Some 1) True example_wait = Inr w" "sched_rings w {Wq_Threads 0} ?q"
    using waitqueue_enter_ok [OF example_wait_rings, of 0 1 True] by auto
  from waitqueue_reenter_corrupts [OF w(2), of 0 1 True] obtain w' where
    "waitqueue_enter 0 (Some 1) True w = Inr w'" "\<forall>xs. \<not> ring (rings w') (Wq_Threads 0) xs"
    "\<exists>w1. rings w1 = rings w' \<and> waitqueue_get_first 0 w' = rbind (sched_actualize (Some 1) w1) (\<lambda>w2. Inr (1, w2))"
    by auto
  with w(1) show ?thesis by blast
qed

end
