(* ===== verification/Shared_Lock.thy ===== *)
theory Shared_Lock
  imports Wait_Queue
begin

text \<open>
  The shared/exclusive locks of \<open>system/kern/kern_lock.c\<close>. A call runs in segments: the code
  between taking the lock's spin lock and the next \<^verbatim>\<open>waitqueue_wait\<close>, which releases it,
  or the return. A segment is a function from the lock to the lock and an outcome, \<open>Blocked\<close>
  with the place in the code at which the thread waits, or \<open>Returned\<close> with the result.

  The wait queue is the list of the waiting threads in ring order (\<open>Wait_Queue.waitqueue_order\<close>
  shows what entering and waking do to the ring): entering with \<^verbatim>\<open>after\<close> set is consing,
  without it appending, and a wake-up takes the last one. A wake-up also hands the woken thread to
  \<^verbatim>\<open>sched_actualize\<close>, which works on the scheduler only and is left out of \<open>sl_wake\<close>. A thread that waits a second
  time while its entry is still linked breaks the ring (\<open>Wait_Queue.waitqueue_reenter_corrupts\<close>), so that what the queue holds is not
  known from then on: the step \<open>queue\<close> lets it become any list at any time, and no theorem below depends on its contents between two
  segments. Nothing here relies on a waiting thread
  staying blocked until it is woken: the step relation lets every waiting thread go on at any
  time, because the scheduler does not keep it from doing so
  (\<open>Wait_Queue.threads_never_block\<close>).
\<close>

section \<open>The lock\<close>

record shared_lock =
  sl_queue :: "nat list"
  sl_number :: u32
  sl_flags :: u32
  sl_lock :: kspinlock_t

definition SL_FLAG_DRAIN :: u32 where "SL_FLAG_DRAIN = 1"
definition SL_TYPE_SHARED :: int where "SL_TYPE_SHARED = 1"
definition SL_TYPE_EXCLUSIVE :: int where "SL_TYPE_EXCLUSIVE = 2"
definition ENOLCK :: int where "ENOLCK = 77"

lemmas sl_consts = SL_FLAG_DRAIN_def SL_TYPE_SHARED_def SL_TYPE_EXCLUSIVE_def ENOLCK_def

text \<open>Where a call waits: for its turn (line 93), in a loop of \<^verbatim>\<open>sl_lock_internal\<close>
  (lines 41 and 61), in one of the loops of \<^verbatim>\<open>sl_drain\<close> (lines 151 and 158) or of
  \<^verbatim>\<open>sl_touch\<close> (lines 178 and 186).\<close>

datatype sl_pc =
    Fair_Wait int
  | Internal_Wait int
  | Drain_Number
  | Drain_Queue
  | Touch_Wait int

datatype outcome = Blocked sl_pc | Returned int

definition sl_draining :: "shared_lock \<Rightarrow> bool" where
  "sl_draining l \<longleftrightarrow> sl_flags l AND SL_FLAG_DRAIN \<noteq> 0"

definition sl_enter :: "nat \<Rightarrow> bool \<Rightarrow> shared_lock \<Rightarrow> shared_lock" where
  "sl_enter self after l = l\<lparr>sl_queue := (if after then self # sl_queue l else sl_queue l @ [self]),
     sl_lock := kernlock_unlock (sl_lock l)\<rparr>"

definition sl_wake :: "shared_lock \<Rightarrow> shared_lock" where
  "sl_wake l = l\<lparr>sl_queue := butlast (sl_queue l)\<rparr>"

definition sl_acquire :: "shared_lock \<Rightarrow> shared_lock res" where
  "sl_acquire l = rbind (kernlock_lock (sl_lock l)) (\<lambda>k. Inr (l\<lparr>sl_lock := k\<rparr>))"

definition sl_release :: "shared_lock \<Rightarrow> shared_lock" where
  "sl_release l = l\<lparr>sl_lock := kernlock_unlock (sl_lock l)\<rparr>"

text \<open>A function that returns releases the spin lock first; one that waits has released it.\<close>

definition sl_finish :: "shared_lock \<times> outcome \<Rightarrow> shared_lock \<times> outcome" where
  "sl_finish = (\<lambda>(l, r). case r of Blocked p \<Rightarrow> (l, r) | Returned v \<Rightarrow> (sl_release l, r))"

section \<open>The operations\<close>

text \<open>\<^verbatim>\<open>sl_lock_internal\<close>: from a loop's condition on, after a wait in the loop, and from
  the beginning.\<close>

definition sl_internal_loop :: "nat \<Rightarrow> int \<Rightarrow> shared_lock \<Rightarrow> shared_lock \<times> outcome" where
  "sl_internal_loop self type l =
     (if type = SL_TYPE_SHARED then
        if sint (sl_number l) < 0 then (sl_enter self False l, Blocked (Internal_Wait type))
        else (sl_wake (l\<lparr>sl_number := sl_number l + 1\<rparr>), Returned 0)
      else if type = SL_TYPE_EXCLUSIVE then
        if sl_number l \<noteq> 0 then (sl_enter self False l, Blocked (Internal_Wait type))
        else (l\<lparr>sl_number := -1\<rparr>, Returned 0)
      else (l, Returned 0))"

definition sl_internal_resume :: "nat \<Rightarrow> int \<Rightarrow> shared_lock \<Rightarrow> shared_lock \<times> outcome" where
  "sl_internal_resume self type l =
     (if sl_draining l then (sl_wake l, Returned ENOLCK) else sl_internal_loop self type l)"

definition sl_lock_internal :: "nat \<Rightarrow> int \<Rightarrow> shared_lock \<Rightarrow> shared_lock \<times> outcome" where
  "sl_lock_internal self type l =
     (if (type = SL_TYPE_SHARED \<or> type = SL_TYPE_EXCLUSIVE) \<and> sl_draining l then (l, Returned ENOLCK)
      else sl_internal_loop self type l)"

definition sl_lock_call :: "nat \<Rightarrow> int \<Rightarrow> shared_lock \<Rightarrow> (shared_lock \<times> outcome) res" where
  "sl_lock_call self type l =
     rbind (sl_acquire l) (\<lambda>l.
     Inr (if sl_draining l then (sl_release l, Returned ENOLCK)
          else if sl_queue l \<noteq> [] then (sl_enter self True l, Blocked (Fair_Wait type))
          else sl_finish (sl_lock_internal self type l)))"

definition sl_lock_greedy :: "nat \<Rightarrow> int \<Rightarrow> shared_lock \<Rightarrow> (shared_lock \<times> outcome) res" where
  "sl_lock_greedy self type l =
     rbind (sl_acquire l) (\<lambda>l. Inr (sl_finish (sl_lock_internal self type l)))"

definition sl_unlock :: "int \<Rightarrow> shared_lock \<Rightarrow> shared_lock res" where
  "sl_unlock type l =
     rbind (sl_acquire l) (\<lambda>l.
     let l = (if type = SL_TYPE_SHARED then l\<lparr>sl_number := sl_number l - 1\<rparr>
              else if type = SL_TYPE_EXCLUSIVE then l\<lparr>sl_number := 0\<rparr> else l)
     in Inr (sl_release (sl_wake l)))"

definition sl_drain_queue :: "nat \<Rightarrow> shared_lock \<Rightarrow> shared_lock \<times> outcome" where
  "sl_drain_queue self l =
     (if sl_queue l \<noteq> [] then (sl_enter self True l, Blocked Drain_Queue) else (l, Returned 0))"

definition sl_drain_number :: "nat \<Rightarrow> shared_lock \<Rightarrow> shared_lock \<times> outcome" where
  "sl_drain_number self l =
     (if sl_number l \<noteq> 0 then (sl_enter self True l, Blocked Drain_Number) else sl_drain_queue self l)"

definition sl_drain :: "nat \<Rightarrow> shared_lock \<Rightarrow> (shared_lock \<times> outcome) res" where
  "sl_drain self l =
     rbind (sl_acquire l) (\<lambda>l.
     let l = l\<lparr>sl_flags := sl_flags l OR SL_FLAG_DRAIN\<rparr> in
     Inr (sl_finish (sl_drain_number self (sl_wake l))))"

definition sl_touch_loop :: "nat \<Rightarrow> int \<Rightarrow> shared_lock \<Rightarrow> shared_lock \<times> outcome" where
  "sl_touch_loop self type l =
     (if type = SL_TYPE_SHARED \<and> sint (sl_number l) < 0 \<or> type = SL_TYPE_EXCLUSIVE \<and> sl_number l \<noteq> 0
      then (sl_enter self False l, Blocked (Touch_Wait type))
      else (sl_wake l, Returned 0))"

definition sl_touch :: "nat \<Rightarrow> int \<Rightarrow> shared_lock \<Rightarrow> (shared_lock \<times> outcome) res" where
  "sl_touch self type l = rbind (sl_acquire l) (\<lambda>l. Inr (sl_finish (sl_touch_loop self type l)))"

text \<open>The rest of a call from the place where it waited: \<^verbatim>\<open>waitqueue_wait\<close> has taken the spin
  lock again.\<close>

fun sl_continue :: "nat \<Rightarrow> sl_pc \<Rightarrow> shared_lock \<Rightarrow> shared_lock \<times> outcome" where
  "sl_continue self (Fair_Wait type) l = sl_lock_internal self type l"
| "sl_continue self (Internal_Wait type) l = sl_internal_resume self type l"
| "sl_continue self Drain_Number l = sl_drain_number self l"
| "sl_continue self Drain_Queue l = sl_drain_queue self l"
| "sl_continue self (Touch_Wait type) l = sl_touch_loop self type l"

definition sl_resume :: "nat \<Rightarrow> sl_pc \<Rightarrow> shared_lock \<Rightarrow> (shared_lock \<times> outcome) res" where
  "sl_resume self p l = rbind (sl_acquire l) (\<lambda>l. Inr (sl_finish (sl_continue self p l)))"

section \<open>Threads that use one lock\<close>

text \<open>\<open>pcs\<close> tells where a thread waits inside a call, \<open>holds\<close> which type of the lock it
  holds. A thread takes the lock at most once at a time and gives back what it holds, as the
  interface requires. There are fewer than \<open>2^26\<close> threads: a \<^verbatim>\<open>struct thread\<close> has more
  than 64 bytes.\<close>

record sl_sys =
  lk :: shared_lock
  pcs :: "nat \<Rightarrow> sl_pc option"
  holds :: "nat \<Rightarrow> int option"

definition SL_THREADS :: nat where
  "SL_THREADS = 67108864"

fun locks_type :: "sl_pc \<Rightarrow> int option" where
  "locks_type (Fair_Wait type) = Some type"
| "locks_type (Internal_Wait type) = Some type"
| "locks_type p = None"

definition settle :: "nat \<Rightarrow> int option \<Rightarrow> shared_lock \<times> outcome \<Rightarrow> sl_sys \<Rightarrow> sl_sys" where
  "settle t type lr s = (case lr of
     (l, Blocked p) \<Rightarrow> s\<lparr>lk := l, pcs := (pcs s)(t := Some p)\<rparr>
   | (l, Returned v) \<Rightarrow> s\<lparr>lk := l, pcs := (pcs s)(t := None),
       holds := (if v = 0 \<and> type \<noteq> None then (holds s)(t := type) else holds s)\<rparr>)"

abbreviation lock_types :: "int set" where
  "lock_types \<equiv> {SL_TYPE_SHARED, SL_TYPE_EXCLUSIVE}"

inductive sl_step :: "sl_sys \<Rightarrow> sl_sys \<Rightarrow> bool" where
  lock: "t < SL_THREADS \<Longrightarrow> pcs s t = None \<Longrightarrow> holds s t = None \<Longrightarrow> type \<in> lock_types \<Longrightarrow>
    sl_lock_call t type (lk s) = Inr lr \<Longrightarrow> sl_step s (settle t (Some type) lr s)"
| greedy: "t < SL_THREADS \<Longrightarrow> pcs s t = None \<Longrightarrow> holds s t = None \<Longrightarrow> type \<in> lock_types \<Longrightarrow>
    sl_lock_greedy t type (lk s) = Inr lr \<Longrightarrow> sl_step s (settle t (Some type) lr s)"
| unlock: "pcs s t = None \<Longrightarrow> holds s t = Some type \<Longrightarrow> sl_unlock type (lk s) = Inr l \<Longrightarrow>
    sl_step s (s\<lparr>lk := l, holds := (holds s)(t := None)\<rparr>)"
| drain: "t < SL_THREADS \<Longrightarrow> pcs s t = None \<Longrightarrow> holds s t = None \<Longrightarrow>
    sl_drain t (lk s) = Inr lr \<Longrightarrow> sl_step s (settle t None lr s)"
| touch: "t < SL_THREADS \<Longrightarrow> pcs s t = None \<Longrightarrow> holds s t = None \<Longrightarrow> type \<in> lock_types \<Longrightarrow>
    sl_touch t type (lk s) = Inr lr \<Longrightarrow> sl_step s (settle t None lr s)"
| resume: "pcs s t = Some p \<Longrightarrow> sl_resume t p (lk s) = Inr lr \<Longrightarrow>
    sl_step s (settle t (locks_type p) lr s)"
| queue: "sl_step s (s\<lparr>lk := (lk s)\<lparr>sl_queue := q\<rparr>\<rparr>)"

definition sl_start :: sl_sys where
  "sl_start = \<lparr>lk = \<lparr>sl_queue = [], sl_number = 0, sl_flags = 0, sl_lock = 0\<rparr>,
     pcs = (\<lambda>_. None), holds = (\<lambda>_. None)\<rparr>"

inductive sl_reachable :: "sl_sys \<Rightarrow> bool" where
  start: "sl_reachable sl_start"
| step: "sl_reachable s \<Longrightarrow> sl_step s s' \<Longrightarrow> sl_reachable s'"

definition holders :: "int \<Rightarrow> sl_sys \<Rightarrow> nat set" where
  "holders type s = {t. holds s t = Some type}"

text \<open>The invariant: the counter is \<open>-1\<close> while one thread holds the lock exclusively, and
  no other thread holds it then; otherwise it is the number of the shared holders. Only threads
  that wait for one of the two types wait for the lock, and they hold nothing.\<close>

definition sl_inv :: "sl_sys \<Rightarrow> bool" where
  "sl_inv s \<longleftrightarrow> sl_lock (lk s) = 0 \<and> (\<forall>t. holds s t \<noteq> None \<longrightarrow> t < SL_THREADS \<and> the (holds s t) \<in> lock_types) \<and>
     (\<forall>t p. pcs s t = Some p \<longrightarrow> t < SL_THREADS \<and> holds s t = None \<and>
        (\<forall>type. locks_type p = Some type \<longrightarrow> type \<in> lock_types)) \<and>
     ((\<exists>t. holders SL_TYPE_EXCLUSIVE s = {t} \<and> holders SL_TYPE_SHARED s = {} \<and> sl_number (lk s) = -1) \<or>
      (holders SL_TYPE_EXCLUSIVE s = {} \<and> sl_number (lk s) = of_nat (card (holders SL_TYPE_SHARED s))))"

lemma holders_bound:
  assumes "sl_inv s"
  shows "finite (holders type s)" "card (holders type s) \<le> SL_THREADS"
proof -
  have "holders type s \<subseteq> {..<SL_THREADS}" using assms by (auto simp: sl_inv_def holders_def)
  then show "finite (holders type s)" "card (holders type s) \<le> SL_THREADS"
    using finite_subset card_mono [of "{..<SL_THREADS}" "holders type s"] by auto
qed

lemma sint_of_nat_u32: "k < 2147483648 \<Longrightarrow> sint (of_nat k :: u32) = int k"
  by (simp add: signed_of_nat signed_take_bit_int_eq_self)

text \<open>What a segment of a locking call can do, and what one of the other calls can do.\<close>

definition lock_effect :: "int \<Rightarrow> shared_lock \<Rightarrow> shared_lock \<times> outcome \<Rightarrow> bool" where
  "lock_effect type l = (\<lambda>(l', r). sl_lock l' = 0 \<and> sl_flags l' = sl_flags l \<and>
     (r = Returned 0 \<and> \<not> sl_draining l \<and>
       (type = SL_TYPE_SHARED \<and> \<not> sint (sl_number l) < 0 \<and> sl_number l' = sl_number l + 1 \<or>
        type = SL_TYPE_EXCLUSIVE \<and> sl_number l = 0 \<and> sl_number l' = -1) \<or>
      (r = Returned ENOLCK \<or> (\<exists>p. r = Blocked p \<and> locks_type p = Some type)) \<and> sl_number l' = sl_number l))"

definition quiet_effect :: "shared_lock \<Rightarrow> shared_lock \<times> outcome \<Rightarrow> bool" where
  "quiet_effect l = (\<lambda>(l', r). sl_lock l' = 0 \<and> sl_number l' = sl_number l \<and>
     (sl_draining l \<longrightarrow> sl_draining l') \<and>
     (r = Returned 0 \<or> (\<exists>p. r = Blocked p \<and> locks_type p = None)))"

lemmas sl_ops = sl_lock_call_def sl_lock_greedy_def sl_resume_def sl_drain_def sl_touch_def sl_acquire_def
  sl_finish_def sl_lock_internal_def sl_internal_loop_def sl_internal_resume_def sl_drain_number_def
  sl_drain_queue_def sl_touch_loop_def sl_enter_def sl_wake_def sl_release_def

lemma sl_draining_cong: "sl_flags l' = sl_flags l \<Longrightarrow> sl_draining l' = sl_draining l"
  by (simp add: sl_draining_def)

lemma drain_flag_set: "(x OR SL_FLAG_DRAIN) AND SL_FLAG_DRAIN \<noteq> 0" "SL_FLAG_DRAIN \<noteq> 0"
  by (simp_all add: SL_FLAG_DRAIN_def)

lemma effect_lock_irrelevant [simp]:
  "lock_effect type (l\<lparr>sl_lock := k\<rparr>) lr = lock_effect type l lr"
  "quiet_effect (l\<lparr>sl_lock := k\<rparr>) lr = quiet_effect l lr"
  "sl_draining (l\<lparr>sl_lock := k\<rparr>) = sl_draining l"
  by (simp_all add: lock_effect_def quiet_effect_def sl_draining_def)

lemma sl_internal_effect:
  assumes "type \<in> lock_types"
  shows "\<not> sl_draining l \<Longrightarrow> lock_effect type l (sl_finish (sl_internal_loop t type l))"
    and "lock_effect type l (sl_finish (sl_internal_resume t type l))"
    and "lock_effect type l (sl_finish (sl_lock_internal t type l))"
proof -
  show loop: "\<not> sl_draining l \<Longrightarrow> lock_effect type l (sl_finish (sl_internal_loop t type l))"
    using assms by (auto simp: lock_effect_def sl_internal_loop_def sl_finish_def sl_release_def sl_wake_def
        sl_enter_def SL_TYPE_SHARED_def SL_TYPE_EXCLUSIVE_def)
  show "lock_effect type l (sl_finish (sl_internal_resume t type l))"
    using loop by (cases "sl_draining l")
      (simp_all add: sl_internal_resume_def lock_effect_def sl_finish_def sl_release_def sl_wake_def)
  show "lock_effect type l (sl_finish (sl_lock_internal t type l))"
    using loop assms by (cases "sl_draining l")
      (auto simp: sl_lock_internal_def lock_effect_def sl_finish_def sl_release_def)
qed

lemma sl_lock_effect:
  assumes "type \<in> lock_types" and "sl_lock l = 0"
  shows "sl_lock_call t type l = Inr lr \<Longrightarrow> lock_effect type l lr"
    and "sl_lock_greedy t type l = Inr lr \<Longrightarrow> lock_effect type l lr"
    and "locks_type p = Some type \<Longrightarrow> sl_resume t p l = Inr lr \<Longrightarrow> lock_effect type l lr"
proof -
  note eff = sl_internal_effect [OF assms(1), of "l\<lparr>sl_lock := -1\<rparr>", simplified]
  show "sl_lock_call t type l = Inr lr \<Longrightarrow> lock_effect type l lr"
    using assms(2) eff(3) [of t]
    by (auto simp: sl_lock_call_def sl_acquire_def split: if_splits)
      (simp_all add: lock_effect_def sl_enter_def sl_release_def)
  show "sl_lock_greedy t type l = Inr lr \<Longrightarrow> lock_effect type l lr"
    using assms(2) eff(3) [of t] by (auto simp: sl_lock_greedy_def sl_acquire_def)
  show "locks_type p = Some type \<Longrightarrow> sl_resume t p l = Inr lr \<Longrightarrow> lock_effect type l lr"
    using assms(2) eff(2,3) [of t] by (cases p) (auto simp: sl_resume_def sl_acquire_def)
qed

lemma sl_drain_effect:
  "quiet_effect l (sl_finish (sl_drain_queue t l))" "quiet_effect l (sl_finish (sl_drain_number t l))"
  "quiet_effect l (sl_finish (sl_touch_loop t type l))"
proof -
  show q: "quiet_effect l (sl_finish (sl_drain_queue t l))"
    by (simp add: quiet_effect_def sl_drain_queue_def sl_finish_def sl_release_def sl_enter_def sl_draining_def)
  show "quiet_effect l (sl_finish (sl_drain_number t l))"
    using q by (simp add: sl_drain_number_def) (simp add: quiet_effect_def sl_finish_def sl_enter_def sl_draining_def)
  show "quiet_effect l (sl_finish (sl_touch_loop t type l))"
    by (simp add: quiet_effect_def sl_touch_loop_def sl_finish_def sl_release_def sl_enter_def sl_wake_def sl_draining_def)
qed

lemma sl_quiet_effect:
  assumes "sl_lock l = 0"
  shows "sl_drain t l = Inr lr \<Longrightarrow> quiet_effect l lr"
    and "sl_touch t type l = Inr lr \<Longrightarrow> quiet_effect l lr"
    and "locks_type p = None \<Longrightarrow> sl_resume t p l = Inr lr \<Longrightarrow> quiet_effect l lr"
proof -
  show "sl_drain t l = Inr lr \<Longrightarrow> quiet_effect l lr"
    using assms sl_drain_effect(2) [of "sl_wake (l\<lparr>sl_lock := -1, sl_flags := sl_flags l OR SL_FLAG_DRAIN\<rparr>)" t]
    by (auto simp: sl_drain_def sl_acquire_def quiet_effect_def sl_draining_def sl_wake_def drain_flag_set)
  show "sl_touch t type l = Inr lr \<Longrightarrow> quiet_effect l lr"
    using assms sl_drain_effect(3) [of "l\<lparr>sl_lock := -1\<rparr>" t type] by (auto simp: sl_touch_def sl_acquire_def)
  show "locks_type p = None \<Longrightarrow> sl_resume t p l = Inr lr \<Longrightarrow> quiet_effect l lr"
    using assms sl_drain_effect [of "l\<lparr>sl_lock := -1\<rparr>" t] by (cases p) (auto simp: sl_resume_def sl_acquire_def)
qed

section \<open>The invariant\<close>

lemma holders_update:
  "holders k (s\<lparr>lk := l, pcs := p, holds := (holds s)(t := Some type)\<rparr>) =
     (if k = type then insert t (holders k s) else holders k s - {t})"
  "holders k (s\<lparr>lk := l, pcs := p\<rparr>) = holders k s"
  "holders k (s\<lparr>lk := l, holds := (holds s)(t := None)\<rparr>) = holders k s - {t}"
  by (auto simp: holders_def)

lemma sl_inv_cases:
  assumes "sl_inv s"
  shows "(\<exists>t. holders SL_TYPE_EXCLUSIVE s = {t} \<and> holders SL_TYPE_SHARED s = {} \<and> sl_number (lk s) = -1) \<or>
      (holders SL_TYPE_EXCLUSIVE s = {} \<and> sl_number (lk s) = of_nat (card (holders SL_TYPE_SHARED s)))"
  using assms unfolding sl_inv_def by (elim conjE)

lemma sl_inv_number:
  assumes "sl_inv s"
  shows "sl_number (lk s) = 0 \<longleftrightarrow> holders SL_TYPE_EXCLUSIVE s = {} \<and> holders SL_TYPE_SHARED s = {}"
    and "sint (sl_number (lk s)) < 0 \<longleftrightarrow> holders SL_TYPE_EXCLUSIVE s \<noteq> {}"
proof -
  note cs = sl_inv_cases [OF assms]
  have lt: "card (holders SL_TYPE_SHARED s) < 2147483648"
    using holders_bound(2) [OF assms, of SL_TYPE_SHARED] by (simp add: SL_THREADS_def)
  have zero: "(of_nat (card (holders SL_TYPE_SHARED s)) :: u32) = 0 \<longleftrightarrow> holders SL_TYPE_SHARED s = {}"
    using of_nat_u32_eq_0 [of "card (holders SL_TYPE_SHARED s)"] lt
      holders_bound(1) [OF assms, of SL_TYPE_SHARED] by (simp del: of_nat_eq_0_iff)
  show "sl_number (lk s) = 0 \<longleftrightarrow> holders SL_TYPE_EXCLUSIVE s = {} \<and> holders SL_TYPE_SHARED s = {}"
    using cs zero by auto
  show "sint (sl_number (lk s)) < 0 \<longleftrightarrow> holders SL_TYPE_EXCLUSIVE s \<noteq> {}"
    using cs sint_of_nat_u32 [OF lt] by auto
qed

lemma settle_blocked_inv:
  assumes "sl_inv s" and "t < SL_THREADS" and "holds s t = None" and "sl_lock l = 0" and "sl_number l = sl_number (lk s)"
    and "\<forall>p type. pc = Some p \<and> locks_type p = Some type \<longrightarrow> type \<in> lock_types"
  shows "sl_inv (s\<lparr>lk := l, pcs := (pcs s)(t := pc)\<rparr>)"
  using assms unfolding sl_inv_def holders_update by (auto split: if_splits)

lemma settle_quiet_inv:
  assumes "sl_inv s" and "t < SL_THREADS" and "holds s t = None" and "quiet_effect (lk s) lr"
  shows "sl_inv (settle t None lr s)"
proof -
  obtain l r where lr: "lr = (l, r)" by (cases lr)
  from assms(4) have l: "sl_lock l = 0" "sl_number l = sl_number (lk s)" by (auto simp: quiet_effect_def lr)
  from assms(4) consider "r = Returned 0" | p where "r = Blocked p" "locks_type p = None"
    by (auto simp: quiet_effect_def lr)
  then show ?thesis
    using settle_blocked_inv [OF assms(1-3) l] by cases (simp_all add: settle_def lr)
qed

lemma settle_lock_inv:
  assumes inv: "sl_inv s" and t: "t < SL_THREADS" "holds s t = None" and type: "type \<in> lock_types"
    and eff: "lock_effect type (lk s) lr"
  shows "sl_inv (settle t (Some type) lr s)"
proof -
  obtain l r where lr: "lr = (l, r)" by (cases lr)
  from eff have l: "sl_lock l = 0" by (auto simp: lock_effect_def lr)
  from eff consider (sh) "r = Returned 0" "type = SL_TYPE_SHARED" "\<not> sint (sl_number (lk s)) < 0" "sl_number l = sl_number (lk s) + 1"
    | (ex) "r = Returned 0" "type = SL_TYPE_EXCLUSIVE" "sl_number (lk s) = 0" "sl_number l = -1"
    | (no) "r = Returned ENOLCK" "sl_number l = sl_number (lk s)"
    | (bl) p where "r = Blocked p" "locks_type p = Some type" "sl_number l = sl_number (lk s)"
    by (auto simp: lock_effect_def lr)
  then show ?thesis
  proof cases
    case sh
    have ex: "holders SL_TYPE_EXCLUSIVE s = {}" using sl_inv_number(2) [OF inv] sh(3) by simp
    have new: "t \<notin> holders SL_TYPE_SHARED s" using t(2) by (simp add: holders_def)
    have "card (insert t (holders SL_TYPE_SHARED s)) = Suc (card (holders SL_TYPE_SHARED s))"
      using new holders_bound(1) [OF inv] by simp
    moreover have "sl_number (lk s) = of_nat (card (holders SL_TYPE_SHARED s))" using sl_inv_cases [OF inv] ex by auto
    ultimately show ?thesis
      using inv ex sh l t type unfolding sl_inv_def settle_def lr
      by (auto simp: holders_update sl_consts add.commute)
  next
    case ex
    have "holders SL_TYPE_EXCLUSIVE s = {}" "holders SL_TYPE_SHARED s = {}"
      using sl_inv_number(1) [OF inv] ex(3) by auto
    then show ?thesis
      using inv ex l t type unfolding sl_inv_def settle_def lr by (auto simp: holders_update sl_consts)
  next
    case no
    then show ?thesis using settle_blocked_inv [OF inv t l no(2), of None] by (simp add: settle_def lr ENOLCK_def)
  next
    case bl
    then show ?thesis using settle_blocked_inv [OF inv t l bl(3), of "Some p"] type by (simp add: settle_def lr)
  qed
qed

lemma sl_unlock_inv:
  assumes inv: "sl_inv s" and t: "pcs s t = None" "holds s t = Some type" and u: "sl_unlock type (lk s) = Inr l"
  shows "sl_inv (s\<lparr>lk := l, holds := (holds s)(t := None)\<rparr>)"
proof -
  have type: "type \<in> lock_types" and lk: "sl_lock (lk s) = 0" using inv t(2) by (force simp: sl_inv_def)+
  have l: "sl_lock l = 0" "sl_number l = (if type = SL_TYPE_SHARED then sl_number (lk s) - 1 else 0)"
    using u lk type by (auto simp: sl_unlock_def sl_acquire_def sl_release_def sl_wake_def Let_def)
  show ?thesis
  proof (cases "type = SL_TYPE_SHARED")
    case True
    then have tm: "t \<in> holders SL_TYPE_SHARED s" using t(2) by (simp add: holders_def)
    then have ex: "holders SL_TYPE_EXCLUSIVE s = {}" "sl_number (lk s) = of_nat (card (holders SL_TYPE_SHARED s))"
      using sl_inv_cases [OF inv] by auto
    have "card (holders SL_TYPE_SHARED s) = Suc (card (holders SL_TYPE_SHARED s - {t}))"
      using card.remove [OF holders_bound(1) [OF inv] tm] .
    then have "sl_number l = of_nat (card (holders SL_TYPE_SHARED s - {t}))" using l(2) ex(2) True by simp
    then show ?thesis using inv ex(1) l(1) t(1) unfolding sl_inv_def by (auto simp: holders_update)
  next
    case False
    then have tm: "t \<in> holders SL_TYPE_EXCLUSIVE s" using t(2) type by (simp add: holders_def)
    then have "holders SL_TYPE_EXCLUSIVE s = {t}" "holders SL_TYPE_SHARED s = {}"
      using sl_inv_cases [OF inv] by auto
    then show ?thesis using inv l False t(1) unfolding sl_inv_def by (auto simp: holders_update)
  qed
qed

lemma sl_step_inv: "sl_step s s' \<Longrightarrow> sl_inv s \<Longrightarrow> sl_inv s'"
proof (induction rule: sl_step.induct)
  case (lock t s type lr)
  then show ?case using sl_lock_effect(1) by (intro settle_lock_inv) (auto simp: sl_inv_def)
next
  case (greedy t s type lr)
  then show ?case using sl_lock_effect(2) by (intro settle_lock_inv) (auto simp: sl_inv_def)
next
  case (unlock s t type l)
  then show ?case by (intro sl_unlock_inv)
next
  case (drain t s lr)
  then show ?case using sl_quiet_effect(1) by (intro settle_quiet_inv) (auto simp: sl_inv_def)
next
  case (touch t s type lr)
  then show ?case using sl_quiet_effect(2) by (intro settle_quiet_inv) (auto simp: sl_inv_def)
next
  case (resume s t p lr)
  then have t: "t < SL_THREADS" "holds s t = None" "sl_lock (lk s) = 0"
    "\<And>type. locks_type p = Some type \<Longrightarrow> type \<in> lock_types"
    by (auto simp: sl_inv_def)
  show ?case
  proof (cases "locks_type p")
    case None
    then show ?thesis using settle_quiet_inv [OF resume.prems t(1,2)] sl_quiet_effect(3) [OF t(3)] resume.hyps by simp
  next
    case (Some type)
    then show ?thesis
      using settle_lock_inv [OF resume.prems t(1,2) t(4)] sl_lock_effect(3) [OF t(4) t(3)] resume.hyps by simp
  qed
next
  case (queue s q)
  then show ?case by (simp add: sl_inv_def holders_def)
qed

lemma sl_reachable_inv: "sl_reachable s \<Longrightarrow> sl_inv s"
proof (induction rule: sl_reachable.induct)
  case start
  show ?case by (simp add: sl_inv_def sl_start_def holders_def)
next
  case (step s s')
  then show ?case by (blast intro: sl_step_inv)
qed

section \<open>Draining\<close>

lemma settle_fields [simp]:
  "lk (settle t type (l, r) s) = l"
  "pcs (settle t type (l, Blocked p) s) = (pcs s)(t := Some p)"
  "pcs (settle t type (l, Returned v) s) = (pcs s)(t := None)"
  "holds (settle t None (l, r) s) = holds s"
  by (cases r; simp add: settle_def)+

lemma lock_effect_draining:
  assumes "lock_effect type (lk s) lr" and "sl_draining (lk s)"
  shows "sl_draining (lk (settle t (Some type) lr s)) \<and> holds (settle t (Some type) lr s) = holds s"
  using assms by (cases lr) (auto simp: lock_effect_def settle_def sl_draining_def ENOLCK_def)

lemma quiet_effect_draining:
  assumes "quiet_effect (lk s) lr" and "sl_draining (lk s)"
  shows "sl_draining (lk (settle t None lr s)) \<and> holds (settle t None lr s) = holds s"
  using assms by (cases lr) (auto simp: quiet_effect_def)

text \<open>Once a lock is draining it stays so, and no thread gets it any more.\<close>

lemma sl_step_draining:
  assumes "sl_step s s'" and "sl_inv s" and "sl_draining (lk s)"
  shows "sl_draining (lk s') \<and> (\<forall>k. holders k s' \<subseteq> holders k s)"
  using assms
proof (induction rule: sl_step.induct)
  case (lock t s type lr)
  then have "lock_effect type (lk s) lr" by (intro sl_lock_effect(1)) (auto simp: sl_inv_def)
  from lock_effect_draining [OF this lock.prems(2)] show ?case by (simp add: holders_def)
next
  case (greedy t s type lr)
  then have "lock_effect type (lk s) lr" by (intro sl_lock_effect(2)) (auto simp: sl_inv_def)
  from lock_effect_draining [OF this greedy.prems(2)] show ?case by (simp add: holders_def)
next
  case (unlock s t type l)
  then have "sl_flags l = sl_flags (lk s)"
    by (auto simp: sl_unlock_def sl_acquire_def sl_release_def sl_wake_def res_inv Let_def)
  with unlock.prems show ?case by (auto simp: holders_def sl_draining_def)
next
  case (drain t s lr)
  then have "quiet_effect (lk s) lr" by (intro sl_quiet_effect(1)) (auto simp: sl_inv_def)
  from quiet_effect_draining [OF this drain.prems(2)] show ?case by (simp add: holders_def)
next
  case (touch t s type lr)
  then have "quiet_effect (lk s) lr" by (intro sl_quiet_effect(2)) (auto simp: sl_inv_def)
  from quiet_effect_draining [OF this touch.prems(2)] show ?case by (simp add: holders_def)
next
  case (resume s t p lr)
  then have free: "sl_lock (lk s) = 0" "\<And>type. locks_type p = Some type \<Longrightarrow> type \<in> lock_types"
    by (auto simp: sl_inv_def)
  show ?case
  proof (cases "locks_type p")
    case None
    from sl_quiet_effect(3) [OF free(1) None resume.hyps(2)] quiet_effect_draining [OF _ resume.prems(2)] None
    show ?thesis by (simp add: holders_def)
  next
    case (Some type)
    from sl_lock_effect(3) [OF free(2) [OF Some] free(1) Some resume.hyps(2)]
      lock_effect_draining [OF _ resume.prems(2)] Some
    show ?thesis by (simp add: holders_def)
  qed
qed (simp add: sl_draining_def holders_def)

text \<open>A thread inside \<^verbatim>\<open>sl_drain\<close> has set the flag; one that waits for the queue has seen the
  counter at zero.\<close>

definition unheld :: "sl_sys \<Rightarrow> bool" where
  "unheld s \<longleftrightarrow> (\<forall>t. holds s t = None)"

lemma unheld_number:
  assumes "sl_inv s"
  shows "sl_number (lk s) = 0 \<longleftrightarrow> unheld s"
proof -
  have "unheld s \<longleftrightarrow> (\<forall>k\<in>lock_types. holders k s = {})"
    using assms unfolding sl_inv_def unheld_def holders_def by fastforce
  then show ?thesis using sl_inv_number(1) [OF assms] by auto
qed

lemma unheld_step:
  assumes "sl_step s s'" and "sl_inv s" and "sl_draining (lk s)" and "unheld s"
  shows "unheld s'"
proof -
  have "holders k s' \<subseteq> holders k s" for k using sl_step_draining [OF assms(1-3)] by blast
  then show ?thesis using assms(4) unfolding unheld_def holders_def by (metis (mono_tags) mem_Collect_eq not_None_eq option.distinct(1) subsetD)
qed

definition drain_inv :: "sl_sys \<Rightarrow> bool" where
  "drain_inv s \<longleftrightarrow> (\<forall>t. (pcs s t = Some Drain_Number \<or> pcs s t = Some Drain_Queue) \<longrightarrow> sl_draining (lk s)) \<and>
     (\<forall>t. pcs s t = Some Drain_Queue \<longrightarrow> unheld s)"

lemma drain_outcomes:
  "sl_finish (sl_drain_queue t l) = (l', r) \<Longrightarrow>
     (r = Blocked Drain_Queue \<or> r = Returned 0 \<and> sl_queue l' = []) \<and> sl_draining l' = sl_draining l"
  "sl_finish (sl_drain_number t l) = (l', r) \<Longrightarrow>
     (r = Blocked Drain_Number \<or> (r = Blocked Drain_Queue \<or> r = Returned 0 \<and> sl_queue l' = []) \<and> sl_number l = 0) \<and>
     sl_draining l' = sl_draining l"
  by (auto simp: sl_drain_number_def sl_drain_queue_def sl_finish_def sl_enter_def sl_release_def sl_draining_def
      split: if_splits)

lemma sl_drain_outcome:
  assumes "sl_lock l = 0"
  shows "sl_drain t l = Inr (l', r) \<Longrightarrow> sl_draining l' \<and>
     (r = Blocked Drain_Number \<or> (r = Blocked Drain_Queue \<or> r = Returned 0 \<and> sl_queue l' = []) \<and> sl_number l = 0)"
    and "sl_resume t Drain_Number l = Inr (l', r) \<Longrightarrow> sl_draining l' = sl_draining l \<and>
     (r = Blocked Drain_Number \<or> (r = Blocked Drain_Queue \<or> r = Returned 0 \<and> sl_queue l' = []) \<and> sl_number l = 0)"
    and "sl_resume t Drain_Queue l = Inr (l', r) \<Longrightarrow> sl_draining l' = sl_draining l \<and>
     (r = Blocked Drain_Queue \<or> r = Returned 0 \<and> sl_queue l' = [])"
proof -
  show "sl_drain t l = Inr (l', r) \<Longrightarrow> sl_draining l' \<and>
     (r = Blocked Drain_Number \<or> (r = Blocked Drain_Queue \<or> r = Returned 0 \<and> sl_queue l' = []) \<and> sl_number l = 0)"
    using assms drain_outcomes(2) [of t "sl_wake (l\<lparr>sl_lock := -1, sl_flags := sl_flags l OR SL_FLAG_DRAIN\<rparr>)" l' r]
    by (auto simp: sl_drain_def sl_acquire_def sl_wake_def sl_draining_def drain_flag_set)
  show "sl_resume t Drain_Number l = Inr (l', r) \<Longrightarrow> sl_draining l' = sl_draining l \<and>
     (r = Blocked Drain_Number \<or> (r = Blocked Drain_Queue \<or> r = Returned 0 \<and> sl_queue l' = []) \<and> sl_number l = 0)"
    using assms drain_outcomes(2) [of t "l\<lparr>sl_lock := -1\<rparr>" l' r] by (simp add: sl_resume_def sl_acquire_def)
  show "sl_resume t Drain_Queue l = Inr (l', r) \<Longrightarrow> sl_draining l' = sl_draining l \<and>
     (r = Blocked Drain_Queue \<or> r = Returned 0 \<and> sl_queue l' = [])"
    using assms drain_outcomes(1) [of t "l\<lparr>sl_lock := -1\<rparr>" l' r] by (simp add: sl_resume_def sl_acquire_def)
qed

lemma drain_inv_other:
  assumes "drain_inv s" and "sl_step s s'" and "sl_inv s"
    and "\<forall>u. u \<noteq> t \<longrightarrow> pcs s' u = pcs s u"
    and "pcs s' t = Some Drain_Number \<or> pcs s' t = Some Drain_Queue \<Longrightarrow> sl_draining (lk s')"
    and "pcs s' t = Some Drain_Queue \<Longrightarrow> unheld s'"
  shows "drain_inv s'"
  using assms sl_step_draining [OF assms(2,3)] unheld_step [OF assms(2,3)]
  unfolding drain_inv_def by metis

lemma lock_effect_pcs:
  assumes "lock_effect type l (l', r)"
  shows "r \<noteq> Blocked Drain_Number" "r \<noteq> Blocked Drain_Queue"
  using assms by (auto simp: lock_effect_def)

lemma settle_pcs:
  "pcs (settle t type (l, r) s) = (pcs s)(t := (case r of Blocked p \<Rightarrow> Some p | Returned v \<Rightarrow> None))"
  by (cases r) simp_all

lemma drain_inv_settle:
  assumes "drain_inv s" and "sl_step s s'" and "sl_inv s" and "s' = settle t type (l, r) s"
    and "r = Blocked Drain_Number \<or> r = Blocked Drain_Queue \<Longrightarrow> sl_draining l"
    and "r = Blocked Drain_Queue \<Longrightarrow> unheld s'"
  shows "drain_inv s'"
  using assms(4-) by (intro drain_inv_other [OF assms(1-3), of t]) (auto simp: settle_pcs split: outcome.splits)

lemma drain_inv_lock:
  assumes "drain_inv s" and "sl_step s s'" and "sl_inv s" and "s' = settle t type lr s"
    and "lock_effect k (lk s) lr"
  shows "drain_inv s'"
proof -
  obtain l r where lr: "lr = (l, r)" by (cases lr)
  from lock_effect_pcs [OF assms(5) [unfolded lr]] show ?thesis
    by (intro drain_inv_settle [OF assms(1-3) assms(4) [unfolded lr]]) auto
qed

lemma drain_inv_step:
  assumes st: "sl_step s s'" and inv: "sl_inv s" and di: "drain_inv s"
  shows "drain_inv s'"
proof -
  have free: "sl_lock (lk s) = 0" using inv by (simp add: sl_inv_def)
  note go = drain_inv_settle [OF di st inv]
  from st show ?thesis
  proof cases
    case (lock t type lr)
    show ?thesis by (rule drain_inv_lock [OF di st inv lock(1) sl_lock_effect(1) [OF lock(5) free lock(6)]])
  next
    case (greedy t type lr)
    show ?thesis by (rule drain_inv_lock [OF di st inv greedy(1) sl_lock_effect(2) [OF greedy(5) free greedy(6)]])
  next
    case (unlock t type l)
    then show ?thesis by (intro drain_inv_other [OF di st inv, of t]) auto
  next
    case (drain t lr)
    obtain l r where lr: "lr = (l, r)" by (cases lr)
    have "unheld s' = unheld s" using drain(1) lr by (simp add: unheld_def)
    with sl_drain_outcome(1) [OF free, of t l r] drain(5) lr unheld_number [OF inv] show ?thesis
      by (intro go [OF drain(1) [unfolded lr]]) auto
  next
    case (touch t type lr)
    obtain l r where lr: "lr = (l, r)" by (cases lr)
    have "r \<noteq> Blocked Drain_Number" "r \<noteq> Blocked Drain_Queue"
      using touch(6) lr by (auto simp: sl_touch_def sl_touch_loop_def sl_finish_def res_inv split: if_splits)
    then show ?thesis by (intro go [OF touch(1) [unfolded lr]]) auto
  next
    case (resume t p lr)
    obtain l r where lr: "lr = (l, r)" by (cases lr)
    have types: "\<And>type. locks_type p = Some type \<Longrightarrow> type \<in> lock_types" using inv resume(2) by (auto simp: sl_inv_def)
    note go' = go [OF resume(1) [unfolded lr]]
    show ?thesis
    proof (cases p)
      case (Touch_Wait type)
      then have "r \<noteq> Blocked Drain_Number" "r \<noteq> Blocked Drain_Queue"
        using resume(3) lr by (auto simp: sl_resume_def sl_touch_loop_def sl_finish_def res_inv split: if_splits)
      then show ?thesis by (intro go') auto
    next
      case Drain_Number
      then have "sl_draining (lk s)" "unheld s' = unheld s"
        using di resume(1,2) lr by (auto simp: drain_inv_def unheld_def)
      then show ?thesis
        using sl_drain_outcome(2) [OF free, of t l r] resume(3) lr Drain_Number unheld_number [OF inv]
        by (intro go') auto
    next
      case Drain_Queue
      then have "sl_draining (lk s)" "unheld s'" using di resume(1,2) lr by (auto simp: drain_inv_def unheld_def)
      then show ?thesis
        using sl_drain_outcome(3) [OF free, of t l r] resume(3) lr Drain_Queue by (intro go') auto
    next
      case (Fair_Wait type)
      then have "lock_effect type (lk s) lr" using resume(3) free types by (intro sl_lock_effect(3)) auto
      then show ?thesis by (rule drain_inv_lock [OF di st inv resume(1)])
    next
      case (Internal_Wait type)
      then have "lock_effect type (lk s) lr" using resume(3) free types by (intro sl_lock_effect(3)) auto
      then show ?thesis by (rule drain_inv_lock [OF di st inv resume(1)])
    qed
  next
    case (queue q)
    then show ?thesis using di by (simp add: drain_inv_def unheld_def sl_draining_def)
  qed
qed

lemma sl_reachable_drain_inv: "sl_reachable s \<Longrightarrow> drain_inv s"
proof (induction rule: sl_reachable.induct)
  case start
  show ?case by (simp add: drain_inv_def sl_start_def)
next
  case (step s s')
  then show ?case using sl_reachable_inv drain_inv_step by blast
qed

inductive sl_steps :: "sl_sys \<Rightarrow> sl_sys \<Rightarrow> bool" where
  refl: "sl_steps s s"
| step: "sl_steps s s' \<Longrightarrow> sl_step s' s'' \<Longrightarrow> sl_steps s s''"

lemma unheld_steps:
  assumes "sl_steps s s'" and "sl_inv s" and "sl_draining (lk s)" and "unheld s"
  shows "sl_inv s' \<and> sl_draining (lk s') \<and> unheld s'"
  using assms
proof (induction rule: sl_steps.induct)
  case (step s s' s'')
  then show ?case using sl_step_inv sl_step_draining unheld_step by blast
qed blast

section \<open>Properties\<close>

text \<open>C14. Shared and exclusive holders. In every state that any number of threads can reach by
  locking (fair or greedy), unlocking, draining and touching one lock, in any interleaving of the
  segments, even when waiting threads go on without having been woken and whatever becomes of the wait queue: a thread that holds the
  lock exclusively is its only holder, and the counter is \<open>-1\<close> then and the number of the
  shared holders otherwise.\<close>

theorem shared_lock_exclusion:
  assumes "sl_reachable s"
  shows "(holds s t = Some SL_TYPE_EXCLUSIVE \<longrightarrow> (\<forall>u. u \<noteq> t \<longrightarrow> holds s u = None)) \<and>
    sint (sl_number (lk s)) = (if \<exists>u. holds s u = Some SL_TYPE_EXCLUSIVE then -1
      else int (card {u. holds s u = Some SL_TYPE_SHARED}))"
proof -
  note inv = sl_reachable_inv [OF assms]
  have lt: "card (holders SL_TYPE_SHARED s) < 2147483648"
    using holders_bound(2) [OF inv, of SL_TYPE_SHARED] by (simp add: SL_THREADS_def)
  have types: "holds s u = Some SL_TYPE_SHARED \<or> holds s u = Some SL_TYPE_EXCLUSIVE \<or> holds s u = None" for u
    using inv by (cases "holds s u") (force simp: sl_inv_def)+
  from sl_inv_cases [OF inv] show ?thesis
  proof
    assume "\<exists>t. holders SL_TYPE_EXCLUSIVE s = {t} \<and> holders SL_TYPE_SHARED s = {} \<and> sl_number (lk s) = -1"
    then obtain v where v: "holders SL_TYPE_EXCLUSIVE s = {v}" "holders SL_TYPE_SHARED s = {}" "sl_number (lk s) = -1"
      by blast
    have "holds s u = Some SL_TYPE_EXCLUSIVE \<longleftrightarrow> u = v" "holds s u \<noteq> Some SL_TYPE_SHARED" for u
      using v(1,2) by (auto simp: holders_def)
    with types v(3) show ?thesis by auto
  next
    assume a: "holders SL_TYPE_EXCLUSIVE s = {} \<and> sl_number (lk s) = of_nat (card (holders SL_TYPE_SHARED s))"
    then have "\<forall>u. holds s u \<noteq> Some SL_TYPE_EXCLUSIVE" by (auto simp: holders_def)
    with a sint_of_nat_u32 [OF lt] show ?thesis by (simp add: holders_def)
  qed
qed

definition example_held :: sl_sys where
  "example_held = settle 3 (Some SL_TYPE_EXCLUSIVE)
     ((lk sl_start)\<lparr>sl_number := -1\<rparr>, Returned 0) sl_start"

lemma example_held_reachable: "sl_reachable example_held"
proof -
  have "sl_lock_call 3 SL_TYPE_EXCLUSIVE (lk sl_start) = Inr ((lk sl_start)\<lparr>sl_number := -1\<rparr>, Returned 0)"
    by (simp add: sl_start_def sl_ops sl_draining_def sl_consts)
  then have "sl_step sl_start example_held"
    unfolding example_held_def by (intro sl_step.lock) (simp_all add: SL_THREADS_def sl_start_def)
  then show ?thesis by (rule sl_reachable.step [OF sl_reachable.start])
qed

theorem shared_lock_exclusion_witness:
  "sl_reachable example_held \<and> holds example_held 3 = Some SL_TYPE_EXCLUSIVE \<and>
    {u. holds example_held u \<noteq> None} = {3} \<and> sint (sl_number (lk example_held)) = -1"
proof -
  have h: "holds example_held 3 = Some SL_TYPE_EXCLUSIVE"
    by (simp add: example_held_def settle_def)
  with shared_lock_exclusion [OF example_held_reachable, of 3] have
    "\<forall>u. u \<noteq> 3 \<longrightarrow> holds example_held u = None" "sint (sl_number (lk example_held)) = -1" by auto
  with h example_held_reachable show ?thesis by fastforce
qed

text \<open>C15. Draining is final. When \<^verbatim>\<open>sl_drain\<close> returns, at once or after any waits, the queue
  is empty and no thread holds the lock; and in every later state, whatever the threads do, no
  thread holds it: lock calls return \<^verbatim>\<open>ENOLCK\<close>.\<close>

theorem sl_drain_final:
  assumes r: "sl_reachable s"
    and d: "sl_drain t (lk s) = Inr (l, Returned v) \<and> pcs s t = None \<and> holds s t = None \<and> t < SL_THREADS \<or>
      (\<exists>p\<in>{Drain_Number, Drain_Queue}. pcs s t = Some p \<and> sl_resume t p (lk s) = Inr (l, Returned v))"
    and later: "sl_steps (settle t None (l, Returned v) s) s'"
  shows "sl_queue l = [] \<and> (\<forall>u. holds s u = None) \<and> (\<forall>u. holds s' u = None) \<and>
    (\<forall>u type l' o'. type \<in> lock_types \<longrightarrow> sl_lock_call u type (lk s') = Inr (l', o') \<longrightarrow> o' = Returned ENOLCK)"
proof -
  note inv = sl_reachable_inv [OF r] and di = sl_reachable_drain_inv [OF r]
  have free: "sl_lock (lk s) = 0" using inv by (simp add: sl_inv_def)
  let ?s1 = "settle t None (l, Returned v) s"
  have *: "sl_queue l = [] \<and> unheld s \<and> sl_draining l \<and> sl_step s ?s1"
    using d
  proof (elim disjE bexE conjE)
    assume a: "sl_drain t (lk s) = Inr (l, Returned v)" "pcs s t = None" "holds s t = None" "t < SL_THREADS"
    from sl_drain_outcome(1) [OF free a(1)] unheld_number [OF inv] sl_step.drain [OF a(4,2,3,1)]
    show ?thesis by simp
  next
    fix p
    assume a: "p \<in> {Drain_Number, Drain_Queue}" "pcs s t = Some p" "sl_resume t p (lk s) = Inr (l, Returned v)"
    have "sl_step s ?s1" using sl_step.resume [OF a(2,3)] a(1) by auto
    moreover have "sl_draining (lk s)" "p = Drain_Queue \<Longrightarrow> unheld s" using di a(1,2) by (auto simp: drain_inv_def)
    ultimately show ?thesis
      using a(1,3) sl_drain_outcome(2,3) [OF free, of t l "Returned v"] unheld_number [OF inv] by auto
  qed
  then have "sl_inv ?s1" "sl_draining (lk ?s1)" "unheld ?s1"
    using sl_step_inv [OF _ inv] by (auto simp: unheld_def)
  from unheld_steps [OF later this] have s': "sl_inv s'" "sl_draining (lk s')" "unheld s'" by auto
  have "o' = Returned ENOLCK" if "sl_lock_call u type (lk s') = Inr (l', o')" for u type l' o'
    using that s'(1,2) by (auto simp: sl_lock_call_def sl_acquire_def sl_inv_def)
  with * s'(3) show ?thesis by (auto simp: unheld_def)
qed

theorem sl_drain_final_witness:
  "\<exists>l. sl_drain 0 (lk sl_start) = Inr (l, Returned 0) \<and> sl_queue l = [] \<and>
    (\<forall>u l' o'. sl_lock_call u SL_TYPE_SHARED l = Inr (l', o') \<longrightarrow> o' = Returned ENOLCK)"
proof -
  let ?l = "\<lparr>sl_queue = [], sl_number = 0, sl_flags = 1, sl_lock = 0\<rparr>"
  have d: "sl_drain 0 (lk sl_start) = Inr (?l, Returned 0)"
    by (simp add: sl_start_def sl_ops SL_FLAG_DRAIN_def)
  have "pcs sl_start 0 = None \<and> holds sl_start 0 = None \<and> 0 < SL_THREADS" by (simp add: sl_start_def SL_THREADS_def)
  with d sl_drain_final [OF sl_reachable.start _ sl_steps.refl, of 0 ?l 0] show ?thesis
    by (intro exI [of _ ?l]) (auto simp del: not_None_eq)
qed

text \<open>What one call does to a lock that nobody drains. A free lock with an empty queue is
  taken at once, either type; a shared lock is granted beside other shared holders; an exclusive
  request waits while there is any holder, a shared one while there is an exclusive holder, and a
  fair request waits behind a non-empty queue. \<^verbatim>\<open>sl_unlock\<close> undoes
  \<^verbatim>\<open>sl_lock\<close>.\<close>

theorem sl_lock_outcomes:
  assumes "sl_lock l = 0" and "\<not> sl_draining l" and "sl_queue l = []"
  shows "(sl_lock_call t SL_TYPE_SHARED l =
      Inr (if sint (sl_number l) < 0 then (l\<lparr>sl_queue := [t]\<rparr>, Blocked (Internal_Wait SL_TYPE_SHARED))
           else (l\<lparr>sl_number := sl_number l + 1\<rparr>, Returned 0))) \<and>
    (sl_lock_call t SL_TYPE_EXCLUSIVE l =
      Inr (if sl_number l \<noteq> 0 then (l\<lparr>sl_queue := [t]\<rparr>, Blocked (Internal_Wait SL_TYPE_EXCLUSIVE))
           else (l\<lparr>sl_number := -1\<rparr>, Returned 0))) \<and>
    sl_unlock SL_TYPE_SHARED (l\<lparr>sl_number := sl_number l + 1\<rparr>) = Inr l \<and>
    (sl_number l = 0 \<longrightarrow> sl_unlock SL_TYPE_EXCLUSIVE (l\<lparr>sl_number := -1\<rparr>) = Inr l) \<and>
    sl_lock_call t type (l\<lparr>sl_queue := [u]\<rparr>) = Inr (l\<lparr>sl_queue := [t, u]\<rparr>, Blocked (Fair_Wait type))"
proof -
  obtain n f where l: "l = \<lparr>sl_queue = [], sl_number = n, sl_flags = f, sl_lock = 0\<rparr>"
    using assms(1,3) by (cases l) auto
  have "f AND SL_FLAG_DRAIN = 0" using assms(2) by (simp add: sl_draining_def l)
  then show ?thesis
    by (simp add: l sl_ops sl_unlock_def sl_draining_def SL_TYPE_SHARED_def SL_TYPE_EXCLUSIVE_def)
qed

theorem sl_lock_outcomes_witness:
  "sl_lock_call 5 SL_TYPE_SHARED (lk sl_start) = Inr ((lk sl_start)\<lparr>sl_number := 1\<rparr>, Returned 0)"
proof -
  have "sl_lock (lk sl_start) = 0" "\<not> sl_draining (lk sl_start)" "sl_queue (lk sl_start) = []"
    by (simp_all add: sl_start_def sl_draining_def)
  from conjunct1 [OF sl_lock_outcomes [OF this, of 5 0 0]] show ?thesis by (simp add: sl_start_def)
qed

text \<open>\<^verbatim>\<open>sl_touch\<close> is not \<^verbatim>\<open>sl_lock\<close> followed by \<^verbatim>\<open>sl_unlock\<close>, as its comment
  says: on a free lock that is being drained, \<^verbatim>\<open>sl_lock\<close> of either kind returns
  \<^verbatim>\<open>ENOLCK\<close> and \<^verbatim>\<open>sl_touch\<close> returns 0.\<close>

theorem sl_touch_ignores_drain:
  "type \<in> lock_types \<longrightarrow>
   (let l = \<lparr>sl_queue = [], sl_number = 0, sl_flags = SL_FLAG_DRAIN, sl_lock = 0\<rparr> in
     sl_touch t type l = Inr (l, Returned 0) \<and> sl_lock_call t type l = Inr (l, Returned ENOLCK) \<and>
     sl_lock_greedy t type l = Inr (l, Returned ENOLCK))"
  by (auto simp: sl_ops sl_draining_def SL_FLAG_DRAIN_def)

theorem sl_touch_ignores_drain_witness:
  "\<exists>l. sl_touch 0 SL_TYPE_SHARED l = Inr (l, Returned 0) \<and> sl_lock_call 0 SL_TYPE_SHARED l = Inr (l, Returned ENOLCK)"
  using sl_touch_ignores_drain [of SL_TYPE_SHARED 0] by (auto simp: Let_def)

end
