(* ===== verification/I686_Boot.thy ===== *)
theory I686_Boot
  imports Threads Phys_Mem
begin

text \<open>
  The start of the i686 port: the segment and gate descriptors of
  \<open>arch/i686/include/x86/gdt.h\<close>, the set-up of the descriptor tables and the interrupt
  handler in \<open>arch/i686/hal.c\<close>, the interrupt controllers and the timer of
  \<open>arch/i686/irq_pic.c\<close> and \<open>arch/i686/irq_lapic.c\<close>, the memory ranges of
  \<open>arch/i686/kerninit.c\<close>, and \<^verbatim>\<open>kern_initmem\<close> of \<open>kern/init_main.c\<close>.

  The bit-fields of a descriptor are words of their width, so that storing a value truncates it.
  A write to a port or to a register of the local APIC is an entry of a log. What a read of the
  APIC returns is up to the hardware: its version and the answers to the polls of the delivery
  status are parameters. The trap vectors (\<open>intvec.s\<close>), the end of the kernel image and the
  multiboot data come from the assembly and the linker and are parameters too.
\<close>

section \<open>Descriptors\<close>

record segdesc =
  lim_15_0 :: "16 word"
  base_15_0 :: "16 word"
  base_23_16 :: "8 word"
  seg_type :: "4 word"
  seg_s :: "1 word"
  seg_dpl :: "2 word"
  seg_p :: "1 word"
  lim_19_16 :: "4 word"
  seg_avl :: "1 word"
  seg_rsv1 :: "1 word"
  seg_db :: "1 word"
  seg_g :: "1 word"
  base_31_24 :: "8 word"

definition SEG :: "u32 \<Rightarrow> u32 \<Rightarrow> u32 \<Rightarrow> u32 \<Rightarrow> segdesc" where
  "SEG type base lim dpl =
     \<lparr>lim_15_0 = ucast (drop_bit 12 lim AND 0xffff), base_15_0 = ucast (base AND 0xffff),
      base_23_16 = ucast (drop_bit 16 base AND 0xff), seg_type = ucast type, seg_s = 1, seg_dpl = ucast dpl, seg_p = 1,
      lim_19_16 = ucast (drop_bit 28 lim), seg_avl = 0, seg_rsv1 = 0, seg_db = 1, seg_g = 1,
      base_31_24 = ucast (drop_bit 24 base)\<rparr>"

definition SEG16 :: "u32 \<Rightarrow> u32 \<Rightarrow> u32 \<Rightarrow> u32 \<Rightarrow> segdesc" where
  "SEG16 type base lim dpl =
     \<lparr>lim_15_0 = ucast (lim AND 0xffff), base_15_0 = ucast (base AND 0xffff),
      base_23_16 = ucast (drop_bit 16 base AND 0xff), seg_type = ucast type, seg_s = 1, seg_dpl = ucast dpl, seg_p = 1,
      lim_19_16 = ucast (drop_bit 16 lim), seg_avl = 0, seg_rsv1 = 0, seg_db = 1, seg_g = 0,
      base_31_24 = ucast (drop_bit 24 base)\<rparr>"

record gatedesc =
  off_15_0 :: "16 word"
  gate_cs :: "16 word"
  gate_args :: "5 word"
  gate_rsv1 :: "3 word"
  gate_type :: "4 word"
  gate_s :: "1 word"
  gate_dpl :: "2 word"
  gate_p :: "1 word"
  off_31_16 :: "16 word"

definition STS_IG32 :: "4 word" where "STS_IG32 = 0xE"
definition STS_TG32 :: "4 word" where "STS_TG32 = 0xF"
definition STS_T32A :: u32 where "STS_T32A = 0x9"
definition STA_X :: u32 where "STA_X = 0x8"
definition STA_W :: u32 where "STA_W = 0x2"
definition STA_R :: u32 where "STA_R = 0x2"
definition DPL_USER :: u32 where "DPL_USER = 3"

definition SETGATE :: "bool \<Rightarrow> u16 \<Rightarrow> u32 \<Rightarrow> u32 \<Rightarrow> gatedesc" where
  "SETGATE istrap sel off d =
     \<lparr>off_15_0 = ucast (off AND 0xffff), gate_cs = sel, gate_args = 0, gate_rsv1 = 0,
      gate_type = (if istrap then STS_TG32 else STS_IG32), gate_s = 0, gate_dpl = ucast d, gate_p = 1,
      off_31_16 = ucast (drop_bit 16 off)\<rparr>"

text \<open>How the processor reads the descriptors: base, limit in bytes (scaled by 4096 with all low bits
  set when the granularity bit is), and the offset of a gate.\<close>

definition desc_base :: "segdesc \<Rightarrow> u32" where
  "desc_base d = push_bit 24 (ucast (base_31_24 d)) OR push_bit 16 (ucast (base_23_16 d)) OR ucast (base_15_0 d)"

definition desc_limit :: "segdesc \<Rightarrow> u32" where
  "desc_limit d =
     (let l = push_bit 16 (ucast (lim_19_16 d)) OR ucast (lim_15_0 d) :: u32
      in if seg_g d = 1 then push_bit 12 l OR 0xFFF else l)"

definition gate_offset :: "gatedesc \<Rightarrow> u32" where
  "gate_offset g = push_bit 16 (ucast (off_31_16 g)) OR ucast (off_15_0 g)"

section \<open>The descriptor tables (hal.c)\<close>

definition SEG_KCODE :: nat where "SEG_KCODE = 1"
definition SEG_KCPU :: nat where "SEG_KCPU = 3"
definition SEG_UCODE :: nat where "SEG_UCODE = 4"
definition SEG_UDATA :: nat where "SEG_UDATA = 5"
definition NSEGS :: nat where "NSEGS = 7"

text \<open>The operand of \<^verbatim>\<open>lgdt\<close> and \<^verbatim>\<open>lidt\<close>: three 16-bit words.\<close>

definition table_register :: "u32 \<Rightarrow> u32 \<Rightarrow> u16 list" where
  "table_register p sz =
     [ucast (sz - 1), ucast (p AND 0xFFFF), ucast (drop_bit 16 p AND 0xFFFF)]"

record cpu_regs =
  gdtr :: "u16 list"
  idtr :: "u16 list"
  reg_gs :: u16

definition lgdt :: "u32 \<Rightarrow> u32 \<Rightarrow> cpu_regs \<Rightarrow> cpu_regs" where
  "lgdt p sz regs = regs\<lparr>gdtr := table_register p sz\<rparr>"

definition lidt :: "u32 \<Rightarrow> u32 \<Rightarrow> cpu_regs \<Rightarrow> cpu_regs" where
  "lidt p sz regs = regs\<lparr>idtr := table_register p sz\<rparr>"

definition loadgs :: "u16 \<Rightarrow> cpu_regs \<Rightarrow> cpu_regs" where
  "loadgs v regs = regs\<lparr>reg_gs := v\<rparr>"

text \<open>\<^verbatim>\<open>hal_initcpu\<close> on a descriptor table at \<open>gdt_addr\<close>, with the task state segment at
  \<open>tss_addr\<close> (104 bytes) and the 12 bytes of \<^verbatim>\<open>cpu_local\<close> at \<open>local_addr\<close>.\<close>

definition hal_initcpu :: "u32 \<Rightarrow> u32 \<Rightarrow> u32 \<Rightarrow> segdesc list \<Rightarrow> cpu_regs \<Rightarrow> segdesc list \<times> cpu_regs" where
  "hal_initcpu gdt_addr tss_addr local_addr gdt regs =
     (let gdt = gdt[SEG_KCODE := SEG (STA_X OR STA_R) 0 0xffffffff 0];
          gdt = gdt[unat SEG_KDATA := SEG STA_W 0 0xffffffff 0];
          gdt = gdt[SEG_UCODE := SEG (STA_X OR STA_R) 0 0xffffffff DPL_USER];
          gdt = gdt[SEG_UDATA := SEG STA_W 0 0xffffffff DPL_USER];
          gdt = gdt[unat SEG_TSS := SEG16 STS_T32A tss_addr (104 - 1) 0];
          gdt = gdt[unat SEG_TSS := (gdt ! unat SEG_TSS)\<lparr>seg_s := 0\<rparr>];
          gdt = gdt[SEG_KCPU := SEG STA_W local_addr 12 0];
          regs = lgdt gdt_addr (8 * of_nat NSEGS) regs
      in (gdt, loadgs (of_nat (SEG_KCPU * 8)) regs))"

primrec setup_idt_loop :: "nat \<Rightarrow> nat \<Rightarrow> u32 list \<Rightarrow> gatedesc list \<Rightarrow> gatedesc list" where
  "setup_idt_loop 0 i vectors idt = idt"
| "setup_idt_loop (Suc n) i vectors idt =
     setup_idt_loop n (Suc i) vectors (idt[i := SETGATE False (of_nat (SEG_KCODE * 8)) (vectors ! i) 0])"

definition i686_setup_idt :: "u32 \<Rightarrow> u32 list \<Rightarrow> gatedesc list \<Rightarrow> cpu_regs \<Rightarrow> gatedesc list \<times> cpu_regs" where
  "i686_setup_idt idt_addr vectors idt regs =
     (setup_idt_loop 256 0 vectors idt, lidt idt_addr (8 * 256) regs)"

section \<open>The interrupt controllers and the timer (irq_pic.c)\<close>

definition T_IRQ0 :: u32 where "T_IRQ0 = 32"
definition IRQ_TIMER :: u32 where "IRQ_TIMER = 0"
definition IRQ_KBD :: u32 where "IRQ_KBD = 1"
definition IRQ_COM1 :: u32 where "IRQ_COM1 = 4"
definition IRQ_IDE :: u32 where "IRQ_IDE = 14"
definition IRQ_ERROR :: u32 where "IRQ_ERROR = 19"
definition IRQ_SPURIOUS :: u32 where "IRQ_SPURIOUS = 31"

definition IO_PIC1 :: u16 where "IO_PIC1 = 0x20"
definition IO_PIC2 :: u16 where "IO_PIC2 = 0xA0"
definition IRQ_SLAVE :: nat where "IRQ_SLAVE = 2"
definition PIC_EOI :: u8 where "PIC_EOI = 0x20"
definition IO_TIMER1 :: u16 where "IO_TIMER1 = 0x40"
definition TIMER_FREQ :: int where "TIMER_FREQ = 1193182"

definition TIMER_DIV :: "int \<Rightarrow> int" where
  "TIMER_DIV x = (TIMER_FREQ + x div 2) div x"

definition TIMER_MODE :: u16 where "TIMER_MODE = IO_TIMER1 + 3"
definition TIMER_SEL0 :: u8 where "TIMER_SEL0 = 0"
definition TIMER_RATEGEN :: u8 where "TIMER_RATEGEN = 4"
definition TIMER_16BIT :: u8 where "TIMER_16BIT = 0x30"

record pic =
  irqmask :: u16
  ports :: "(u16 \<times> u8) list"

definition outb :: "u16 \<Rightarrow> u8 \<Rightarrow> pic \<Rightarrow> pic" where
  "outb port data p = p\<lparr>ports := ports p @ [(port, data)]\<rparr>"

text \<open>The static variables before the first call.\<close>

definition pic_static :: pic where
  "pic_static = \<lparr>irqmask = 0xFFFF AND NOT (push_bit IRQ_SLAVE 1), ports = []\<rparr>"

definition picsetmask :: "u16 \<Rightarrow> pic \<Rightarrow> pic" where
  "picsetmask msk p =
     outb (IO_PIC2 + 1) (ucast (drop_bit 8 msk)) (outb (IO_PIC1 + 1) (ucast msk) (p\<lparr>irqmask := msk\<rparr>))"

definition picenable :: "nat \<Rightarrow> pic \<Rightarrow> pic" where
  "picenable irq p = picsetmask (irqmask p AND NOT (push_bit irq 1)) p"

definition i686_picinit :: "pic \<Rightarrow> pic" where
  "i686_picinit p =
     (let p = outb (IO_PIC1 + 1) 0xFF p;
          p = outb (IO_PIC2 + 1) 0xFF p;
          p = outb IO_PIC1 0x11 p;
          p = outb (IO_PIC1 + 1) (ucast T_IRQ0) p;
          p = outb (IO_PIC1 + 1) (push_bit IRQ_SLAVE 1) p;
          p = outb (IO_PIC1 + 1) 3 p;
          p = outb IO_PIC2 0x11 p;
          p = outb (IO_PIC2 + 1) (ucast (T_IRQ0 + 8)) p;
          p = outb (IO_PIC2 + 1) (of_nat IRQ_SLAVE) p;
          p = outb (IO_PIC2 + 1) 3 p;
          p = outb IO_PIC1 0x68 p;
          p = outb IO_PIC1 0x0a p;
          p = outb IO_PIC2 0x68 p;
          p = outb IO_PIC2 0x0a p
      in if irqmask p \<noteq> 0xFFFF then picsetmask (irqmask p) p else p)"

definition i686_piceoi :: "int \<Rightarrow> pic \<Rightarrow> pic" where
  "i686_piceoi irq p =
     (let p = (if irq \<ge> 8 then outb IO_PIC2 PIC_EOI p else p) in outb IO_PIC1 PIC_EOI p)"

definition i686_timerinit :: "pic \<Rightarrow> pic" where
  "i686_timerinit p =
     (let time = TIMER_DIV 50;
          p = outb TIMER_MODE (TIMER_SEL0 OR TIMER_RATEGEN OR TIMER_16BIT) p;
          p = outb IO_TIMER1 (word_of_int (time mod 256)) p;
          p = outb IO_TIMER1 (word_of_int (time div 256)) p
      in picenable (unat IRQ_TIMER) p)"

section \<open>The local APIC (irq_lapic.c)\<close>

definition LAPIC_TPR :: nat where "LAPIC_TPR = 0x0080 div 4"
definition LAPIC_EOI :: nat where "LAPIC_EOI = 0x00B0 div 4"
definition LAPIC_SVR :: nat where "LAPIC_SVR = 0x00F0 div 4"
definition LAPIC_ESR :: nat where "LAPIC_ESR = 0x0280 div 4"
definition LAPIC_ICRLO :: nat where "LAPIC_ICRLO = 0x0300 div 4"
definition LAPIC_ICRHI :: nat where "LAPIC_ICRHI = 0x0310 div 4"
definition LAPIC_TIMER :: nat where "LAPIC_TIMER = 0x0320 div 4"
definition LAPIC_PCINT :: nat where "LAPIC_PCINT = 0x0340 div 4"
definition LAPIC_LINT0 :: nat where "LAPIC_LINT0 = 0x0350 div 4"
definition LAPIC_LINT1 :: nat where "LAPIC_LINT1 = 0x0360 div 4"
definition LAPIC_ERROR :: nat where "LAPIC_ERROR = 0x0370 div 4"
definition LAPIC_TICR :: nat where "LAPIC_TICR = 0x0380 div 4"
definition LAPIC_TDCR :: nat where "LAPIC_TDCR = 0x03E0 div 4"

definition LAPIC_ENABLE :: u32 where "LAPIC_ENABLE = 0x100"
definition LAPIC_INIT :: u32 where "LAPIC_INIT = 0x500"
definition LAPIC_DELIVS :: u32 where "LAPIC_DELIVS = 0x1000"
definition LAPIC_LEVEL :: u32 where "LAPIC_LEVEL = 0x8000"
definition LAPIC_BCAST :: u32 where "LAPIC_BCAST = 0x80000"
definition LAPIC_X1 :: u32 where "LAPIC_X1 = 0xB"
definition LAPIC_PERIODIC :: u32 where "LAPIC_PERIODIC = 0x20000"
definition LAPIC_MASKED :: u32 where "LAPIC_MASKED = 0x10000"

type_synonym lapic_log = "(nat \<times> u32) list"

definition lapicw :: "nat \<Rightarrow> u32 \<Rightarrow> lapic_log \<Rightarrow> lapic_log" where
  "lapicw index val log = log @ [(index, val)]"

text \<open>The poll of the delivery status: the \<open>k\<close>-th read of the register gives \<open>icr k\<close>.\<close>

partial_function (option) lapic_poll :: "(nat \<Rightarrow> u32) \<Rightarrow> nat \<Rightarrow> nat option" where
  "lapic_poll icr k = (if icr k AND LAPIC_DELIVS \<noteq> 0 then lapic_poll icr (Suc k) else Some k)"

definition i686_lapicinit :: "u32 \<Rightarrow> u32 \<Rightarrow> (nat \<Rightarrow> u32) \<Rightarrow> lapic_log \<Rightarrow> lapic_log res" where
  "i686_lapicinit lapic ver icr log =
     (if lapic = 0 then Inr log
      else
      let log = lapicw LAPIC_SVR (LAPIC_ENABLE OR (T_IRQ0 + IRQ_SPURIOUS)) log;
          log = lapicw LAPIC_TDCR LAPIC_X1 log;
          log = lapicw LAPIC_TIMER (LAPIC_PERIODIC OR (T_IRQ0 + IRQ_TIMER)) log;
          log = lapicw LAPIC_TICR 10000000 log;
          log = lapicw LAPIC_LINT0 LAPIC_MASKED log;
          log = lapicw LAPIC_LINT1 LAPIC_MASKED log;
          log = (if drop_bit 16 ver AND 0xFF \<ge> 4 then lapicw LAPIC_PCINT LAPIC_MASKED log else log);
          log = lapicw LAPIC_ERROR (T_IRQ0 + IRQ_ERROR) log;
          log = lapicw LAPIC_ESR 0 log;
          log = lapicw LAPIC_ESR 0 log;
          log = lapicw LAPIC_EOI 0 log;
          log = lapicw LAPIC_ICRHI 0 log;
          log = lapicw LAPIC_ICRLO (LAPIC_BCAST OR LAPIC_INIT OR LAPIC_LEVEL) log
      in case lapic_poll icr 0 of None \<Rightarrow> Inl No_Return
         | Some _ \<Rightarrow> Inr (lapicw LAPIC_TPR 0 log))"

definition i686_lapiceoi :: "u32 \<Rightarrow> lapic_log \<Rightarrow> lapic_log" where
  "i686_lapiceoi lapic log = (if lapic \<noteq> 0 then lapicw LAPIC_EOI 0 log else log)"

section \<open>The interrupt handler (hal.c)\<close>

text \<open>The result tells whether \<^verbatim>\<open>__i686_switch\<close> is called.\<close>

definition i686_interrupt :: "u32 \<Rightarrow> u32 \<Rightarrow> pic \<times> lapic_log \<Rightarrow> bool \<times> pic \<times> lapic_log" where
  "i686_interrupt lapic trapno st =
     (let (p, log) = st;
          log = (if trapno = T_IRQ0 + IRQ_TIMER \<or> trapno = T_IRQ0 + IRQ_KBD \<or> trapno = T_IRQ0 + IRQ_COM1 \<or>
                    trapno = T_IRQ0 + IRQ_IDE \<or> trapno = T_IRQ0 + 7 \<or> trapno = T_IRQ0 + IRQ_SPURIOUS
                 then i686_lapiceoi lapic log else log);
          p = i686_piceoi (sint trapno) p
      in (trapno = T_IRQ0 + IRQ_TIMER, p, log))"

section \<open>The memory of the machine (kerninit.c, init_main.c)\<close>

record kernslice =
  ks_kernslice_id :: u32
  ks_memory_ranges :: "physmem_range list"
  ks_num_memory_ranges :: u32

text \<open>The end of the kernel as a physical address, rounded up to a page.\<close>

definition kernel_end_page :: "u32 \<Rightarrow> u32" where
  "kernel_end_page kernel_end = (kernel_end - 0xC0000000 + 0xfff) AND NOT 0xfff"

definition i686_init_memory :: "u32 \<Rightarrow> u32 list \<Rightarrow> kernslice \<Rightarrow> kernslice" where
  "i686_init_memory kernel_end memdata ks =
     (let endkernel = kernel_end_page kernel_end;
          ks = ks\<lparr>ks_kernslice_id := 0\<rparr>
      in if memdata ! 0 AND 1 \<noteq> 0 then
           let low = \<lparr>pm_begin = 0, pm_end = push_bit 10 (memdata ! 1) AND NOT 0xfff\<rparr>;
               high = \<lparr>pm_begin = (if endkernel > 0x100000 then endkernel else 0xC00000),
                       pm_end = (push_bit 10 (memdata ! 2) + 0x100000) AND NOT 0xfff\<rparr>
           in ks\<lparr>ks_memory_ranges := [low, high], ks_num_memory_ranges := 2\<rparr>
         else ks)"

text \<open>The slice before the call: its table of ranges is the static array of two, all zero.\<close>

definition slice_static :: kernslice where
  "slice_static = \<lparr>ks_kernslice_id = 0, ks_memory_ranges = replicate 2 \<lparr>pm_begin = 0, pm_end = 0\<rparr>, ks_num_memory_ranges = 0\<rparr>"

definition kern_initmem :: "kernslice \<Rightarrow> phys_state \<Rightarrow> phys_state res" where
  "kern_initmem kern st =
     rbind (vm_phys_bm_bootinit (ks_memory_ranges kern) (ks_num_memory_ranges kern) st) (\<lambda>(_, _, st). Inr st)"

section \<open>Descriptors read back\<close>

lemma ucast_field: "ucast (ucast (w :: u32) :: 'a::len word) = take_bit LENGTH('a) w"
  by (rule bit_eqI) (auto simp: bit_simps)

lemma split_base:
  "push_bit 24 (ucast (ucast (drop_bit 24 b) :: u8)) OR push_bit 16 (ucast (ucast (drop_bit 16 b AND 0xff) :: u8)) OR
     ucast (ucast (b AND 0xffff) :: u16) = (b :: u32)"
proof -
  have m: "(0xff :: u32) = mask 8" "(0xffff :: u32) = mask 16" by (simp_all add: mask_eq_exp_minus_1)
  show ?thesis unfolding m
  proof (rule bit_eqI)
    fix n
    assume "possible_bit TYPE(u32) n"
    then have "n < 32" by simp
    then show "bit (push_bit 24 (ucast (ucast (drop_bit 24 b) :: u8)) OR push_bit 16 (ucast (ucast (drop_bit 16 b AND mask 8) :: u8)) OR
        ucast (ucast (b AND mask 16) :: u16) :: u32) n = bit b n"
      by (cases "24 \<le> n") (auto simp: bit_simps ucast_field)
  qed
qed

lemma desc_base_SEG [simp]: "desc_base (SEG t b l d) = b" "desc_base (SEG16 t b l d) = b"
  unfolding desc_base_def SEG_def SEG16_def by (simp_all add: split_base)

lemma desc_limit_SEG: "desc_limit (SEG t b l d) = l OR 0xFFF"
proof -
  have m: "(0xfff :: u32) = mask 12" "(0xffff :: u32) = mask 16" by (simp_all add: mask_eq_exp_minus_1)
  show ?thesis unfolding m
  proof (rule bit_eqI)
    fix n
    assume "possible_bit TYPE(u32) n"
    then have "n < 32" by simp
    then show "bit (desc_limit (SEG t b l d)) n = bit (l OR mask 12) n" unfolding desc_limit_def SEG_def Let_def m
      by (cases "28 \<le> n") (auto simp: bit_simps ucast_field)
  qed
qed

lemma desc_limit_SEG16: "desc_limit (SEG16 t b l d) = take_bit 20 l"
proof -
  have m: "(0xffff :: u32) = mask 16" by (simp add: mask_eq_exp_minus_1)
  show ?thesis unfolding desc_limit_def SEG16_def Let_def m by (rule bit_eqI) (auto simp: bit_simps ucast_field)
qed

lemma gate_offset_SETGATE [simp]: "gate_offset (SETGATE tr sel f d) = f"
proof -
  have m: "(0xffff :: u32) = mask 16" by (simp add: mask_eq_exp_minus_1)
  show ?thesis unfolding gate_offset_def SETGATE_def m by (rule bit_eqI) (auto simp: bit_simps ucast_field)
qed

section \<open>The tables after the start\<close>

lemma setup_idt_loop_nth:
  "i + n \<le> length idt \<Longrightarrow> j < length idt \<Longrightarrow>
   setup_idt_loop n i vectors idt ! j =
     (if i \<le> j \<and> j < i + n then SETGATE False (of_nat (SEG_KCODE * 8)) (vectors ! j) 0 else idt ! j)"
  by (induction n arbitrary: i idt) (auto simp: nth_list_update)

lemma mask_bits: "bit (irqmask p AND NOT (push_bit irq 1) :: u16) n \<longleftrightarrow> bit (irqmask p) n \<and> n \<noteq> irq"
  using bit_imp_le_length [of "irqmask p" n] by (auto simp: bit_simps)

text \<open>The last value written to a port.\<close>

definition port_value :: "pic \<Rightarrow> u16 \<Rightarrow> u8 option" where
  "port_value p port = map_of (rev (ports p)) port"

lemma port_value_outb [simp]: "port_value (outb a d p) b = (if a = b then Some d else port_value p b)"
  by (simp add: port_value_def outb_def)

lemma irqmask_outb [simp]: "irqmask (outb a d p) = irqmask p"
  by (simp add: outb_def)

text \<open>All values written to a port, in order.\<close>

definition port_log :: "pic \<Rightarrow> u16 \<Rightarrow> u8 list" where
  "port_log p port = map snd (filter (\<lambda>w. fst w = port) (ports p))"

lemma port_log_outb [simp]: "port_log (outb a d p) b = (if a = b then port_log p b @ [d] else port_log p b)"
  "port_log (p\<lparr>irqmask := m\<rparr>) b = port_log p b"
  by (simp_all add: port_log_def outb_def)

text \<open>The data ports of the two controllers hold the interrupt mask.\<close>

definition pic_synced :: "pic \<Rightarrow> bool" where
  "pic_synced p \<longleftrightarrow> port_value p 0x21 = Some (ucast (irqmask p)) \<and> port_value p 0xA1 = Some (ucast (drop_bit 8 (irqmask p)))"

lemma port_value_cong [simp]: "port_value (p\<lparr>irqmask := m\<rparr>) port = port_value p port"
  by (simp add: port_value_def)

lemma picsetmask_synced [simp]: "pic_synced (picsetmask m p)" "irqmask (picsetmask m p) = m"
  by (simp_all add: pic_synced_def picsetmask_def IO_PIC1_def IO_PIC2_def)

lemma picsetmask_port: "port \<noteq> 0x21 \<Longrightarrow> port \<noteq> 0xA1 \<Longrightarrow> port_value (picsetmask m p) port = port_value p port"
  by (simp add: picsetmask_def IO_PIC1_def IO_PIC2_def)

section \<open>Properties\<close>

text \<open>The segment and gate descriptors, whose fields are scattered over their bits, read back as
  they were given: the base of a segment, its limit rounded up to the end of a 4096-byte unit, the
  limit in bytes of a segment without granularity (below one megabyte), and the offset of a gate.\<close>

theorem descriptors_roundtrip:
  "desc_base (SEG t b l d) = b \<and> desc_limit (SEG t b l d) = l OR 0xFFF \<and>
   desc_base (SEG16 t b l d) = b \<and> desc_limit (SEG16 t b l d) = take_bit 20 l \<and>
   gate_offset (SETGATE tr sel f dp) = f \<and> gate_cs (SETGATE tr sel f dp) = sel"
  by (simp add: desc_limit_SEG desc_limit_SEG16) (simp add: SETGATE_def)

text \<open>C29. The descriptor tables after the start: kernel code and data span the whole address space
  at privilege 0, user code and data at privilege 3, the task segment is the system segment of the
  task state, the per-CPU segment starts at the CPU's private words, and every one of the 256
  interrupt gates enters the kernel code segment at its vector, from privilege 0 only.\<close>

theorem descriptor_tables_established:
  assumes "length gdt = NSEGS" and "length idt = 256"
  shows "let g = fst (hal_initcpu ga ta la gdt regs); t = fst (i686_setup_idt ia vectors idt regs) in
    desc_base (g ! 1) = 0 \<and> desc_limit (g ! 1) = 0xFFFFFFFF \<and> seg_dpl (g ! 1) = 0 \<and>
    desc_base (g ! 2) = 0 \<and> desc_limit (g ! 2) = 0xFFFFFFFF \<and> seg_dpl (g ! 2) = 0 \<and>
    seg_dpl (g ! 4) = 3 \<and> seg_dpl (g ! 5) = 3 \<and>
    desc_base (g ! 6) = ta \<and> desc_limit (g ! 6) = 103 \<and> seg_s (g ! 6) = 0 \<and>
    desc_base (g ! 3) = la \<and>
    (\<forall>i<256. gate_offset (t ! i) = vectors ! i \<and> gate_cs (t ! i) = 8 \<and> gate_dpl (t ! i) = 0 \<and> gate_type (t ! i) = STS_IG32)"
proof -
  have i: "fst (i686_setup_idt ia vectors idt regs) ! i = SETGATE False 8 (vectors ! i) 0" if "i < 256" for i
    using that assms(2) setup_idt_loop_nth [of 0 256 idt i vectors] by (simp add: i686_setup_idt_def SEG_KCODE_def)
  let ?g = "fst (hal_initcpu ga ta la gdt regs)"
  have g: "?g ! 1 = SEG (STA_X OR STA_R) 0 0xffffffff 0" "?g ! 2 = SEG STA_W 0 0xffffffff 0"
    "?g ! 4 = SEG (STA_X OR STA_R) 0 0xffffffff DPL_USER" "?g ! 5 = SEG STA_W 0 0xffffffff DPL_USER"
    "?g ! 6 = (SEG16 STS_T32A ta 103 0)\<lparr>seg_s := 0\<rparr>" "?g ! 3 = SEG STA_W la 12 0"
    using assms(1)
    by (simp_all add: hal_initcpu_def Let_def NSEGS_def SEG_KCODE_def SEG_KDATA_def SEG_KCPU_def SEG_UCODE_def SEG_UDATA_def SEG_TSS_def)
  have d: "desc_base (x\<lparr>seg_s := v\<rparr>) = desc_base x" "desc_limit (x\<lparr>seg_s := v\<rparr>) = desc_limit x" for x v
    by (simp_all add: desc_base_def desc_limit_def)
  have dpl: "seg_dpl (SEG a b c e) = ucast e" for a b c e by (simp add: SEG_def)
  have f: "desc_limit (SEG a b 0xFFFFFFFF e) = 0xFFFFFFFF" "desc_limit (SEG16 a b 103 e) = 103" for a b e
    by (simp_all add: desc_limit_SEG desc_limit_SEG16)
  show ?thesis unfolding Let_def g using i by (simp add: d dpl f DPL_USER_def) (simp add: SETGATE_def)
qed

theorem descriptor_tables_established_witness:
  "gate_offset (fst (i686_setup_idt 0 (replicate 256 0xC0101234) (replicate 256 (SETGATE True 0 0 0)) \<lparr>gdtr = [], idtr = [], reg_gs = 0\<rparr>) ! 32) = 0xC0101234"
  using descriptor_tables_established [of "replicate 7 (SEG 0 0 0 0)" "replicate 256 (SETGATE True 0 0 0)" 0 0 0
      "\<lparr>gdtr = [], idtr = [], reg_gs = 0\<rparr>" 0 "replicate 256 0xC0101234"]
  by (simp add: NSEGS_def Let_def)

text \<open>The interrupt controllers after the start. Initialising them and the timer from the static
  state leaves exactly the timer's line and the slave's line enabled, the mask written to both
  controllers is the one the kernel keeps, the timer's counter is loaded with the divisor for 50
  interrupts a second, and enabling a line later clears its bit and no other and keeps the
  controllers in step with the mask.\<close>

theorem pic_start:
  "let p = i686_timerinit (i686_picinit pic_static) in
     pic_synced p \<and> irqmask p = 0xFFFA \<and> port_value p TIMER_MODE = Some 0x34 \<and>
     port_log p IO_TIMER1 = [56, 93] \<and> 56 + 256 * 93 = TIMER_DIV 50 \<and>
     (\<forall>irq n. pic_synced (picenable irq p) \<and> (bit (irqmask (picenable irq p)) n \<longleftrightarrow> bit (irqmask p) n \<and> n \<noteq> irq))"
proof -
  let ?p = "i686_timerinit (i686_picinit pic_static)"
  have m: "irqmask (i686_picinit pic_static) = 0xFFFB"
    by (simp add: i686_picinit_def Let_def pic_static_def IRQ_SLAVE_def)
  then have k: "irqmask ?p = 0xFFFA" by (simp add: i686_timerinit_def Let_def picenable_def IRQ_TIMER_def)
  have s: "pic_synced ?p" by (simp add: i686_timerinit_def Let_def picenable_def)
  have t: "port_value ?p TIMER_MODE = Some 0x34"
    by (simp add: i686_timerinit_def Let_def picenable_def picsetmask_port TIMER_MODE_def IO_TIMER1_def TIMER_SEL0_def
        TIMER_RATEGEN_def TIMER_16BIT_def)
  have st: "port_log pic_static q = []" for q by (simp add: port_log_def pic_static_def)
  have i: "port_log (i686_picinit pic_static) IO_TIMER1 = []"
    by (simp add: i686_picinit_def Let_def picsetmask_def IO_TIMER1_def IO_PIC1_def IO_PIC2_def st)
  have div: "TIMER_DIV 50 = 23864" by (simp add: TIMER_DIV_def TIMER_FREQ_def)
  have "port_log ?p IO_TIMER1 = [56, 93]"
    unfolding i686_timerinit_def Let_def picenable_def picsetmask_def using i
    by (simp add: div IO_TIMER1_def TIMER_MODE_def IO_PIC1_def IO_PIC2_def)
  moreover have "pic_synced (picenable irq p) \<and> (bit (irqmask (picenable irq p)) n \<longleftrightarrow> bit (irqmask p) n \<and> n \<noteq> irq)" for irq p n
    unfolding picenable_def by (simp only: picsetmask_synced mask_bits)
  moreover have "56 + 256 * 93 = TIMER_DIV 50" using div by simp
  ultimately show ?thesis unfolding Let_def using k s t by blast
qed

text \<open>Interrupts are acknowledged on both controllers: \<^verbatim>\<open>__i686_piceoi\<close> takes the number of
  an interrupt line, but the handler passes the trap number, which is 32 more. So for every
  hardware interrupt, of the master's lines too, the slave gets an end-of-interrupt command; only the
  timer's trap leads to a switch.\<close>

theorem interrupt_acknowledges_both:
  assumes "32 \<le> sint trapno"
  shows "port_log (fst (snd (i686_interrupt lapic trapno (p, log)))) IO_PIC2 = port_log p IO_PIC2 @ [PIC_EOI] \<and>
    port_log (fst (snd (i686_interrupt lapic trapno (p, log)))) IO_PIC1 = port_log p IO_PIC1 @ [PIC_EOI] \<and>
    (fst (i686_interrupt lapic trapno (p, log)) \<longleftrightarrow> trapno = 32)"
  using assms by (simp add: i686_interrupt_def i686_piceoi_def Let_def IO_PIC1_def IO_PIC2_def T_IRQ0_def IRQ_TIMER_def)

text \<open>The local APIC: once the delivery status clears, the initialisation ends with the task priority
  register written last; it never returns while the status stays set.\<close>

lemma lapic_poll_ends: "k \<le> n \<Longrightarrow> icr n AND LAPIC_DELIVS = 0 \<Longrightarrow> \<exists>j. lapic_poll icr k = Some j"
proof (induction "n - k" arbitrary: k)
  case 0
  then show ?case by (subst lapic_poll.simps) simp
next
  case (Suc d)
  then show ?case by (subst lapic_poll.simps) simp
qed

lemma lapicinit_ends:
  assumes "icr n AND LAPIC_DELIVS = 0" and "lapic \<noteq> 0"
  shows "\<exists>log'. i686_lapicinit lapic ver icr log = Inr log' \<and> last log' = (LAPIC_TPR, 0) \<and> take (length log) log' = log"
  using lapic_poll_ends [of 0 n icr] assms by (auto simp: i686_lapicinit_def Let_def lapicw_def)

lemma unat_kib: "unat w < 4194304 \<Longrightarrow> unat (push_bit 10 w :: u32) = unat w * 1024"
  by (simp add: push_bit_eq_mult unat_word_ariths)

lemma kernel_end_page_bounds:
  assumes "0xC0100000 < unat kernel_end" and "unat kernel_end \<le> 0xFFFFF000"
  shows "unat kernel_end - 0xC0000000 \<le> unat (kernel_end_page kernel_end)"
    and "unat (kernel_end_page kernel_end) < unat kernel_end - 0xC0000000 + 4096"
    and "unat (kernel_end_page kernel_end) mod 4096 = 0"
proof -
  have "unat (kernel_end - 0xC0000000) = unat kernel_end - 0xC0000000"
    using assms by (subst unat_sub_u32) (auto simp: word_le_nat_alt)
  then have "unat (kernel_end - 0xC0000000 + 0xfff) = unat kernel_end - 0xC0000000 + 4095"
    using assms by (subst unat_add_u32) auto
  then have e: "unat (kernel_end_page kernel_end) = (unat kernel_end - 0xC0000000 + 4095) div 4096 * 4096"
    unfolding kernel_end_page_def unat_round_down by simp
  show "unat kernel_end - 0xC0000000 \<le> unat (kernel_end_page kernel_end)" unfolding e by linarith
  show "unat (kernel_end_page kernel_end) < unat kernel_end - 0xC0000000 + 4096" unfolding e by linarith
  show "unat (kernel_end_page kernel_end) mod 4096 = 0" unfolding e by simp
qed

text \<open>What the boot loader has to report: at most one megabyte of low memory, less than four gigabytes
  in all, and at least two pages of upper memory behind the kernel.\<close>

definition boot_info_ok :: "u32 \<Rightarrow> u32 list \<Rightarrow> bool" where
  "boot_info_ok kernel_end memdata \<longleftrightarrow>
     memdata ! 0 AND 1 \<noteq> 0 \<and> unat (memdata ! 1) \<le> 1024 \<and> unat (memdata ! 2) < 4193280 \<and>
     0xC0100000 < unat kernel_end \<and> unat kernel_end \<le> 0xFFFFF000 \<and>
     unat kernel_end - 0xC0000000 + 8192 \<le> 0x100000 + unat (memdata ! 2) * 1024"

definition boot_low :: "u32 list \<Rightarrow> physmem_range" where
  "boot_low memdata = \<lparr>pm_begin = 0, pm_end = push_bit 10 (memdata ! 1) AND NOT 0xfff\<rparr>"

definition boot_high :: "u32 \<Rightarrow> u32 list \<Rightarrow> physmem_range" where
  "boot_high kernel_end memdata =
     \<lparr>pm_begin = kernel_end_page kernel_end, pm_end = (push_bit 10 (memdata ! 2) + 0x100000) AND NOT 0xfff\<rparr>"

lemma boot_ranges:
  assumes "boot_info_ok kernel_end memdata"
  shows "i686_init_memory kernel_end memdata slice_static =
      \<lparr>ks_kernslice_id = 0, ks_memory_ranges = [boot_low memdata, boot_high kernel_end memdata], ks_num_memory_ranges = 2\<rparr>"
    and "ranges_ok [boot_low memdata, boot_high kernel_end memdata]"
    and "unat (pm_end (boot_low memdata)) = unat (memdata ! 1) * 1024 div 4096 * 4096"
    and "unat (pm_end (boot_high kernel_end memdata)) = (unat (memdata ! 2) * 1024 + 0x100000) div 4096 * 4096"
proof -
  let ?ke = "kernel_end_page kernel_end" and ?low = "boot_low memdata" and ?high = "boot_high kernel_end memdata"
  have a: "memdata ! 0 AND 1 \<noteq> 0" "unat (memdata ! 1) \<le> 1024" "unat (memdata ! 2) < 4193280"
    "0xC0100000 < unat kernel_end" "unat kernel_end \<le> 0xFFFFF000"
    "unat kernel_end - 0xC0000000 + 8192 \<le> 0x100000 + unat (memdata ! 2) * 1024"
    using assms unfolding boot_info_ok_def by blast+
  note ke = kernel_end_page_bounds [OF a(4,5)]
  have gt: "?ke > 0x100000" using ke(1) a(4) by (simp add: word_less_nat_alt)
  then show "i686_init_memory kernel_end memdata slice_static =
      \<lparr>ks_kernslice_id = 0, ks_memory_ranges = [?low, ?high], ks_num_memory_ranges = 2\<rparr>"
    using a(1) by (simp add: i686_init_memory_def slice_static_def Let_def boot_low_def boot_high_def)
  show lo: "unat (pm_end ?low) = unat (memdata ! 1) * 1024 div 4096 * 4096"
    using a(2) unat_round_down [of "push_bit 10 (memdata ! 1)"] by (simp add: boot_low_def unat_kib)
  have "unat (push_bit 10 (memdata ! 2) + 0x100000) = unat (memdata ! 2) * 1024 + 0x100000"
    using a(3) by (subst unat_add_u32) (simp_all add: unat_kib)
  then show hi: "unat (pm_end ?high) = (unat (memdata ! 2) * 1024 + 0x100000) div 4096 * 4096"
    using unat_round_down [of "push_bit 10 (memdata ! 2) + 0x100000"] by (simp add: boot_high_def)
  have "unat (pm_end ?low) \<le> unat ?ke" using lo a(2,4) ke(1) by linarith
  moreover have "unat ?ke \<le> unat (pm_end ?high)" using hi a(6) ke(2) by linarith
  moreover have "pm_begin ?low = 0" "pm_begin ?high = ?ke" by (simp_all add: boot_low_def boot_high_def)
  ultimately show "ranges_ok [?low, ?high]"
    unfolding ranges_ok_def by (auto simp: less_Suc_eq range_apart_def word_le_nat_alt)
qed

lemma boot_pool_page:
  assumes "boot_info_ok kernel_end memdata" and "phys_inv st" and "uses_ranges [boot_low memdata, boot_high kernel_end memdata] st"
    and "p \<in> page_pool st"
  shows "unat p mod 4096 = 0 \<and>
    (unat p + 4096 \<le> unat (memdata ! 1) * 1024 \<or>
     unat kernel_end - 0xC0000000 \<le> unat p \<and> unat p + 4096 \<le> 0x100000 + unat (memdata ! 2) * 1024)"
proof -
  let ?low = "boot_low memdata" and ?high = "boot_high kernel_end memdata"
  have "0xC0100000 < unat kernel_end" "unat kernel_end \<le> 0xFFFFF000" using assms(1) by (simp_all add: boot_info_ok_def)
  note ke = kernel_end_page_bounds [OF this]
  note ends = boot_ranges(3,4) [OF assms(1)]
  obtain r b where r: "r = ?low \<or> r = ?high" "unat p = unat (pm_begin r) + 4096 * b" "unat p + 4096 \<le> unat (pm_end r)"
    using pool_in_ranges [OF assms(2-4)] unfolding list.set by blast
  from r(1) show ?thesis
  proof
    assume l: "r = ?low"
    have "unat p + 4096 \<le> unat (memdata ! 1) * 1024" using r(3) ends(1) unfolding l by linarith
    moreover have "unat p mod 4096 = 0" using r(2) l by (simp add: boot_low_def)
    ultimately show ?thesis by blast
  next
    assume h: "r = ?high"
    have "unat p + 4096 \<le> 0x100000 + unat (memdata ! 2) * 1024" using r(3) ends(2) unfolding h by linarith
    moreover have "unat kernel_end - 0xC0000000 \<le> unat p" "unat p mod 4096 = 0"
      using r(2) ke(1,3) h by (simp_all add: boot_high_def)
    ultimately show ?thesis by blast
  qed
qed

text \<open>C6. The page allocator after the start. When the boot loader reports the memory as it should, the
  ranges of \<^verbatim>\<open>_i686_init\<close> suit the allocator: \<^verbatim>\<open>kern_initmem\<close> establishes its invariant
  with no page allocated, and every page of its pool is aligned, lies in the reported low memory or in
  the reported upper memory, and in the latter case behind the kernel's image.\<close>

theorem boot_memory_ready:
  assumes "boot_info_ok kernel_end memdata"
  shows "\<exists>st. kern_initmem (i686_init_memory kernel_end memdata slice_static) phys_static = Inr st \<and>
    phys_inv st \<and> allocated st = {} \<and>
    (\<forall>p\<in>page_pool st. unat p mod 4096 = 0 \<and>
       (unat p + 4096 \<le> unat (memdata ! 1) * 1024 \<or>
        unat kernel_end - 0xC0000000 \<le> unat p \<and> unat p + 4096 \<le> 0x100000 + unat (memdata ! 2) * 1024))"
proof -
  obtain ret pt st where st: "vm_phys_bm_bootinit [boot_low memdata, boot_high kernel_end memdata] 2 phys_static = Inr (ret, pt, st)"
    "phys_inv st" "allocated st = {}" "uses_ranges [boot_low memdata, boot_high kernel_end memdata] st"
    using bootinit_ok [OF boot_ranges(2) [OF assms], of 2 phys_static] by (auto simp: phys_static_def)
  then show ?thesis using boot_ranges(1) [OF assms] boot_pool_page [OF assms st(2,4)] by (simp add: kern_initmem_def)
qed

theorem boot_memory_ready_witness:
  "\<exists>st. kern_initmem (i686_init_memory 0xC0142000 [1, 640, 129920] slice_static) phys_static = Inr st \<and> phys_inv st \<and> allocated st = {}"
proof -
  have "boot_info_ok 0xC0142000 [1, 640, 129920]" by (simp add: boot_info_ok_def)
  from boot_memory_ready [OF this] show ?thesis by blast
qed

text \<open>With up to 500000 KB of upper memory the bitmap block is large enough, and the pool is complete.\<close>

lemma boot_memory_complete:
  assumes "boot_info_ok kernel_end memdata" and "unat (memdata ! 2) \<le> 500000"
    and "unat kernel_end - 0xC0000000 + 4096 * (n + 2) \<le> 0x100000 + unat (memdata ! 2) * 1024"
  obtains st where "kern_initmem (i686_init_memory kernel_end memdata slice_static) phys_static = Inr st"
    "phys_inv st" "allocated st = {}" "uses_ranges [boot_low memdata, boot_high kernel_end memdata] st" "n \<le> card (page_pool st)"
    "0 \<in> page_pool st \<longrightarrow> (\<exists>st'. vm_phys_alloc st = Inr (Some 0, st'))"
proof -
  let ?low = "boot_low memdata" and ?high = "boot_high kernel_end memdata"
  have b: "unat (memdata ! 1) \<le> 1024" "0xC0100000 < unat kernel_end" "unat kernel_end \<le> 0xFFFFF000"
    using assms(1) by (simp_all add: boot_info_ok_def)
  note ke = kernel_end_page_bounds [OF b(2,3)] and br = boot_ranges [OF assms(1)]
  have "range_pages ?low \<le> 256" using br(3) b(1) unfolding range_pages_def by (simp add: boot_low_def)
  moreover have hp: "range_pages ?high \<le> 125256" "n \<le> range_pages ?high"
    using br(4) ke(1,2) b(2) assms(2,3) unfolding range_pages_def by (simp_all add: boot_high_def)
  ultimately have "bitmap_words [?low, ?high] < UNUMBER" by (simp add: bitmap_words_def UNUMBER_def)
  moreover have two: "length [?low, ?high] = 2" "unat (2 :: u32) = length [?low, ?high]" by simp_all
  moreover have "length (prealloc_pbma phys_static) = NNUMBER" "length (prealloc_pbma_ptr phys_static) = NNUMBER" "2 \<le> NNUMBER"
    by (simp_all add: phys_static_def NNUMBER_def)
  ultimately obtain st where st: "vm_phys_bm_bootinit [?low, ?high] 2 phys_static = Inr (0, None, st)" "phys_inv st" "allocated st = {}"
    "uses_ranges [?low, ?high] st" "unat (pmb_n_maps st) = 2" "covers [?low, ?high] 2 st"
    using bootinit_fits [OF br(2), of 2 phys_static] unfolding two(1) by metis
  have "n \<le> card (page_pool st)" using card_pool [OF st(2), of 1] st(5,6) hp(2) by (simp add: covers_def)
  moreover have "\<exists>st'. vm_phys_alloc st = Inr (Some 0, st')" if z: "0 \<in> page_pool st"
  proof -
    have "unat (0 :: u32) + 4096 \<le> unat (memdata ! 1) * 1024" using boot_pool_page [OF assms(1) st(2,4) z] b(2) by auto
    then have "0 < range_pages ?low" using br(3) unfolding range_pages_def by (simp add: boot_low_def)
    then have "(0, 0) \<in> slots st" using st(5,6) by (auto simp: slots_def covers_def)
    moreover have "slot_page st (0, 0) = 0" using st(6) by (simp add: slot_page_def page_of_def covers_def MUL_PAGESIZE_def boot_low_def)
    ultimately show ?thesis using first_page [OF st(2,3)] by auto
  qed
  ultimately show thesis using that [of st] st br(1) by (simp add: kern_initmem_def)
qed

end
