(* ===== verification/Kernel_Main.thy ===== *)
theory Kernel_Main
  imports Kernel_Core Sched I686_Boot
begin

text \<open>
  The boot of the kernel as one run: \<open>kern/init_main.c\<close>, \<open>kern/port_alive.c\<close>,
  \<open>platform/i686-pc/caps.c\<close> with \<open>include/sysplatform/caps.h\<close>, and \<^verbatim>\<open>_i686_init\<close> and
  \<^verbatim>\<open>_i686_boot_main\<close> of \<open>arch/i686/kerninit.c\<close>.

  \<open>image\<close> is what linker and boot loader provide: the addresses of static objects, the trap vectors,
  the end of the kernel's image and the multiboot data. \<open>kernel\<close> is the state of the
  kernel: the slice of the only CPU with its page allocator (\<open>k_bmas\<close> is the pointer
  \<^verbatim>\<open>ks_memory_allocator\<close>), the memory with stacks, zones, regions, page tables and
  terminal, and the threads and schedulers. A run that reaches \<^verbatim>\<open>arch_halt\<close> is
  \<open>Halted\<close> in the state it has there; a panic is a fault, as everywhere.
\<close>

section \<open>State\<close>

record image =
  at_cpu :: u32
  at_slice :: u32
  at_memrange :: u32
  at_bmas :: u32
  at_maps :: u32
  at_zone_zone :: u32
  at_szz_buf :: u32
  at_page_dir :: u32
  at_gdt :: u32
  at_tss :: u32
  at_idt :: u32
  at_cpu_local :: u32
  i686_vectors :: "u32 list"
  kernel_end :: u32
  multiboot_memdata :: "u32 list"

record kernel =
  k_slice :: kernslice
  k_bmas :: u32
  k_mem :: "vm_state zstate stacks_state"
  k_world :: world
  k_cpu_stack :: u32
  k_thread_zone :: u32
  k_sched_zone :: u32
  k_interrupts :: bool

abbreviation kernel_vm :: "kernel \<Rightarrow> vm_state" where
  "kernel_vm k \<equiv> zvm (vmst (k_mem k))"

definition upd_vm :: "(vm_state \<Rightarrow> vm_state) \<Rightarrow> kernel \<Rightarrow> kernel" where
  "upd_vm f k = k\<lparr>k_mem := (k_mem k)\<lparr>vmst := (vmst (k_mem k))\<lparr>zvm := f (kernel_vm k)\<rparr>\<rparr>\<rparr>"

text \<open>\<^verbatim>\<open>printf\<close> and \<^verbatim>\<open>printinfo\<close> on the kernel's terminal.\<close>

definition kern_message :: "u8 list \<Rightarrow> u32 list \<Rightarrow> kernel \<Rightarrow> kernel res" where
  "kern_message fmt args k = rbind (vm_message fmt args (kernel_vm k)) (\<lambda>s. Inr (upd_vm (\<lambda>_. s) k))"

definition kern_info :: "u8 list \<Rightarrow> u32 list \<Rightarrow> kernel \<Rightarrow> kernel res" where
  "kern_info fmt args k =
     rbind (printinfo (vm_term (kernel_vm k)) (vm_numbuf (kernel_vm k)) fmt args) (\<lambda>kt.
     Inr (upd_vm (\<lambda>s. s\<lparr>vm_term := kt\<rparr>) k))"

section \<open>The capabilities of the port (caps.h, caps.c)\<close>

definition platform_ALIVE :: int where "platform_ALIVE = 0"
definition platform_HIGHER_HALF :: int where "platform_HIGHER_HALF = 1"
definition platform_CPU_PTR :: int where "platform_CPU_PTR = 2"
definition platform_MMU :: int where "platform_MMU = 3"
definition platform_INTERRUPTS :: int where "platform_INTERRUPTS = 4"

definition platform_get_cap_stage :: int where
  "platform_get_cap_stage = platform_INTERRUPTS"

lemmas platform_stages = platform_ALIVE_def platform_HIGHER_HALF_def platform_CPU_PTR_def platform_MMU_def
  platform_INTERRUPTS_def

section \<open>Signs of life (port_alive.c)\<close>

text \<open>The loop over the memory ranges. \<open>i\<close> counts through the indices below
  \<^verbatim>\<open>prangen\<close>; an index behind the table is \<open>Bad_Access\<close>.\<close>

fun alive_ranges :: "physmem_range list \<Rightarrow> nat list \<Rightarrow> kernel \<Rightarrow> kernel res" where
  "alive_ranges prange [] k = Inr k"
| "alive_ranges prange (i # is) k =
     (if i < length prange then
        rbind (kern_info ([9] @ bytes ''prange[~u].pm_begin = 0x~H'' @ [10]) [of_nat i, pm_begin (prange ! i)] k) (\<lambda>k.
        rbind (kern_info ([9] @ bytes ''prange[~u].pm_end   = 0x~H'' @ [10]) [of_nat i, pm_end (prange ! i)] k) (\<lambda>k.
        alive_ranges prange is k))
      else Inl Bad_Access)"

text \<open>\<open>cpu\<close> is what \<^verbatim>\<open>kernel_get_current_cpu\<close> returns: null, or the address of the only
  \<^verbatim>\<open>struct cpu\<close>, whose slice is the only \<^verbatim>\<open>struct kernslice\<close>.\<close>

definition kern_prove_alive :: "image \<Rightarrow> u32 \<Rightarrow> kernel \<Rightarrow> kernel run res" where
  "kern_prove_alive im cpu k =
     (let kern = (if cpu \<noteq> 0 then at_slice im else 0);
          prange = (if kern \<noteq> 0 then at_memrange im else 0);
          prangen = (if kern \<noteq> 0 then ks_num_memory_ranges (k_slice k) else 0)
      in
      rbind (kern_message (bytes ''Test <( %i )>'' @ [10]) [99] k) (\<lambda>k.
      rbind (kern_message (bytes ''cpu = %p'' @ [10]) [cpu] k) (\<lambda>k.
      rbind (kern_message (bytes ''kern = %p'' @ [10]) [kern] k) (\<lambda>k.
      rbind (kern_message (bytes ''prange = %p'' @ [10]) [prange] k) (\<lambda>k.
      rbind (kern_message (bytes ''prangen = %u'' @ [10]) [prangen] k) (\<lambda>k.
      rbind (alive_ranges (ks_memory_ranges (k_slice k)) [0..<unat prangen] k) (\<lambda>k.
      Inr (arch_halt k))))))))"

fun printmem_maps :: "nat list \<Rightarrow> kernel \<Rightarrow> kernel res" where
  "printmem_maps [] k = Inr k"
| "printmem_maps (i # is) k =
     (let p = vm_phys (kernel_vm k) in
      rbind (require (i < length (prealloc_pbma_ptr p)) Bad_Access) (\<lambda>_.
      rbind (deref (prealloc_pbma_ptr p ! i)) (\<lambda>j.
      rbind (require (j < length (prealloc_pbma p)) Bad_Access) (\<lambda>_.
      rbind (kern_message (bytes ''bmas->pmb_maps[%d] = %d'' @ [10]) [of_nat i, pmb_length (prealloc_pbma p ! j)] k) (\<lambda>k.
      printmem_maps is k)))))"

definition kern_printmem :: "image \<Rightarrow> kernel \<Rightarrow> kernel res" where
  "kern_printmem im k =
     (let bmas = k_bmas k in
      rbind (kern_message (bytes ''bmas = %p'' @ [10]) [bmas] k) (\<lambda>k.
      if bmas \<noteq> 0 then
        rbind (kern_message (bytes ''bmas->pmb_maps = %p'' @ [10]) [at_maps im] k) (\<lambda>k.
        rbind (kern_message (bytes ''bmas->pmb_n_maps = %u'' @ [10]) [pmb_n_maps (vm_phys (kernel_vm k))] k) (\<lambda>k.
        printmem_maps [0..<unat (pmb_n_maps (vm_phys (kernel_vm k)))] k))
      else Inr k))"

section \<open>Initialisation (init_main.c)\<close>

definition boot_stacks :: "kernel \<Rightarrow> kernel" where
  "boot_stacks k = k\<lparr>k_mem := kernel_stacks_init (k_mem k)\<rparr>"

definition boot_term :: "kernel \<Rightarrow> kernel" where
  "boot_term k = upd_vm (\<lambda>s. s\<lparr>vm_term := kterm_init (vm_term s)\<rparr>) k"

definition boot_initmem :: "image \<Rightarrow> kernel \<Rightarrow> kernel res" where
  "boot_initmem im k =
     rbind (kern_initmem (k_slice k) (vm_phys (kernel_vm k))) (\<lambda>p.
     Inr ((upd_vm (\<lambda>s. s\<lparr>vm_phys := p\<rparr>) k)\<lparr>k_bmas := at_bmas im\<rparr>))"

definition boot_vm :: "image \<Rightarrow> kernel \<Rightarrow> kernel res" where
  "boot_vm im k =
     rbind (vm_init (at_zone_zone im) (at_szz_buf im) (at_page_dir im) (vmst (k_mem k))) (\<lambda>m.
     Inr (k\<lparr>k_mem := (k_mem k)\<lparr>vmst := m\<rparr>\<rparr>))"

definition boot_cpu_stack :: "kernel \<Rightarrow> kernel res" where
  "boot_cpu_stack k =
     rbind (kernel_cpu_init_stack zkalloc (k_mem k)) (\<lambda>(sp, m). Inr (k\<lparr>k_mem := m, k_cpu_stack := sp\<rparr>))"

definition boot_thread_init :: "kernel \<Rightarrow> kernel res" where
  "boot_thread_init k =
     rbind (thread_init (vmst (k_mem k))) (\<lambda>(z, m). Inr (k\<lparr>k_thread_zone := z, k_mem := (k_mem k)\<lparr>vmst := m\<rparr>\<rparr>))"

definition boot_thread_allocate :: "kernel \<Rightarrow> (nat option \<times> kernel) res" where
  "boot_thread_allocate k =
     rbind (thread_allocate (thread_zalloc (k_thread_zone k)) thread_zfree zkalloc (k_mem k) (k_world k)) (\<lambda>(t, m, w).
     Inr (t, k\<lparr>k_mem := m, k_world := w\<rparr>))"

definition boot_set_current :: "nat option \<Rightarrow> kernel \<Rightarrow> kernel res" where
  "boot_set_current thread k =
     rbind (kernel_set_current_thread thread (k_world k)) (\<lambda>w. Inr (k\<lparr>k_world := w\<rparr>))"

definition boot_sched_init :: "kernel \<Rightarrow> kernel res" where
  "boot_sched_init k =
     rbind (sched_init (vmst (k_mem k))) (\<lambda>(z, m). Inr (k\<lparr>k_sched_zone := z, k_mem := (k_mem k)\<lparr>vmst := m\<rparr>\<rparr>))"

definition boot_sched_instanciate :: "kernel \<Rightarrow> kernel res" where
  "boot_sched_instanciate k =
     rbind (zalloc vm_kalloc_ll vm_alloc_critical (k_sched_zone k) (vmst (k_mem k))) (\<lambda>(s, m).
     rbind (sched_instanciate (if s = 0 then None else Some (unat s)) (kernel_get_current_cpu (k_world k)) (k_world k)) (\<lambda>w.
     Inr (k\<lparr>k_mem := (k_mem k)\<lparr>vmst := m\<rparr>, k_world := w\<rparr>)))"

definition boot_set_idle :: "nat option \<Rightarrow> kernel \<Rightarrow> kernel res" where
  "boot_set_idle thread k =
     rbind (deref (cpu_scheduler (cpus (k_world k) (kernel_get_current_cpu (k_world k))))) (\<lambda>s.
     Inr (k\<lparr>k_world := upd_sched s (\<lambda>c. c\<lparr>sched_idle := thread\<rparr>) (k_world k)\<rparr>))"

definition sti :: "kernel \<Rightarrow> kernel" where
  "sti k = k\<lparr>k_interrupts := True\<rparr>"

definition hal_boot_start_int :: "kernel \<Rightarrow> kernel" where
  "hal_boot_start_int k = sti k"

text \<open>Interrupts are on from \<^verbatim>\<open>hal_boot_start_int\<close>, the last step but the message, on. The run is the one in which none arrives
  before the message is written and the CPU halts; what an interrupt does afterwards is in \<open>Kernel_Run\<close>.\<close>

definition main :: "image \<Rightarrow> kernel \<Rightarrow> kernel run res" where
  "main im k =
     (let k = boot_stacks k;
          k = boot_term k
      in
      rbind (boot_initmem im k) (\<lambda>k.
      rbind (boot_vm im k) (\<lambda>k.
      rbind (boot_cpu_stack k) (\<lambda>k.
      rbind (boot_thread_init k) (\<lambda>k.
      rbind (boot_thread_allocate k) (\<lambda>(thread, k).
      if thread = None then Inl (Panic ''Couldn't allocate the Idle thread!'')
      else
      rbind (boot_set_current thread k) (\<lambda>k.
      rbind (boot_sched_init k) (\<lambda>k.
      rbind (boot_sched_instanciate k) (\<lambda>k.
      rbind (boot_set_idle thread k) (\<lambda>k.
      let k = hal_boot_start_int k in
      rbind (kern_message (bytes ''Hey, we need to do more!'' @ [10]) [] k) (\<lambda>k.
      Inr (arch_halt k))))))))))))"

definition kernel_main :: "int \<Rightarrow> image \<Rightarrow> kernel \<Rightarrow> kernel run res" where
  "kernel_main caps im k =
     then_run
       (if caps = platform_INTERRUPTS then main im k
        else if caps = platform_MMU then
          rbind (boot_initmem im (boot_term (boot_stacks k))) (\<lambda>k.
          rbind (kern_printmem im k) (\<lambda>k.
          rbind (boot_vm im k) (\<lambda>k.
          rbind (boot_cpu_stack k) (\<lambda>k.
          kern_prove_alive im (at_cpu im) k))))
        else if caps = platform_CPU_PTR then
          rbind (boot_initmem im (boot_term (boot_stacks k))) (\<lambda>k.
          rbind (kern_printmem im k) (\<lambda>k.
          kern_prove_alive im (at_cpu im) k))
        else if caps = platform_ALIVE \<or> caps = platform_HIGHER_HALF then
          kern_prove_alive im (at_cpu im) (boot_term k)
        else Inr (Running k))
       (\<lambda>k. Inr (arch_halt k))"

section \<open>From the boot loader (kerninit.c)\<close>

record machine =
  m_gdt :: "segdesc list"
  m_idt :: "gatedesc list"
  m_regs :: cpu_regs
  m_pic :: pic
  m_kernel :: kernel

text \<open>The only CPU has the number of the world's \<open>this_cpu\<close>. \<^verbatim>\<open>hal_initcpu\<close> writes the descriptor of its task state
  segment as an available one (\<^verbatim>\<open>STS_T32A\<close>): it is not busy.\<close>

definition i686_init :: "image \<Rightarrow> machine \<Rightarrow> machine" where
  "i686_init im m =
     (let k = m_kernel m;
          w = upd_cpu (this_cpu (k_world k)) (\<lambda>c. c\<lparr>cpu_current_thread := None, cpu_tss_busy := False\<rparr>) (k_world k);
          k = k\<lparr>k_world := w, k_slice := i686_init_memory (kernel_end im) (multiboot_memdata im) (k_slice k)\<rparr>;
          (gdt, regs) = hal_initcpu (at_gdt im) (at_tss im) (at_cpu_local im) (m_gdt m) (m_regs m);
          (idt, regs) = i686_setup_idt (at_idt im) (i686_vectors im) (m_idt m) regs;
          p = i686_picinit (m_pic m);
          p = i686_timerinit p
      in m\<lparr>m_kernel := k, m_gdt := gdt, m_idt := idt, m_regs := regs, m_pic := p\<rparr>)"

definition i686_boot_main :: "image \<Rightarrow> machine \<Rightarrow> machine run res" where
  "i686_boot_main im m =
     (let m = i686_init im m in
      rbind (kernel_main platform_get_cap_stage im (m_kernel m)) (\<lambda>r.
      Inr (case r of Running k \<Rightarrow> Running (m\<lparr>m_kernel := k\<rparr>) | Halted k \<Rightarrow> Halted (m\<lparr>m_kernel := k\<rparr>))))"

section \<open>What the kernel shows\<close>

definition kern_up :: "kernel \<Rightarrow> bool" where
  "kern_up k \<longleftrightarrow> vm_up (kernel_vm k)"

definition kern_screen :: "kernel \<Rightarrow> console" where
  "kern_screen k = screen (vm_term (kernel_vm k))"

text \<open>\<open>kern_shows k out k'\<close>: from \<open>k\<close> to \<open>k'\<close> the text \<open>out\<close> went to the terminal and nothing else
  happened.\<close>

definition kern_shows :: "kernel \<Rightarrow> u8 list \<Rightarrow> kernel \<Rightarrow> bool" where
  "kern_shows k out k' \<longleftrightarrow> kern_up k \<and> kern_up k' \<and> kern_screen k' = show_text out (kern_screen k) \<and>
     k' = upd_vm (\<lambda>s. s\<lparr>vm_term := vm_term (kernel_vm k')\<rparr>) k"

lemma kernel_vm_upd [simp]: "kernel_vm (upd_vm f k) = f (kernel_vm k)" "k_slice (upd_vm f k) = k_slice k"
  "k_bmas (upd_vm f k) = k_bmas k" "k_world (upd_vm f k) = k_world k" "upd_vm f (upd_vm g k) = upd_vm (\<lambda>s. f (g s)) k"
  by (simp_all add: upd_vm_def)

lemma kern_shows_frame:
  assumes "kern_shows k out k'"
  shows "k_slice k' = k_slice k" "k_bmas k' = k_bmas k" "vm_phys (kernel_vm k') = vm_phys (kernel_vm k)" "kern_up k'"
    "k_world k' = k_world k"
proof -
  have u: "k' = upd_vm (\<lambda>s. s\<lparr>vm_term := vm_term (kernel_vm k')\<rparr>) k" "kern_up k'" using assms by (simp_all add: kern_shows_def)
  show "kern_up k'" by (rule u(2))
  show "k_slice k' = k_slice k" "k_bmas k' = k_bmas k" "vm_phys (kernel_vm k') = vm_phys (kernel_vm k)" "k_world k' = k_world k"
    by (subst u(1), simp)+
qed

lemma kern_shows_refl: "kern_up k \<Longrightarrow> kern_shows k [] k"
  by (cases k) (simp add: kern_shows_def show_text_def upd_vm_def)

lemma kern_shows_trans:
  assumes "kern_shows k a k1" and "kern_shows k1 b k2"
  shows "kern_shows k (a @ b) k2"
proof -
  have "k2 = upd_vm (\<lambda>s. s\<lparr>vm_term := vm_term (kernel_vm k2)\<rparr>) (upd_vm (\<lambda>s. s\<lparr>vm_term := vm_term (kernel_vm k1)\<rparr>) k)"
    using assms by (simp add: kern_shows_def)
  then have "k2 = upd_vm (\<lambda>s. s\<lparr>vm_term := vm_term (kernel_vm k2)\<rparr>) k" by simp
  then show ?thesis using assms by (simp add: kern_shows_def show_text_append)
qed

lemma kern_shows_upd:
  assumes "kern_up k" and "term_up kt" and "screen kt = show_text out (kern_screen k)"
  shows "kern_shows k out (upd_vm (\<lambda>s. s\<lparr>vm_term := kt\<rparr>) k)"
  using assms by (simp add: kern_shows_def kern_up_def vm_up_def kern_screen_def)

lemma kern_message_ok:
  assumes "kern_up k" and "0 \<notin> set fmt" and "formatted (\<lambda>_. 0) fmt args = Some out" and "length out < 4294967296"
  shows "\<exists>k'. kern_message fmt args k = Inr k' \<and> kern_shows k out k'"
proof -
  have up: "term_up (vm_term (kernel_vm k))" "length (vm_numbuf (kernel_vm k)) = 100" using assms(1) by (simp_all add: kern_up_def vm_up_def)
  obtain kt where kt: "message (vm_numbuf (kernel_vm k)) fmt args (vm_term (kernel_vm k)) = Inr kt" "term_up kt"
    "screen kt = show_text out (kern_screen k)" unfolding kern_screen_def by (rule message_ok [OF up assms(2-4)])
  from kt(1) have "kern_message fmt args k = Inr (upd_vm (\<lambda>s. s\<lparr>vm_term := kt\<rparr>) k)"
    by (simp add: kern_message_def vm_message_def upd_vm_def)
  then show ?thesis using kern_shows_upd [OF assms(1) kt(2,3)] by blast
qed

lemma kern_info_ok:
  assumes "kern_up k" and "0 \<notin> set fmt" and "info_formatted fmt args = Some out" and "length out < 4294967296"
  shows "\<exists>k'. kern_info fmt args k = Inr k' \<and> kern_shows k out k'"
proof -
  let ?kt = "vm_term (kernel_vm k)"
  have up: "term_ready (kterm_device ?kt)" "kterm_instance ?kt = Some ccterm_pipe_ops" "length (vm_numbuf (kernel_vm k)) = 100"
    using assms(1) by (simp_all add: kern_up_def vm_up_def term_up_def)
  obtain dev where d: "iopipe_vprintinfo ccterm_pipe_ops (kterm_device ?kt) (vm_numbuf (kernel_vm k)) fmt args = Inr dev"
    "term_ready dev" "shown dev = fold lite_byte out (shown (kterm_device ?kt))"
    using term_sink.vprintinfo_ok [OF up(1) assms(2) up(3) assms(3,4)] by blast
  then have "kern_info fmt args k = Inr (upd_vm (\<lambda>s. s\<lparr>vm_term := ?kt\<lparr>kterm_device := dev\<rparr>\<rparr>) k)"
    using up(2) by (simp add: kern_info_def printinfo_def pipe_ops_def)
  moreover have "term_up (?kt\<lparr>kterm_device := dev\<rparr>)" "screen (?kt\<lparr>kterm_device := dev\<rparr>) = show_text out (kern_screen k)"
    using d(2,3) up(2) by (simp_all add: term_up_def screen_def show_text_def kern_screen_def)
  ultimately show ?thesis using kern_shows_upd [OF assms(1)] by blast
qed

text \<open>A text in front of a directive: no percent sign, no zero, not long.\<close>

definition plain :: "u8 list \<Rightarrow> bool" where
  "plain pre \<longleftrightarrow> ch CHR ''%'' \<notin> set pre \<and> ch CHR ''~'' \<notin> set pre \<and> 0 \<notin> set pre \<and> length pre < 100"

lemma plain_bytes: "plain (bytes str) \<longleftrightarrow> CHR ''%'' \<notin> set str \<and> CHR ''~'' \<notin> set str \<and> CHR 0x00 \<notin> set str \<and> length str < 100"
proof -
  have u: "unat (ch a) = of_char a" for a
  proof -
    have "ch a = of_nat (of_char a)" unfolding ch_def by (cases a) simp
    moreover have "unat (of_nat (of_char a) :: u8) = of_char a" unfolding unat_of_nat using nat_of_char_less_256 [of a] by simp
    ultimately show ?thesis by simp
  qed
  have inj: "ch a = ch b \<longleftrightarrow> a = b" for a b by (metis u of_char_eq_iff)
  have z: "ch CHR 0x00 = 0" by (simp add: ch_def)
  have "ch c \<in> set (bytes str) \<longleftrightarrow> c \<in> set str" for c unfolding bytes_def set_map by (auto simp: inj)
  then show ?thesis unfolding plain_def z [symmetric] by (simp add: bytes_def)
qed

lemma kern_message_num:
  assumes "kern_up k" and "plain pre"
  shows "\<exists>k'. kern_message (pre @ [ch CHR ''%'', ch CHR ''p'', 10]) [w] k = Inr k' \<and> kern_shows k (pre @ ptr_text w @ [10]) k'"
    and "\<exists>k'. kern_message (pre @ [ch CHR ''%'', ch CHR ''u'', 10]) [w] k = Inr k' \<and> kern_shows k (pre @ dec_text (unat w) @ [10]) k'"
proof -
  have z: "0 \<notin> set (pre @ [ch CHR ''%'', ch CHR ''p'', 10])" "0 \<notin> set (pre @ [ch CHR ''%'', ch CHR ''u'', 10])"
    using assms(2) by (auto simp: plain_def ch_def)
  have l: "length (pre @ ptr_text w @ [10]) < 4294967296" "length (pre @ dec_text (unat w) @ [10]) < 4294967296"
    using assms(2) length_ptr_text [of w] length_dec_text [of "unat w"] unat_u32_lt [of w] by (auto simp: plain_def)
  have "formatted (\<lambda>_. 0) (pre @ [ch CHR ''%'', ch CHR ''p'', 10]) [w] = Some (pre @ ptr_text w @ [10])"
    "formatted (\<lambda>_. 0) (pre @ [ch CHR ''%'', ch CHR ''u'', 10]) [w] = Some (pre @ dec_text (unat w) @ [10])"
    using assms(2) by (simp_all add: plain_def format_simps format_newline)
  then show "\<exists>k'. kern_message (pre @ [ch CHR ''%'', ch CHR ''p'', 10]) [w] k = Inr k' \<and> kern_shows k (pre @ ptr_text w @ [10]) k'"
    "\<exists>k'. kern_message (pre @ [ch CHR ''%'', ch CHR ''u'', 10]) [w] k = Inr k' \<and> kern_shows k (pre @ dec_text (unat w) @ [10]) k'"
    using kern_message_ok [OF assms(1) z(1) _ l(1)] kern_message_ok [OF assms(1) z(2) _ l(2)] by blast+
qed

text \<open>The lines of \<^verbatim>\<open>kern_prove_alive\<close> about one memory range.\<close>

definition hex_text :: "u32 \<Rightarrow> u8 list" where
  "hex_text w = map ((!) hexhig) (fixed_digits 8 (unat w))"

definition range_lines :: "nat \<Rightarrow> physmem_range \<Rightarrow> u8 list" where
  "range_lines i r =
     [9] @ bytes ''prange['' @ dec_text i @ bytes ''].pm_begin = 0x'' @ hex_text (pm_begin r) @ [10] @
     [9] @ bytes ''prange['' @ dec_text i @ bytes ''].pm_end   = 0x'' @ hex_text (pm_end r) @ [10]"

lemma length_hex_text: "length (hex_text w) = 8"
proof -
  have "length (fixed_digits n v) = n" for n v by (induction n arbitrary: v) auto
  then show ?thesis by (simp add: hex_text_def)
qed

lemma info_formatted_text:
  "ch CHR ''~'' \<notin> set pre \<Longrightarrow> info_formatted (pre @ r) ap = map_option (\<lambda>out. pre @ out) (info_formatted r ap)"
proof (induction pre)
  case (Cons c pre)
  then have "info_formatted (c # (pre @ r)) ap = map_option (Cons c) (info_formatted (pre @ r) ap)"
    by (intro info_formatted_Cons) auto
  with Cons show ?case by (simp add: option.map_comp comp_def)
qed (simp add: append_consts option.map_ident)

lemma info_texts: "info_text (ch CHR ''u'') = Some (\<lambda>w. dec_text (unat w))" "info_text (ch CHR ''H'') = Some hex_text"
  by (simp_all add: info_text_def dec_text_def hex_text_def [abs_def] ch_def)

lemma info_formatted_line:
  assumes "plain a" and "plain b"
  shows "info_formatted (a @ ch CHR ''~'' # ch CHR ''u'' # b @ [ch CHR ''~'', ch CHR ''H'', 10]) [v, w] =
    Some (a @ dec_text (unat v) @ b @ hex_text w @ [10])"
proof -
  have t: "ch CHR ''~'' \<notin> set a" "ch CHR ''~'' \<notin> set b" "(10 :: u8) \<noteq> ch CHR ''~''" using assms by (simp_all add: plain_def ch_def)
  show ?thesis using t(3) by (simp add: info_formatted_text [OF t(1)] info_formatted_text [OF t(2)] info_texts)
qed

lemma kern_info_line:
  assumes "kern_up k" and "plain a" and "plain b"
  shows "\<exists>k'. kern_info (a @ ch CHR ''~'' # ch CHR ''u'' # b @ [ch CHR ''~'', ch CHR ''H'', 10]) [v, w] k = Inr k' \<and>
    kern_shows k (a @ dec_text (unat v) @ b @ hex_text w @ [10]) k'"
proof (rule kern_info_ok [OF assms(1) _ info_formatted_line [OF assms(2,3)]])
  show "0 \<notin> set (a @ ch CHR ''~'' # ch CHR ''u'' # b @ [ch CHR ''~'', ch CHR ''H'', 10])"
    using assms(2,3) by (auto simp: plain_def ch_def)
  show "length (a @ dec_text (unat v) @ b @ hex_text w @ [10]) < 4294967296"
    using assms(2,3) length_dec_text [of "unat v"] unat_u32_lt [of v] length_hex_text [of w] by (auto simp: plain_def)
qed

lemma plain_tab: "plain (9 # a) \<longleftrightarrow> plain a \<and> length a < 99"
  by (auto simp: plain_def ch_def)

text \<open>Any number of lines.\<close>

lemma alive_ranges_ok:
  assumes "kern_up k" and "\<forall>i\<in>set is. i < length prange" and "length prange < 4294967296"
  shows "\<exists>k'. alive_ranges prange is k = Inr k' \<and> kern_shows k (concat (map (\<lambda>i. range_lines i (prange ! i)) is)) k'"
  using assms(1,2)
proof (induction "is" arbitrary: k)
  case Nil
  then show ?case by (simp add: kern_shows_refl)
next
  case (Cons i "is")
  have pl: "plain (9 # bytes ''prange['')" "plain (bytes ''].pm_begin = 0x'')" "plain (bytes ''].pm_end   = 0x'')"
    by (simp_all add: plain_tab plain_bytes) (simp_all add: bytes_def)
  have i: "i < length prange" "unat (of_nat i :: u32) = i" using Cons.prems(2) assms(3) by (simp_all add: unat_of_nat_u32)
  have f1: "[9] @ bytes ''prange[~u].pm_begin = 0x~H'' @ [10] = (9 # bytes ''prange['') @ ch CHR ''~'' # ch CHR ''u'' #
      bytes ''].pm_begin = 0x'' @ [ch CHR ''~'', ch CHR ''H'', 10]" by (simp add: bytes_def)
  have f2: "[9] @ bytes ''prange[~u].pm_end   = 0x~H'' @ [10] = (9 # bytes ''prange['') @ ch CHR ''~'' # ch CHR ''u'' #
      bytes ''].pm_end   = 0x'' @ [ch CHR ''~'', ch CHR ''H'', 10]" by (simp add: bytes_def)
  obtain k1 where k1: "kern_info ([9] @ bytes ''prange[~u].pm_begin = 0x~H'' @ [10]) [of_nat i, pm_begin (prange ! i)] k = Inr k1"
    "kern_shows k ((9 # bytes ''prange['') @ dec_text i @ bytes ''].pm_begin = 0x'' @ hex_text (pm_begin (prange ! i)) @ [10]) k1"
    using kern_info_line [OF Cons.prems(1) pl(1,2), of "of_nat i" "pm_begin (prange ! i)"] unfolding f1 i(2) by blast
  obtain k2 where k2: "kern_info ([9] @ bytes ''prange[~u].pm_end   = 0x~H'' @ [10]) [of_nat i, pm_end (prange ! i)] k1 = Inr k2"
    "kern_shows k1 ((9 # bytes ''prange['') @ dec_text i @ bytes ''].pm_end   = 0x'' @ hex_text (pm_end (prange ! i)) @ [10]) k2"
    using kern_info_line [OF kern_shows_frame(4) [OF k1(2)] pl(1,3), of "of_nat i" "pm_end (prange ! i)"] unfolding f2 i(2) by blast
  obtain k3 where k3: "alive_ranges prange is k2 = Inr k3" "kern_shows k2 (concat (map (\<lambda>i. range_lines i (prange ! i)) is)) k3"
    using Cons.IH [OF kern_shows_frame(4) [OF k2(2)]] Cons.prems(2) by auto
  have "alive_ranges prange (i # is) k = Inr k3" using i(1) k1(1) k2(1) k3(1) by simp
  moreover have "kern_shows k (concat (map (\<lambda>i. range_lines i (prange ! i)) (i # is))) k3"
    using kern_shows_trans [OF k1(2) kern_shows_trans [OF k2(2) k3(2)]] by (simp add: range_lines_def)
  ultimately show ?case by blast
qed

text \<open>All that \<^verbatim>\<open>kern_prove_alive\<close> shows for a CPU at \<open>cpu\<close>.\<close>

definition alive_text :: "image \<Rightarrow> u32 \<Rightarrow> kernslice \<Rightarrow> u8 list" where
  "alive_text im cpu sl =
     (let kern = (if cpu = 0 then 0 else at_slice im);
          n = (if kern = 0 then 0 else unat (ks_num_memory_ranges sl))
      in bytes ''Test <( 99 )>'' @ [10] @
         bytes ''cpu = '' @ ptr_text cpu @ [10] @
         bytes ''kern = '' @ ptr_text kern @ [10] @
         bytes ''prange = '' @ ptr_text (if kern = 0 then 0 else at_memrange im) @ [10] @
         bytes ''prangen = '' @ dec_text n @ [10] @
         concat (map (\<lambda>i. range_lines i (ks_memory_ranges sl ! i)) [0..<n]))"

lemma kern_message_test:
  assumes "kern_up k"
  shows "\<exists>k'. kern_message (bytes ''Test <( %i )>'' @ [10]) [99] k = Inr k' \<and> kern_shows k (bytes ''Test <( 99 )>'' @ [10]) k'"
proof (rule kern_message_ok [OF assms])
  show "formatted (\<lambda>_. 0) (bytes ''Test <( %i )>'' @ [10]) [99] = Some (bytes ''Test <( 99 )>'' @ [10])" by code_simp
qed (simp_all add: bytes_def ch_def)

lemma kern_message_pointer:
  assumes "kern_up k"
  shows "\<exists>k'. kern_message (bytes ''cpu = %p'' @ [10]) [w] k = Inr k' \<and> kern_shows k (bytes ''cpu = '' @ ptr_text w @ [10]) k'"
    "\<exists>k'. kern_message (bytes ''kern = %p'' @ [10]) [w] k = Inr k' \<and> kern_shows k (bytes ''kern = '' @ ptr_text w @ [10]) k'"
    "\<exists>k'. kern_message (bytes ''prange = %p'' @ [10]) [w] k = Inr k' \<and> kern_shows k (bytes ''prange = '' @ ptr_text w @ [10]) k'"
    "\<exists>k'. kern_message (bytes ''prangen = %u'' @ [10]) [w] k = Inr k' \<and> kern_shows k (bytes ''prangen = '' @ dec_text (unat w) @ [10]) k'"
    "\<exists>k'. kern_message (bytes ''bmas = %p'' @ [10]) [w] k = Inr k' \<and> kern_shows k (bytes ''bmas = '' @ ptr_text w @ [10]) k'"
    "\<exists>k'. kern_message (bytes ''bmas->pmb_maps = %p'' @ [10]) [w] k = Inr k' \<and> kern_shows k (bytes ''bmas->pmb_maps = '' @ ptr_text w @ [10]) k'"
    "\<exists>k'. kern_message (bytes ''bmas->pmb_n_maps = %u'' @ [10]) [w] k = Inr k' \<and>
       kern_shows k (bytes ''bmas->pmb_n_maps = '' @ dec_text (unat w) @ [10]) k'"
proof -
  have f: "bytes ''cpu = %p'' @ [10] = bytes ''cpu = '' @ [ch CHR ''%'', ch CHR ''p'', 10]"
    "bytes ''kern = %p'' @ [10] = bytes ''kern = '' @ [ch CHR ''%'', ch CHR ''p'', 10]"
    "bytes ''prange = %p'' @ [10] = bytes ''prange = '' @ [ch CHR ''%'', ch CHR ''p'', 10]"
    "bytes ''prangen = %u'' @ [10] = bytes ''prangen = '' @ [ch CHR ''%'', ch CHR ''u'', 10]"
    "bytes ''bmas = %p'' @ [10] = bytes ''bmas = '' @ [ch CHR ''%'', ch CHR ''p'', 10]"
    "bytes ''bmas->pmb_maps = %p'' @ [10] = bytes ''bmas->pmb_maps = '' @ [ch CHR ''%'', ch CHR ''p'', 10]"
    "bytes ''bmas->pmb_n_maps = %u'' @ [10] = bytes ''bmas->pmb_n_maps = '' @ [ch CHR ''%'', ch CHR ''u'', 10]"
    by (simp_all add: bytes_def)
  note m = kern_message_num [OF assms]
  show "\<exists>k'. kern_message (bytes ''cpu = %p'' @ [10]) [w] k = Inr k' \<and> kern_shows k (bytes ''cpu = '' @ ptr_text w @ [10]) k'"
    "\<exists>k'. kern_message (bytes ''kern = %p'' @ [10]) [w] k = Inr k' \<and> kern_shows k (bytes ''kern = '' @ ptr_text w @ [10]) k'"
    "\<exists>k'. kern_message (bytes ''prange = %p'' @ [10]) [w] k = Inr k' \<and> kern_shows k (bytes ''prange = '' @ ptr_text w @ [10]) k'"
    "\<exists>k'. kern_message (bytes ''prangen = %u'' @ [10]) [w] k = Inr k' \<and> kern_shows k (bytes ''prangen = '' @ dec_text (unat w) @ [10]) k'"
    "\<exists>k'. kern_message (bytes ''bmas = %p'' @ [10]) [w] k = Inr k' \<and> kern_shows k (bytes ''bmas = '' @ ptr_text w @ [10]) k'"
    "\<exists>k'. kern_message (bytes ''bmas->pmb_maps = %p'' @ [10]) [w] k = Inr k' \<and> kern_shows k (bytes ''bmas->pmb_maps = '' @ ptr_text w @ [10]) k'"
    "\<exists>k'. kern_message (bytes ''bmas->pmb_n_maps = %u'' @ [10]) [w] k = Inr k' \<and>
       kern_shows k (bytes ''bmas->pmb_n_maps = '' @ dec_text (unat w) @ [10]) k'"
    unfolding f by (rule m, simp add: plain_bytes)+
qed

lemma kern_prove_alive_ok:
  assumes up: "kern_up k" and n: "unat (ks_num_memory_ranges (k_slice k)) \<le> length (ks_memory_ranges (k_slice k))"
    "length (ks_memory_ranges (k_slice k)) < 4294967296"
  shows "\<exists>k'. kern_prove_alive im cpu k = Inr (Halted k') \<and> kern_shows k (alive_text im cpu (k_slice k)) k'"
proof -
  define kern where "kern = (if cpu \<noteq> 0 then at_slice im else 0)"
  define prange where "prange = (if kern \<noteq> 0 then at_memrange im else 0)"
  define prangen where "prangen = (if kern \<noteq> 0 then ks_num_memory_ranges (k_slice k) else 0)"
  obtain k1 where k1: "kern_message (bytes ''Test <( %i )>'' @ [10]) [99] k = Inr k1" "kern_shows k (bytes ''Test <( 99 )>'' @ [10]) k1"
    using kern_message_test [OF up] by blast
  obtain k2 where k2: "kern_message (bytes ''cpu = %p'' @ [10]) [cpu] k1 = Inr k2" "kern_shows k1 (bytes ''cpu = '' @ ptr_text cpu @ [10]) k2"
    using kern_message_pointer(1) [OF kern_shows_frame(4) [OF k1(2)]] by blast
  obtain k3 where k3: "kern_message (bytes ''kern = %p'' @ [10]) [kern] k2 = Inr k3" "kern_shows k2 (bytes ''kern = '' @ ptr_text kern @ [10]) k3"
    using kern_message_pointer(2) [OF kern_shows_frame(4) [OF k2(2)]] by blast
  obtain k4 where k4: "kern_message (bytes ''prange = %p'' @ [10]) [prange] k3 = Inr k4" "kern_shows k3 (bytes ''prange = '' @ ptr_text prange @ [10]) k4"
    using kern_message_pointer(3) [OF kern_shows_frame(4) [OF k3(2)]] by blast
  obtain k5 where k5: "kern_message (bytes ''prangen = %u'' @ [10]) [prangen] k4 = Inr k5"
    "kern_shows k4 (bytes ''prangen = '' @ dec_text (unat prangen) @ [10]) k5"
    using kern_message_pointer(4) [OF kern_shows_frame(4) [OF k4(2)]] by blast
  note s5 = kern_shows_trans [OF k1(2) kern_shows_trans [OF k2(2) kern_shows_trans [OF k3(2) kern_shows_trans [OF k4(2) k5(2)]]]]
  let ?r = "ks_memory_ranges (k_slice k)"
  have le: "\<forall>i\<in>set [0..<unat prangen]. i < length ?r" using n(1) by (cases "kern = 0") (auto simp: prangen_def)
  obtain k6 where k6: "alive_ranges ?r [0..<unat prangen] k5 = Inr k6"
    "kern_shows k5 (concat (map (\<lambda>i. range_lines i (?r ! i)) [0..<unat prangen])) k6"
    using alive_ranges_ok [OF kern_shows_frame(4) [OF k5(2)] le n(2)] by blast
  have "kern_prove_alive im cpu k = Inr (Halted k6)"
    unfolding kern_prove_alive_def Let_def kern_def [symmetric] prange_def [symmetric] prangen_def [symmetric]
    using k1(1) k2(1) k3(1) k4(1) k5(1) k6(1) kern_shows_frame(1) [OF s5] by (simp add: arch_halt_def)
  moreover have "kern_shows k (alive_text im cpu (k_slice k)) k6"
    using kern_shows_trans [OF s5 k6(2)]
    by (cases "cpu = 0"; cases "at_slice im = 0"; simp add: alive_text_def Let_def kern_def prange_def prangen_def)
  ultimately show ?thesis by blast
qed

text \<open>What \<^verbatim>\<open>kern_printmem\<close> shows of the page allocator \<open>p\<close>: the length of every range.\<close>

definition map_line :: "phys_state \<Rightarrow> nat \<Rightarrow> u8 list" where
  "map_line p i = bytes ''bmas->pmb_maps['' @ dec_text i @ bytes ''] = '' @
     dec_text (unat (pmb_length (prealloc_pbma p ! the (prealloc_pbma_ptr p ! i)))) @ [10]"

definition printmem_text :: "image \<Rightarrow> phys_state \<Rightarrow> u8 list" where
  "printmem_text im p =
     bytes ''bmas = '' @ ptr_text (at_bmas im) @ [10] @
     bytes ''bmas->pmb_maps = '' @ ptr_text (at_maps im) @ [10] @
     bytes ''bmas->pmb_n_maps = '' @ dec_text (unat (pmb_n_maps p)) @ [10] @
     concat (map (map_line p) [0..<unat (pmb_n_maps p)])"

lemma kern_message_map:
  assumes "kern_up k" and "unat v < 2147483648" and "unat w < 2147483648"
  shows "\<exists>k'. kern_message (bytes ''bmas->pmb_maps[%d] = %d'' @ [10]) [v, w] k = Inr k' \<and>
    kern_shows k (bytes ''bmas->pmb_maps['' @ dec_text (unat v) @ bytes ''] = '' @ dec_text (unat w) @ [10]) k'"
proof -
  have p: "ch CHR ''%'' \<notin> set (bytes ''bmas->pmb_maps['')" "ch CHR ''%'' \<notin> set (bytes ''] = '')"
    using plain_bytes [of "''bmas->pmb_maps[''"] plain_bytes [of "''] = ''"] by (simp_all add: plain_def)
  have f: "bytes ''bmas->pmb_maps[%d] = %d'' @ [10] = bytes ''bmas->pmb_maps['' @ ch CHR ''%'' # ch CHR ''d'' #
      bytes ''] = '' @ [ch CHR ''%'', ch CHR ''d'', 10]" by (simp add: bytes_def)
  have "formatted (\<lambda>_. 0) (bytes ''bmas->pmb_maps[%d] = %d'' @ [10]) [v, w] =
      Some (bytes ''bmas->pmb_maps['' @ dec_text (unat v) @ bytes ''] = '' @ dec_text (unat w) @ [10])"
    unfolding f using assms(2,3) by (simp add: formatted_text [OF p(1)] formatted_text [OF p(2)] format_simps format_newline)
  moreover have "length (bytes ''bmas->pmb_maps['' @ dec_text (unat v) @ bytes ''] = '' @ dec_text (unat w) @ [10]) < 4294967296"
    using length_dec_text [of "unat v"] length_dec_text [of "unat w"] unat_u32_lt [of v] unat_u32_lt [of w] by (simp add: bytes_def)
  moreover have "0 \<notin> set (bytes ''bmas->pmb_maps[%d] = %d'' @ [10])" by (simp add: bytes_def ch_def)
  ultimately show ?thesis using kern_message_ok [OF assms(1)] by blast
qed

text \<open>The allocator is well formed and its ranges are short enough to be shown as signed numbers.\<close>

definition maps_shown :: "phys_state \<Rightarrow> bool" where
  "maps_shown p \<longleftrightarrow> unat (pmb_n_maps p) \<le> length (prealloc_pbma_ptr p) \<and> unat (pmb_n_maps p) < 2147483648 \<and>
     (\<forall>i<unat (pmb_n_maps p). \<exists>j. prealloc_pbma_ptr p ! i = Some j \<and> j < length (prealloc_pbma p) \<and>
        unat (pmb_length (prealloc_pbma p ! j)) < 2147483648)"

lemma printmem_maps_ok:
  assumes "kern_up k" and "maps_shown (vm_phys (kernel_vm k))" and "\<forall>i\<in>set is. i < unat (pmb_n_maps (vm_phys (kernel_vm k)))"
  shows "\<exists>k'. printmem_maps is k = Inr k' \<and> kern_shows k (concat (map (map_line (vm_phys (kernel_vm k))) is)) k'"
  using assms
proof (induction "is" arbitrary: k)
  case Nil
  then show ?case by (simp add: kern_shows_refl)
next
  case (Cons i "is")
  let ?p = "vm_phys (kernel_vm k)"
  have i: "i < length (prealloc_pbma_ptr ?p)" "i < 2147483648" using Cons.prems(2,3) by (auto simp: maps_shown_def)
  then have ii: "unat (of_nat i :: u32) = i" by (intro unat_of_nat_u32) simp
  obtain j where j: "prealloc_pbma_ptr ?p ! i = Some j" "j < length (prealloc_pbma ?p)" "unat (pmb_length (prealloc_pbma ?p ! j)) < 2147483648"
    using Cons.prems(2,3) by (auto simp: maps_shown_def)
  obtain k1 where k1: "kern_message (bytes ''bmas->pmb_maps[%d] = %d'' @ [10]) [of_nat i, pmb_length (prealloc_pbma ?p ! j)] k = Inr k1"
    "kern_shows k (map_line ?p i) k1"
    using kern_message_map [OF Cons.prems(1) _ j(3), of "of_nat i"] i(2) j(1) unfolding ii by (auto simp: map_line_def)
  obtain k2 where k2: "printmem_maps is k1 = Inr k2" "kern_shows k1 (concat (map (map_line ?p) is)) k2"
    using Cons.IH [OF kern_shows_frame(4) [OF k1(2)]] Cons.prems(2,3) unfolding kern_shows_frame(3) [OF k1(2)] by auto
  have "printmem_maps (i # is) k = Inr k2" using i(1) j(1,2) k1(1) k2(1) by (simp add: Let_def)
  moreover have "kern_shows k (concat (map (map_line ?p) (i # is))) k2" using kern_shows_trans [OF k1(2) k2(2)] by simp
  ultimately show ?case by blast
qed

lemma kern_printmem_ok:
  assumes up: "kern_up k" and "k_bmas k = at_bmas im" and "at_bmas im \<noteq> 0" and ms: "maps_shown (vm_phys (kernel_vm k))"
  shows "\<exists>k'. kern_printmem im k = Inr k' \<and> kern_shows k (printmem_text im (vm_phys (kernel_vm k))) k'"
proof -
  let ?p = "vm_phys (kernel_vm k)"
  obtain k1 where k1: "kern_message (bytes ''bmas = %p'' @ [10]) [at_bmas im] k = Inr k1"
    "kern_shows k (bytes ''bmas = '' @ ptr_text (at_bmas im) @ [10]) k1" using kern_message_pointer(5) [OF up] by blast
  obtain k2 where k2: "kern_message (bytes ''bmas->pmb_maps = %p'' @ [10]) [at_maps im] k1 = Inr k2"
    "kern_shows k1 (bytes ''bmas->pmb_maps = '' @ ptr_text (at_maps im) @ [10]) k2"
    using kern_message_pointer(6) [OF kern_shows_frame(4) [OF k1(2)]] by blast
  obtain k3 where k3: "kern_message (bytes ''bmas->pmb_n_maps = %u'' @ [10]) [pmb_n_maps ?p] k2 = Inr k3"
    "kern_shows k2 (bytes ''bmas->pmb_n_maps = '' @ dec_text (unat (pmb_n_maps ?p)) @ [10]) k3"
    using kern_message_pointer(7) [OF kern_shows_frame(4) [OF k2(2)]] by blast
  note s2 = kern_shows_trans [OF k1(2) k2(2)]
  note s3 = kern_shows_trans [OF s2 k3(2)]
  obtain k4 where k4: "printmem_maps [0..<unat (pmb_n_maps ?p)] k3 = Inr k4"
    "kern_shows k3 (concat (map (map_line ?p) [0..<unat (pmb_n_maps ?p)])) k4"
    using printmem_maps_ok [OF kern_shows_frame(4) [OF s3], of "[0..<unat (pmb_n_maps ?p)]"] ms unfolding kern_shows_frame(3) [OF s3] by auto
  have "kern_printmem im k = Inr k4"
    using assms(2,3) k1(1) k2(1) k3(1) k4(1) kern_shows_frame(3) [OF s2] kern_shows_frame(3) [OF s3] by (simp add: kern_printmem_def)
  moreover have "kern_shows k (printmem_text im ?p) k4" using kern_shows_trans [OF s3 k4(2)] by (simp add: printmem_text_def)
  ultimately show ?thesis by blast
qed

end
