(* ===== verification/Boot_Run.thy ===== *)
theory Boot_Run
  imports Kernel_Main
begin

text \<open>
  The run of \<^verbatim>\<open>main\<close>. Each step of the boot is shown to succeed from what the steps before
  it leave: the memory of \<^verbatim>\<open>vm_init\<close>, the CPU's stack, the zone of the threads, the idle
  thread with its two stacks, the zone of the schedulers and the scheduler of the CPU. The supply of
  pages (\<open>kernel_supply\<close>, \<open>zone_supply\<close>, \<open>thread_supply\<close>) shows that none of the
  allocations fails, the pools show that what is handed out is not handed out again.
\<close>

section \<open>Between the steps\<close>

abbreviation stacks_live :: "vm_state zstate stacks_state \<Rightarrow> u32 set \<Rightarrow> bool" where
  "stacks_live \<equiv> stack_pool (\<lambda>m. kmem_ok (zvm m)) (\<lambda>m. kmem_taken (zvm m))"

text \<open>The zone of zones is at \<open>z\<close> with free buffers \<open>ys\<close>, the stacks in \<open>L\<close> are in use, \<open>n\<close> pages
  are left and the screen shows \<open>con\<close>.\<close>

definition boot_stage :: "u32 \<Rightarrow> u32 list \<Rightarrow> u32 set \<Rightarrow> nat \<Rightarrow> console \<Rightarrow> kernel \<Rightarrow> bool" where
  "boot_stage z ys L n con k \<longleftrightarrow> zones_ready z (vmst (k_mem k)) ys \<and> stacks_live (k_mem k) L \<and>
     n \<le> kmem_avail (kernel_vm k) \<and> kern_screen k = con"

text \<open>A zone that has just been created, apart from the zone of zones.\<close>

definition fresh_zone :: "u32 \<Rightarrow> u32 list \<Rightarrow> u32 \<Rightarrow> u32 \<Rightarrow> vm_state zstate \<Rightarrow> bool" where
  "fresh_zone z ys t n m \<longleftrightarrow> t \<noteq> z \<and> t \<notin> (\<lambda>d. d + 4) ` set ys \<and> zone_idle kmem_ok kmem_taken t m {} \<and>
     zn_bufsize (zones m t) = n \<and> zn_memtype (zones m t) = ZONE_AUTO_REFILL \<and> zn_count (zones m t) = 0 \<and>
     zn_freelist (zones m t) = 0"

text \<open>A zone with \<open>f\<close> free objects, of which those in \<open>L\<close> are in use.\<close>

abbreviation zone_holds :: "u32 \<Rightarrow> vm_state zstate \<Rightarrow> nat \<Rightarrow> u32 set \<Rightarrow> bool" where
  "zone_holds t m f L \<equiv> zone_idle kmem_ok kmem_taken t m L \<and> card (zone_free t m) = f"

lemma fresh_zone_empty: "fresh_zone z ys t n m \<Longrightarrow> zone_free t m = {}"
  using zone_free_eq [of m t "[]"] by (simp add: fresh_zone_def)

lemma kern_screen_view: "kern_screen k = kmem_view (kernel_vm k)"
  by (simp add: kern_screen_def kmem_view_def)

lemma stacks_live_ok: "stacks_live m L \<Longrightarrow> kmem_ok (zvm (vmst m))"
  by (auto simp: stack_pool_def)

lemma kmem_ok_up: "kmem_ok s \<Longrightarrow> vm_up s"
  by (simp add: kmem_ok_def kmem_inv_def kmem_layout_def)

text \<open>Creating a zone.\<close>

lemma zinit_stage:
  assumes s: "boot_stage z (c # ys) L n con k"
    and b: "4 < unat n0" "calc_bufsize n0 = Some b" "unat n0 \<le> unat b"
  obtains m where "zinit vm_kalloc_ll vm_alloc_critical n0 ZONE_AUTO_REFILL nm (vmst (k_mem k)) = Inr (c + 4, m)"
    "boot_stage z ys L n con (k\<lparr>k_mem := (k_mem k)\<lparr>vmst := m\<rparr>\<rparr>)" "fresh_zone z ys (c + 4) b m"
    "\<forall>t f T. zone_holds t (vmst (k_mem k)) f T \<and> t \<noteq> z \<and> t \<noteq> c + 4 \<longrightarrow> zone_holds t m f T"
proof -
  have st: "zones_ready z (vmst (k_mem k)) (c # ys)" "stacks_live (k_mem k) L" "n \<le> kmem_avail (kernel_vm k)" "kern_screen k = con"
    using s by (simp_all add: boot_stage_def)
  note ok = stacks_live_ok [OF st(2)]
  obtain m where m: "zinit vm_kalloc_ll vm_alloc_critical n0 ZONE_AUTO_REFILL nm (vmst (k_mem k)) = Inr (c + 4, m)"
    "zones_ready z m ys" "zvm m = kernel_vm k" "zone_idle kmem_ok kmem_taken (c + 4) m {}"
    "zn_bufsize (zones m (c + 4)) = b" "zn_memtype (zones m (c + 4)) = ZONE_AUTO_REFILL" "zn_count (zones m (c + 4)) = 0"
    "zn_freelist (zones m (c + 4)) = 0" "c + 4 \<noteq> z" "c + 4 \<notin> (\<lambda>d. d + 4) ` set ys"
    "\<forall>y. y \<noteq> z \<and> y \<noteq> c + 4 \<longrightarrow> zones m y = zones (vmst (k_mem k)) y"
    "\<forall>a. 0xC1000000 \<le> unat a \<longrightarrow> zmem m a = zmem (vmst (k_mem k)) a"
    by (rule zinit_ready [OF st(1) b ok])
  have "stacks_live ((k_mem k)\<lparr>vmst := m\<rparr>) L" by (rule stack_pool_vmst [OF st(2)]) (use m(3) ok in auto)
  then have stage: "boot_stage z ys L n con (k\<lparr>k_mem := (k_mem k)\<lparr>vmst := m\<rparr>\<rparr>)"
    using m(2,3) st(3,4) by (simp add: boot_stage_def kern_screen_def)
  have keep: "zone_idle kmem_ok kmem_taken t m T"
    if "zone_idle kmem_ok kmem_taken t (vmst (k_mem k)) T" "t \<noteq> z" "t \<noteq> c + 4" for t T
    by (rule zone_idle_frame [OF that(1)]) (use m(3,11,12) that ok kmem_taken_high [OF ok] in auto)
  have "zone_free t m = zone_free t (vmst (k_mem k))"
    if "zone_idle kmem_ok kmem_taken t (vmst (k_mem k)) T" "t \<noteq> z" "t \<noteq> c + 4" for t T
    by (rule zone_free_frame [OF that(1)]) (use m(3,11,12) that kmem_taken_high [OF ok] in auto)
  with keep have "\<forall>t f T. zone_holds t (vmst (k_mem k)) f T \<and> t \<noteq> z \<and> t \<noteq> c + 4 \<longrightarrow> zone_holds t m f T" by metis
  moreover have "fresh_zone z ys (c + 4) b m" using m(4-10) by (simp add: fresh_zone_def)
  ultimately show thesis by (intro that [OF m(1) stage])
qed

text \<open>The first object of a fresh zone.\<close>

lemma zalloc_stage:
  assumes s: "boot_stage z ys L (j + n) con k" and f: "fresh_zone z ys t b (vmst (k_mem k))"
    and j: "kmem_request (b * 32) = j" "0 < j" "unat b \<le> 4096 * j"
  obtains r m where "zalloc vm_kalloc_ll vm_alloc_critical t (vmst (k_mem k)) = Inr (r, m)" "r \<noteq> 0"
    "zone_idle kmem_ok kmem_taken t m {r}" "boot_stage z ys L n (show_text (ll_text j) con) (k\<lparr>k_mem := (k_mem k)\<lparr>vmst := m\<rparr>\<rparr>)"
    "\<forall>t' f T. zone_holds t' (vmst (k_mem k)) f T \<and> t' \<noteq> t \<longrightarrow> zone_holds t' m f T"
    "card (zone_free t m) + 1 = 4096 * j div unat b"
proof -
  have st: "zones_ready z (vmst (k_mem k)) ys" "stacks_live (k_mem k) L" "j + n \<le> kmem_avail (kernel_vm k)" "kern_screen k = con"
    using s by (simp_all add: boot_stage_def)
  have fz: "t \<noteq> z" "t \<notin> (\<lambda>d. d + 4) ` set ys" "zone_pool kmem_ok kmem_taken t (vmst (k_mem k)) {}"
    "zn_lock (zones (vmst (k_mem k)) t) = 0" "zn_bufsize (zones (vmst (k_mem k)) t) = b"
    "zn_memtype (zones (vmst (k_mem k)) t) = ZONE_AUTO_REFILL" "zn_count (zones (vmst (k_mem k)) t) = 0"
    "zn_freelist (zones (vmst (k_mem k)) t) = 0"
    using f by (simp_all add: fresh_zone_def zone_idle_def)
  obtain r m where r: "zalloc vm_kalloc_ll vm_alloc_critical t (vmst (k_mem k)) = Inr (r, m)" "r \<noteq> 0"
    "zone_idle kmem_ok kmem_taken t m {r}" "km.zone_frame t (vmst (k_mem k)) m" "kmem_avail (zvm m) = kmem_avail (kernel_vm k) - j"
    "kmem_view (zvm m) = show_text (ll_text j) (kmem_view (kernel_vm k))"
    "card (zone_free t m) + 1 = card (zone_free t (vmst (k_mem k))) + 4096 * j div unat b"
    by (rule km.zalloc_supply [OF fz(3,4)]) (use fz(5-7) j st(3) in auto)
  have ok: "kmem_ok (zvm m)" using r(3) by (auto simp: zone_idle_def zone_pool_def)
  have tk: "kmem_taken (kernel_vm k) \<subseteq> kmem_taken (zvm m)" using r(4) by (simp add: km.zone_frame_def)
  have "stacks_live ((k_mem k)\<lparr>vmst := m\<rparr>) L" using stack_pool_vmst [OF st(2), of m] ok tk by simp
  moreover have "zones_ready z m ys" by (rule zones_ready_frame [OF st(1) r(4) fz(1,2) ok])
  ultimately have stage: "boot_stage z ys L n (show_text (ll_text j) con) (k\<lparr>k_mem := (k_mem k)\<lparr>vmst := m\<rparr>\<rparr>)"
    using r(5,6) st(3,4) by (simp add: boot_stage_def kern_screen_view)
  have keep: "zone_idle kmem_ok kmem_taken t' m T"
    if "zone_idle kmem_ok kmem_taken t' (vmst (k_mem k)) T" "t' \<noteq> t" for t' T
    by (rule zone_idle_frame [OF that(1) ok tk]) (use r(4) that(2) fz(8) in \<open>auto simp: km.zone_frame_def\<close>)
  have "zone_free t' m = zone_free t' (vmst (k_mem k))"
    if "zone_idle kmem_ok kmem_taken t' (vmst (k_mem k)) T" "t' \<noteq> t" for t' T
    by (rule zone_free_frame [OF that(1)]) (use r(4) that(2) fz(8) in \<open>auto simp: km.zone_frame_def\<close>)
  with keep have "\<forall>t' f T. zone_holds t' (vmst (k_mem k)) f T \<and> t' \<noteq> t \<longrightarrow> zone_holds t' m f T" by metis
  moreover have "card (zone_free t m) + 1 = 4096 * j div unat b" using r(7) fresh_zone_empty [OF f] by simp
  ultimately show thesis by (intro that [OF r(1-3) stage])
qed

section \<open>The steps\<close>

lemma stage_zvm:
  assumes "boot_stage z ys L n con k" and "stacks_live m L'" and "vmst m = (vmst (k_mem k))\<lparr>zvm := s\<rparr>" and "n' \<le> kmem_avail s"
  shows "boot_stage z ys L' n' (kmem_view s) (k\<lparr>k_mem := m\<rparr>)"
  using assms by (simp add: boot_stage_def kern_screen_view)

lemma zkalloc_zvm: "zkalloc v n = Inr (r, v') \<Longrightarrow> \<exists>s. v' = v\<lparr>zvm := s\<rparr>"
  by (auto simp: zkalloc_def res_inv)

lemma stack_allocate_zvm:
  assumes "kernel_stack_allocate zkalloc m = Inr (r, m')"
  shows "\<exists>s. vmst m' = (vmst m)\<lparr>zvm := s\<rparr>"
proof (cases "vmst m' = vmst m")
  case True
  then show ?thesis by (intro exI [of _ "zvm (vmst m)"]) simp
next
  case False
  then obtain q v where "zkalloc (vmst m) (push_bit 14 1) = Inr (q, v)" "vmst m' = v"
    using assms unfolding kernel_stack_allocate_def kernel_stack_new_def hal_stack_grows_downward_def
    by (auto simp: res_inv Let_def split: option.splits if_splits)
  then show ?thesis using zkalloc_zvm by blast
qed

lemma boot_cpu_stack_ok:
  assumes s: "boot_stage z ys L (4 + n) con k"
  obtains sp m where "boot_cpu_stack k = Inr (k\<lparr>k_mem := m, k_cpu_stack := sp\<rparr>)"
    "boot_stage z ys L n (show_text (ll_text 4) con) (k\<lparr>k_mem := m, k_cpu_stack := sp\<rparr>)" "stacks m = stacks (k_mem k)"
proof -
  have st: "stacks_live (k_mem k) L" "4 + n \<le> kmem_avail (kernel_vm k)" "kmem_view (kernel_vm k) = con"
    using s by (simp_all add: boot_stage_def kern_screen_view)
  obtain sp v where v: "kernel_cpu_init_stack zkalloc (k_mem k) = Inr (sp, (k_mem k)\<lparr>vmst := v\<rparr>)" "kmem_ok (zvm v)"
    "kmem_taken (kernel_vm k) \<subseteq> kmem_taken (zvm v)" "kmem_avail (zvm v) = kmem_avail (kernel_vm k) - 4"
    "kmem_view (zvm v) = show_text (ll_text 4) (kmem_view (kernel_vm k))" "\<exists>r. zkalloc (vmst (k_mem k)) (push_bit 14 1) = Inr (r, v)"
    by (rule tm.cpu_stack_supply [OF stacks_live_ok [OF st(1)]]) (use st(2) in auto)
  have p: "stacks_live ((k_mem k)\<lparr>vmst := v\<rparr>) L" by (rule stack_pool_vmst [OF st(1)]) (use v(2,3) in auto)
  obtain t where t: "v = (vmst (k_mem k))\<lparr>zvm := t\<rparr>" using v(6) zkalloc_zvm by blast
  then have "boot_stage z ys L n (kmem_view t) (k\<lparr>k_mem := (k_mem k)\<lparr>vmst := v\<rparr>\<rparr>)"
    using st(2) v(4) by (intro stage_zvm [OF s p]) auto
  then have "boot_stage z ys L n (show_text (ll_text 4) con) (k\<lparr>k_mem := (k_mem k)\<lparr>vmst := v\<rparr>, k_cpu_stack := sp\<rparr>)"
    using v(5) t st(3) by (simp add: boot_stage_def kern_screen_view)
  with v(1) show thesis by (intro that [where m = "(k_mem k)\<lparr>vmst := v\<rparr>" and sp = sp]) (simp_all add: boot_cpu_stack_def)
qed

lemma thread_zone_live: "thread_zone t m {k} \<longleftrightarrow> zone_idle kmem_ok kmem_taken t m {of_nat k} \<and> k < 4294967296"
  by (simp add: thread_zone_def)

text \<open>The idle thread: one page for the zone, four for each of its stacks.\<close>

lemma boot_thread_allocate_ok:
  assumes s: "boot_stage z ys L (9 + n) con k" and f: "fresh_zone z ys (k_thread_zone k) 128 (vmst (k_mem k))" and e: "stacks (k_mem k) = None"
  obtains t a b m w where "boot_thread_allocate k = Inr (Some t, k\<lparr>k_mem := m, k_world := w\<rparr>)"
    "boot_stage z ys (insert b (insert a L)) n (show_text (ll_text 1 @ ll_text 4 @ ll_text 4) con) (k\<lparr>k_mem := m, k_world := w\<rparr>)"
    "a \<noteq> b" "a \<notin> L" "b \<notin> L" "thread_zone (k_thread_zone k) (vmst m) {t}" "t_istobjs (threads w t) = [Some a, Some b]"
    "t_istacks (threads w t) = [st_sp (kstacks m a), st_sp (kstacks m b)]" "ring (rings w) (T_Queue_Entry t) []"
    "cpus w = cpus (k_world k)" "this_cpu w = this_cpu (k_world k)" "t_storage (threads w t) ! 0 = st_sp (kstacks m a)"
    "t_priority (threads w t) = 16" "new_thread (threads w t)" "stack_free m = {}" "card (zone_free (k_thread_zone k) (vmst m)) = 31"
proof -
  let ?z = "k_thread_zone k" and ?m = "k_mem k"
  have j: "kmem_request (128 * 32) = 1" "unat (128 :: u32) \<le> 4096 * 1" by (simp_all add: kmem_request_def)
  have s1: "boot_stage z ys L (1 + (8 + n)) con k" using s by simp
  obtain r v where r: "zalloc vm_kalloc_ll vm_alloc_critical ?z (vmst ?m) = Inr (r, v)" "r \<noteq> 0" "zone_idle kmem_ok kmem_taken ?z v {r}"
    "boot_stage z ys L (8 + n) (show_text (ll_text 1) con) (k\<lparr>k_mem := ?m\<lparr>vmst := v\<rparr>\<rparr>)"
    "card (zone_free ?z v) + 1 = 4096 * 1 div unat (128 :: u32)"
    by (rule zalloc_stage [OF s1 f j(1) _ j(2)]) simp
  have st: "8 + n \<le> kmem_avail (zvm v)" "kmem_view (zvm v) = show_text (ll_text 1) con" using r(4) by (simp_all add: boot_stage_def kern_screen_view)
  have za: "thread_zalloc ?z (vmst ?m) = Inr (Some (unat r), v)" using r(1,2) by (simp add: thread_zalloc_def)
  have z: "thread_zone ?z (vmst ?m) {}" using f by (simp add: fresh_zone_def thread_zone_def)
  have p: "stacks_live ?m L" using s by (simp add: boot_stage_def)
  obtain a b m' w' where t: "thread_allocate (thread_zalloc ?z) thread_zfree zkalloc ?m (k_world k) = Inr (Some (unat r), m', w')"
    "a \<noteq> b" "a \<notin> L" "b \<notin> L" "stacks_live m' (insert b (insert a L))" "thread_zone ?z (vmst m') {unat r}"
    "t_istobjs (threads w' (unat r)) = [Some a, Some b]"
    "t_istacks (threads w' (unat r)) = [st_sp (kstacks m' a), st_sp (kstacks m' b)]" "ring (rings w') (T_Queue_Entry (unat r)) []"
    "kmem_avail (zvm (vmst m')) = kmem_avail (zvm v) - 8"
    "kmem_view (zvm (vmst m')) = show_text (ll_text 4) (show_text (ll_text 4) (kmem_view (zvm v)))"
    "cpus w' = cpus (k_world k)" "this_cpu w' = this_cpu (k_world k)" "t_storage (threads w' (unat r)) ! 0 = st_sp (kstacks m' a)"
    "t_priority (threads w' (unat r)) = 16" "new_thread (threads w' (unat r))"
    "\<exists>s0 m2 s1. kernel_stack_allocate zkalloc (?m\<lparr>vmst := v\<rparr>) = Inr (s0, m2) \<and> kernel_stack_allocate zkalloc m2 = Inr (s1, m')"
    "stack_free m' = {}"
    using tm.thread_allocate_supply [OF p e z za, of "k_world k"] st(1) by auto
  have "\<exists>q. vmst m' = v\<lparr>zvm := q\<rparr>" using t(17) by (auto dest!: stack_allocate_zvm)
  then obtain q where q: "vmst m' = v\<lparr>zvm := q\<rparr>" ..
  have "boot_stage z ys (insert b (insert a L)) n (kmem_view q) (k\<lparr>k_mem := m'\<rparr>)"
    using stage_zvm [OF r(4) t(5), of q n] q t(10) st(1) by simp
  then have "boot_stage z ys (insert b (insert a L)) n (show_text (ll_text 1 @ ll_text 4 @ ll_text 4) con) (k\<lparr>k_mem := m', k_world := w'\<rparr>)"
    using t(11) q st(2) by (simp add: boot_stage_def kern_screen_view show_text_append)
  moreover have "boot_thread_allocate k = Inr (Some (unat r), k\<lparr>k_mem := m', k_world := w'\<rparr>)" using t(1) by (simp add: boot_thread_allocate_def)
  moreover have "card (zone_free ?z (vmst m')) = 31" using r(5) q by simp
  ultimately show thesis using t(2-4,6-9,12-16,18) by (intro that)
qed

text \<open>The idle thread becomes current, and gets the scheduler of its CPU.\<close>

abbreviation tss_free :: "kernel \<Rightarrow> bool" where
  "tss_free k \<equiv> \<not> cpu_tss_busy (cpus (k_world k) (this_cpu (k_world k)))"

lemma set_current_ok:
  assumes "\<not> cpu_tss_busy (cpus w (this_cpu w))"
  shows "\<exists>w'. kernel_set_current_thread (Some t) w = Inr w' \<and> kernel_get_current_thread w' = Some t \<and>
    CPU_LOCAL_TLS (cpus w' (this_cpu w)) = Some t \<and> esp0 (cpu_tss (cpus w' (this_cpu w))) = t_storage (threads w t) ! 0 \<and>
    threads w' = (threads w)(t := (threads w t)\<lparr>t_current_cpu := Some (this_cpu w)\<rparr>) \<and> this_cpu w' = this_cpu w \<and>
    cpu_tss_busy (cpus w' (this_cpu w))"
  using assms by (simp add: ltr_def kernel_set_current_thread_def hal_after_thread_switch_def upd_thread_def get_thread_def upd_cpu_def
      kernel_get_current_thread_def kernel_get_current_cpu_def Let_def)

section \<open>Before the first step\<close>

text \<open>The static state the loader leaves, as far as the boot relies on it: page allocator and zones are
  zero, the kernel's page tables are those of \<open>boot.s\<close>, the arrays have their declared lengths.\<close>

definition static_state :: "image \<Rightarrow> kernel \<Rightarrow> bool" where
  "static_state im k \<longleftrightarrow> vm_phys (kernel_vm k) = phys_static \<and> mmu_ok (vm_mmu (kernel_vm k)) \<and> window_free (vm_mmu (kernel_vm k)) \<and>
     length (ds_pages (dss (kernel_vm k) 0)) = 130 \<and> ring_ok (kterm_device (vm_term (kernel_vm k))) \<and> length (vm_numbuf (kernel_vm k)) = 100 \<and>
     zn_memtype (zones (vmst (k_mem k)) (at_zone_zone im)) = 0 \<and> (\<forall>y. zn_count (zones (vmst (k_mem k)) y) = 0)"

text \<open>The image is below the memory that \<^verbatim>\<open>vm_kalloc_ll\<close> hands out, and the static zone is not in
  its own buffer.\<close>

definition image_ok :: "image \<Rightarrow> bool" where
  "image_ok im \<longleftrightarrow> 0 < unat (at_szz_buf im) \<and> unat (at_szz_buf im) + 65536 \<le> 0xC1000000 \<and> at_zone_zone im \<noteq> 0 \<and>
     (unat (at_zone_zone im) < unat (at_szz_buf im) \<or> unat (at_szz_buf im) + 65536 \<le> unat (at_zone_zone im))"

text \<open>The boot loader reports the memory, enough for \<open>n\<close> pages and not more than the allocator
  can describe.\<close>

definition memory_reported :: "image \<Rightarrow> nat \<Rightarrow> bool" where
  "memory_reported im n \<longleftrightarrow> boot_info_ok (kernel_end im) (multiboot_memdata im) \<and> unat (multiboot_memdata im ! 2) \<le> 500000 \<and>
     unat (kernel_end im) - 0xC0000000 + 4096 * (n + 2) \<le> 0x100000 + unat (multiboot_memdata im ! 2) * 1024"

text \<open>The first console of the boot.\<close>

definition first_screen :: "kernel \<Rightarrow> console" where
  "first_screen k = screen (kterm_init (vm_term (kernel_vm k)))"

lemma aligned_PTE_ADDR:
  assumes "unat q mod 4096 = 0"
  shows "PTE_ADDR q = q"
proof -
  have "unat (PTE_ADDR q) = unat q" using assms unfolding PTE_ADDR_def unat_round_down by auto
  then show ?thesis by (simp add: word_unat_eq_iff)
qed

lemma boot_initmem_ok:
  assumes m: "memory_reported im n" "252 \<le> n" and s: "k_slice k = i686_init_memory (kernel_end im) (multiboot_memdata im) slice_static"
    and p: "vm_phys (kernel_vm k) = phys_static"
  obtains p where "boot_initmem im k = Inr ((upd_vm (\<lambda>s. s\<lparr>vm_phys := p\<rparr>) k)\<lparr>k_bmas := at_bmas im\<rparr>)" "boot_phys p"
    "n \<le> card (page_pool p - allocated p)" "uses_ranges [boot_low (multiboot_memdata im), boot_high (kernel_end im) (multiboot_memdata im)] p"
proof -
  have i: "boot_info_ok (kernel_end im) (multiboot_memdata im)" "unat (multiboot_memdata im ! 2) \<le> 500000"
    "unat (kernel_end im) - 0xC0000000 + 4096 * (n + 2) \<le> 0x100000 + unat (multiboot_memdata im ! 2) * 1024"
    using m(1) by (simp_all add: memory_reported_def)
  obtain q where q: "kern_initmem (i686_init_memory (kernel_end im) (multiboot_memdata im) slice_static) phys_static = Inr q" "phys_inv q"
    "allocated q = {}" "uses_ranges [boot_low (multiboot_memdata im), boot_high (kernel_end im) (multiboot_memdata im)] q" "n \<le> card (page_pool q)"
    "0 \<in> page_pool q \<longrightarrow> (\<exists>st'. vm_phys_alloc q = Inr (Some 0, st'))"
    by (rule boot_memory_complete [OF i])
  have "pages_aligned q" using boot_pool_page [OF i(1) q(2,4)] aligned_PTE_ADDR by (simp add: pages_aligned_def)
  then have "boot_phys q" using q(2,3,5,6) m(2) by (auto simp: boot_phys_def)
  then show thesis using q(1,3,4,5) s p by (intro that [of q]) (simp_all add: boot_initmem_def)
qed

lemma vm_init_stage:
  assumes i: "image_ok im" and p: "boot_phys (vm_phys (kernel_vm k))" "252 + n \<le> card (page_pool (vm_phys (kernel_vm k)) - allocated (vm_phys (kernel_vm k)))"
    and n: "n \<le> 128" and u: "kern_up k" and mm: "mmu_ok (vm_mmu (kernel_vm k))" "window_free (vm_mmu (kernel_vm k))"
    and ds: "length (ds_pages (dss (kernel_vm k) 0)) = 130"
    and z: "zn_memtype (zones (vmst (k_mem k)) (at_zone_zone im)) = 0" "\<forall>y. zn_count (zones (vmst (k_mem k)) y) = 0"
    and st: "stacks (k_mem k) = None" "stacks_sl (k_mem k) = 0"
  obtains m ys where "boot_vm im k = Inr (k\<lparr>k_mem := (k_mem k)\<lparr>vmst := m\<rparr>\<rparr>)" "length ys = 2048"
    "boot_stage (at_zone_zone im) ys {} n (show_text capacity_text (kern_screen k)) (k\<lparr>k_mem := (k_mem k)\<lparr>vmst := m\<rparr>\<rparr>)"
    "kmem_inv (zvm m) 0 0 0" "kmem_addr (zvm m) 0 = 0xC1000000"
proof -
  have b: "0 < unat (at_szz_buf im)" "unat (at_szz_buf im) + 65536 \<le> 0xC1000000" "at_zone_zone im \<noteq> 0"
    "unat (at_zone_zone im) < unat (at_szz_buf im) \<or> unat (at_szz_buf im) + 65536 \<le> unat (at_zone_zone im)"
    using i by (simp_all add: image_ok_def)
  have b2: "unat (at_szz_buf im) + 65536 < 4294967296" using b(2) by simp
  obtain m where m: "vm_init (at_zone_zone im) (at_szz_buf im) (at_page_dir im) (vmst (k_mem k)) = Inr m" "kmem_inv (zvm m) 0 0 0"
    "kmem_addr (zvm m) 0 = 0xC1000000" "ds_n_pages (dss (zvm m) 0) = 128" "zone_zone m = at_zone_zone im"
    "screen (vm_term (zvm m)) = show_text capacity_text (kern_screen k)"
    "card (page_pool (vm_phys (zvm m)) - allocated (vm_phys (zvm m))) =
      card (page_pool (vm_phys (kernel_vm k)) - allocated (vm_phys (kernel_vm k))) - 252"
    using vm_init_ok [OF p(1) mm b(1) b2 ds, of "at_zone_zone im" "at_page_dir im"] u by (auto simp: kern_up_def kern_screen_def)
  note ki = kmem_inv_state [OF m(2)]
  have ok: "kmem_ok (zvm m)" using m(2) ki by (simp add: kmem_ok_def)
  obtain ys where ys: "zones_ready (at_zone_zone im) m ys" "length ys = 2048"
    using vm_init_ready [OF m(1,5) b(1,2,3,4) z] by blast
  have "stacks_live ((k_mem k)\<lparr>vmst := m\<rparr>) {}" using st ok by (auto simp: stack_pool_def intro!: exI [of _ "[]"])
  moreover have "n \<le> kmem_avail (zvm m)" using m(4,7) ki p(2) n by (simp add: kmem_avail_def)
  ultimately have "boot_stage (at_zone_zone im) ys {} n (show_text capacity_text (kern_screen k)) (k\<lparr>k_mem := (k_mem k)\<lparr>vmst := m\<rparr>\<rparr>)"
    using ys(1) m(6) by (simp add: boot_stage_def kern_screen_def)
  then show thesis using m(1,2,3) ys(2) by (intro that) (simp_all add: boot_vm_def)
qed

section \<open>Threads and scheduler\<close>

text \<open>The thread \<open>t\<close> is the CPU's current one and has never been switched. Its interrupt stacks are \<open>a\<close> and \<open>b\<close>, and
  the task state segment names \<open>a\<close> as the stack for interrupts from user mode. The code goes on running on the stack that
  \<open>boot.s\<close> set up: \<^verbatim>\<open>kernel_set_current_thread\<close> does not change the stack pointer.\<close>

definition first_thread :: "nat \<Rightarrow> u32 \<Rightarrow> u32 \<Rightarrow> kernel \<Rightarrow> bool" where
  "first_thread t a b k \<longleftrightarrow> kernel_get_current_thread (k_world k) = Some t \<and> new_thread (threads (k_world k) t) \<and>
     cpu_tss_busy (cpus (k_world k) (this_cpu (k_world k))) \<and> CPU_LOCAL_TLS (cpus (k_world k) (this_cpu (k_world k))) = Some t \<and>
     t_current_cpu (threads (k_world k) t) = Some (this_cpu (k_world k)) \<and> t_istobjs (threads (k_world k) t) = [Some a, Some b] \<and> a \<noteq> b \<and>
     t_istacks (threads (k_world k) t) = [st_sp (kstacks (k_mem k) a), st_sp (kstacks (k_mem k) b)] \<and>
     esp0 (cpu_tss (cpus (k_world k) (this_cpu (k_world k)))) = st_sp (kstacks (k_mem k) a)"

text \<open>The kernel \<^verbatim>\<open>main\<close> leaves idling: the thread \<open>t\<close> is current on the CPU and is the idle thread of the
  CPU's scheduler \<open>s\<close>, whose run rings are empty and whose lock is free. The stacks, the thread and the scheduler are in use: no
  stack is free, and of the 32 objects the zones of threads and of schedulers got with their first memory, all but this one
  are free in each. The kernel's memory is in order.\<close>

definition idle_kernel :: "kernel \<Rightarrow> bool" where
  "idle_kernel k \<longleftrightarrow> (\<exists>t a b s. first_thread t a b k \<and>
     cpu_scheduler (cpus (k_world k) (this_cpu (k_world k))) = Some s \<and>
     schedulers (k_world k) s = \<lparr>sched_run_decay = sched_prios, sched_idle = Some t, sched_thread_count = 1, sched_lock = 0\<rparr> \<and>
     sched_rings (k_world k) (run_heads s) (\<lambda>_. []) \<and>
     stacks_live (k_mem k) {a, b} \<and> thread_zone (k_thread_zone k) (vmst (k_mem k)) {t} \<and>
     zone_idle kmem_ok kmem_taken (k_sched_zone k) (vmst (k_mem k)) {of_nat s} \<and> k_interrupts k \<and> stack_free (k_mem k) = {} \<and>
     card (zone_free (k_thread_zone k) (vmst (k_mem k))) = 31 \<and> card (zone_free (k_sched_zone k) (vmst (k_mem k))) = 31)"

text \<open>The scheduler: five pages for its zone.\<close>

lemma boot_sched_instanciate_ok:
  assumes s: "boot_stage z ys L (5 + n) con k" and f: "fresh_zone z ys (k_sched_zone k) 640 (vmst (k_mem k))"
    and t: "thread_zone (k_thread_zone k) (vmst (k_mem k)) T" "k_thread_zone k \<noteq> k_sched_zone k"
      "card (zone_free (k_thread_zone k) (vmst (k_mem k))) = f0"
  obtains m w s where "boot_sched_instanciate k = Inr (k\<lparr>k_mem := (k_mem k)\<lparr>vmst := m\<rparr>, k_world := w\<rparr>)"
    "boot_stage z ys L n (show_text (ll_text 5) con) (k\<lparr>k_mem := (k_mem k)\<lparr>vmst := m\<rparr>, k_world := w\<rparr>)"
    "thread_zone (k_thread_zone k) m T" "zone_idle kmem_ok kmem_taken (k_sched_zone k) m {of_nat s}"
    "sched_instanciate (Some s) (this_cpu (k_world k)) (k_world k) = Inr w"
    "card (zone_free (k_thread_zone k) m) = f0" "card (zone_free (k_sched_zone k) m) = 31"
proof -
  let ?z = "k_sched_zone k"
  have j: "kmem_request (640 * 32) = 5" "unat (640 :: u32) \<le> 4096 * 5" by (simp_all add: kmem_request_def)
  obtain r m where r: "zalloc vm_kalloc_ll vm_alloc_critical ?z (vmst (k_mem k)) = Inr (r, m)" "r \<noteq> 0" "zone_idle kmem_ok kmem_taken ?z m {r}"
    "boot_stage z ys L n (show_text (ll_text 5) con) (k\<lparr>k_mem := (k_mem k)\<lparr>vmst := m\<rparr>\<rparr>)"
    "\<forall>t' f T. zone_holds t' (vmst (k_mem k)) f T \<and> t' \<noteq> ?z \<longrightarrow> zone_holds t' m f T"
    "card (zone_free ?z m) + 1 = 4096 * 5 div unat (640 :: u32)"
    by (rule zalloc_stage [OF s f j(1) _ j(2)]) simp
  obtain w where w: "sched_instanciate (Some (unat r)) (this_cpu (k_world k)) (k_world k) = Inr w"
    using sched_instanciate_ok [of "unat r" "this_cpu (k_world k)" "k_world k"] by blast
  have "boot_sched_instanciate k = Inr (k\<lparr>k_mem := (k_mem k)\<lparr>vmst := m\<rparr>, k_world := w\<rparr>)"
    using r(1,2) w by (simp add: boot_sched_instanciate_def kernel_get_current_cpu_def)
  moreover have "boot_stage z ys L n (show_text (ll_text 5) con) (k\<lparr>k_mem := (k_mem k)\<lparr>vmst := m\<rparr>, k_world := w\<rparr>)"
    using r(4) by (simp add: boot_stage_def kern_screen_view)
  moreover have "zone_holds (k_thread_zone k) m f0 (of_nat ` T)" using r(5) t unfolding thread_zone_def by blast
  then have "thread_zone (k_thread_zone k) m T" "card (zone_free (k_thread_zone k) m) = f0" using t(1) by (simp_all add: thread_zone_def)
  ultimately show thesis using r(3,6) w by (intro that [where s = "unat r"]) simp_all
qed

lemma boot_stage_world [simp]: "boot_stage z ys L n con (k\<lparr>k_world := w\<rparr>) = boot_stage z ys L n con k"
  "boot_stage z ys L n con (k\<lparr>k_thread_zone := t\<rparr>) = boot_stage z ys L n con k"
  "boot_stage z ys L n con (k\<lparr>k_sched_zone := t\<rparr>) = boot_stage z ys L n con k"
  "boot_stage z ys L n con (k\<lparr>k_interrupts := i\<rparr>) = boot_stage z ys L n con k"
  by (simp_all add: boot_stage_def kern_screen_def)

definition hey_text :: "u8 list" where
  "hey_text = bytes ''Hey, we need to do more!'' @ [10]"

lemma hey_message:
  assumes "kern_up k"
  shows "\<exists>k'. kern_message (bytes ''Hey, we need to do more!'' @ [10]) [] k = Inr k' \<and> kern_shows k hey_text k'"
proof (rule kern_message_ok [OF assms])
  show "formatted (\<lambda>_. 0) (bytes ''Hey, we need to do more!'' @ [10]) [] = Some hey_text" unfolding hey_text_def by code_simp
qed (simp_all add: hey_text_def bytes_def ch_def)

text \<open>Writing to the terminal leaves the pools alone.\<close>

lemma kmem_ok_term:
  assumes "term_up kt"
  shows "kmem_ok s \<Longrightarrow> kmem_ok (s\<lparr>vm_term := kt\<rparr>)" "kmem_taken (s\<lparr>vm_term := kt\<rparr>) = kmem_taken s"
  using assms
  by (simp_all add: kmem_ok_def kmem_inv_def kmem_layout_def kmem_taken_def kmem_phys_def kmem_addr_def kmem_used_def kmem_rmo_def kmem_ds_def vm_up_def pd_ready_def)

lemma idle_kernel_shows:
  assumes "idle_kernel k" and "kern_shows k out k'"
  shows "idle_kernel k'"
proof -
  define kt where "kt = vm_term (kernel_vm k')"
  have k': "k' = upd_vm (\<lambda>s. s\<lparr>vm_term := kt\<rparr>) k" "term_up kt" using assms(2) by (simp_all add: kern_shows_def kt_def kern_up_def vm_up_def)
  obtain t a b s where i: "first_thread t a b k" "cpu_scheduler (cpus (k_world k) (this_cpu (k_world k))) = Some s"
    "schedulers (k_world k) s = \<lparr>sched_run_decay = sched_prios, sched_idle = Some t, sched_thread_count = 1, sched_lock = 0\<rparr>"
    "sched_rings (k_world k) (run_heads s) (\<lambda>_. [])" "stacks_live (k_mem k) {a, b}"
    "thread_zone (k_thread_zone k) (vmst (k_mem k)) {t}"
    "zone_idle kmem_ok kmem_taken (k_sched_zone k) (vmst (k_mem k)) {of_nat s}" "k_interrupts k" "stack_free (k_mem k) = {}"
    "card (zone_free (k_thread_zone k) (vmst (k_mem k))) = 31" "card (zone_free (k_sched_zone k) (vmst (k_mem k))) = 31"
    using assms(1) unfolding idle_kernel_def by blast
  let ?v = "(kernel_vm k)\<lparr>vm_term := kt\<rparr>"
  have ok: "kmem_ok ?v" "kmem_taken (kernel_vm k) \<subseteq> kmem_taken ?v"
    using kmem_ok_term [OF k'(2)] stacks_live_ok [OF i(5)] by simp_all
  have "stacks_live (k_mem k') {a, b}" unfolding k'(1) upd_vm_def by simp (rule stack_pool_vmst [OF i(5)], use ok in auto)
  moreover have "zone_idle kmem_ok kmem_taken z (vmst (k_mem k')) L" if "zone_idle kmem_ok kmem_taken z (vmst (k_mem k)) L" for z L
    unfolding k'(1) upd_vm_def using that zone_pool_zvm [of kmem_ok kmem_taken z _ L ?v] ok by (simp add: zone_idle_def)
  ultimately have "stacks_live (k_mem k') {a, b} \<and> thread_zone (k_thread_zone k') (vmst (k_mem k')) {t} \<and>
      zone_idle kmem_ok kmem_taken (k_sched_zone k') (vmst (k_mem k')) {of_nat s}"
    using i(6,7) by (simp add: thread_zone_def k'(1) upd_vm_def)
  moreover have "k_world k' = k_world k" "kstacks (k_mem k') = kstacks (k_mem k)" "k_interrupts k' = k_interrupts k"
    "stack_free (k_mem k') = {}" "card (zone_free (k_thread_zone k') (vmst (k_mem k'))) = 31"
    "card (zone_free (k_sched_zone k') (vmst (k_mem k'))) = 31"
    using i(9-11) by (simp_all add: k'(1) upd_vm_def)
  ultimately show ?thesis unfolding idle_kernel_def using i(1-4,8)
    by (intro exI [of _ t] exI [of _ a] exI [of _ b] exI [of _ s]) (simp add: first_thread_def)
qed

text \<open>What \<^verbatim>\<open>main\<close> does behind \<^verbatim>\<open>kernel_cpu_init_stack\<close>, and from \<^verbatim>\<open>sched_init\<close> on.\<close>

definition main_sched :: "nat option \<Rightarrow> kernel \<Rightarrow> kernel run res" where
  "main_sched thread k =
     rbind (boot_sched_init k) (\<lambda>k.
     rbind (boot_sched_instanciate k) (\<lambda>k.
     rbind (boot_set_idle thread k) (\<lambda>k.
     let k = hal_boot_start_int k in
     rbind (kern_message (bytes ''Hey, we need to do more!'' @ [10]) [] k) (\<lambda>k.
     Inr (arch_halt k)))))"

definition main_threads :: "kernel \<Rightarrow> kernel run res" where
  "main_threads k =
     rbind (boot_thread_init k) (\<lambda>k.
     rbind (boot_thread_allocate k) (\<lambda>(thread, k).
     if thread = None then Inl (Panic ''Couldn't allocate the Idle thread!'')
     else rbind (boot_set_current thread k) (main_sched thread)))"

lemma main_sched_ok:
  assumes s: "boot_stage z (d # ys) {a, b} 5 con k" and tz: "thread_zone (k_thread_zone k) (vmst (k_mem k)) {t}"
    and ne: "k_thread_zone k \<noteq> z" "k_thread_zone k \<noteq> d + 4" and on: "first_thread t a b k"
    and free: "stack_free (k_mem k) = {}" "card (zone_free (k_thread_zone k) (vmst (k_mem k))) = 31"
  shows "\<exists>k'. main_sched (Some t) k = Inr (Halted k') \<and> idle_kernel k' \<and> kern_screen k' = show_text (ll_text 5 @ hey_text) con"
proof -
  have sz: "4 < unat sizeof_scheduler" "unat sizeof_scheduler \<le> unat (640 :: u32)" by (simp_all add: sizeof_scheduler_def)
  obtain m1 where m1: "zinit vm_kalloc_ll vm_alloc_critical sizeof_scheduler ZONE_AUTO_REFILL (Some ''Scheduler allocator'') (vmst (k_mem k)) = Inr (d + 4, m1)"
    "boot_stage z ys {a, b} 5 con (k\<lparr>k_mem := (k_mem k)\<lparr>vmst := m1\<rparr>\<rparr>)" "fresh_zone z ys (d + 4) 640 m1"
    "\<forall>t f T. zone_holds t (vmst (k_mem k)) f T \<and> t \<noteq> z \<and> t \<noteq> d + 4 \<longrightarrow> zone_holds t m1 f T"
    by (rule zinit_stage [OF s sz(1) calc_bufsize_objects(2) sz(2)])
  have keep: "zone_holds (k_thread_zone k) m1 31 {of_nat t}" using m1(4) tz ne free(2) unfolding thread_zone_def by fastforce
  define k1 where "k1 = k\<lparr>k_mem := (k_mem k)\<lparr>vmst := m1\<rparr>, k_sched_zone := d + 4\<rparr>"
  have k1: "boot_sched_init k = Inr k1" "boot_stage z ys {a, b} (5 + 0) con k1" "fresh_zone z ys (k_sched_zone k1) 640 (vmst (k_mem k1))"
    "thread_zone (k_thread_zone k1) (vmst (k_mem k1)) {t}" "k_thread_zone k1 \<noteq> k_sched_zone k1"
    "card (zone_free (k_thread_zone k1) (vmst (k_mem k1))) = 31" "stack_free (k_mem k1) = {}"
    using m1(1-3) keep tz ne free by (simp_all add: boot_sched_init_def sched_init_def k1_def thread_zone_def)
  obtain m2 w2 s where m2: "boot_sched_instanciate k1 = Inr (k1\<lparr>k_mem := (k_mem k1)\<lparr>vmst := m2\<rparr>, k_world := w2\<rparr>)"
    "boot_stage z ys {a, b} 0 (show_text (ll_text 5) con) (k1\<lparr>k_mem := (k_mem k1)\<lparr>vmst := m2\<rparr>, k_world := w2\<rparr>)"
    "thread_zone (k_thread_zone k1) m2 {t}" "zone_idle kmem_ok kmem_taken (k_sched_zone k1) m2 {of_nat s}"
    "sched_instanciate (Some s) (this_cpu (k_world k1)) (k_world k1) = Inr w2"
    "card (zone_free (k_thread_zone k1) m2) = 31" "card (zone_free (k_sched_zone k1) m2) = 31"
    by (rule boot_sched_instanciate_ok [OF k1(2-6)])
  have w2: "sched_rings w2 (run_heads s) (\<lambda>_. [])" "cpu_scheduler (cpus w2 (this_cpu w2)) = Some s" "threads w2 = threads (k_world k)"
    "schedulers w2 s = \<lparr>sched_run_decay = sched_prios, sched_idle = None, sched_thread_count = 1, sched_lock = 0\<rparr>"
    using sched_instanciate_ok [of s "this_cpu (k_world k1)" "k_world k1"] m2(5) sched_instanciate_current(2) [OF m2(5)] by (auto simp: k1_def)
  define k2 where "k2 = k1\<lparr>k_mem := (k_mem k1)\<lparr>vmst := m2\<rparr>, k_world := upd_sched s (\<lambda>c. c\<lparr>sched_idle := Some t\<rparr>) w2, k_interrupts := True\<rparr>"
  have k2: "rbind (boot_set_idle (Some t) (k1\<lparr>k_mem := (k_mem k1)\<lparr>vmst := m2\<rparr>, k_world := w2\<rparr>)) (\<lambda>k. Inr (hal_boot_start_int k)) = Inr k2"
    using w2(2) by (simp add: boot_set_idle_def hal_boot_start_int_def sti_def k2_def kernel_get_current_cpu_def)
  have scr: "boot_stage z ys {a, b} 0 (show_text (ll_text 5) con) k2"
    using m2(2) by (simp add: k2_def boot_stage_def kern_screen_def)
  have "sched_rings (k_world k2) (run_heads s) (\<lambda>_. [])" using w2(1) by (simp add: k2_def sched_rings_def upd_sched_def)
  then have idle: "idle_kernel k2"
    unfolding idle_kernel_def using on sched_instanciate_current [OF m2(5)] w2 m2(3,4,6,7) scr free(1)
    by (intro exI [of _ t] exI [of _ a] exI [of _ b] exI [of _ s])
      (simp add: k2_def k1_def first_thread_def boot_stage_def kernel_get_current_thread_def kernel_get_current_cpu_def)
  have "kern_up k2" using scr kmem_ok_up [OF stacks_live_ok] by (auto simp: boot_stage_def kern_up_def)
  then obtain k3 where k3: "kern_message (bytes ''Hey, we need to do more!'' @ [10]) [] k2 = Inr k3" "kern_shows k2 hey_text k3"
    using hey_message by blast
  have "main_sched (Some t) k = Inr (Halted k3)"
    using k1(1) m2(1) k2 k3(1) by (auto simp: main_sched_def Let_def res_inv arch_halt_def)
  moreover have "kern_screen k3 = show_text (ll_text 5 @ hey_text) con"
    using k3(2) scr by (simp add: kern_shows_def boot_stage_def show_text_append)
  ultimately show ?thesis using idle_kernel_shows [OF idle k3(2)] by blast
qed

lemma main_threads_ok:
  assumes s: "boot_stage z (c # d # ys) {} 14 con k" and e: "stacks (k_mem k) = None" and tss: "tss_free k"
  shows "\<exists>k'. main_threads k = Inr (Halted k') \<and> idle_kernel k' \<and>
    kern_screen k' = show_text (ll_text 1 @ ll_text 4 @ ll_text 4 @ ll_text 5 @ hey_text) con"
proof -
  let ?con = "show_text (ll_text 1 @ ll_text 4 @ ll_text 4) con"
  have sz: "4 < unat sizeof_thread" "unat sizeof_thread \<le> unat (128 :: u32)" by (simp_all add: sizeof_thread_def)
  obtain m1 where m1: "zinit vm_kalloc_ll vm_alloc_critical sizeof_thread ZONE_AUTO_REFILL (Some ''threads'') (vmst (k_mem k)) = Inr (c + 4, m1)"
    "boot_stage z (d # ys) {} 14 con (k\<lparr>k_mem := (k_mem k)\<lparr>vmst := m1\<rparr>\<rparr>)" "fresh_zone z (d # ys) (c + 4) 128 m1"
    by (rule zinit_stage [OF s sz(1) calc_bufsize_objects(1) sz(2)])
  define k1 where "k1 = k\<lparr>k_mem := (k_mem k)\<lparr>vmst := m1\<rparr>, k_thread_zone := c + 4\<rparr>"
  have k1: "boot_thread_init k = Inr k1" "boot_stage z (d # ys) {} (9 + 5) con k1"
    "fresh_zone z (d # ys) (k_thread_zone k1) 128 (vmst (k_mem k1))" "stacks (k_mem k1) = None"
    using m1 e by (simp_all add: boot_thread_init_def thread_init_def k1_def)
  obtain t a b m w where t: "boot_thread_allocate k1 = Inr (Some t, k1\<lparr>k_mem := m, k_world := w\<rparr>)"
    "boot_stage z (d # ys) {b, a} 5 ?con (k1\<lparr>k_mem := m, k_world := w\<rparr>)"
    "a \<noteq> b" "thread_zone (k_thread_zone k1) (vmst m) {t}" "t_istobjs (threads w t) = [Some a, Some b]"
    "t_istacks (threads w t) = [st_sp (kstacks m a), st_sp (kstacks m b)]" "t_storage (threads w t) ! 0 = st_sp (kstacks m a)" "new_thread (threads w t)"
    "cpus w = cpus (k_world k1)" "this_cpu w = this_cpu (k_world k1)" "stack_free m = {}"
    "card (zone_free (k_thread_zone k1) (vmst m)) = 31"
    by (rule boot_thread_allocate_ok [OF k1(2-4)])
  have free: "\<not> cpu_tss_busy (cpus w (this_cpu w))" using tss t(9,10) by (simp add: k1_def)
  obtain w2 where w2: "kernel_set_current_thread (Some t) w = Inr w2" "kernel_get_current_thread w2 = Some t"
    "CPU_LOCAL_TLS (cpus w2 (this_cpu w)) = Some t" "esp0 (cpu_tss (cpus w2 (this_cpu w))) = t_storage (threads w t) ! 0"
    "threads w2 = (threads w)(t := (threads w t)\<lparr>t_current_cpu := Some (this_cpu w)\<rparr>)" "this_cpu w2 = this_cpu w"
    "cpu_tss_busy (cpus w2 (this_cpu w))"
    using set_current_ok [OF free, of t] by blast
  define k2 where "k2 = k1\<lparr>k_mem := m, k_world := w2\<rparr>"
  have "boot_stage z (d # ys) {a, b} 5 ?con k2" using t(2) by (simp add: k2_def insert_commute)
  moreover have "first_thread t a b k2" using w2 t(3,5-8) by (simp add: first_thread_def k2_def new_thread_def)
  moreover have "k_thread_zone k2 \<noteq> z" "k_thread_zone k2 \<noteq> d + 4" using m1(3) by (auto simp: fresh_zone_def k2_def k1_def)
  moreover have "thread_zone (k_thread_zone k2) (vmst (k_mem k2)) {t}" "stack_free (k_mem k2) = {}"
    "card (zone_free (k_thread_zone k2) (vmst (k_mem k2))) = 31" using t(4,11,12) by (simp_all add: k2_def)
  ultimately obtain k' where k': "main_sched (Some t) k2 = Inr (Halted k')" "idle_kernel k'" "kern_screen k' = show_text (ll_text 5 @ hey_text) ?con"
    using main_sched_ok by blast
  have "boot_set_current (Some t) (k1\<lparr>k_mem := m, k_world := w\<rparr>) = Inr k2" using w2(1) by (simp add: boot_set_current_def k2_def)
  then have "main_threads k = Inr (Halted k')" using k1(1) t(1) k'(1) by (simp add: main_threads_def)
  then show ?thesis using k'(2,3) by (simp add: show_text_append)
qed

section \<open>The whole run\<close>

text \<open>Up to the page allocator, as every stage but the first starts.\<close>

lemma boot_prefix:
  assumes st: "static_state im k" and m: "memory_reported im n" "252 \<le> n"
    and s: "k_slice k = i686_init_memory (kernel_end im) (multiboot_memdata im) slice_static"
  obtains k' where "boot_initmem im (boot_term (boot_stacks k)) = Inr k'" "boot_phys (vm_phys (kernel_vm k'))"
    "n \<le> card (page_pool (vm_phys (kernel_vm k')) - allocated (vm_phys (kernel_vm k')))" "kern_up k'" "kern_screen k' = first_screen k"
    "k_slice k' = k_slice k" "k_bmas k' = at_bmas im" "stacks (k_mem k') = None" "stacks_sl (k_mem k') = 0" "k_world k' = k_world k"
    "mmu_ok (vm_mmu (kernel_vm k'))" "window_free (vm_mmu (kernel_vm k'))" "length (ds_pages (dss (kernel_vm k') 0)) = 130"
    "zn_memtype (zones (vmst (k_mem k')) (at_zone_zone im)) = 0" "\<forall>y. zn_count (zones (vmst (k_mem k')) y) = 0"
proof -
  let ?k = "boot_term (boot_stacks k)"
  have pre: "k_slice ?k = i686_init_memory (kernel_end im) (multiboot_memdata im) slice_static" "vm_phys (kernel_vm ?k) = phys_static"
    using s st by (simp_all add: boot_term_def boot_stacks_def upd_vm_def kernel_stacks_init_def static_state_def)
  obtain p where p: "boot_initmem im ?k = Inr ((upd_vm (\<lambda>s. s\<lparr>vm_phys := p\<rparr>) ?k)\<lparr>k_bmas := at_bmas im\<rparr>)" "boot_phys p"
    "n \<le> card (page_pool p - allocated p)" by (rule boot_initmem_ok [OF m pre])
  have "term_up (kterm_init (vm_term (kernel_vm k)))" using st by (simp add: kterm_init_up static_state_def)
  then show thesis
    by (intro that [OF p(1)]) (use p(2,3) st in \<open>simp_all add: boot_term_def boot_stacks_def upd_vm_def kernel_stacks_init_def
      static_state_def kern_up_def vm_up_def kern_screen_def first_screen_def\<close>)
qed

text \<open>Virtual memory and the stack of the CPU.\<close>

lemma vm_cpu_stage:
  assumes i: "image_ok im" and p: "boot_phys (vm_phys (kernel_vm k))" "270 \<le> card (page_pool (vm_phys (kernel_vm k)) - allocated (vm_phys (kernel_vm k)))"
    and u: "kern_up k" and mm: "mmu_ok (vm_mmu (kernel_vm k))" "window_free (vm_mmu (kernel_vm k))"
    and ds: "length (ds_pages (dss (kernel_vm k) 0)) = 130"
    and z: "zn_memtype (zones (vmst (k_mem k)) (at_zone_zone im)) = 0" "\<forall>y. zn_count (zones (vmst (k_mem k)) y) = 0"
    and st: "stacks (k_mem k) = None" "stacks_sl (k_mem k) = 0"
  obtains k' ys where "rbind (boot_vm im k) boot_cpu_stack = Inr k'" "length ys = 2048" "stacks (k_mem k') = None" "k_slice k' = k_slice k" "kern_up k'" "k_world k' = k_world k"
    "boot_stage (at_zone_zone im) ys {} 14 (show_text (capacity_text @ ll_text 4) (kern_screen k)) k'"
proof -
  have n: "252 + 18 \<le> card (page_pool (vm_phys (kernel_vm k)) - allocated (vm_phys (kernel_vm k)))" "(18 :: nat) \<le> 128" using p(2) by simp_all
  obtain m1 ys where m1: "boot_vm im k = Inr (k\<lparr>k_mem := (k_mem k)\<lparr>vmst := m1\<rparr>\<rparr>)" "length ys = 2048"
    "boot_stage (at_zone_zone im) ys {} 18 (show_text capacity_text (kern_screen k)) (k\<lparr>k_mem := (k_mem k)\<lparr>vmst := m1\<rparr>\<rparr>)"
    by (rule vm_init_stage [OF i p(1) n u mm ds z st])
  define k1 where "k1 = k\<lparr>k_mem := (k_mem k)\<lparr>vmst := m1\<rparr>\<rparr>"
  have s1: "boot_stage (at_zone_zone im) ys {} (4 + 14) (show_text capacity_text (kern_screen k)) k1" using m1(3) by (simp add: k1_def)
  obtain sp m2 where m2: "boot_cpu_stack k1 = Inr (k1\<lparr>k_mem := m2, k_cpu_stack := sp\<rparr>)"
    "boot_stage (at_zone_zone im) ys {} 14 (show_text (ll_text 4) (show_text capacity_text (kern_screen k))) (k1\<lparr>k_mem := m2, k_cpu_stack := sp\<rparr>)"
    "stacks m2 = stacks (k_mem k1)" by (rule boot_cpu_stack_ok [OF s1])
  have "kern_up (k1\<lparr>k_mem := m2, k_cpu_stack := sp\<rparr>)" using m2(2) kmem_ok_up [OF stacks_live_ok] by (auto simp: boot_stage_def kern_up_def)
  then show thesis using m1(1,2) m2 st(1) by (intro that [of "k1\<lparr>k_mem := m2, k_cpu_stack := sp\<rparr>" ys]) (simp_all add: k1_def show_text_append)
qed

lemma main_ok:
  assumes i: "image_ok im" and st: "static_state im k" and m: "memory_reported im 270"
    and s: "k_slice k = i686_init_memory (kernel_end im) (multiboot_memdata im) slice_static"
    and tss: "tss_free k"
  shows "\<exists>k'. main im k = Inr (Halted k') \<and> idle_kernel k' \<and>
    kern_screen k' = show_text (capacity_text @ ll_text 4 @ ll_text 1 @ ll_text 4 @ ll_text 4 @ ll_text 5 @ hey_text) (first_screen k)"
proof -
  obtain k1 where k1: "boot_initmem im (boot_term (boot_stacks k)) = Inr k1" "boot_phys (vm_phys (kernel_vm k1))"
    "270 \<le> card (page_pool (vm_phys (kernel_vm k1)) - allocated (vm_phys (kernel_vm k1)))" "kern_up k1" "kern_screen k1 = first_screen k"
    "stacks (k_mem k1) = None" "stacks_sl (k_mem k1) = 0" "mmu_ok (vm_mmu (kernel_vm k1))" "window_free (vm_mmu (kernel_vm k1))"
    "length (ds_pages (dss (kernel_vm k1) 0)) = 130" "zn_memtype (zones (vmst (k_mem k1)) (at_zone_zone im)) = 0"
    "\<forall>y. zn_count (zones (vmst (k_mem k1)) y) = 0" "k_world k1 = k_world k"
    by (rule boot_prefix [OF st m _ s]) simp
  obtain k2 ys where k2: "rbind (boot_vm im k1) boot_cpu_stack = Inr k2" "length ys = 2048" "stacks (k_mem k2) = None"
    "boot_stage (at_zone_zone im) ys {} 14 (show_text (capacity_text @ ll_text 4) (kern_screen k1)) k2"
    "k_world k2 = k_world k1"
    by (rule vm_cpu_stage [OF i k1(2,3,4,8,9,10,11,12,6,7)])
  obtain c d ys' where ys: "ys = c # d # ys'" using k2(2) by (cases ys; cases "tl ys") auto
  obtain k' where k': "main_threads k2 = Inr (Halted k')" "idle_kernel k'"
    "kern_screen k' = show_text (ll_text 1 @ ll_text 4 @ ll_text 4 @ ll_text 5 @ hey_text) (show_text (capacity_text @ ll_text 4) (kern_screen k1))"
    using main_threads_ok [OF k2(4) [unfolded ys] k2(3)] tss k1(13) k2(5) by auto
  have "main im k = rbind (boot_initmem im (boot_term (boot_stacks k))) (\<lambda>k. rbind (boot_vm im k) (\<lambda>k. rbind (boot_cpu_stack k) main_threads))"
    unfolding main_def main_threads_def [abs_def] main_sched_def [abs_def] Let_def ..
  then have "main im k = Inr (Halted k')" using k1(1) k2(1) k'(1) by (auto simp: res_inv)
  then show ?thesis using k'(2,3) k1(5) by (simp add: show_text_append)
qed

text \<open>The stages of a port that is not complete.\<close>

lemma phys_inv_shown: "phys_inv p \<Longrightarrow> maps_shown p"
proof -
  assume "phys_inv p"
  then have m: "length (prealloc_pbma_ptr p) = NNUMBER" "length (prealloc_pbma p) = NNUMBER" "unat (pmb_n_maps p) \<le> NNUMBER"
    "\<forall>i<unat (pmb_n_maps p). prealloc_pbma_ptr p ! i = Some i"
    "\<forall>i<unat (pmb_n_maps p). unat (pm_begin (pmb_range (prealloc_pbma p ! i))) + pm_len (prealloc_pbma p ! i) * 4096
        \<le> unat (pm_end (pmb_range (prealloc_pbma p ! i)))"
    by (simp_all add: phys_inv_def maps_ok_def)
  have "unat (pmb_length (prealloc_pbma p ! i)) < 2147483648" if "i < unat (pmb_n_maps p)" for i
    using m(5) that unat_u32_lt [of "pm_end (pmb_range (prealloc_pbma p ! i))"] unfolding pm_len_def by fastforce
  moreover have "NNUMBER < 2147483648" by (simp add: NNUMBER_def)
  ultimately show ?thesis using m(1-4) by (simp add: maps_shown_def)
qed

text \<open>What the stages \<^verbatim>\<open>platform_CPU_PTR\<close> and \<^verbatim>\<open>platform_MMU\<close> show.\<close>

definition stage_text :: "int \<Rightarrow> image \<Rightarrow> kernslice \<Rightarrow> phys_state \<Rightarrow> u8 list" where
  "stage_text caps im sl p =
     (if caps = platform_INTERRUPTS then capacity_text @ ll_text 4 @ ll_text 1 @ ll_text 4 @ ll_text 4 @ ll_text 5 @ hey_text
      else if caps = platform_MMU then printmem_text im p @ capacity_text @ ll_text 4 @ alive_text im (at_cpu im) sl
      else if caps = platform_CPU_PTR then printmem_text im p @ alive_text im (at_cpu im) sl
      else alive_text im (at_cpu im) sl)"

lemma printmem_stage:
  assumes st: "static_state im k" and m: "memory_reported im n" "252 \<le> n" and b: "at_bmas im \<noteq> 0"
    and s: "k_slice k = i686_init_memory (kernel_end im) (multiboot_memdata im) slice_static"
  obtains k1 k2 where "boot_initmem im (boot_term (boot_stacks k)) = Inr k1" "kern_printmem im k1 = Inr k2"
    "kern_shows k1 (printmem_text im (vm_phys (kernel_vm k1))) k2" "kern_screen k1 = first_screen k" "k_slice k2 = k_slice k"
    "boot_phys (vm_phys (kernel_vm k2))" "n \<le> card (page_pool (vm_phys (kernel_vm k2)) - allocated (vm_phys (kernel_vm k2)))" "kern_up k2"
    "mmu_ok (vm_mmu (kernel_vm k2))" "window_free (vm_mmu (kernel_vm k2))" "length (ds_pages (dss (kernel_vm k2) 0)) = 130"
    "zn_memtype (zones (vmst (k_mem k2)) (at_zone_zone im)) = 0" "\<forall>y. zn_count (zones (vmst (k_mem k2)) y) = 0"
    "stacks (k_mem k2) = None" "stacks_sl (k_mem k2) = 0"
    "kern_initmem (k_slice k) phys_static = Inr (vm_phys (kernel_vm k1))"
proof -
  obtain k1 where k1: "boot_initmem im (boot_term (boot_stacks k)) = Inr k1" "boot_phys (vm_phys (kernel_vm k1))"
    "n \<le> card (page_pool (vm_phys (kernel_vm k1)) - allocated (vm_phys (kernel_vm k1)))" "kern_up k1" "kern_screen k1 = first_screen k"
    "k_slice k1 = k_slice k" "k_bmas k1 = at_bmas im" "stacks (k_mem k1) = None" "stacks_sl (k_mem k1) = 0"
    "mmu_ok (vm_mmu (kernel_vm k1))" "window_free (vm_mmu (kernel_vm k1))" "length (ds_pages (dss (kernel_vm k1) 0)) = 130"
    "zn_memtype (zones (vmst (k_mem k1)) (at_zone_zone im)) = 0" "\<forall>y. zn_count (zones (vmst (k_mem k1)) y) = 0"
    by (rule boot_prefix [OF st m s])
  have ms: "maps_shown (vm_phys (kernel_vm k1))" using k1(2) by (intro phys_inv_shown) (simp add: boot_phys_def)
  obtain k2 where k2: "kern_printmem im k1 = Inr k2" "kern_shows k1 (printmem_text im (vm_phys (kernel_vm k1))) k2"
    using kern_printmem_ok [OF k1(4,7) b ms] by blast
  define kt where "kt = vm_term (kernel_vm k2)"
  have e: "k2 = upd_vm (\<lambda>s. s\<lparr>vm_term := kt\<rparr>) k1" "kern_up k2" using k2(2) by (simp_all add: kern_shows_def kt_def)
  have "k_slice (boot_term (boot_stacks k)) = k_slice k" "vm_phys (kernel_vm (boot_term (boot_stacks k))) = phys_static"
    using st by (simp_all add: boot_term_def boot_stacks_def kernel_stacks_init_def static_state_def)
  then have "kern_initmem (k_slice k) phys_static = Inr (vm_phys (kernel_vm k1))"
    using k1(1) by (auto simp: boot_initmem_def res_inv upd_vm_def)
  then show thesis using k1 e(2) by (intro that [OF k1(1) k2 k1(5)]) (simp_all add: e(1) upd_vm_def)
qed

lemma kernel_main_ok:
  assumes i: "image_ok im" "at_bmas im \<noteq> 0" and st: "static_state im k" and m: "memory_reported im 270"
    and s: "k_slice k = i686_init_memory (kernel_end im) (multiboot_memdata im) slice_static" and c: "caps \<in> {0..4}"
    and tss: "tss_free k"
  shows "\<exists>k' p. kernel_main caps im k = Inr (Halted k') \<and> kern_initmem (k_slice k) phys_static = Inr p \<and>
    kern_screen k' = show_text (stage_text caps im (k_slice k) p) (first_screen k)"
proof -
  have sl: "unat (ks_num_memory_ranges (k_slice k)) \<le> length (ks_memory_ranges (k_slice k))"
      "length (ks_memory_ranges (k_slice k)) < 4294967296"
    using boot_ranges(1) [of "kernel_end im" "multiboot_memdata im"] m s by (simp_all add: memory_reported_def)
  obtain k1 k2 where k2: "boot_initmem im (boot_term (boot_stacks k)) = Inr k1" "kern_printmem im k1 = Inr k2"
    "kern_shows k1 (printmem_text im (vm_phys (kernel_vm k1))) k2" "kern_screen k1 = first_screen k" "k_slice k2 = k_slice k"
    "boot_phys (vm_phys (kernel_vm k2))" "270 \<le> card (page_pool (vm_phys (kernel_vm k2)) - allocated (vm_phys (kernel_vm k2)))" "kern_up k2"
    "mmu_ok (vm_mmu (kernel_vm k2))" "window_free (vm_mmu (kernel_vm k2))" "length (ds_pages (dss (kernel_vm k2) 0)) = 130"
    "zn_memtype (zones (vmst (k_mem k2)) (at_zone_zone im)) = 0" "\<forall>y. zn_count (zones (vmst (k_mem k2)) y) = 0"
    "stacks (k_mem k2) = None" "stacks_sl (k_mem k2) = 0" "kern_initmem (k_slice k) phys_static = Inr (vm_phys (kernel_vm k1))"
    by (rule printmem_stage [OF st m _ i(2) s]) simp
  let ?p = "vm_phys (kernel_vm k1)"
  have scr2: "kern_screen k2 = show_text (printmem_text im ?p) (first_screen k)" using k2(3,4) by (simp add: kern_shows_def)
  have alive: "\<exists>k'. kern_prove_alive im (at_cpu im) q = Inr (Halted k') \<and>
      kern_screen k' = show_text (alive_text im (at_cpu im) (k_slice k)) (kern_screen q)" if "kern_up q" "k_slice q = k_slice k" for q
    using kern_prove_alive_ok [OF that(1), of im "at_cpu im"] sl that(2) by (auto simp: kern_shows_def)
  have low: "\<exists>k'. kern_prove_alive im (at_cpu im) (boot_term k) = Inr (Halted k') \<and>
      kern_screen k' = show_text (alive_text im (at_cpu im) (k_slice k)) (first_screen k)"
    using alive [of "boot_term k"] st kterm_init_up [of "vm_term (kernel_vm k)"]
    by (simp add: boot_term_def kern_up_def vm_up_def static_state_def kern_screen_def first_screen_def)
  obtain k3 ys where k3: "rbind (boot_vm im k2) boot_cpu_stack = Inr k3" "k_slice k3 = k_slice k2" "kern_up k3"
    "boot_stage (at_zone_zone im) ys {} 14 (show_text (capacity_text @ ll_text 4) (kern_screen k2)) k3"
    by (rule vm_cpu_stage [OF i(1) k2(6-15)])
  have scr3: "kern_screen k3 = show_text (capacity_text @ ll_text 4) (kern_screen k2)" "k_slice k3 = k_slice k"
    using k3(2,4) k2(5) by (simp_all add: boot_stage_def)
  consider "caps = platform_INTERRUPTS" | "caps = platform_MMU" | "caps = platform_CPU_PTR" | "caps = platform_ALIVE \<or> caps = platform_HIGHER_HALF"
    using c by (fastforce simp: platform_stages)
  then show ?thesis
  proof cases
    case 1
    then show ?thesis using main_ok [OF i(1) st m s tss] k2(16) by (auto simp: kernel_main_def stage_text_def)
  next
    case 2
    obtain k' where "kern_prove_alive im (at_cpu im) k3 = Inr (Halted k')"
      "kern_screen k' = show_text (alive_text im (at_cpu im) (k_slice k)) (kern_screen k3)" using alive [OF k3(3) scr3(2)] by blast
    then show ?thesis using 2 k2(1,2,16) k3(1) scr2 scr3(1)
      by (auto simp: kernel_main_def stage_text_def platform_stages res_inv show_text_append)
  next
    case 3
    obtain k' where "kern_prove_alive im (at_cpu im) k2 = Inr (Halted k')"
      "kern_screen k' = show_text (alive_text im (at_cpu im) (k_slice k)) (kern_screen k2)" using alive [OF k2(8,5)] by blast
    then show ?thesis using 3 k2(1,2,16) scr2 by (auto simp: kernel_main_def stage_text_def platform_stages show_text_append)
  next
    case 4
    then show ?thesis using low k2(16) by (auto simp: kernel_main_def stage_text_def platform_stages)
  qed
qed

end
