(* ===== verification/I686_Context.thy ===== *)
theory I686_Context
  imports Field_Invariant Kernel_Main
begin

text \<open>
  The way into the kernel and between threads: the trap vectors of \<open>arch/i686/intvec.s\<close> (as generated by
  \<open>intvec.rb\<close>), \<^verbatim>\<open>__i686_isr\<close> of \<open>arch/i686/interrupt.s\<close>, \<^verbatim>\<open>__i686_switch\<close> of
  \<open>arch/i686/switch.s\<close> and \<^verbatim>\<open>struct trapframe\<close>, around the C functions
  \<^verbatim>\<open>__i686_interrupt\<close> and \<^verbatim>\<open>sched_preempt\<close>.

  \<open>cpu_context\<close> holds the registers and the memory of the stacks, by words: all stack pointers are
  multiples of four. Every instruction is one function on it, so a routine is the list of its instructions. What the
  compiler makes of a C function is not in the sources: what it does to registers and stack is a parameter
  (\<open>c_code\<close>), bound by the calling convention (\<open>c_abi\<close>); what it does to the kernel's data is the
  model of the function. The storage of a thread (\<^verbatim>\<open>t_storage\<close>) and the words of the CPU's private segment
  are in the state of the kernel.
\<close>

section \<open>Registers and stack\<close>

record cpu_context =
  r_eax :: u32
  r_ecx :: u32
  r_edx :: u32
  r_ebx :: u32
  r_esp :: u32
  r_ebp :: u32
  r_esi :: u32
  r_edi :: u32
  r_ds :: u16
  r_es :: u16
  r_fs :: u16
  r_gs :: u16
  r_cs :: u16
  r_ss :: u16
  r_eip :: u32
  r_eflags :: u32
  words :: "u32 \<Rightarrow> u32"

definition pushl :: "u32 \<Rightarrow> cpu_context \<Rightarrow> cpu_context" where
  "pushl v c = c\<lparr>r_esp := r_esp c - 4, words := (words c)(r_esp c - 4 := v)\<rparr>"

definition stack_top :: "cpu_context \<Rightarrow> u32" where
  "stack_top c = words c (r_esp c)"

definition addl_esp :: "u32 \<Rightarrow> cpu_context \<Rightarrow> cpu_context" where
  "addl_esp n c = c\<lparr>r_esp := r_esp c + n\<rparr>"

text \<open>\<open>reg v\<close> puts the word into the register that is named.\<close>

definition popl :: "(u32 \<Rightarrow> cpu_context \<Rightarrow> cpu_context) \<Rightarrow> cpu_context \<Rightarrow> cpu_context" where
  "popl reg c = addl_esp 4 (reg (stack_top c) c)"

definition ret :: "cpu_context \<Rightarrow> cpu_context" where
  "ret c = popl (\<lambda>v c. c\<lparr>r_eip := v\<rparr>) c"

definition pushal :: "cpu_context \<Rightarrow> cpu_context" where
  "pushal c =
     (let sp = r_esp c;
          c = pushl (r_eax c) c;
          c = pushl (r_ecx c) c;
          c = pushl (r_edx c) c;
          c = pushl (r_ebx c) c;
          c = pushl sp c;
          c = pushl (r_ebp c) c;
          c = pushl (r_esi c) c
      in pushl (r_edi c) c)"

definition popal :: "cpu_context \<Rightarrow> cpu_context" where
  "popal c =
     (let c = popl (\<lambda>v c. c\<lparr>r_edi := v\<rparr>) c;
          c = popl (\<lambda>v c. c\<lparr>r_esi := v\<rparr>) c;
          c = popl (\<lambda>v c. c\<lparr>r_ebp := v\<rparr>) c;
          c = addl_esp 4 c;
          c = popl (\<lambda>v c. c\<lparr>r_ebx := v\<rparr>) c;
          c = popl (\<lambda>v c. c\<lparr>r_edx := v\<rparr>) c;
          c = popl (\<lambda>v c. c\<lparr>r_ecx := v\<rparr>) c
      in popl (\<lambda>v c. c\<lparr>r_eax := v\<rparr>) c)"

text \<open>The low half of \<^verbatim>\<open>%eax\<close>, through which the segment registers are loaded.\<close>

definition movw_ax :: "u16 \<Rightarrow> cpu_context \<Rightarrow> cpu_context" where
  "movw_ax v c = c\<lparr>r_eax := (r_eax c AND NOT (mask 16)) OR ucast v\<rparr>"

definition reg_ax :: "cpu_context \<Rightarrow> u16" where
  "reg_ax c = ucast (r_eax c)"

section \<open>The processor\<close>

text \<open>Taking an interrupt through a gate to kernel code: a stack switch when it comes from user code, then flags, code
  segment, instruction pointer and, for some exceptions, an error code are pushed; an interrupt gate masks interrupts.\<close>

definition cpu_deliver :: "gatedesc \<Rightarrow> taskstate \<Rightarrow> u32 option \<Rightarrow> cpu_context \<Rightarrow> cpu_context" where
  "cpu_deliver gate tss err c0 =
     (let c = (if r_cs c0 AND 3 = 0 then c0
               else pushl (r_esp c0) (pushl (ucast (r_ss c0)) (c0\<lparr>r_esp := esp0 tss, r_ss := ss0 tss\<rparr>)));
          c = pushl (r_eflags c0) c;
          c = pushl (ucast (r_cs c0)) c;
          c = pushl (r_eip c0) c;
          c = (case err of None \<Rightarrow> c | Some e \<Rightarrow> pushl e c)
      in c\<lparr>r_cs := gate_cs gate, r_eip := gate_offset gate,
           r_eflags := r_eflags c0 AND NOT (if gate_type gate = STS_IG32 then 0x34300 else 0x34100)\<rparr>)"

text \<open>The return takes the selectors as they are: the processor's checks of a selector against the descriptor table, and of the privilege
  levels, are not part of it. The selectors on the stack are those the interrupted code ran with. Nothing in \<open>hal.c\<close> reloads the segment registers after the table
  of the kernel is loaded, so that the boot loader's have to be valid in it, as they are with the documented start by
  \<^verbatim>\<open>qemu -kernel\<close>.\<close>

definition iret :: "cpu_context \<Rightarrow> cpu_context" where
  "iret c =
     (let c = popl (\<lambda>v c. c\<lparr>r_eip := v\<rparr>) c;
          c = popl (\<lambda>v c. c\<lparr>r_cs := ucast v\<rparr>) c;
          c = popl (\<lambda>v c. c\<lparr>r_eflags := v\<rparr>) c
      in if r_cs c AND 3 = 0 then c
         else c\<lparr>r_esp := stack_top c, r_ss := ucast (words c (r_esp c + 4))\<rparr>)"

section \<open>The trap frame (trapframe.h)\<close>

record trapframe =
  tf_edi :: u32
  tf_esi :: u32
  tf_ebp :: u32
  tf_oesp :: u32
  tf_ebx :: u32
  tf_edx :: u32
  tf_ecx :: u32
  tf_eax :: u32
  tf_gs :: u16
  tf_fs :: u16
  tf_es :: u16
  tf_ds :: u16
  tf_trapno :: u32
  tf_err :: u32
  tf_eip :: u32
  tf_cs :: u16
  tf_eflags :: u32
  tf_esp :: u32
  tf_ss :: u16

text \<open>The structure at an address: 32-bit fields in order, each 16-bit field followed by its padding.\<close>

definition trapframe_at :: "(u32 \<Rightarrow> u32) \<Rightarrow> u32 \<Rightarrow> trapframe" where
  "trapframe_at m p =
     \<lparr>tf_edi = m p, tf_esi = m (p + 4), tf_ebp = m (p + 8), tf_oesp = m (p + 12), tf_ebx = m (p + 16),
      tf_edx = m (p + 20), tf_ecx = m (p + 24), tf_eax = m (p + 28),
      tf_gs = ucast (m (p + 32)), tf_fs = ucast (m (p + 36)), tf_es = ucast (m (p + 40)), tf_ds = ucast (m (p + 44)),
      tf_trapno = m (p + 48), tf_err = m (p + 52), tf_eip = m (p + 56), tf_cs = ucast (m (p + 60)),
      tf_eflags = m (p + 64), tf_esp = m (p + 68), tf_ss = ucast (m (p + 72))\<rparr>"

section \<open>Into and out of the kernel (intvec.s, interrupt.s)\<close>

definition has_error_code :: "nat \<Rightarrow> bool" where
  "has_error_code v \<longleftrightarrow> v = 8 \<or> v = 17 \<or> v = 30 \<or> 10 \<le> v \<and> v \<le> 14"

definition i686_vector :: "nat \<Rightarrow> cpu_context \<Rightarrow> cpu_context" where
  "i686_vector v c = (let c = (if has_error_code v then c else pushl 0 c) in pushl (of_nat v) c)"

text \<open>\<^verbatim>\<open>__i686_isr\<close> up to its call, and behind it.\<close>

definition i686_isr_enter :: "cpu_context \<Rightarrow> cpu_context" where
  "i686_isr_enter c =
     (let c = pushl (ucast (r_ds c)) c;
          c = pushl (ucast (r_es c)) c;
          c = pushl (ucast (r_fs c)) c;
          c = pushl (ucast (r_gs c)) c;
          c = pushal c;
          c = movw_ax 16 c;
          c = c\<lparr>r_ds := reg_ax c\<rparr>;
          c = c\<lparr>r_es := reg_ax c\<rparr>;
          c = movw_ax 24 c;
          c = c\<lparr>r_fs := reg_ax c\<rparr>;
          c = c\<lparr>r_gs := reg_ax c\<rparr>
      in pushl (r_esp c) c)"

definition i686_isr_leave :: "cpu_context \<Rightarrow> cpu_context" where
  "i686_isr_leave c =
     (let c = addl_esp 4 c;
          c = popal c;
          c = popl (\<lambda>v c. c\<lparr>r_gs := ucast v\<rparr>) c;
          c = popl (\<lambda>v c. c\<lparr>r_fs := ucast v\<rparr>) c;
          c = popl (\<lambda>v c. c\<lparr>r_es := ucast v\<rparr>) c;
          c = popl (\<lambda>v c. c\<lparr>r_ds := ucast v\<rparr>) c;
          c = addl_esp 8 c
      in iret c)"

section \<open>Between threads (switch.s)\<close>

abbreviation cpu_tls :: "world \<Rightarrow> nat option" where
  "cpu_tls w \<equiv> CPU_LOCAL_TLS (cpus w (this_cpu w))"

text \<open>The address of the storage of a thread: it follows the ring node and the pointer to the CPU.\<close>

definition storage_address :: "nat \<Rightarrow> u32" where
  "storage_address t = of_nat t + 16"

text \<open>\<^verbatim>\<open>THREAD_LOCAL_CONTEXT\<close> is the second word of the storage.\<close>

definition store_context :: "nat \<Rightarrow> u32 \<Rightarrow> world \<Rightarrow> world" where
  "store_context t sp w = w\<lparr>threads := (threads w)(t := (threads w t)\<lparr>t_storage := (t_storage (threads w t))[1 := sp]\<rparr>)\<rparr>"

text \<open>\<open>cpu_stack\<close> is \<^verbatim>\<open>CPU_LOCAL_STACK\<close>,
  the third word of the CPU's private segment; \<open>ra\<close> is the address behind the call.\<close>

definition i686_switch_save :: "nat \<Rightarrow> u32 \<Rightarrow> u32 \<Rightarrow> cpu_context \<times> world \<Rightarrow> cpu_context \<times> world" where
  "i686_switch_save t cpu_stack ra = (\<lambda>(c, w).
     let c = pushl (r_ebp c) c;
         c = pushl (r_ebx c) c;
         c = pushl (r_esi c) c;
         c = pushl (r_edi c) c;
         c = c\<lparr>r_eax := storage_address t\<rparr>;
         w = store_context t (r_esp c) w;
         c = c\<lparr>r_esp := cpu_stack\<rparr>
     in (pushl ra c, w))"

definition i686_switch_load :: "nat \<Rightarrow> cpu_context \<times> world \<Rightarrow> cpu_context" where
  "i686_switch_load t = (\<lambda>(c, w).
     let c = c\<lparr>r_eax := storage_address t\<rparr>;
         c = c\<lparr>r_esp := t_storage (threads w t) ! 1\<rparr>;
         c = popl (\<lambda>v c. c\<lparr>r_edi := v\<rparr>) c;
         c = popl (\<lambda>v c. c\<lparr>r_esi := v\<rparr>) c;
         c = popl (\<lambda>v c. c\<lparr>r_ebx := v\<rparr>) c;
         c = popl (\<lambda>v c. c\<lparr>r_ebp := v\<rparr>) c
     in ret c)"

definition i686_switch ::
  "nat \<Rightarrow> (cpu_context \<Rightarrow> cpu_context) \<Rightarrow> u32 \<Rightarrow> u32 \<Rightarrow> cpu_context \<times> world \<Rightarrow> (cpu_context \<times> world) res" where
  "i686_switch fuel preempt cpu_stack ra cw =
     rbind (deref (cpu_tls (snd cw))) (\<lambda>t.
     let (c, w) = i686_switch_save t cpu_stack ra cw in
     rbind (sched_preempt fuel w) (\<lambda>w.
     let c = preempt c in
     rbind (deref (cpu_tls w)) (\<lambda>u. Inr (i686_switch_load u (c, w), w))))"

section \<open>C code on the stack\<close>

text \<open>The System V calling convention: a function returns to the address on top of the stack, with that word popped
  and the registers \<^verbatim>\<open>%ebx\<close>, \<^verbatim>\<open>%esi\<close>, \<^verbatim>\<open>%edi\<close>, \<^verbatim>\<open>%ebp\<close> and the segments as they were; of the stack it
  changes words in \<open>R\<close> only.\<close>

definition c_returns :: "u32 set \<Rightarrow> cpu_context \<Rightarrow> cpu_context \<Rightarrow> bool" where
  "c_returns R c c' \<longleftrightarrow> r_ebx c' = r_ebx c \<and> r_esi c' = r_esi c \<and> r_edi c' = r_edi c \<and> r_ebp c' = r_ebp c \<and>
     r_esp c' = r_esp c + 4 \<and> r_eip c' = stack_top c \<and>
     r_ds c' = r_ds c \<and> r_es c' = r_es c \<and> r_fs c' = r_fs c \<and> r_gs c' = r_gs c \<and> r_cs c' = r_cs c \<and> r_ss c' = r_ss c \<and>
     (\<forall>a. a \<notin> R \<longrightarrow> words c' a = words c a)"

text \<open>The words from \<open>d\<close> bytes below an address to \<open>n\<close> bytes above it.\<close>

definition stack_range :: "u32 \<Rightarrow> nat \<Rightarrow> nat \<Rightarrow> u32 set" where
  "stack_range p d n = {a. unat p \<le> unat a + d \<and> unat a < unat p + n}"

text \<open>The compiled functions: \<^verbatim>\<open>__i686_interrupt\<close> from its entry to its return when it does not switch, from its entry
  to its call of \<^verbatim>\<open>__i686_switch\<close>, and from the return of that call on; \<^verbatim>\<open>sched_preempt\<close>; and the return
  addresses of the two calls in the assembly.\<close>

record c_code =
  cc_interrupt :: "cpu_context \<Rightarrow> cpu_context"
  cc_to_switch :: "cpu_context \<Rightarrow> cpu_context"
  cc_from_switch :: "cpu_context \<Rightarrow> cpu_context"
  cc_preempt :: "cpu_context \<Rightarrow> cpu_context"
  at_isr_return :: u32
  at_switch_return :: u32

text \<open>They keep the convention and need at most \<open>d\<close> bytes of stack. A function may use the words of its
  arguments. The part of \<^verbatim>\<open>__i686_interrupt\<close> behind a call relies on the convention for the call, and on its own frame,
  the words from the return address of the call up to its argument.\<close>

definition c_abi :: "nat \<Rightarrow> c_code \<Rightarrow> bool" where
  "c_abi d cc \<longleftrightarrow>
     (\<forall>c. d \<le> unat (r_esp c) \<longrightarrow> c_returns (stack_range (r_esp c) d 4) c (cc_preempt cc c)) \<and>
     (\<forall>c. d \<le> unat (r_esp c) \<longrightarrow> c_returns (stack_range (r_esp c) d 8) c (cc_interrupt cc c)) \<and>
     (\<forall>c. d \<le> unat (r_esp c) \<longrightarrow>
        unat (r_esp c) + 16 \<le> unat (r_esp (cc_to_switch cc c)) + d \<and> unat (r_esp (cc_to_switch cc c)) < unat (r_esp c) \<and>
        (\<forall>a. a \<notin> stack_range (r_esp c) d 8 \<longrightarrow> words (cc_to_switch cc c) a = words c a) \<and>
        (\<forall>R x. c_returns R (cc_to_switch cc c) x \<and> (\<forall>a\<in>R. \<not> (unat (r_esp (cc_to_switch cc c)) \<le> unat a \<and> unat a < unat (r_esp c) + 8)) \<longrightarrow>
           c_returns (R \<union> stack_range (r_esp c) d 8) c (cc_from_switch cc x)))"

section \<open>An interrupt, from delivery to return\<close>

record system =
  s_context :: cpu_context
  s_machine :: machine
  s_lapic_log :: lapic_log

abbreviation s_world :: "system \<Rightarrow> world" where
  "s_world s \<equiv> k_world (m_kernel (s_machine s))"

abbreviation s_tss :: "system \<Rightarrow> taskstate" where
  "s_tss s \<equiv> cpu_tss (cpus (s_world s) (this_cpu (s_world s)))"

definition upd_world :: "world \<Rightarrow> system \<Rightarrow> system" where
  "upd_world w s = s\<lparr>s_machine := (s_machine s)\<lparr>m_kernel := (m_kernel (s_machine s))\<lparr>k_world := w\<rparr>\<rparr>\<rparr>"

text \<open>\<^verbatim>\<open>__i686_interrupt\<close> as the assembly calls it: the word above the return address points to the trap frame.\<close>

definition call_interrupt :: "nat \<Rightarrow> c_code \<Rightarrow> u32 \<Rightarrow> system \<Rightarrow> system res" where
  "call_interrupt fuel cc lapic s =
     (let c = s_context s;
          tf = trapframe_at (words c) (words c (r_esp c + 4));
          (switch, p, log) = i686_interrupt lapic (tf_trapno tf) (m_pic (s_machine s), s_lapic_log s);
          s = s\<lparr>s_machine := (s_machine s)\<lparr>m_pic := p\<rparr>, s_lapic_log := log\<rparr>
      in if switch then
           rbind (i686_switch fuel (cc_preempt cc) (k_cpu_stack (m_kernel (s_machine s))) (at_switch_return cc)
             (cc_to_switch cc c, s_world s)) (\<lambda>(c, w).
           Inr ((upd_world w s)\<lparr>s_context := cc_from_switch cc c\<rparr>))
         else Inr (s\<lparr>s_context := cc_interrupt cc c\<rparr>))"

definition take_interrupt :: "nat \<Rightarrow> c_code \<Rightarrow> u32 \<Rightarrow> nat \<Rightarrow> u32 option \<Rightarrow> system \<Rightarrow> system res" where
  "take_interrupt fuel cc lapic v err s =
     (let c = cpu_deliver (m_idt (s_machine s) ! v) (s_tss s) err (s_context s);
          c = i686_vector v c;
          c = i686_isr_enter c;
          c = pushl (at_isr_return cc) c
      in rbind (call_interrupt fuel cc lapic (s\<lparr>s_context := c\<rparr>)) (\<lambda>s.
         Inr (s\<lparr>s_context := i686_isr_leave (s_context s)\<rparr>)))"

section \<open>The frame on the stack\<close>

lemma ax_movw [simp]: "reg_ax (movw_ax v c) = v"
  unfolding reg_ax_def movw_ax_def by (rule bit_eqI) (auto simp: bit_simps)

lemma pushl_fields [simp]:
  "r_esp (pushl v c) = r_esp c - 4" "words (pushl v c) = (words c)(r_esp c - 4 := v)"
  "r_eax (pushl v c) = r_eax c" "r_ecx (pushl v c) = r_ecx c" "r_edx (pushl v c) = r_edx c"
  "r_ebx (pushl v c) = r_ebx c" "r_ebp (pushl v c) = r_ebp c" "r_esi (pushl v c) = r_esi c"
  "r_edi (pushl v c) = r_edi c" "r_ds (pushl v c) = r_ds c" "r_es (pushl v c) = r_es c" "r_fs (pushl v c) = r_fs c"
  "r_gs (pushl v c) = r_gs c" "r_cs (pushl v c) = r_cs c" "r_ss (pushl v c) = r_ss c" "r_eip (pushl v c) = r_eip c"
  "r_eflags (pushl v c) = r_eflags c"
  by (simp_all add: pushl_def)

lemma movw_ax_fields [simp]:
  "r_esp (movw_ax v c) = r_esp c" "words (movw_ax v c) = words c"
  "r_ecx (movw_ax v c) = r_ecx c" "r_edx (movw_ax v c) = r_edx c" "r_ebx (movw_ax v c) = r_ebx c"
  "r_ebp (movw_ax v c) = r_ebp c" "r_esi (movw_ax v c) = r_esi c" "r_edi (movw_ax v c) = r_edi c"
  "r_ds (movw_ax v c) = r_ds c" "r_es (movw_ax v c) = r_es c" "r_fs (movw_ax v c) = r_fs c"
  "r_gs (movw_ax v c) = r_gs c" "r_cs (movw_ax v c) = r_cs c" "r_ss (movw_ax v c) = r_ss c"
  "r_eip (movw_ax v c) = r_eip c" "r_eflags (movw_ax v c) = r_eflags c"
  by (simp_all add: movw_ax_def)

lemma pushal_fields [simp]:
  "r_esp (pushal c) = r_esp c - 32"
  "words (pushal c) = (words c)(r_esp c - 4 := r_eax c, r_esp c - 8 := r_ecx c, r_esp c - 12 := r_edx c, r_esp c - 16 := r_ebx c,
     r_esp c - 20 := r_esp c, r_esp c - 24 := r_ebp c, r_esp c - 28 := r_esi c, r_esp c - 32 := r_edi c)"
  "r_eax (pushal c) = r_eax c" "r_ecx (pushal c) = r_ecx c" "r_edx (pushal c) = r_edx c" "r_ebx (pushal c) = r_ebx c"
  "r_ebp (pushal c) = r_ebp c" "r_esi (pushal c) = r_esi c" "r_edi (pushal c) = r_edi c" "r_ds (pushal c) = r_ds c"
  "r_es (pushal c) = r_es c" "r_fs (pushal c) = r_fs c" "r_gs (pushal c) = r_gs c" "r_cs (pushal c) = r_cs c"
  "r_ss (pushal c) = r_ss c" "r_eip (pushal c) = r_eip c" "r_eflags (pushal c) = r_eflags c"
  by (simp_all add: pushal_def Let_def)

text \<open>The stack an interrupt uses, the size of what is pushed on it before the handler is called, and the trap frame the
  handler is to see. Coming from kernel code, the last two fields of the structure lie above the frame.\<close>

definition frame_base :: "taskstate \<Rightarrow> cpu_context \<Rightarrow> u32" where
  "frame_base tss c = (if r_cs c AND 3 = 0 then r_esp c else esp0 tss)"

definition frame_size :: "cpu_context \<Rightarrow> u32" where
  "frame_size c = (if r_cs c AND 3 = 0 then 68 else 76)"

definition trapframe_of :: "nat \<Rightarrow> u32 option \<Rightarrow> taskstate \<Rightarrow> cpu_context \<Rightarrow> trapframe" where
  "trapframe_of v err tss c =
     \<lparr>tf_edi = r_edi c, tf_esi = r_esi c, tf_ebp = r_ebp c, tf_oesp = frame_base tss c - frame_size c + 32, tf_ebx = r_ebx c,
      tf_edx = r_edx c, tf_ecx = r_ecx c, tf_eax = r_eax c, tf_gs = r_gs c, tf_fs = r_fs c, tf_es = r_es c, tf_ds = r_ds c,
      tf_trapno = of_nat v, tf_err = (case err of None \<Rightarrow> 0 | Some e \<Rightarrow> e), tf_eip = r_eip c, tf_cs = r_cs c,
      tf_eflags = r_eflags c, tf_esp = (if r_cs c AND 3 = 0 then words c (r_esp c) else r_esp c),
      tf_ss = (if r_cs c AND 3 = 0 then ucast (words c (r_esp c + 4)) else r_ss c)\<rparr>"

definition interrupt_entry :: "nat \<Rightarrow> u32 option \<Rightarrow> gatedesc \<Rightarrow> taskstate \<Rightarrow> u32 \<Rightarrow> cpu_context \<Rightarrow> cpu_context" where
  "interrupt_entry v err gate tss ra c = pushl ra (i686_isr_enter (i686_vector v (cpu_deliver gate tss err c)))"

lemma ucast_u16 [simp]: "ucast (ucast (x :: u16) :: u32) = x"
  by (rule bit_eqI) (auto simp: bit_simps)

lemma isr_enter_fields [simp]:
  "r_esp (i686_isr_enter c) = r_esp c - 52" "r_cs (i686_isr_enter c) = r_cs c" "r_ss (i686_isr_enter c) = r_ss c"
  "words (i686_isr_enter c) = (words c)(r_esp c - 4 := ucast (r_ds c), r_esp c - 8 := ucast (r_es c), r_esp c - 12 := ucast (r_fs c),
     r_esp c - 16 := ucast (r_gs c), r_esp c - 20 := r_eax c, r_esp c - 24 := r_ecx c, r_esp c - 28 := r_edx c, r_esp c - 32 := r_ebx c,
     r_esp c - 36 := r_esp c - 16, r_esp c - 40 := r_ebp c, r_esp c - 44 := r_esi c, r_esp c - 48 := r_edi c, r_esp c - 52 := r_esp c - 48)"
  by (simp_all add: i686_isr_enter_def Let_def)

text \<open>The stub behind the gate completes what the processor pushed: every frame has a trap number and an error code.\<close>

lemma stub_registers:
  "r_eax (i686_vector v (cpu_deliver gate tss err c)) = r_eax c" "r_ecx (i686_vector v (cpu_deliver gate tss err c)) = r_ecx c"
  "r_edx (i686_vector v (cpu_deliver gate tss err c)) = r_edx c" "r_ebx (i686_vector v (cpu_deliver gate tss err c)) = r_ebx c"
  "r_ebp (i686_vector v (cpu_deliver gate tss err c)) = r_ebp c" "r_esi (i686_vector v (cpu_deliver gate tss err c)) = r_esi c"
  "r_edi (i686_vector v (cpu_deliver gate tss err c)) = r_edi c" "r_ds (i686_vector v (cpu_deliver gate tss err c)) = r_ds c"
  "r_es (i686_vector v (cpu_deliver gate tss err c)) = r_es c" "r_fs (i686_vector v (cpu_deliver gate tss err c)) = r_fs c"
  "r_gs (i686_vector v (cpu_deliver gate tss err c)) = r_gs c" "r_cs (i686_vector v (cpu_deliver gate tss err c)) = gate_cs gate"
  "r_ss (i686_vector v (cpu_deliver gate tss err c)) = (if r_cs c AND 3 = 0 then r_ss c else ss0 tss)"
  by (auto simp: i686_vector_def cpu_deliver_def Let_def split: option.splits)

lemma stub_kernel:
  assumes "r_cs c AND 3 = 0" and "(err \<noteq> None) = has_error_code v"
  shows "r_esp (i686_vector v (cpu_deliver gate tss err c)) = r_esp c - 20"
    "words (i686_vector v (cpu_deliver gate tss err c)) = (words c)(r_esp c - 4 := r_eflags c, r_esp c - 8 := ucast (r_cs c),
       r_esp c - 12 := r_eip c, r_esp c - 16 := (case err of None \<Rightarrow> 0 | Some e \<Rightarrow> e), r_esp c - 20 := of_nat v)"
  using assms by (auto simp: i686_vector_def cpu_deliver_def Let_def split: option.splits)

lemma stub_user:
  assumes "r_cs c AND 3 \<noteq> 0" and "(err \<noteq> None) = has_error_code v"
  shows "r_esp (i686_vector v (cpu_deliver gate tss err c)) = esp0 tss - 28"
    "words (i686_vector v (cpu_deliver gate tss err c)) = (words c)(esp0 tss - 4 := ucast (r_ss c), esp0 tss - 8 := r_esp c,
       esp0 tss - 12 := r_eflags c, esp0 tss - 16 := ucast (r_cs c),
       esp0 tss - 20 := r_eip c, esp0 tss - 24 := (case err of None \<Rightarrow> 0 | Some e \<Rightarrow> e), esp0 tss - 28 := of_nat v)"
  using assms by (auto simp: i686_vector_def cpu_deliver_def Let_def split: option.splits)

lemmas entry_simps = interrupt_entry_def stub_registers stub_kernel stub_user frame_base_def frame_size_def

lemma entry_pointers:
  assumes "(err \<noteq> None) = has_error_code v"
  shows "r_esp (interrupt_entry v err gate tss ra c) = frame_base tss c - frame_size c - 8"
    "words (interrupt_entry v err gate tss ra c) (frame_base tss c - frame_size c - 8) = ra"
    "words (interrupt_entry v err gate tss ra c) (frame_base tss c - frame_size c - 4) = frame_base tss c - frame_size c"
    "r_cs (interrupt_entry v err gate tss ra c) = gate_cs gate"
    "r_ss (interrupt_entry v err gate tss ra c) = (if r_cs c AND 3 = 0 then r_ss c else ss0 tss)"
  using assms by (simp_all add: entry_simps)

lemma entry_frame:
  assumes "(err \<noteq> None) = has_error_code v"
  shows "trapframe_at (words (interrupt_entry v err gate tss ra c)) (frame_base tss c - frame_size c) = trapframe_of v err tss c"
proof (cases "r_cs c AND 3 = 0")
  case True
  then show ?thesis using assms by (simp add: entry_simps trapframe_at_def trapframe_of_def add.commute [of 4])
next
  case False
  then show ?thesis using assms by (simp add: entry_simps trapframe_at_def trapframe_of_def add.commute [of 4])
qed

text \<open>The way out puts the fields of the frame into the registers.\<close>

lemma popal_eq:
  "popal c = c\<lparr>r_edi := words c (r_esp c), r_esi := words c (r_esp c + 4), r_ebp := words c (r_esp c + 8),
     r_ebx := words c (r_esp c + 16), r_edx := words c (r_esp c + 20), r_ecx := words c (r_esp c + 24),
     r_eax := words c (r_esp c + 28), r_esp := r_esp c + 32\<rparr>"
  by (simp add: popal_def popl_def addl_esp_def stack_top_def Let_def add.commute [of 4] add.assoc)

lemma isr_leave_eq:
  "i686_isr_leave c = iret (c\<lparr>r_edi := words c (r_esp c + 4), r_esi := words c (r_esp c + 8), r_ebp := words c (r_esp c + 12),
     r_ebx := words c (r_esp c + 20), r_edx := words c (r_esp c + 24), r_ecx := words c (r_esp c + 28), r_eax := words c (r_esp c + 32),
     r_gs := ucast (words c (r_esp c + 36)), r_fs := ucast (words c (r_esp c + 40)), r_es := ucast (words c (r_esp c + 44)),
     r_ds := ucast (words c (r_esp c + 48)), r_esp := r_esp c + 60\<rparr>)"
  by (simp add: i686_isr_leave_def popal_eq popl_def addl_esp_def stack_top_def Let_def ac_simps)

lemma iret_eq:
  "iret c = c\<lparr>r_eip := words c (r_esp c), r_cs := ucast (words c (r_esp c + 4)), r_eflags := words c (r_esp c + 8),
     r_esp := (if ucast (words c (r_esp c + 4)) AND (3 :: u16) = 0 then r_esp c + 12 else words c (r_esp c + 12)),
     r_ss := (if ucast (words c (r_esp c + 4)) AND (3 :: u16) = 0 then r_ss c else ucast (words c (r_esp c + 16)))\<rparr>"
  by (simp add: iret_def popl_def addl_esp_def stack_top_def Let_def ac_simps)

lemma leave_frame:
  assumes "r_esp c = p - 4"
  shows "i686_isr_leave c = (let tf = trapframe_at (words c) p in
    c\<lparr>r_edi := tf_edi tf, r_esi := tf_esi tf, r_ebp := tf_ebp tf, r_ebx := tf_ebx tf, r_edx := tf_edx tf, r_ecx := tf_ecx tf,
      r_eax := tf_eax tf, r_gs := tf_gs tf, r_fs := tf_fs tf, r_es := tf_es tf, r_ds := tf_ds tf, r_eip := tf_eip tf, r_cs := tf_cs tf,
      r_eflags := tf_eflags tf, r_esp := (if tf_cs tf AND 3 = 0 then p + 68 else tf_esp tf),
      r_ss := (if tf_cs tf AND 3 = 0 then r_ss c else tf_ss tf)\<rparr>)"
  using assms by (simp add: isr_leave_eq iret_eq trapframe_at_def Let_def ac_simps)

lemma trapframe_agree:
  assumes "\<forall>k<68. m (p + of_nat k) = m' (p + of_nat k)"
  shows "trapframe_at m p = (trapframe_at m' p)\<lparr>tf_esp := m (p + 68), tf_ss := ucast (m (p + 72))\<rparr>"
  using assms [rule_format, of 0] assms [rule_format, of 4] assms [rule_format, of 8] assms [rule_format, of 12] assms [rule_format, of 16] assms [rule_format, of 20] assms [rule_format, of 24] assms [rule_format, of 28] assms [rule_format, of 32] assms [rule_format, of 36] assms [rule_format, of 40] assms [rule_format, of 44] assms [rule_format, of 48] assms [rule_format, of 52] assms [rule_format, of 56] assms [rule_format, of 60] assms [rule_format, of 64]
  by (simp add: trapframe_at_def)

lemma frame_restored:
  assumes "(err \<noteq> None) = has_error_code v" and "c_returns R (interrupt_entry v err gate tss ra c) c'"
    and "\<forall>a\<in>R. \<not> (unat (frame_base tss c - frame_size c) \<le> unat a \<and> unat a < unat (frame_base tss c))"
    and "unat (frame_size c) \<le> unat (frame_base tss c)"
  shows "i686_isr_leave c' = c\<lparr>words := words c'\<rparr>"
proof -
  let ?e = "interrupt_entry v err gate tss ra c" and ?p = "frame_base tss c - frame_size c"
  have same: "words c' (?p + of_nat k) = words ?e (?p + of_nat k)" if "k < unat (frame_size c)" for k
  proof -
    have "unat ?p = unat (frame_base tss c) - unat (frame_size c)" using assms(4) by (intro unat_sub_u32) (simp add: word_le_nat_alt)
    moreover have "unat (of_nat k :: u32) = k" using that unat_u32_lt [of "frame_size c"] by (intro unat_of_nat_u32) simp
    ultimately have "unat ?p + k < unat (frame_base tss c)" "unat (?p + of_nat k) = unat ?p + k"
      using that assms(4) unat_u32_lt [of "frame_base tss c"] by (simp, subst unat_add_u32) simp_all
    then have "?p + of_nat k \<notin> R" using assms(3) by fastforce
    then show ?thesis using assms(2) by (simp add: c_returns_def)
  qed
  have esp: "r_esp c' = ?p - 4" using assms(2) entry_pointers(1) [OF assms(1)] by (simp add: c_returns_def)
  have "68 \<le> unat (frame_size c)" by (simp add: frame_size_def)
  then have "trapframe_at (words c') ?p = (trapframe_at (words ?e) ?p)\<lparr>tf_esp := words c' (?p + 68), tf_ss := ucast (words c' (?p + 72))\<rparr>"
    using same by (intro trapframe_agree) simp
  then have tf: "trapframe_at (words c') ?p = (trapframe_of v err tss c)\<lparr>tf_esp := words c' (?p + 68), tf_ss := ucast (words c' (?p + 72))\<rparr>"
    unfolding entry_frame [OF assms(1)] .
  show ?thesis
  proof (cases "r_cs c AND 3 = 0")
    case True
    have "r_ss c' = r_ss c" using assms(2) entry_pointers(5) [OF assms(1)] True by (simp add: c_returns_def)
    then show ?thesis unfolding leave_frame [OF esp] tf using True by (simp add: Let_def trapframe_of_def frame_base_def frame_size_def)
  next
    case False
    have "words c' (?p + 68) = r_esp c" "ucast (words c' (?p + 72)) = r_ss c"
      using same [of 68] same [of 72] entry_frame [OF assms(1), of gate tss ra c] False
      by (simp_all add: trapframe_at_def trapframe_of_def frame_size_def)
    then show ?thesis unfolding leave_frame [OF esp] tf using False by (simp add: Let_def trapframe_of_def frame_base_def frame_size_def)
  qed
qed

section \<open>Saved contexts\<close>

text \<open>What a thread gets back when \<^verbatim>\<open>__i686_switch\<close> returns to it: the registers it may rely on, its stack pointer
  and the place where it continues. \<open>callee_of\<close> reads it off at the entry of \<^verbatim>\<open>__i686_switch\<close>, \<open>callee_now\<close> after
  its return; \<open>saved_at\<close> says that the words at an address are such a context.\<close>

record callee =
  ce_ebx :: u32
  ce_esi :: u32
  ce_edi :: u32
  ce_ebp :: u32
  ce_esp :: u32
  ce_eip :: u32

definition callee_of :: "cpu_context \<Rightarrow> callee" where
  "callee_of c = \<lparr>ce_ebx = r_ebx c, ce_esi = r_esi c, ce_edi = r_edi c, ce_ebp = r_ebp c, ce_esp = r_esp c + 4, ce_eip = stack_top c\<rparr>"

definition callee_now :: "cpu_context \<Rightarrow> callee" where
  "callee_now c = \<lparr>ce_ebx = r_ebx c, ce_esi = r_esi c, ce_edi = r_edi c, ce_ebp = r_ebp c, ce_esp = r_esp c, ce_eip = r_eip c\<rparr>"

definition saved_at :: "(u32 \<Rightarrow> u32) \<Rightarrow> u32 \<Rightarrow> callee \<Rightarrow> bool" where
  "saved_at m q k \<longleftrightarrow> m q = ce_edi k \<and> m (q + 4) = ce_esi k \<and> m (q + 8) = ce_ebx k \<and> m (q + 12) = ce_ebp k \<and> m (q + 16) = ce_eip k \<and>
     ce_esp k = q + 20"

definition context_words :: "u32 \<Rightarrow> u32 set" where
  "context_words q = {q, q + 4, q + 8, q + 12, q + 16}"

text \<open>The contexts of the threads that wait to run again.\<close>

definition contexts_hold :: "(nat \<rightharpoonup> callee) \<Rightarrow> world \<Rightarrow> (u32 \<Rightarrow> u32) \<Rightarrow> bool" where
  "contexts_hold ctx w m \<longleftrightarrow> (\<forall>u k. ctx u = Some k \<longrightarrow> saved_at m (t_storage (threads w u) ! 1) k)"

text \<open>The words a switch writes: four on the stack of the thread that is left, and the stack of the CPU.\<close>

definition cpu_range :: "nat \<Rightarrow> u32 \<Rightarrow> u32 set" where
  "cpu_range d cpu_stack = stack_range (cpu_stack - 4) d 4"

definition switch_range :: "nat \<Rightarrow> u32 \<Rightarrow> cpu_context \<Rightarrow> u32 set" where
  "switch_range d cpu_stack c = {r_esp c - 4, r_esp c - 8, r_esp c - 12, r_esp c - 16} \<union> cpu_range d cpu_stack"

lemma saved_at_cong: "\<forall>a\<in>context_words q. m a = m' a \<Longrightarrow> saved_at m q k = saved_at m' q k"
  by (simp add: saved_at_def context_words_def)

lemma store_context_fields [simp]:
  "cpus (store_context t v w) = cpus w" "this_cpu (store_context t v w) = this_cpu w" "rings (store_context t v w) = rings w"
  "schedulers (store_context t v w) = schedulers w"
  "u \<noteq> t \<Longrightarrow> threads (store_context t v w) u = threads w u"
  "t_storage (threads (store_context t v w) t) = (t_storage (threads w t))[1 := v]"
  by (simp_all add: store_context_def)

lemma switch_save_eq:
  "i686_switch_save t cpu_stack ra (c, w) =
    (c\<lparr>r_eax := storage_address t, r_esp := cpu_stack - 4,
       words := (words c)(r_esp c - 4 := r_ebp c, r_esp c - 8 := r_ebx c, r_esp c - 12 := r_esi c, r_esp c - 16 := r_edi c, cpu_stack - 4 := ra)\<rparr>,
     store_context t (r_esp c - 16) w)"
  by (simp add: i686_switch_save_def Let_def pushl_def)

lemma switch_load_saved:
  assumes "saved_at (words c) (t_storage (threads w t) ! 1) k"
  shows "i686_switch_load t (c, w) = c\<lparr>r_eax := storage_address t, r_edi := ce_edi k, r_esi := ce_esi k, r_ebx := ce_ebx k,
    r_ebp := ce_ebp k, r_eip := ce_eip k, r_esp := ce_esp k\<rparr>"
  using assms by (simp add: i686_switch_load_def ret_def popl_def addl_esp_def stack_top_def saved_at_def Let_def ac_simps)

lemma c_returns_fields:
  assumes "c_returns R c c'"
  shows "r_ebx c' = r_ebx c" "r_esi c' = r_esi c" "r_edi c' = r_edi c" "r_ebp c' = r_ebp c" "r_esp c' = r_esp c + 4" "r_eip c' = stack_top c"
    "r_ds c' = r_ds c" "r_es c' = r_es c" "r_fs c' = r_fs c" "r_gs c' = r_gs c" "r_cs c' = r_cs c" "r_ss c' = r_ss c"
    "a \<notin> R \<Longrightarrow> words c' a = words c a"
  using assms by (simp_all add: c_returns_def)

lemma c_abiD:
  assumes "c_abi d cc" and "d \<le> unat (r_esp c)"
  shows "c_returns (stack_range (r_esp c) d 4) c (cc_preempt cc c)" "c_returns (stack_range (r_esp c) d 8) c (cc_interrupt cc c)"
    "unat (r_esp c) + 16 \<le> unat (r_esp (cc_to_switch cc c)) + d" "unat (r_esp (cc_to_switch cc c)) < unat (r_esp c)"
    "\<forall>a. a \<notin> stack_range (r_esp c) d 8 \<longrightarrow> words (cc_to_switch cc c) a = words c a"
    "c_returns R (cc_to_switch cc c) x \<Longrightarrow> (\<And>a. a \<in> R \<Longrightarrow> unat a < unat (r_esp (cc_to_switch cc c)) \<or> unat (r_esp c) + 8 \<le> unat a) \<Longrightarrow>
      c_returns (R \<union> stack_range (r_esp c) d 8) c (cc_from_switch cc x)"
  using assms unfolding c_abi_def by (blast, blast, blast, blast, blast, metis linorder_not_le)

lemma switch_ok:
  assumes hold: "contexts_hold ctx w (words c)" and tls: "cpu_tls w = Some t" "1 < length (t_storage (threads w t))"
    and abi: "c_abi d cc" "d \<le> unat (cpu_stack - 4)"
    and pre: "sched_preempt fuel (store_context t (r_esp c - 16) w) = Inr w'" "cpu_tls w' = Some u" "u = t \<or> ctx u \<noteq> None"
    and own: "context_words (r_esp c - 16) \<inter> cpu_range d cpu_stack = {}"
    and others: "\<forall>v k. v \<noteq> t \<and> ctx v = Some k \<longrightarrow> context_words (t_storage (threads w v) ! 1) \<inter> switch_range d cpu_stack c = {}"
  obtains c' where "i686_switch fuel (cc_preempt cc) cpu_stack ra (c, w) = Inr (c', w')"
    "(ctx(t \<mapsto> callee_of c)) u = Some (callee_now c')" "contexts_hold (ctx(t \<mapsto> callee_of c)) w' (words c')"
    "\<forall>a. a \<notin> switch_range d cpu_stack c \<longrightarrow> words c' a = words c a"
    "r_ds c' = r_ds c \<and> r_es c' = r_es c \<and> r_fs c' = r_fs c \<and> r_gs c' = r_gs c \<and> r_cs c' = r_cs c \<and> r_ss c' = r_ss c"
proof -
  let ?ctx = "ctx(t \<mapsto> callee_of c)" and ?w1 = "store_context t (r_esp c - 16) w"
  let ?m1 = "(words c)(r_esp c - 4 := r_ebp c, r_esp c - 8 := r_ebx c, r_esp c - 12 := r_esi c, r_esp c - 16 := r_edi c, cpu_stack - 4 := ra)"
  let ?c1 = "c\<lparr>r_eax := storage_address t, r_esp := cpu_stack - 4, words := ?m1\<rparr>"
  have "c_returns (stack_range (r_esp ?c1) d 4) ?c1 (cc_preempt cc ?c1)" by (rule c_abiD(1) [OF abi(1)]) (simp add: abi(2))
  then have ret: "c_returns (cpu_range d cpu_stack) ?c1 (cc_preempt cc ?c1)" by (simp add: cpu_range_def)
  define c2 where "c2 = cc_preempt cc ?c1"
  have top: "cpu_stack - 4 \<in> cpu_range d cpu_stack" by (simp add: cpu_range_def stack_range_def)
  have m: "words c2 a = words c a" if "a \<notin> switch_range d cpu_stack c" for a
    using that c_returns_fields(13) [OF ret, of a] top by (auto simp: c2_def switch_range_def)
  have m1: "words c2 a = ?m1 a" if "a \<in> context_words (r_esp c - 16)" for a
  proof -
    have "a \<notin> cpu_range d cpu_stack" using that own by blast
    moreover have "words ?c1 = ?m1" by simp
    ultimately show ?thesis unfolding c2_def using c_returns_fields(13) [OF ret, of a] by metis
  qed
  have sto: "t_storage (threads w' v) ! 1 = (if v = t then r_esp c - 16 else t_storage (threads w v) ! 1)" for v
    using sched_preempt_storage [OF pre(1), of v] tls(2) by (cases "v = t") simp_all
  have sv: "saved_at (words c2) (t_storage (threads w' v) ! 1) k" if "?ctx v = Some k" for v k
  proof (cases "v = t")
    case True
    have "cpu_stack - 4 \<notin> context_words (r_esp c - 16)" using own top by blast
    then have "saved_at ?m1 (r_esp c - 16) (callee_of c)"
      by (auto simp: saved_at_def callee_of_def stack_top_def context_words_def)
    then have "saved_at (words c2) (r_esp c - 16) (callee_of c)" using m1 saved_at_cong by blast
    then show ?thesis using True that unfolding sto by simp
  next
    case False
    then have "context_words (t_storage (threads w v) ! 1) \<inter> switch_range d cpu_stack c = {}" using others that by simp
    then have "saved_at (words c2) (t_storage (threads w v) ! 1) k = saved_at (words c) (t_storage (threads w v) ! 1) k"
      using m by (intro saved_at_cong) blast
    then show ?thesis using hold False that unfolding sto by (simp add: contexts_hold_def)
  qed
  obtain k where k: "?ctx u = Some k" using pre(3) by (cases "u = t") auto
  note load = switch_load_saved [OF sv [OF k]]
  define c3 where "c3 = i686_switch_load u (c2, w')"
  have "i686_switch fuel (cc_preempt cc) cpu_stack ra (c, w) = Inr (c3, w')"
    using tls(1) pre(1,2) by (simp add: i686_switch_def switch_save_eq c3_def c2_def)
  moreover have "callee_now c3 = k" "words c3 = words c2" by (simp_all add: c3_def load callee_now_def)
  moreover have "contexts_hold ?ctx w' (words c2)" using sv by (simp add: contexts_hold_def)
  moreover have "r_ds c3 = r_ds c \<and> r_es c3 = r_es c \<and> r_fs c3 = r_fs c \<and> r_gs c3 = r_gs c \<and> r_cs c3 = r_cs c \<and> r_ss c3 = r_ss c"
    using c_returns_fields(7-12) [OF ret, folded c2_def] by (simp add: c3_def load)
  ultimately show thesis using k m by (intro that [of c3]) auto
qed

section \<open>The handler under an interrupt\<close>

text \<open>Where an interrupt works on the stack: 84 bytes for the frame and the call, \<open>d\<close> for the C code.\<close>

definition interrupt_range :: "nat \<Rightarrow> taskstate \<Rightarrow> cpu_context \<Rightarrow> u32 set" where
  "interrupt_range d tss c = stack_range (frame_base tss c) (d + 84) 0"

lemma entry_bounds:
  assumes "(err \<noteq> None) = has_error_code v" and "d + 84 \<le> unat (frame_base tss c)"
  shows "unat (frame_base tss c - frame_size c) = unat (frame_base tss c) - unat (frame_size c)" "unat (frame_size c) \<le> 76"
    "unat (r_esp (interrupt_entry v err gate tss ra c)) + 8 = unat (frame_base tss c - frame_size c)"
    "d \<le> unat (r_esp (interrupt_entry v err gate tss ra c))"
proof -
  show sz: "unat (frame_size c) \<le> 76" by (simp add: frame_size_def)
  show p: "unat (frame_base tss c - frame_size c) = unat (frame_base tss c) - unat (frame_size c)"
    using assms(2) sz by (intro unat_sub_u32) (simp add: word_le_nat_alt)
  have "unat (frame_base tss c - frame_size c - 8) = unat (frame_base tss c - frame_size c) - 8"
    using assms(2) sz p by (subst unat_sub_u32) (simp_all add: word_le_nat_alt)
  then show "unat (r_esp (interrupt_entry v err gate tss ra c)) + 8 = unat (frame_base tss c - frame_size c)"
    "d \<le> unat (r_esp (interrupt_entry v err gate tss ra c))"
    using entry_pointers(1) [OF assms(1)] assms(2) sz p by simp_all
qed

lemma below_base:
  assumes "84 \<le> unat b" and "0 < unat k" "unat k \<le> 84"
  shows "b - k \<in> stack_range b 84 0"
proof -
  have "unat (b - k) = unat b - unat k" using assms by (intro unat_sub_u32) (simp add: word_le_nat_alt)
  then show ?thesis using assms by (simp add: stack_range_def)
qed

lemma entry_words:
  assumes "(err \<noteq> None) = has_error_code v" and "84 \<le> unat (frame_base tss c)" and "a \<notin> stack_range (frame_base tss c) 84 0"
  shows "words (interrupt_entry v err gate tss ra c) a = words c a"
proof -
  have ne: "a \<noteq> frame_base tss c - k" if "0 < unat k" "unat k \<le> 84" for k using below_base [OF assms(2) that] assms(3) by blast
  show ?thesis
  proof (cases "r_cs c AND 3 = 0")
    case True
    then show ?thesis using assms(1) ne by (simp add: entry_simps)
  next
    case False
    then show ?thesis using assms(1) ne by (simp add: entry_simps)
  qed
qed

lemma interrupt_entry_eq:
  "take_interrupt fuel cc lapic v err s =
    rbind (call_interrupt fuel cc lapic (s\<lparr>s_context := interrupt_entry v err (m_idt (s_machine s) ! v) (s_tss s) (at_isr_return cc) (s_context s)\<rparr>)) (\<lambda>s. Inr (s\<lparr>s_context := i686_isr_leave (s_context s)\<rparr>))"
  by (simp add: take_interrupt_def interrupt_entry_def Let_def)

text \<open>The state in which the handler has acknowledged the interrupt.\<close>

definition acknowledged :: "u32 \<Rightarrow> nat \<Rightarrow> system \<Rightarrow> system" where
  "acknowledged lapic v s =
     (let (_, p, log) = i686_interrupt lapic (of_nat v) (m_pic (s_machine s), s_lapic_log s)
      in s\<lparr>s_machine := (s_machine s)\<lparr>m_pic := p\<rparr>, s_lapic_log := log\<rparr>)"

lemma acknowledged_fields [simp]: "s_context (acknowledged lapic v s) = s_context s" "m_kernel (s_machine (acknowledged lapic v s)) = m_kernel (s_machine s)"
  "m_idt (s_machine (acknowledged lapic v s)) = m_idt (s_machine s)"
  "acknowledged lapic v (s\<lparr>s_context := c\<rparr>) = (acknowledged lapic v s)\<lparr>s_context := c\<rparr>"
  by (simp_all add: acknowledged_def split: prod.splits)

lemma of_nat_timer: "v < 256 \<Longrightarrow> of_nat v = T_IRQ0 + IRQ_TIMER \<longleftrightarrow> v = 32"
proof -
  assume "v < 256"
  then have "unat (of_nat v :: u32) = v" by (intro unat_of_nat_u32) simp
  then have "of_nat v = (32 :: u32) \<longleftrightarrow> v = 32" by auto
  then show ?thesis by (simp add: T_IRQ0_def IRQ_TIMER_def)
qed

text \<open>The handler finds the frame of the interrupted context, and goes by its trap number.\<close>

lemma call_interrupt_eq:
  assumes "(err \<noteq> None) = has_error_code v" and "v < 256"
  shows "call_interrupt fuel cc lapic (s\<lparr>s_context := interrupt_entry v err gate tss ra (s_context s)\<rparr>) =
    (let e = interrupt_entry v err gate tss ra (s_context s); s = acknowledged lapic v s in
     if v = 32 then
       rbind (i686_switch fuel (cc_preempt cc) (k_cpu_stack (m_kernel (s_machine s))) (at_switch_return cc) (cc_to_switch cc e, s_world s)) (\<lambda>(c, w).
       Inr ((upd_world w s)\<lparr>s_context := cc_from_switch cc c\<rparr>))
     else Inr (s\<lparr>s_context := cc_interrupt cc e\<rparr>))"
proof -
  let ?e = "interrupt_entry v err gate tss ra (s_context s)"
  have "words ?e (r_esp ?e + 4) = frame_base tss (s_context s) - frame_size (s_context s)"
    using entry_pointers(1,3) [OF assms(1)] by simp
  then have "tf_trapno (trapframe_at (words ?e) (words ?e (r_esp ?e + 4))) = of_nat v"
    unfolding entry_frame [OF assms(1)] by (simp add: entry_frame [OF assms(1)] trapframe_of_def)
  moreover obtain p log where "i686_interrupt lapic (of_nat v) (m_pic (s_machine s), s_lapic_log s) = (v = 32, p, log)"
    using of_nat_timer [OF assms(2)] by (simp add: i686_interrupt_def Let_def)
  ultimately show ?thesis by (simp add: call_interrupt_def acknowledged_def upd_world_def Let_def)
qed

text \<open>Returning from the handler gives the interrupted context back.\<close>

lemma handler_returns:
  assumes i: "(err \<noteq> None) = has_error_code v" "d + 84 \<le> unat (frame_base tss c)"
    and r: "c_returns (R \<union> stack_range (r_esp (interrupt_entry v err gate tss ra c)) d 8) (interrupt_entry v err gate tss ra c) c'"
    and R: "\<And>a. a \<in> R \<Longrightarrow> unat a < unat (r_esp (interrupt_entry v err gate tss ra c)) \<or> unat (frame_base tss c) \<le> unat a"
  shows "i686_isr_leave c' = c\<lparr>words := words c'\<rparr>" "a \<notin> R \<union> interrupt_range d tss c \<Longrightarrow> words c' a = words c a"
proof -
  let ?e = "interrupt_entry v err gate tss ra c"
  note b = entry_bounds(1,2) [OF i] entry_bounds(3) [OF i, of gate ra]
  show "i686_isr_leave c' = c\<lparr>words := words c'\<rparr>"
  proof (rule frame_restored [OF i(1) r])
    show "unat (frame_size c) \<le> unat (frame_base tss c)" using b(2) i(2) by simp
    show "\<forall>a\<in>R \<union> stack_range (r_esp ?e) d 8. \<not> (unat (frame_base tss c - frame_size c) \<le> unat a \<and> unat a < unat (frame_base tss c))"
    proof
      fix a
      assume "a \<in> R \<union> stack_range (r_esp ?e) d 8"
      then have "unat a < unat (r_esp ?e) + 8 \<or> unat (frame_base tss c) \<le> unat a" using R [of a] by (auto simp: stack_range_def)
      then show "\<not> (unat (frame_base tss c - frame_size c) \<le> unat a \<and> unat a < unat (frame_base tss c))" using b(3) by linarith
    qed
  qed
  assume a: "a \<notin> R \<union> interrupt_range d tss c"
  have "unat (r_esp ?e) + 84 \<ge> unat (frame_base tss c)" "unat (r_esp ?e) + 8 \<le> unat (frame_base tss c)" using b(1-3) i(2) by linarith+
  then have "a \<notin> stack_range (r_esp ?e) d 8" "a \<notin> stack_range (frame_base tss c) 84 0"
    using a unfolding interrupt_range_def stack_range_def by auto
  then show "words c' a = words c a" using c_returns_fields(13) [OF r, of a] a entry_words [OF i(1), of tss c a gate ra] i(2) by simp
qed

lemma plain_interrupt:
  assumes abi: "c_abi d cc" and i: "(err \<noteq> None) = has_error_code v" "v < 256" "d + 84 \<le> unat (frame_base (s_tss s) (s_context s))" and v: "v \<noteq> 32"
  obtains m where "take_interrupt fuel cc lapic v err s = Inr ((acknowledged lapic v s)\<lparr>s_context := (s_context s)\<lparr>words := m\<rparr>\<rparr>)"
    "\<forall>a. a \<notin> interrupt_range d (s_tss s) (s_context s) \<longrightarrow> m a = words (s_context s) a"
proof -
  let ?e = "interrupt_entry v err (m_idt (s_machine s) ! v) (s_tss s) (at_isr_return cc) (s_context s)"
  let ?c = "cc_interrupt cc ?e"
  have r: "c_returns ({} \<union> stack_range (r_esp ?e) d 8) ?e ?c" using c_abiD(2) [OF abi entry_bounds(4) [OF i(1,3)]] by simp
  have "take_interrupt fuel cc lapic v err s = Inr ((acknowledged lapic v s)\<lparr>s_context := i686_isr_leave ?c\<rparr>)"
    using v by (simp add: interrupt_entry_eq call_interrupt_eq [OF i(1,2)])
  with handler_returns [OF i(1,3) r] show thesis by (intro that [of "words ?c"]) auto
qed

text \<open>The context in which the timer's interrupt enters \<^verbatim>\<open>__i686_switch\<close>.\<close>

definition timer_entry :: "c_code \<Rightarrow> system \<Rightarrow> cpu_context" where
  "timer_entry cc s = interrupt_entry 32 None (m_idt (s_machine s) ! 32) (s_tss s) (at_isr_return cc) (s_context s)"

definition switch_entry :: "c_code \<Rightarrow> system \<Rightarrow> cpu_context" where
  "switch_entry cc s = cc_to_switch cc (timer_entry cc s)"

lemma timer_interrupt_eq:
  "take_interrupt fuel cc lapic 32 None s =
    rbind (i686_switch fuel (cc_preempt cc) (k_cpu_stack (m_kernel (s_machine s))) (at_switch_return cc) (switch_entry cc s, s_world s)) (\<lambda>(c, w).
    Inr ((upd_world w (acknowledged lapic 32 s))\<lparr>s_context := i686_isr_leave (cc_from_switch cc c)\<rparr>))"
proof -
  have "(None \<noteq> (None :: u32 option)) = has_error_code 32" by (simp add: has_error_code_def)
  then show ?thesis
    by (simp add: interrupt_entry_eq call_interrupt_eq timer_entry_def switch_entry_def rbind_assoc split_def)
qed

lemma timer_faults:
  assumes "cpu_tls (s_world s) = Some t" and "sched_preempt fuel (store_context t (r_esp (switch_entry cc s) - 16) (s_world s)) = Inl e"
  shows "take_interrupt fuel cc lapic 32 None s = Inl e"
  using assms by (simp add: timer_interrupt_eq i686_switch_def switch_save_eq)

lemma timer_interrupt:
  assumes abi: "c_abi d cc" "d \<le> unat (k_cpu_stack (m_kernel (s_machine s)) - 4)"
    and space: "d + 84 \<le> unat (frame_base (s_tss s) (s_context s))"
    and apart: "cpu_range d (k_cpu_stack (m_kernel (s_machine s))) \<inter> interrupt_range d (s_tss s) (s_context s) = {}"
    and tls: "cpu_tls (s_world s) = Some t" "1 < length (t_storage (threads (s_world s) t))"
    and pre: "sched_preempt fuel (store_context t (r_esp (switch_entry cc s) - 16) (s_world s)) = Inr w'" "cpu_tls w' = Some t"
  obtains m where "take_interrupt fuel cc lapic 32 None s = Inr ((upd_world w' (acknowledged lapic 32 s))\<lparr>s_context := (s_context s)\<lparr>words := m\<rparr>\<rparr>)"
    "\<forall>a. a \<notin> interrupt_range d (s_tss s) (s_context s) \<union> cpu_range d (k_cpu_stack (m_kernel (s_machine s))) \<longrightarrow> m a = words (s_context s) a"
proof -
  let ?c = "s_context s" and ?tss = "s_tss s" and ?st = "k_cpu_stack (m_kernel (s_machine s))" and ?e = "timer_entry cc s" and ?b = "switch_entry cc s"
  have ec: "(None \<noteq> (None :: u32 option)) = has_error_code 32" by (simp add: has_error_code_def)
  note bd = entry_bounds(1,2) [OF ec space] entry_bounds(3,4) [OF ec space, of "m_idt (s_machine s) ! 32" "at_isr_return cc", folded timer_entry_def]
  note ab = c_abiD(3-6) [OF abi(1) bd(4), folded switch_entry_def]
  have near: "unat (r_esp ?b - k) = unat (r_esp ?b) - unat k" "r_esp ?b - k \<in> interrupt_range d ?tss ?c" if "unat k \<le> 16" for k
  proof -
    show *: "unat (r_esp ?b - k) = unat (r_esp ?b) - unat k" using that ab(1) bd(4) by (intro unat_sub_u32) (simp add: word_le_nat_alt)
    have "unat (frame_base ?tss ?c) \<le> unat (r_esp ?b) - unat k + (d + 84)" using that ab(1) bd by linarith
    moreover have "unat (r_esp ?b) - unat k < unat (frame_base ?tss ?c) + 0" using ab(2) bd by linarith
    ultimately show "r_esp ?b - k \<in> interrupt_range d ?tss ?c" by (simp add: interrupt_range_def stack_range_def *)
  qed
  have own: "context_words (r_esp ?b - 16) \<inter> cpu_range d ?st = {}"
    using near(2) [of 16] near(2) [of 12] near(2) [of 8] near(2) [of 4] near(2) [of 0] apart by (auto simp: context_words_def)
  obtain x where x: "i686_switch fuel (cc_preempt cc) ?st (at_switch_return cc) (?b, s_world s) = Inr (x, w')" "callee_now x = callee_of ?b"
    "\<forall>a. a \<notin> switch_range d ?st ?b \<longrightarrow> words x a = words ?b a"
    "r_ds x = r_ds ?b \<and> r_es x = r_es ?b \<and> r_fs x = r_fs ?b \<and> r_gs x = r_gs ?b \<and> r_cs x = r_cs ?b \<and> r_ss x = r_ss ?b"
    by (rule switch_ok [of Map.empty "s_world s" ?b t d cc ?st fuel w' t "at_switch_return cc"])
      (use tls abi pre own in \<open>auto simp: contexts_hold_def\<close>)
  have ret: "c_returns (switch_range d ?st ?b) ?b x" using x(2-4) by (simp add: c_returns_def callee_now_def callee_of_def)
  have R: "unat a < unat (r_esp ?b) \<or> unat (frame_base ?tss ?c) \<le> unat a" if "a \<in> switch_range d ?st ?b" for a
  proof (cases "a \<in> cpu_range d ?st")
    case True
    then have "a \<notin> interrupt_range d ?tss ?c" using apart by blast
    then show ?thesis using ab(1) bd unfolding interrupt_range_def stack_range_def by simp linarith
  next
    case False
    then have "\<exists>k. a = r_esp ?b - k \<and> unat k \<le> 16 \<and> 0 < unat k"
      using that unfolding switch_range_def by (elim UnE insertE emptyE) (auto intro: exI [of _ 4] exI [of _ 8] exI [of _ 12] exI [of _ 16])
    then show ?thesis using near(1) ab(1) bd(4) by fastforce
  qed
  have "c_returns (switch_range d ?st ?b \<union> stack_range (r_esp ?e) d 8) ?e (cc_from_switch cc x)"
    using R bd by (intro ab(4) [OF ret]) fastforce
  from handler_returns [OF ec space this [unfolded timer_entry_def]] R ab(2)
  have fin: "i686_isr_leave (cc_from_switch cc x) = ?c\<lparr>words := words (cc_from_switch cc x)\<rparr>"
    "\<forall>a. a \<notin> switch_range d ?st ?b \<union> interrupt_range d ?tss ?c \<longrightarrow> words (cc_from_switch cc x) a = words ?c a"
    unfolding timer_entry_def by fastforce+
  have "switch_range d ?st ?b \<subseteq> interrupt_range d ?tss ?c \<union> cpu_range d ?st"
    using near(2) [of 16] near(2) [of 12] near(2) [of 8] near(2) [of 4] by (auto simp: switch_range_def)
  then show thesis using fin x(1) by (intro that [of "words (cc_from_switch cc x)"]) (auto simp: timer_interrupt_eq)
qed

section \<open>Properties\<close>

text \<open>Compiled code that keeps the convention: the handler saves \<^verbatim>\<open>%ebx\<close> around its call.\<close>

definition example_code :: c_code where
  "example_code = \<lparr>cc_interrupt = ret, cc_to_switch = (\<lambda>c. (pushl 0xC0101000 (pushl (r_ebx c) c))\<lparr>r_ebx := 7\<rparr>),
     cc_from_switch = (\<lambda>c. ret (popl (\<lambda>v c. c\<lparr>r_ebx := v\<rparr>) c)), cc_preempt = ret, at_isr_return = 0xC0102000, at_switch_return = 0xC0103000\<rparr>"

definition example_context :: cpu_context where
  "example_context = \<lparr>r_eax = 1, r_ecx = 2, r_edx = 3, r_ebx = 4, r_esp = 0x10000, r_ebp = 5, r_esi = 6, r_edi = 7, r_ds = 16, r_es = 16,
     r_fs = 24, r_gs = 24, r_cs = 8, r_ss = 16, r_eip = 0xC0100000, r_eflags = 0x202, words = (\<lambda>_. 0)\<rparr>"

lemma ret_returns: "c_returns R c (ret c)"
  by (simp add: c_returns_def ret_def popl_def addl_esp_def stack_top_def)

lemma example_abi: "c_abi 32 example_code"
proof -
  have to: "unat (r_esp c - 8) = unat (r_esp c) - 8" "unat (r_esp c - 4) = unat (r_esp c) - 4" if "32 \<le> unat (r_esp c)" for c :: cpu_context
    using that by (subst unat_sub_u32; simp add: word_le_nat_alt)+
  have from_switch: "c_returns S c (cc_from_switch example_code x)"
    if "c_returns R (cc_to_switch example_code c) x" "r_esp c - 4 \<notin> R" "r_esp c \<notin> R" "\<forall>a. a \<notin> S \<longrightarrow> a \<notin> R \<and> a \<noteq> r_esp c - 4 \<and> a \<noteq> r_esp c - 8" for R S c x
    using c_returns_fields [OF that(1)] that
    by (simp add: example_code_def c_returns_def ret_def popl_def addl_esp_def stack_top_def)
  have esp: "r_esp (cc_to_switch example_code c) = r_esp c - 8" "words (cc_to_switch example_code c) = (words c)(r_esp c - 4 := r_ebx c, r_esp c - 8 := 0xC0101000)" for c
    by (simp_all add: example_code_def)
  have own: "r_esp c - 4 \<in> stack_range (r_esp c) 32 8" "r_esp c - 8 \<in> stack_range (r_esp c) 32 8" if "32 \<le> unat (r_esp c)" for c :: cpu_context
    using to [OF that] that by (simp_all add: stack_range_def)
  show ?thesis
    unfolding c_abi_def
  proof (intro conjI allI impI; (elim conjE)?)
    fix c :: cpu_context and R x
    assume d: "32 \<le> unat (r_esp c)"
    show "c_returns (stack_range (r_esp c) 32 4) c (cc_preempt example_code c)" "c_returns (stack_range (r_esp c) 32 8) c (cc_interrupt example_code c)"
      by (simp_all add: example_code_def ret_returns)
    show "unat (r_esp c) + 16 \<le> unat (r_esp (cc_to_switch example_code c)) + 32" "unat (r_esp (cc_to_switch example_code c)) < unat (r_esp c)"
      using to [OF d] d by (simp_all add: esp)
    show "words (cc_to_switch example_code c) a = words c a" if "a \<notin> stack_range (r_esp c) 32 8" for a
      using that own [OF d] by (auto simp: esp)
    show "c_returns (R \<union> stack_range (r_esp c) 32 8) c (cc_from_switch example_code x)"
      if "c_returns R (cc_to_switch example_code c) x" "\<forall>a\<in>R. \<not> (unat (r_esp (cc_to_switch example_code c)) \<le> unat a \<and> unat a < unat (r_esp c) + 8)"
      using that to [OF d] d own [OF d] by (intro from_switch) (auto simp: esp)
  qed
qed

text \<open>C5. The context switch. \<open>ctx\<close> gives for every suspended thread what it is to get back. When \<^verbatim>\<open>sched_preempt\<close> makes \<open>u\<close> the
  running thread, \<^verbatim>\<open>__i686_switch\<close> returns on the stack of \<open>u\<close>, to the place where \<open>u\<close> called it and with the registers \<open>u\<close>
  relies on; the thread it was called by is suspended with exactly its registers at the call, and the other suspended
  threads keep theirs. \<^verbatim>\<open>sched_preempt\<close> may be compiled to anything that keeps the calling convention and needs at most \<open>d\<close> bytes of the CPU's stack; the
  stacks have to be apart.\<close>

theorem switch_refines_contexts:
  assumes "contexts_hold ctx w (words c)" and "cpu_tls w = Some t" and "thread_shape (threads w t)" and "c_abi d cc" and "d \<le> unat (cpu_stack - 4)"
    and "sched_preempt fuel (store_context t (r_esp c - 16) w) = Inr w'" and "cpu_tls w' = Some u" and "u = t \<or> ctx u \<noteq> None"
    and "context_words (r_esp c - 16) \<inter> cpu_range d cpu_stack = {}"
    and "\<forall>v k. v \<noteq> t \<and> ctx v = Some k \<longrightarrow> context_words (t_storage (threads w v) ! 1) \<inter> switch_range d cpu_stack c = {}"
  shows "\<exists>c'. i686_switch fuel (cc_preempt cc) cpu_stack ra (c, w) = Inr (c', w') \<and>
    (ctx(t \<mapsto> callee_of c)) u = Some (callee_now c') \<and> contexts_hold (ctx(t \<mapsto> callee_of c)) w' (words c') \<and>
    (\<forall>a. a \<notin> switch_range d cpu_stack c \<longrightarrow> words c' a = words c a)"
proof -
  have "1 < length (t_storage (threads w t))" using assms(3) by (simp add: thread_shape_def)
  from switch_ok [OF assms(1,2) this assms(4-10), of ra] show ?thesis by metis
qed

text \<open>Thread 0 runs and waits in a queue, thread 1 is the idle thread, and every run ring has one thread.\<close>

definition example_busy :: world where
  "example_busy = example_world\<lparr>
     rings := \<lparr>nextp = (\<lambda>p. case p of Run_Ring s i \<Rightarrow> Some (T_Queue_Entry (10 + i)) | T_Queue_Entry n \<Rightarrow> Some (Run_Ring 0 (n - 10)) | _ \<Rightarrow> Some p),
       prevp = (\<lambda>p. case p of Run_Ring s i \<Rightarrow> Some (T_Queue_Entry (10 + i)) | T_Queue_Entry n \<Rightarrow> Some (Run_Ring 0 (n - 10)) | _ \<Rightarrow> Some p),
       datap = (\<lambda>p. case p of T_Queue_Entry n \<Rightarrow> Some n | _ \<Rightarrow> None)\<rparr>,
     schedulers := \<lambda>_. \<lparr>sched_run_decay = sched_prios, sched_idle = Some 1, sched_thread_count = 33, sched_lock = 0\<rparr>,
     threads := \<lambda>t. if t = 0 then example_thread\<lparr>t_stateflags := THREAD_SF_QUEUE_WAIT, t_wait_queue := Some 0\<rparr>
       else example_thread\<lparr>t_storage := [0, 0x3000, 0, 0]\<rparr>\<rparr>"

definition example_queues :: "ring_ptr \<Rightarrow> ring_ptr list" where
  "example_queues p = (case p of Run_Ring s i \<Rightarrow> [T_Queue_Entry (10 + i)] | _ \<Rightarrow> [])"

lemma example_busy_rings: "sched_rings (store_context 0 v example_busy) (run_heads 0) example_queues"
  by (auto simp: sched_rings_def rings_ok_def ring_def run_heads_def example_busy_def example_queues_def)

lemma example_busy_preempt: "\<exists>w'. sched_preempt 1 (store_context 0 v example_busy) = Inr w' \<and> cpu_tls w' = Some 1"
proof -
  define w0 where "w0 = store_context 0 v example_busy"
  let ?w = "upd_sched 0 (\<lambda>c. c\<lparr>sched_lock := -1\<rparr>) w0"
  have w0: "this_cpu w0 = 0" "kernel_get_current_thread w0 = Some 0" "cpu_scheduler (cpus w0 0) = Some 0"
    "schedulers w0 0 = \<lparr>sched_run_decay = sched_prios, sched_idle = Some 1, sched_thread_count = 33, sched_lock = 0\<rparr>"
    "t_stateflags (threads w0 0) = THREAD_SF_QUEUE_WAIT" "t_nonpreempt (threads w0 0) = 0" "t_wait_queue (threads w0 0) = Some 0"
    "prevp (rings w0) (Sched_Blocked 0) = Some (Sched_Blocked 0)" "\<not> cpu_tss_busy (cpus w0 0)"
    by (simp_all add: w0_def store_context_def example_busy_def example_world_def example_thread_def thread_template_def
        kernel_get_current_thread_def kernel_get_current_cpu_def)
  have "sched_rings ?w (run_heads 0) example_queues" using example_busy_rings [of v] sched_rings_cong [of ?w w0] by (simp add: w0_def)
  moreover have "decay_inv (sched_run_decay (schedulers ?w 0))" using decay_inv_prios by (simp add: w0)
  ultimately have "sched_schedule_next (Suc 0) 0 ?w = Inr (None, upd_sched 0 (\<lambda>c. c\<lparr>sched_run_decay := sched_prios\<rparr>) ?w)"
    using sched_schedule_next_eq [of ?w "run_heads 0" example_queues 0 0] by (simp add: example_queues_def)
  moreover have "lock_sched (Some 0) w0 = Inr ?w" using lock_sched_ok [of w0 0] w0(4) by simp
  ultimately have "\<exists>w'. sched_preempt (Suc 0) w0 = Inr w' \<and> cpu_tls w' = Some 1"
    by (simp add: sched_preempt_def Let_def kernel_get_current_cpu_def w0 thread_flags sched_is_suspended_eq sched_schedule_idle_def
        kernel_set_current_thread_ok sched_reenqueue_def sched_elem_def ring_insert_def linked_ring_insert_def links_access unlock_sched_def upd_sched_def
        del: sched_schedule_next.simps)
  then show ?thesis by (simp add: w0_def)
qed

theorem switch_refines_contexts_witness:
  "\<exists>c' w'. i686_switch 1 (cc_preempt example_code) 0x20000 0xC0103000 (example_context, example_busy) = Inr (c', w') \<and>
     cpu_tls example_busy = Some 0 \<and> cpu_tls w' = Some 1 \<and> r_esp c' = 0x3014 \<and> saved_at (words c') 0xFFF0 (callee_of example_context)"
proof -
  let ?k = "\<lparr>ce_ebx = 0, ce_esi = 0, ce_edi = 0, ce_ebp = 0, ce_esp = 0x3014, ce_eip = 0\<rparr>" and ?c = example_context
  define ctx where "ctx = [1 :: nat \<mapsto> ?k]"
  obtain w' where w': "sched_preempt 1 (store_context 0 (r_esp ?c - 16) example_busy) = Inr w'" "cpu_tls w' = Some 1" using example_busy_preempt by blast
  have h: "contexts_hold ctx example_busy (words ?c)" "cpu_tls example_busy = Some 0" "thread_shape (threads example_busy 0)" "(32 :: nat) \<le> unat (0x20000 - 4 :: u32)"
    by (simp_all add: ctx_def contexts_hold_def saved_at_def example_busy_def example_context_def example_world_def example_thread_def thread_template_def thread_shape_def)
  have own: "context_words (r_esp ?c - 16) \<inter> cpu_range 32 0x20000 = {}"
    by (auto simp: context_words_def cpu_range_def stack_range_def example_context_def)
  have others: "\<forall>v k. v \<noteq> 0 \<and> ctx v = Some k \<longrightarrow> context_words (t_storage (threads example_busy v) ! 1) \<inter> switch_range 32 0x20000 ?c = {}"
    by (auto simp: ctx_def context_words_def switch_range_def cpu_range_def stack_range_def example_context_def example_busy_def split: if_splits)
  have one: "(1 :: nat) = 0 \<or> ctx 1 \<noteq> None" by (simp add: ctx_def)
  from switch_refines_contexts [where ra = "0xC0103000", OF h(1-3) example_abi h(4) w' one own others] obtain c' where
    c': "i686_switch 1 (cc_preempt example_code) 0x20000 0xC0103000 (?c, example_busy) = Inr (c', w')" "(ctx(0 \<mapsto> callee_of ?c)) 1 = Some (callee_now c')"
    "contexts_hold (ctx(0 \<mapsto> callee_of ?c)) w' (words c')" by blast
  have "t_storage (threads w' 0) ! 1 = 0xFFF0"
    using sched_preempt_storage [OF w'(1), of 0] by (simp add: example_busy_def example_context_def example_thread_def thread_template_def)
  then have "saved_at (words c') 0xFFF0 (callee_of ?c)" using c'(3) unfolding contexts_hold_def by (metis map_upd_Some_unfold)
  moreover have "r_esp c' = 0x3014" using c'(2) by (simp add: ctx_def callee_now_def)
  ultimately show ?thesis using c'(1) w'(2) h(2) by blast
qed

text \<open>C4. Interrupts are transparent. Whatever the processor interrupts, in user or in kernel code, the C handler finds the interrupted
  registers in its trap frame, with the number of the vector and the error code if there is one. A vector other than the timer's is
  acknowledged and returned from; the timer's also runs \<^verbatim>\<open>sched_preempt\<close> on the CPU's own stack, and returns unless
  that faults. When the thread is still the running one then, every register is what it was, and so is the
  memory of the stacks outside of what lies below the stack pointer and on the CPU's stack. The C code may be compiled to anything that keeps the calling
  convention and needs at most \<open>d\<close> bytes; the two stacks have to have room for it and be apart.\<close>

theorem interrupt_resumes:
  assumes "c_abi d cc" and "d \<le> unat (k_cpu_stack (m_kernel (s_machine s)) - 4)" and "d + 84 \<le> unat (frame_base (s_tss s) (s_context s))"
    and "cpu_range d (k_cpu_stack (m_kernel (s_machine s))) \<inter> interrupt_range d (s_tss s) (s_context s) = {}"
    and "cpu_tls (s_world s) = Some t" and "thread_shape (threads (s_world s) t)" and "(err \<noteq> None) = has_error_code v" and "v < 256"
  shows "(let e = interrupt_entry v err (m_idt (s_machine s) ! v) (s_tss s) (at_isr_return cc) (s_context s)
      in trapframe_at (words e) (words e (r_esp e + 4)) = trapframe_of v err (s_tss s) (s_context s)) \<and>
    (case (if v = 32 then sched_preempt fuel (store_context t (r_esp (switch_entry cc s) - 16) (s_world s)) else Inr (s_world s)) of
      Inl f \<Rightarrow> take_interrupt fuel cc lapic v err s = Inl f
    | Inr w \<Rightarrow> cpu_tls w = Some t \<longrightarrow>
        (\<exists>m. take_interrupt fuel cc lapic v err s = Inr ((upd_world w (acknowledged lapic v s))\<lparr>s_context := (s_context s)\<lparr>words := m\<rparr>\<rparr>) \<and>
          (\<forall>a. a \<notin> interrupt_range d (s_tss s) (s_context s) \<union> cpu_range d (k_cpu_stack (m_kernel (s_machine s))) \<longrightarrow>
             m a = words (s_context s) a)))"
proof
  show "let e = interrupt_entry v err (m_idt (s_machine s) ! v) (s_tss s) (at_isr_return cc) (s_context s)
      in trapframe_at (words e) (words e (r_esp e + 4)) = trapframe_of v err (s_tss s) (s_context s)"
    using entry_pointers(1,3) [OF assms(7)] entry_frame [OF assms(7)] by (simp add: Let_def)
  show "case (if v = 32 then sched_preempt fuel (store_context t (r_esp (switch_entry cc s) - 16) (s_world s)) else Inr (s_world s)) of
      Inl f \<Rightarrow> take_interrupt fuel cc lapic v err s = Inl f
    | Inr w \<Rightarrow> cpu_tls w = Some t \<longrightarrow>
        (\<exists>m. take_interrupt fuel cc lapic v err s = Inr ((upd_world w (acknowledged lapic v s))\<lparr>s_context := (s_context s)\<lparr>words := m\<rparr>\<rparr>) \<and>
          (\<forall>a. a \<notin> interrupt_range d (s_tss s) (s_context s) \<union> cpu_range d (k_cpu_stack (m_kernel (s_machine s))) \<longrightarrow>
             m a = words (s_context s) a))"
  proof (cases "v = 32")
    case True
    then have "err = None" using assms(7) by (simp add: has_error_code_def)
    moreover have len: "1 < length (t_storage (threads (s_world s) t))" using assms(6) by (simp add: thread_shape_def)
    ultimately show ?thesis
      using True timer_faults [OF assms(5)] timer_interrupt [OF assms(1-5) len] by (auto split: sum.split) metis
  next
    case False
    have "upd_world (s_world s) (acknowledged lapic v s) = acknowledged lapic v s" by (simp add: upd_world_def)
    then show ?thesis using False plain_interrupt [OF assms(1,7,8,3), of fuel lapic] by auto metis
  qed
qed

theorem interrupt_resumes_witness:
  "\<exists>s s'. s_context s = example_context \<and> s_world s = example_world\<lparr>threads := \<lambda>_. example_thread\<lparr>t_stateflags := THREAD_SF_LOCK_SCHED\<rparr>\<rparr> \<and>
     take_interrupt 1 example_code 0 32 None s = Inr s' \<and> (s_context s')\<lparr>words := words example_context\<rparr> = example_context"
proof -
  fix mc :: machine
  let ?w = "example_world\<lparr>threads := \<lambda>_. example_thread\<lparr>t_stateflags := THREAD_SF_LOCK_SCHED\<rparr>\<rparr>"
  define s where "s = \<lparr>s_context = example_context, s_machine = mc\<lparr>m_kernel := (m_kernel mc)\<lparr>k_world := ?w, k_cpu_stack := 0x20000\<rparr>\<rparr>, s_lapic_log = []\<rparr>"
  have s: "s_context s = example_context" "s_world s = ?w" "k_cpu_stack (m_kernel (s_machine s)) = 0x20000" by (simp_all add: s_def)
  have b: "frame_base (s_tss s) (s_context s) = 0x10000" by (simp add: s(1) frame_base_def example_context_def)
  have h: "cpu_range 32 0x20000 \<inter> interrupt_range 32 (s_tss s) (s_context s) = {}" "cpu_tls (s_world s) = Some 0" "thread_shape (threads (s_world s) 0)"
    "(None \<noteq> (None :: u32 option)) = has_error_code 32"
    unfolding interrupt_range_def b
    by (auto simp: s cpu_range_def stack_range_def example_world_def example_thread_def thread_template_def thread_shape_def has_error_code_def)
  define w where "w = store_context 0 (r_esp (switch_entry example_code s) - 16) (s_world s)"
  have pre: "sched_preempt 1 w = Inr w" "cpu_tls w = Some 0"
    by (simp_all add: w_def s(2) store_context_def sched_preempt_def Let_def kernel_get_current_thread_def kernel_get_current_cpu_def example_world_def thread_flags)
  obtain m where "take_interrupt 1 example_code 0 32 None s = Inr ((upd_world w (acknowledged 0 32 s))\<lparr>s_context := (s_context s)\<lparr>words := m\<rparr>\<rparr>)"
    using interrupt_resumes [OF example_abi, of s 0 None 32 1 0] h b s(3) pre(1) [unfolded w_def] pre(2) by (auto simp: w_def)
  then show ?thesis using s(1,2)
    by (intro exI [of _ s] exI [of _ "(upd_world w (acknowledged 0 32 s))\<lparr>s_context := (s_context s)\<lparr>words := m\<rparr>\<rparr>"]) simp
qed

end
