(* ===== verification/Kernel_Run.thy ===== *)
theory Kernel_Run
  imports Boot_Run I686_Context
begin

text \<open>
  The kernel after the boot: sequences of interrupts, taken one after the other while the idle thread is in
  \<^verbatim>\<open>arch_halt\<close>. Each runs from its delivery to the return to the idle thread (\<open>take_interrupt\<close>); the
  gates mask interrupts, so that they do not nest.
\<close>

section \<open>Sequences of interrupts\<close>

text \<open>A vector with the error code the processor pushes for it.\<close>

type_synonym interrupt = "nat \<times> u32 option"

fun take_interrupts :: "nat \<Rightarrow> c_code \<Rightarrow> u32 \<Rightarrow> interrupt list \<Rightarrow> system \<Rightarrow> system res" where
  "take_interrupts fuel cc lapic [] s = Inr s"
| "take_interrupts fuel cc lapic ((v, err) # vs) s =
     rbind (take_interrupt fuel cc lapic v err s) (take_interrupts fuel cc lapic vs)"

definition is_interrupt :: "interrupt \<Rightarrow> bool" where
  "is_interrupt i \<longleftrightarrow> fst i < 256 \<and> (snd i \<noteq> None) = has_error_code (fst i)"

section \<open>The timer\<close>

lemma idle_preempt_faults:
  assumes "idle_kernel k" and "cpu_tls (k_world k) = Some t"
  shows "sched_preempt (Suc fuel) (store_context t v (k_world k)) = Inl Null_Deref"
proof -
  obtain a b s where i: "first_thread t a b k" "cpu_scheduler (cpus (k_world k) (this_cpu (k_world k))) = Some s"
    "schedulers (k_world k) s = \<lparr>sched_run_decay = sched_prios, sched_idle = Some t, sched_thread_count = 1, sched_lock = 0\<rparr>"
    "sched_rings (k_world k) (run_heads s) (\<lambda>_. [])"
    using assms unfolding idle_kernel_def first_thread_def by auto
  let ?w = "store_context t v (k_world k)"
  have t: "t_stateflags (threads ?w t) = 0" "t_nonpreempt (threads ?w t) = 0" using i(1) by (simp_all add: first_thread_def new_thread_def store_context_def)
  have "sched_rings ?w (run_heads s) (\<lambda>_. [])" using i(4) sched_rings_cong [of ?w "k_world k"] by simp
  moreover have "decay_inv (sched_run_decay (schedulers ?w s))" using i(3) decay_inv_prios by simp
  moreover have "kernel_get_current_thread ?w = Some t" using i(1) by (simp add: first_thread_def kernel_get_current_thread_def kernel_get_current_cpu_def)
  moreover have "cpu_scheduler (cpus ?w (this_cpu ?w)) = Some s" "sched_lock (schedulers ?w s) = 0" using i(2,3) by simp_all
  moreover have "sched_is_suspended ?w (Some t) = Inr False" using t by (simp add: sched_is_suspended_eq)
  moreover have "\<exists>i :: nat. i < 32" by (rule exI [of _ 0]) simp
  ultimately show ?thesis using sched_preempt_eq [of ?w "run_heads s" "\<lambda>_. []" s t fuel] t by simp
qed

lemma idle_tick_faults:
  assumes "idle_kernel (m_kernel (s_machine s))"
  shows "take_interrupt (Suc fuel) cc lapic 32 None s = Inl Null_Deref"
proof -
  obtain t where "cpu_tls (s_world s) = Some t" using assms unfolding idle_kernel_def first_thread_def by blast
  then show ?thesis using timer_faults idle_preempt_faults [OF assms] by blast
qed

section \<open>Between the ticks\<close>

text \<open>The kernel and the registers are as in \<open>s\<close>, and so are the gates and the interrupt mask.\<close>

definition same_run :: "system \<Rightarrow> system \<Rightarrow> bool" where
  "same_run s s' \<longleftrightarrow> m_kernel (s_machine s') = m_kernel (s_machine s) \<and> m_idt (s_machine s') = m_idt (s_machine s) \<and>
     irqmask (m_pic (s_machine s')) = irqmask (m_pic (s_machine s)) \<and>
     (\<exists>m. s_context s' = (s_context s)\<lparr>words := m\<rparr>)"

lemma irqmask_interrupt [simp]: "irqmask (fst (snd (i686_interrupt lapic x (p, log)))) = irqmask p"
  by (simp add: i686_interrupt_def i686_piceoi_def Let_def)

lemma same_run_refl: "same_run s s"
  unfolding same_run_def by (intro conjI exI [of _ "words (s_context s)"]) simp_all

lemma same_run_trans: "same_run s s' \<Longrightarrow> same_run s' s'' \<Longrightarrow> same_run s s''"
  by (auto simp: same_run_def)

lemma same_run_frame: "same_run s s' \<Longrightarrow> frame_base (s_tss s') (s_context s') = frame_base (s_tss s) (s_context s)"
  by (auto simp: same_run_def frame_base_def)

lemma quiet_interrupt:
  assumes "c_abi d cc" and "is_interrupt (v, err)" and "v \<noteq> 32" and "d + 84 \<le> unat (frame_base (s_tss s) (s_context s))"
  shows "\<exists>s'. take_interrupt fuel cc lapic v err s = Inr s' \<and> same_run s s'"
proof -
  have i: "(err \<noteq> None) = has_error_code v" "v < 256" using assms(2) unfolding is_interrupt_def fst_conv snd_conv by blast+
  obtain m where m: "take_interrupt fuel cc lapic v err s = Inr ((acknowledged lapic v s)\<lparr>s_context := (s_context s)\<lparr>words := m\<rparr>\<rparr>)"
    by (rule plain_interrupt [OF assms(1) i assms(4,3)])
  have "irqmask (m_pic (s_machine (acknowledged lapic v s))) = irqmask (m_pic (s_machine s))"
    by (simp add: acknowledged_def split_def Let_def)
  then show ?thesis using m by (auto simp: same_run_def)
qed

text \<open>Until the timer ticks, nothing happens; then the kernel faults.\<close>

lemma idle_run:
  assumes "c_abi d cc" and "\<forall>i\<in>set vs. is_interrupt i" and "idle_kernel (m_kernel (s_machine s))"
    and "d + 84 \<le> unat (frame_base (s_tss s) (s_context s))"
  shows "if 32 \<in> fst ` set vs then take_interrupts (Suc fuel) cc lapic vs s = Inl Null_Deref
    else \<exists>s'. take_interrupts (Suc fuel) cc lapic vs s = Inr s' \<and> same_run s s'"
  using assms(2-4)
proof (induction vs arbitrary: s)
  case Nil
  then show ?case by (simp add: same_run_refl)
next
  case (Cons i vs)
  obtain v err where i: "i = (v, err)" by (cases i)
  show ?case
  proof (cases "v = 32")
    case True
    then have "err = None" using Cons.prems(1) i by (simp add: is_interrupt_def has_error_code_def)
    then show ?thesis using idle_tick_faults [OF Cons.prems(2)] True i by simp
  next
    case False
    obtain s' where s': "take_interrupt (Suc fuel) cc lapic v err s = Inr s'" "same_run s s'"
      using quiet_interrupt [OF assms(1) _ False Cons.prems(3), of err "Suc fuel" lapic] Cons.prems(1) i by auto
    have "idle_kernel (m_kernel (s_machine s'))" "d + 84 \<le> unat (frame_base (s_tss s') (s_context s'))"
      using s'(2) Cons.prems(2,3) same_run_frame [OF s'(2)] by (simp_all add: same_run_def)
    from Cons.IH [OF _ this] Cons.prems(1) show ?thesis
      using s' False i same_run_trans [OF s'(2)] by auto
  qed
qed

end
