(* ===== verification/Mp_Tables.thy ===== *)
theory Mp_Tables
  imports X86_Mmu
begin

text \<open>
  The search for the multiprocessor tables: \<open>arch/i686/mp.c\<close> with
  \<open>arch/i686/include/x86/mp.h\<close>, over the window of \<open>X86_Mmu\<close>. A pointer is a virtual
  address, and reading it reads the physical page that the window's entry names; a structure is read
  field by field at its offsets. The lengths are 32-bit words, compared as the signed integers they
  are in the code. The loops run over pointers and are partial functions into options; the ones whose
  end is shown are those over well-formed tables. The call of \<^verbatim>\<open>_i686_initmp\<close> is commented
  out in \<open>kerninit.c\<close>.
\<close>

section \<open>Reading memory through the window\<close>

definition vbyte :: "mmu_state \<Rightarrow> vaddr \<Rightarrow> u8" where
  "vbyte m va = win_byte va (unat (va AND 0xFFF)) m"

definition vhalf :: "mmu_state \<Rightarrow> vaddr \<Rightarrow> u16" where
  "vhalf m va = ucast (vbyte m va) OR push_bit 8 (ucast (vbyte m (va + 1)))"

definition vword :: "mmu_state \<Rightarrow> vaddr \<Rightarrow> u32" where
  "vword m va = ucast (vhalf m va) OR push_bit 16 (ucast (vhalf m (va + 2)))"

text \<open>The offsets of the fields and the sizes of the structures.\<close>

definition sizeof_mp :: u32 where "sizeof_mp = 16"
definition sizeof_mpconf :: u32 where "sizeof_mpconf = 44"
definition sizeof_mpproc :: u32 where "sizeof_mpproc = 20"
definition sizeof_mpioapic :: u32 where "sizeof_mpioapic = 8"

definition mp_physaddr :: "mmu_state \<Rightarrow> vaddr \<Rightarrow> u32" where
  "mp_physaddr m p = vword m (p + 4)"

definition mpconf_length :: "mmu_state \<Rightarrow> vaddr \<Rightarrow> u32" where
  "mpconf_length m p = ucast (vhalf m (p + 4))"

definition mpconf_version :: "mmu_state \<Rightarrow> vaddr \<Rightarrow> u8" where
  "mpconf_version m p = vbyte m (p + 6)"

definition mpconf_lapicaddr :: "mmu_state \<Rightarrow> vaddr \<Rightarrow> u32" where
  "mpconf_lapicaddr m p = vword m (p + 36)"

definition MPBOOT :: u8 where "MPBOOT = 2"
definition MPPROC :: u8 where "MPPROC = 0"
definition MPBUS :: u8 where "MPBUS = 1"
definition MPIOAPIC :: u8 where "MPIOAPIC = 2"
definition MPIOINTR :: u8 where "MPIOINTR = 3"
definition MPLINTR :: u8 where "MPLINTR = 4"

section \<open>State\<close>

record mp_state =
  mp_mmu :: mmu_state
  local_apic :: u32
  ioapic_has :: u8
  ioapic_id :: u8
  ioapic :: u32
  ncpu :: u32
  boot_cpu :: u32
  cpu_apics :: "u8 list"
  g_mpptr :: u32
  g_mplen :: u32
  g_ctptr :: u32
  g_ctlen :: u32
  g_cbptr :: u32
  g_cblen :: u32
  g_conf_table_body :: vaddr

section \<open>Finding the tables\<close>

text \<open>The four bytes of \<^verbatim>\<open>_MP_\<close> and \<^verbatim>\<open>PCMP\<close> as little-endian words.\<close>

definition compare4 :: "mmu_state \<Rightarrow> vaddr \<Rightarrow> u32 \<Rightarrow> bool" where
  "compare4 m a sig \<longleftrightarrow> vword m a = sig"

definition sig_MP :: u32 where "sig_MP = 0x5F504D5F"
definition sig_PCMP :: u32 where "sig_PCMP = 0x504D4350"

primrec sum_loop :: "nat \<Rightarrow> mmu_state \<Rightarrow> vaddr \<Rightarrow> u8 \<Rightarrow> u8" where
  "sum_loop 0 m addr s = s"
| "sum_loop (Suc n) m addr s = sum_loop n m (addr + 1) (s + vbyte m addr)"

definition mp_sum :: "mmu_state \<Rightarrow> vaddr \<Rightarrow> u32 \<Rightarrow> u8" where
  "mp_sum m addr len = sum_loop (nat (sint len)) m addr 0"

partial_function (option) mpsearch2_loop :: "mmu_state \<Rightarrow> vaddr \<Rightarrow> vaddr \<Rightarrow> u32 option" where
  "mpsearch2_loop m p e =
     (if p < e then
        if compare4 m p sig_MP \<and> mp_sum m p sizeof_mp = 0 then Some p
        else mpsearch2_loop m (p + sizeof_mp) e
      else Some 0)"

definition mpsearch2 :: "mmu_state \<Rightarrow> vaddr \<Rightarrow> u32 \<Rightarrow> u32 res" where
  "mpsearch2 m va len = (case mpsearch2_loop m va (va + len) of None \<Rightarrow> Inl No_Return | Some p \<Rightarrow> Inr p)"

definition mpsearch1 :: "paddr \<Rightarrow> u32 \<Rightarrow> mp_state \<Rightarrow> (u32 \<times> mp_state) res" where
  "mpsearch1 pa len s =
     rbind (i686_mp_map_range pa len (mp_mmu s)) (\<lambda>(ptr, m).
     let s = s\<lparr>mp_mmu := m\<rparr> in
     if ptr = 0 then Inr (0, s)
     else
       rbind (mpsearch2 m ptr len) (\<lambda>mp.
       if mp = 0 then rbind (i686_mp_unmap_range ptr len m) (\<lambda>m. Inr (0, s\<lparr>mp_mmu := m\<rparr>))
       else Inr (mp, s\<lparr>g_mpptr := ptr, g_mplen := len\<rparr>)))"

definition mpsearch :: "mp_state \<Rightarrow> (u32 \<times> mp_state) res" where
  "mpsearch s =
     rbind (i686_get_mp (mp_mmu s)) (\<lambda>((addr0, addr1), m).
     rbind (if addr0 \<noteq> 0 then mpsearch1 addr0 1024 (s\<lparr>mp_mmu := m\<rparr>) else Inr (0, s\<lparr>mp_mmu := m\<rparr>)) (\<lambda>(mp, s).
     if mp \<noteq> 0 then Inr (mp, s)
     else
     rbind (if addr1 \<ge> 1024 then mpsearch1 (addr1 - 1024) 1024 s else Inr (0, s)) (\<lambda>(mp, s).
     if mp \<noteq> 0 then Inr (mp, s) else mpsearch1 0xF0000 0x10000 s)))"

definition endpage :: "u32 \<Rightarrow> u32 \<Rightarrow> u32" where
  "endpage va n = (va + n - 1) AND NOT 0xFFF"

text \<open>The configuration table: its address, or 0.\<close>

definition mpconfig :: "mp_state \<Rightarrow> (u32 \<times> mp_state) res" where
  "mpconfig s =
     rbind (mpsearch s) (\<lambda>(mp, s).
     if mp = 0 \<or> mp_physaddr (mp_mmu s) mp = 0 then Inr (0, s)
     else
     let pa = mp_physaddr (mp_mmu s) mp; s = s\<lparr>g_ctlen := sizeof_mpconf\<rparr> in
     rbind (i686_mp_map_range pa (g_ctlen s) (mp_mmu s)) (\<lambda>(conf, m).
     let s = s\<lparr>mp_mmu := m, g_ctptr := conf\<rparr> in
     if conf = 0 then Inr (0, s)
     else if \<not> compare4 m conf sig_PCMP then Inr (0, s)
     else if mpconf_version m conf \<noteq> 1 \<and> mpconf_version m conf \<noteq> 4 then Inr (0, s)
     else
     let len = mpconf_length m conf; s = s\<lparr>g_cblen := len - sizeof_mpconf\<rparr> in
     if endpage conf sizeof_mpconf < endpage conf len then
       let checksum = mp_sum m conf sizeof_mpconf in
       rbind (i686_mp_map_range (pa + sizeof_mpconf) (g_cblen s) m) (\<lambda>(cb, m).
       let s = s\<lparr>mp_mmu := m, g_cbptr := cb\<rparr> in
       if cb = 0 then Inr (0, s)
       else if checksum + mp_sum m cb (g_cblen s) \<noteq> 0 then Inr (0, s)
       else Inr (conf, s\<lparr>g_conf_table_body := cb\<rparr>))
     else
       let s = s\<lparr>g_cbptr := 0\<rparr> in
       if mp_sum m conf len \<noteq> 0 then Inr (0, s)
       else Inr (conf, s\<lparr>g_conf_table_body := conf + sizeof_mpconf\<rparr>)))"

section \<open>Reading the configuration table\<close>

definition mpproc_entry :: "vaddr \<Rightarrow> mp_state \<Rightarrow> mp_state" where
  "mpproc_entry p s =
     (let m = mp_mmu s;
          s = (if unat (ncpu s) < 256 then
                 let s' = s\<lparr>cpu_apics := (cpu_apics s)[unat (ncpu s) := vbyte m (p + 1)]\<rparr>
                 in if vbyte m (p + 3) AND MPBOOT \<noteq> 0 then s'\<lparr>boot_cpu := ncpu s\<rparr> else s'
               else s)
      in s\<lparr>ncpu := ncpu s + 1\<rparr>)"

definition mpioapic_entry :: "vaddr \<Rightarrow> mp_state \<Rightarrow> mp_state" where
  "mpioapic_entry p s =
     s\<lparr>ioapic_has := 0, ioapic_id := vbyte (mp_mmu s) (p + 1), ioapic := vword (mp_mmu s) (p + 4)\<rparr>"

partial_function (option) mpinit_loop :: "vaddr \<Rightarrow> vaddr \<Rightarrow> mp_state \<Rightarrow> (bool \<times> mp_state) option" where
  "mpinit_loop p e s =
     (if p < e then
        let t = vbyte (mp_mmu s) p in
        if t = MPPROC then mpinit_loop (p + sizeof_mpproc) e (mpproc_entry p s)
        else if t = MPIOAPIC then mpinit_loop (p + sizeof_mpioapic) e (mpioapic_entry p s)
        else if t = MPBUS \<or> t = MPIOINTR \<or> t = MPLINTR then mpinit_loop (p + 8) e s
        else Some (False, s)
      else Some (True, s))"

definition mpinit :: "mp_state \<Rightarrow> (bool \<times> mp_state) res" where
  "mpinit s =
     (case mpinit_loop (g_conf_table_body s) (g_conf_table_body s + g_cblen s) (s\<lparr>ioapic := 0\<rparr>) of
        None \<Rightarrow> Inl No_Return
      | Some (ismp, s) \<Rightarrow> Inr (if ncpu s < 1 then False else ismp, s))"

definition i686_initmp :: "mp_state \<Rightarrow> mp_state res" where
  "i686_initmp s =
     rbind (mpconfig (s\<lparr>g_mpptr := 0, g_mplen := 0\<rparr>)) (\<lambda>(conf, s).
     let s = s\<lparr>ioapic_has := 0, ioapic := 0, boot_cpu := 256\<rparr> in
     rbind (if conf \<noteq> 0 then
              rbind (mpinit s) (\<lambda>(ismp, s).
              let s = s\<lparr>local_apic := mpconf_lapicaddr (mp_mmu s) conf\<rparr> in
              Inr (ismp \<and> ioapic s \<noteq> 0 \<and> local_apic s \<noteq> 0 \<and> \<not> ioapic s < 0xfe000000 \<and> \<not> local_apic s < 0xfe000000, s))
            else Inr (False, s)) (\<lambda>(ismp, s).
     Inr (if ismp then s
          else s\<lparr>local_apic := 0, boot_cpu := 0, ncpu := 1, ioapic_has := 0, ioapic := 0\<rparr>)))"

section \<open>Well-formed tables\<close>

datatype mp_entry = Processor u8 u8 | Io_Apic u8 u32 | Other_Entry u8

primrec entry_size :: "mp_entry \<Rightarrow> u32" where
  "entry_size (Processor a f) = 20"
| "entry_size (Io_Apic i a) = 8"
| "entry_size (Other_Entry t) = 8"

text \<open>The entry is in memory at the address.\<close>

primrec entry_at :: "mmu_state \<Rightarrow> vaddr \<Rightarrow> mp_entry \<Rightarrow> bool" where
  "entry_at m p (Processor a f) \<longleftrightarrow> vbyte m p = 0 \<and> vbyte m (p + 1) = a \<and> vbyte m (p + 3) = f"
| "entry_at m p (Io_Apic i a) \<longleftrightarrow> vbyte m p = 2 \<and> vbyte m (p + 1) = i \<and> vword m (p + 4) = a"
| "entry_at m p (Other_Entry t) \<longleftrightarrow> vbyte m p = t \<and> t \<in> {1, 3, 4}"

text \<open>A table: the entries one behind the other up to the end.\<close>

primrec table_at :: "mmu_state \<Rightarrow> vaddr \<Rightarrow> mp_entry list \<Rightarrow> vaddr \<Rightarrow> bool" where
  "table_at m p [] e \<longleftrightarrow> p = e"
| "table_at m p (x # xs) e \<longleftrightarrow> p < e \<and> entry_at m p x \<and> table_at m (p + entry_size x) xs e"

definition proc_ids :: "mp_entry list \<Rightarrow> u8 list" where
  "proc_ids xs = [a. Processor a f \<leftarrow> xs]"

definition io_apics :: "mp_entry list \<Rightarrow> (u8 \<times> u32) list" where
  "io_apics xs = [(i, a). Io_Apic i a \<leftarrow> xs]"

text \<open>What the entries make of the state.\<close>

primrec enter_entry :: "mp_entry \<Rightarrow> mp_state \<Rightarrow> mp_state" where
  "enter_entry (Processor a f) s =
     (let s' = (if unat (ncpu s) < 256
                then s\<lparr>cpu_apics := (cpu_apics s)[unat (ncpu s) := a],
                       boot_cpu := (if f AND 2 \<noteq> 0 then ncpu s else boot_cpu s)\<rparr> else s)
      in s'\<lparr>ncpu := ncpu s + 1\<rparr>)"
| "enter_entry (Io_Apic i a) s = s\<lparr>ioapic_has := 0, ioapic_id := i, ioapic := a\<rparr>"
| "enter_entry (Other_Entry t) s = s"

lemma enter_entry_mmu [simp]: "mp_mmu (enter_entry x s) = mp_mmu s"
  by (cases x) (simp_all add: Let_def)

lemma mpinit_loop_step:
  assumes "p < e" and "entry_at (mp_mmu s) p x"
  shows "mpinit_loop p e s = mpinit_loop (p + entry_size x) e (enter_entry x s)"
  using assms
  by (cases x; subst mpinit_loop.simps)
    (auto simp: Let_def MPPROC_def MPIOAPIC_def MPBUS_def MPIOINTR_def MPLINTR_def MPBOOT_def sizeof_mpproc_def
      sizeof_mpioapic_def mpproc_entry_def mpioapic_entry_def)

lemma mpinit_loop_table:
  assumes "table_at (mp_mmu s) p xs e"
  shows "mpinit_loop p e s = Some (True, fold enter_entry xs s)"
  using assms
proof (induction xs arbitrary: p s)
  case Nil
  then show ?case by (subst mpinit_loop.simps) simp
next
  case (Cons x xs)
  then show ?case using mpinit_loop_step [of p e s x] by simp
qed

text \<open>The processors of the table: their number, and the identifiers of the first 256.\<close>

lemma enter_entries_procs:
  assumes "unat (ncpu s) + length (proc_ids xs) \<le> 256" and "length (cpu_apics s) = 256"
  shows "unat (ncpu (fold enter_entry xs s)) = unat (ncpu s) + length (proc_ids xs) \<and>
    cpu_apics (fold enter_entry xs s) =
      take (unat (ncpu s)) (cpu_apics s) @ proc_ids xs @ drop (unat (ncpu s) + length (proc_ids xs)) (cpu_apics s)"
  using assms
proof (induction xs arbitrary: s)
  case (Cons x xs)
  show ?case
  proof (cases x)
    case (Processor a f)
    let ?s = "enter_entry x s"
    have n: "unat (ncpu s) < 256" using Cons.prems(1) Processor by (simp add: proc_ids_def)
    then have s: "unat (ncpu ?s) = Suc (unat (ncpu s))" "cpu_apics ?s = (cpu_apics s)[unat (ncpu s) := a]"
      using Processor by (simp_all add: Let_def unat_word_ariths)
    have ih: "unat (ncpu (fold enter_entry xs ?s)) = unat (ncpu ?s) + length (proc_ids xs) \<and>
      cpu_apics (fold enter_entry xs ?s) =
        take (unat (ncpu ?s)) (cpu_apics ?s) @ proc_ids xs @ drop (unat (ncpu ?s) + length (proc_ids xs)) (cpu_apics ?s)"
      using Cons.prems s Processor by (intro Cons.IH) (simp_all add: proc_ids_def)
    have "take (Suc (unat (ncpu s))) ((cpu_apics s)[unat (ncpu s) := a]) = take (unat (ncpu s)) (cpu_apics s) @ [a]"
      using n Cons.prems(2) by (simp add: take_Suc_conv_app_nth)
    then show ?thesis using ih s Processor by (simp add: proc_ids_def)
  qed (use Cons in \<open>simp_all add: proc_ids_def\<close>)
qed (simp add: proc_ids_def)

lemma enter_entries_ioapic:
  "ioapic (fold enter_entry xs s) = (if io_apics xs = [] then ioapic s else snd (last (io_apics xs)))"
  "ioapic_has s = 0 \<Longrightarrow> ioapic_has (fold enter_entry xs s) = 0"
proof (induction xs arbitrary: s)
  case (Cons x xs)
  { case 1 then show ?case using Cons(1) [of "enter_entry x s"] by (cases x) (auto simp: io_apics_def Let_def) }
  { case 2 then show ?case using Cons(2) [of "enter_entry x s"] by (cases x) (auto simp: Let_def) }
qed (simp_all add: io_apics_def)

section \<open>Properties\<close>

text \<open>C32. Reading a well-formed configuration table of at most 256 processors ends and reads it
  completely: the number of processors is that of the table's processor entries, the array of
  local APIC identifiers starts with theirs in the table's order, and the I/O APIC is the last one of
  the table. The flag for the I/O APIC stays 0 although one is found.\<close>

theorem mpinit_reads_table:
  assumes "table_at (mp_mmu s) (g_conf_table_body s) xs (g_conf_table_body s + g_cblen s)"
    and "ncpu s = 0" and "length (cpu_apics s) = 256" and "ioapic_has s = 0"
    and "length (proc_ids xs) \<le> 256"
  shows "\<exists>s'. mpinit s = Inr (proc_ids xs \<noteq> [], s') \<and> unat (ncpu s') = length (proc_ids xs) \<and>
    take (length (proc_ids xs)) (cpu_apics s') = proc_ids xs \<and>
    ioapic s' = (if io_apics xs = [] then 0 else snd (last (io_apics xs))) \<and> ioapic_has s' = 0"
proof -
  let ?s = "s\<lparr>ioapic := 0\<rparr>"
  let ?t = "fold enter_entry xs ?s"
  have l: "mpinit_loop (g_conf_table_body s) (g_conf_table_body s + g_cblen s) ?s = Some (True, ?t)"
    using assms(1) by (intro mpinit_loop_table) simp
  have n: "unat (ncpu ?t) = length (proc_ids xs)" "take (length (proc_ids xs)) (cpu_apics ?t) = proc_ids xs"
    using enter_entries_procs [of ?s xs] assms(2,3,5) by simp_all
  moreover have "ncpu ?t < 1 \<longleftrightarrow> proc_ids xs = []"
    using n(1) by (simp add: word_less_nat_alt)
  ultimately show ?thesis
    using l enter_entries_ioapic [where xs = xs and s = ?s] assms(4) by (simp add: mpinit_def)
qed

text \<open>A table of one processor and one I/O APIC at the start of a page.\<close>

definition example_mp :: mp_state where
  "example_mp = \<lparr>mp_mmu = \<lparr>kernel_page_table = replicate 4096 0x5003, kernel_page_dir = [], map_sl = 0,
       pmem = (\<lambda>_ i. if i = 0 then 0x03140700 else if i = 5 then 0x01110102 else if i = 6 then 0xFEC00000 else 0)\<rparr>,
     local_apic = 0, ioapic_has = 0, ioapic_id = 0, ioapic = 0, ncpu = 0, boot_cpu = 256, cpu_apics = replicate 256 0,
     g_mpptr = 0, g_mplen = 0, g_ctptr = 0, g_ctlen = 0, g_cbptr = 0, g_cblen = 28, g_conf_table_body = 0xC0C00000\<rparr>"

lemma example_mp_table:
  "table_at (mp_mmu example_mp) (g_conf_table_body example_mp) [Processor 7 3, Io_Apic 1 0xFEC00000]
     (g_conf_table_body example_mp + g_cblen example_mp)"
  by (simp add: example_mp_def vbyte_def vhalf_def vword_def win_byte_def win_read_def win_page_def)

theorem mpinit_reads_table_witness:
  "\<exists>s'. mpinit example_mp = Inr (True, s') \<and> unat (ncpu s') = 1 \<and> take 1 (cpu_apics s') = [7] \<and> ioapic s' = 0xFEC00000"
proof -
  have "proc_ids [Processor 7 3, Io_Apic 1 0xFEC00000] = [7]" "io_apics [Processor 7 3, Io_Apic 1 0xFEC00000] = [(1, 0xFEC00000)]"
    by (simp_all add: proc_ids_def io_apics_def)
  moreover have "ncpu example_mp = 0" "length (cpu_apics example_mp) = 256" "ioapic_has example_mp = 0"
    by (simp_all add: example_mp_def)
  ultimately show ?thesis using mpinit_reads_table [OF example_mp_table] by auto
qed

text \<open>Whatever is found, the outcome is consistent: either the two controllers have addresses in the
  memory of the devices and there is at least one processor, or everything is set as on a machine with
  one processor.\<close>

theorem initmp_consistent:
  assumes "i686_initmp s = Inr s'"
  shows "(\<not> local_apic s' < 0xfe000000 \<and> \<not> ioapic s' < 0xfe000000 \<and> ncpu s' \<noteq> 0) \<or>
    (local_apic s' = 0 \<and> ioapic s' = 0 \<and> boot_cpu s' = 0 \<and> ncpu s' = 1)"
proof -
  have r: "res_post (mpinit t) (\<lambda>(ismp, u). ismp \<longrightarrow> ncpu u \<noteq> 0)" for t
    by (auto simp: res_post_def mpinit_def split: option.splits prod.splits)
  show ?thesis using assms r by (fastforce simp: i686_initmp_def Let_def res_inv res_post_def split: if_splits prod.splits)
qed

end
