(* ===== verification/Spec2Isabelle.thy ===== *)
theory Spec2Isabelle
  imports Bin_Tree Shared_Lock Kernel_Run Mp_Tables
begin

text \<open>
  \<^bold>\<open>A verification of rkernel2\<close>

  rkernel2 is a small kernel for i686 machines. The boot code hands the memory map to a page
  allocator; on top of it the i686 port maintains the kernel's page tables; region mappers and
  dataspaces divide the kernel's part of the address space; the kernel memory allocator turns them into
  mapped chunks; zones and kernel stacks are built from the chunks, threads from zones and stacks; the
  scheduler, the wait queues and the shared locks order the threads. Beside this stand the search
  tree, the string functions and the terminal with the formatted output. The sources are under
  \<open>src/system\<close>; file names below are relative to it.

  \<^bold>\<open>Conventions.\<close> A C integer is a word of its width, so arithmetic wraps as it does in the
  code; loop counters that cannot wrap are natural numbers. A pointer into an array or a pool is an
  index or an option of an index; a structure is a record; the memory a component owns is part of its
  state. A function that can fault returns a value of \<open>'a res\<close> (\<open>Kernel_Prelude\<close>): a fault
  (null dereference, access outside an array, spinning on a lock that nobody releases, panic, protection
  fault, undefined behaviour, no return) or a result. Spinlocks are the lock byte of the code; a call that finds the
  lock taken is the fault \<open>Spin_Forever\<close> where one call is looked at, and a step relation where the
  interleaving matters. A message the code prints goes to the terminal that is part of the state; \<open>printf\<close>
  writes it there through the whole path of the code, so that the theorems say what the screen shows. A run that ends in
  \<^verbatim>\<open>arch_halt\<close> is \<open>Halted\<close>; a panic is a fault where the code around it calls it.

  \<^bold>\<open>Parts, theories and what is shown.\<close>

  \<^item> \<open>Kernel_Prelude\<close>: machine types, faults, lemmas on results and words.
  \<^item> \<open>Spinlock\<close> (\<open>include/sys/kspinlock.h\<close>): try-lock, lock, unlock; mutual exclusion over all
    interleavings of any number of CPUs, and that a spinning call returns with the lock once it is released.
  \<^item> \<open>Linked_Ring\<close> (\<open>kern/kern_ring.c\<close>, \<open>include/utils/list.h\<close>): every operation over a store of
    links refines the operation on the abstract list, and leaves disjoint rings alone; inserting a node that is linked already breaks the ring.
  \<^item> \<open>Phys_Mem\<close> (\<open>physmem/phys_bmainit.c\<close>, \<open>physmem/phys_bmalloc.c\<close>): the boot-time set-up
    establishes the invariant; allocation returns a fresh page of the pool and fails only when it is
    exhausted; releasing never releases anything.
  \<^item> \<open>Bin_Tree\<close> (\<open>vm/tree.c\<close>): the search tree with explicit paths refines a finite map; lookups,
    floor, ceiling, insertion and removal; the limits of its balancing.
  \<^item> \<open>X86_Mmu\<close> (\<open>arch/i686/mmu.c\<close>, \<open>arch/i686/physmem.c\<close>, \<open>xcpu/vm.c\<close>): the mapping window,
    the kernel's page tables; \<^verbatim>\<open>pmap_enter\<close> makes the hardware walk yield the page with its
    permission and changes no other translation; when a TLB stays coherent without a flush, and that a flush
    makes it so. The directory entries 768 to 771 name the window's own
    tables and are below the range of the pmap.
  \<^item> \<open>Vm_Regions\<close> (\<open>vm/dataspace.c\<close>, \<open>vm/region_mapper.c\<close>, \<open>vm/rm_pager.c\<close>,
    \<open>vm/protection_domain.c\<close>): first-fit insertion keeps the regions sorted and disjoint; all outcomes of
    a page fault.
  \<^item> \<open>Kmem\<close> (\<open>vm/kmem_util2.c\<close>): a successful allocation maps fresh pages at addresses nobody
    uses; it interprets \<open>kernel_memory\<close> (\<open>Kmem_Interface\<close>), the contract the following three rely
    on, and \<open>kernel_supply\<close>, by which a request succeeds while there are pages.
  \<^item> \<open>Kern_Stacks\<close> (\<open>kern/kern_stacks.c\<close>), \<open>Zone_Alloc\<close> (\<open>kern/zalloc.c\<close>), \<open>Threads\<close>
    (\<open>kern/kern_thread.c\<close>, parts of \<open>arch/i686/hal.c\<close>): pools that never hand out an object twice and
    never lose one. Each pool has two sets: the objects in use, of which the invariant says that they are not free, and the objects its free list leads to
    (\<open>stack_free\<close>, \<open>zone_free\<close>), a function of the memory; an allocation takes its result out of the free set, a release puts it back, and
    nothing else leaves it. Further
    thread creation with all its error paths; the interrupt stacks of system calls, and the task register, which
    each thread switch loads.
  \<^item> \<open>Sched\<close> (\<open>kern/kern_sched.c\<close>), \<open>Wait_Queue\<close> (\<open>kern/kern_wait.c\<close>): ring invariants,
    where each operation puts a thread, bounds of the decay counters, order of the queues; that no thread of a run ring
    is dispatched and none blocks as the code is, and what becomes of a queue that a thread enters twice. The step relation \<open>kern_step\<close> has one rule for each operation of
    threads, scheduler and wait queues.
  \<^item> \<open>Field_Invariant\<close>: a condition on the records of threads, schedulers and CPUs that the assignments of the code
    keep is kept by all operations of the three parts above, in any order. The locale \<open>switch_invariant\<close> covers what a
    preemption does, \<open>field_invariant\<close> extends it to the rest. Its instances: the lengths of the arrays, that no thread
    has a wait queue, the words a thread's context is stored in, and that a CPU has its task register loaded.
  \<^item> \<open>Shared_Lock\<close> (\<open>kern/kern_lock.c\<close>): calls cut at the points where they wait, a step relation
    over any number of threads; exclusion of readers and writers, and that a drained lock stays drained, whatever happens to the wait queue.
  \<^item> \<open>Kernel_Core\<close> (\<open>vm/vm_init.c\<close>, \<open>vm/protection_domain.c\<close>, \<^verbatim>\<open>thread_init\<close>,
    \<^verbatim>\<open>sched_init\<close>): \<^verbatim>\<open>vm_init\<close>, the first zones, and the interpretation of the
    thread memory on zones, stacks and kernel memory together.
  \<^item> \<open>Kernel_Main\<close> (\<open>kern/init_main.c\<close>, \<open>kern/port_alive.c\<close>, \<open>platform/i686-pc/caps.c\<close>) and
    \<open>Boot_Run\<close>: the boot as one run, each stage of \<^verbatim>\<open>kernel_main\<close> and what it shows; every step
    succeeds with what the steps before it leave, and the run ends in the idle loop.
  \<^item> \<open>I686_Boot\<close> (\<open>arch/i686/kerninit.c\<close>, \<open>hal.c\<close>, \<open>irq_pic.c\<close>, \<open>irq_lapic.c\<close>,
    \<open>kern/init_main.c\<close>): descriptors, descriptor tables, interrupt controllers, interrupt entry, and the
    memory ranges given to the page allocator: the pool lies in the reported memory and behind the kernel.
  \<^item> \<open>I686_Context\<close> (\<open>arch/i686/intvec.s\<close>, \<open>interrupt.s\<close>, \<open>switch.s\<close>): delivery of an interrupt, the way through
    vector, \<^verbatim>\<open>__i686_isr\<close> and handler and back, and \<^verbatim>\<open>__i686_switch\<close>, instruction by instruction
    over registers and a word memory. What the compiled C functions do to registers and stack is a parameter \<open>c_code\<close>, of
    which \<open>c_abi\<close> states the calling convention. An interrupt that switches no thread gives back every register; the switch
    refines the exchange of abstract contexts.
  \<^item> \<open>Kernel_Run\<close>: sequences of interrupts taken in the idle loop.
  \<^item> \<open>Mp_Tables\<close> (\<open>arch/i686/mp.c\<close>): the search for the multiprocessor tables and their reading.
  \<^item> \<open>Kern_String\<close> (\<open>libkern/string.c\<close>): every function over a byte memory; strings by their terminating
    zero. The copying functions declare their pointers \<^verbatim>\<open>__restrict__\<close>: they are undefined where source and destination overlap.
  \<^item> \<open>Iopipe\<close> (\<open>iopipe/iopipe_ops.c\<close>) with the contract \<open>byte_sink\<close> of an output device, and
    \<open>Terminal\<close> (\<open>terminal\<close>, \<open>platform/i686-pc/terminal.c\<close>), which interprets it: a write puts
    every byte on the screen and leaves the ring empty; the console stays inside the screen.
  \<^item> \<open>Kern_Printf\<close> (\<open>libkern/printf.c\<close>, \<open>libkern/printinfo.c\<close>): proved once over
    \<open>byte_sink\<close>, the format loops write exactly the reference rendering of format and arguments; the number
    buffer is large enough and its strings read back.
  \<^item> \<open>Kern_Message\<close> (\<open>libkern/abort.c\<close>, \<open>libkern/abort_ex.c\<close>): messages, panic, assertions
    and the halt.

  This theory puts the parts together: the boot from the multiboot data to the idle thread, what the booted kernel
  does with interrupts and thread switches, zones over the kernel's memory, and threads over zones and stacks.

  \<^bold>\<open>Fuel and loops.\<close> Loops over counters recurse on them. Loops that may run for ever are partial
  functions into options (\<^verbatim>\<open>calc_size\<close>, the TLB flush of a range, the list walks of the region
  mapper, string loops, the poll of the local APIC), and the theorems say when they end. Fuel is used in
  two places: the terminal's output loop, where 1024 rounds are all positions of the ring, and the jump
  back to \<^verbatim>\<open>restart\<close> in the scheduler, where the theorems hold for every positive fuel.

  \<^bold>\<open>Not modelled.\<close> The entry from the boot loader (\<open>boot.s\<close>, \<open>crti.s\<close>, \<open>crtn.s\<close>): what the C code uses of it
  (the first page tables, the end of the image, the multiboot data) are parameters and hypotheses of the boot.
  \<^verbatim>\<open>__i686_initthread\<close> in \<open>switch.s\<close>, which nothing calls and whose jumps go to absolute addresses instead of its
  labels. In the scheduler and the wait queues, a thread switch is the point where a call is cut; the registers are in
  \<open>I686_Context\<close>. Code under \<^verbatim>\<open>#if 0\<close>. The system calls, of which only the numbers exist. The reads of device
  registers are parameters. What the map leaves of the other files are declarations, constants nothing uses, and empty bodies.
\<close>

section \<open>The memory of the kernel, from the page allocator to the threads\<close>

text \<open>A machine with 1024 free pages from 4 MB on.\<close>

definition boot_pages :: phys_state where
  "boot_pages = phys_static
     \<lparr>prealloc_pbma := (prealloc_pbma phys_static)
        [0 := \<lparr>pmb_range = \<lparr>pm_begin = 0x400000, pm_end = 0x800000\<rparr>, pmb_bitmap = 0, pmb_length = 0x400\<rparr>],
      prealloc_pbma_ptr := (prealloc_pbma_ptr phys_static)[0 := Some 0], pmb_n_maps := 1\<rparr>"

definition boot_machine :: "vm_state zstate" where
  "boot_machine = \<lparr>zmem = (\<lambda>_. 0), zones = (\<lambda>_. \<lparr>zn_bufsize = 128, zn_freelist = 0, zn_name = ''thread'', zn_count = 0,
       zn_memtype = ZONE_AUTO_REFILL, zn_lock = 0\<rparr>), zone_zone = 0,
     zvm = example_vm\<lparr>vm_phys := boot_pages,
       dss := \<lambda>_. \<lparr>ds_lock = 0, ds_n_pages = 0, ds_refc = 0, ds_size = 0, ds_pages = replicate 130 0\<rparr>\<rparr>\<rparr>"

lemma boot_pages_ok: "boot_phys boot_pages" "card (page_pool boot_pages - allocated boot_pages) = 1024"
proof -
  have sel: "unat (pmb_n_maps boot_pages) = 1" "pm_len (prealloc_pbma boot_pages ! 0) = 1024" "pmb_lock boot_pages = 0"
    "pm_begin (pmb_range (prealloc_pbma boot_pages ! 0)) = 0x400000" "bitmap_block boot_pages = (\<lambda>_. 0)"
    by (simp_all add: boot_pages_def phys_static_def pm_len_def NNUMBER_def)
  have inv: "phys_inv boot_pages"
    by (simp add: phys_inv_def maps_ok_def boot_pages_def phys_static_def NNUMBER_def UNUMBER_def bitmap_end_def pm_len_def)
  then have mo: "maps_ok boot_pages (unat (pmb_n_maps boot_pages))" by (simp add: phys_inv_def)
  have sl: "slots boot_pages = {0} \<times> {..<1024}" unfolding slots_def sel(1) by (auto simp: sel(2))
  have free: "allocated boot_pages = {}" by (simp add: allocated_def used_slots_def slot_bit_def sel(5))
  have card: "card (page_pool boot_pages) = 1024"
    unfolding page_pool_def using card_image [OF inj_on_slot_page [OF mo]] by (simp add: sl card_cartesian_product)
  have pg: "unat (slot_page boot_pages (0, b)) = 0x400000 + 4096 * b" if "b < 1024" for b
  proof -
    have "unat (of_nat (4096 * b) :: u32) = 4096 * b" using that by (intro unat_of_nat_u32) simp
    moreover have "slot_page boot_pages (0, b) = of_nat (4096 * b) + 0x400000"
      by (simp add: slot_page_def page_of_def sel(4) MUL_PAGESIZE_def push_bit_eq_mult)
    ultimately show ?thesis using that by (simp add: unat_add_u32 del: of_nat_mult)
  qed
  have page: "\<exists>b<1024. unat q = 0x400000 + 4096 * b" if "q \<in> page_pool boot_pages" for q
    using that pg by (auto simp: page_pool_def sl)
  have "0 \<notin> page_pool boot_pages" using page by fastforce
  moreover have "PTE_ADDR q = q" if "q \<in> page_pool boot_pages" for q
    using page [OF that] by (auto intro!: aligned_PTE_ADDR)
  ultimately show "boot_phys boot_pages" "card (page_pool boot_pages - allocated boot_pages) = 1024"
    using inv free card by (simp_all add: boot_phys_def pages_aligned_def)
qed

text \<open>Bringing up the memory. On a machine with a well-formed, page-aligned page allocator that
  has at least 252 free pages, an empty mapping window, the static variables zeroed and the terminal initialised,
  \<^verbatim>\<open>vm_init\<close> does not fault. Afterwards the zone of zones has its 2048 buffers and the
  kernel's memory satisfies the invariant of \<^verbatim>\<open>vm_kalloc_ll\<close>, with 128 pages of
  addresses from \<open>0xC1000000\<close> on and none of them used; 252 pages went into page tables and the screen
  shows the capacity.\<close>

theorem vm_init_establishes:
  assumes "boot_phys (vm_phys (zvm m))" and "mmu_ok (vm_mmu (zvm m))" and "window_free (vm_mmu (zvm m))"
    and "0 < unat buf" and "unat buf + 65536 < 4294967296" and "length (ds_pages (dss (zvm m) 0)) = 130" and "vm_up (zvm m)"
  shows "\<exists>m'. vm_init z buf dir m = Inr m' \<and> kmem_inv (zvm m') 0 0 0 \<and> kmem_addr (zvm m') 0 = 0xC1000000 \<and>
    ds_n_pages (dss (zvm m') 0) = 128 \<and> zone_zone m' = z \<and> zn_count (zones m' z) = 2048 \<and>
    screen (vm_term (zvm m')) = show_text capacity_text (screen (vm_term (zvm m))) \<and>
    card (page_pool (vm_phys (zvm m')) - allocated (vm_phys (zvm m'))) =
      card (page_pool (vm_phys (zvm m)) - allocated (vm_phys (zvm m))) - 252"
  by (rule vm_init_ok [OF assms])

lemma boot_machine_ok:
  "boot_phys (vm_phys (zvm boot_machine))" "mmu_ok (vm_mmu (zvm boot_machine))" "window_free (vm_mmu (zvm boot_machine))"
  "length (ds_pages (dss (zvm boot_machine) 0)) = 130" "vm_up (zvm boot_machine)"
  using boot_pages_ok example_mmu_ok example_vm_up by (simp_all add: boot_machine_def example_vm_def vm_up_def)

theorem vm_init_establishes_witness:
  "\<exists>m'. vm_init 0x2000 0xC0200000 0xC0010000 boot_machine = Inr m' \<and> kmem_inv (zvm m') 0 0 0 \<and>
     zn_count (zones m' 0x2000) = 2048"
  using vm_init_establishes [OF boot_machine_ok(1,2,3) _ _ boot_machine_ok(4,5), of "0xC0200000" "0x2000" "0xC0010000"] by auto

section \<open>The boot, from the boot loader to the idle thread\<close>

lemma boot_reaches_idle:
  assumes "image_ok im" and "memory_reported im 270" and "static_state im (m_kernel m)" and "k_slice (m_kernel m) = slice_static"
  shows "\<exists>k. i686_boot_main im m = Inr (Halted ((i686_init im m)\<lparr>m_kernel := k\<rparr>)) \<and> idle_kernel k \<and>
    kern_screen k = show_text (capacity_text @ ll_text 4 @ ll_text 1 @ ll_text 4 @ ll_text 4 @ ll_text 5 @ hey_text) (first_screen (m_kernel m))"
proof -
  let ?k = "m_kernel (i686_init im m)"
  have k: "k_slice ?k = i686_init_memory (kernel_end im) (multiboot_memdata im) slice_static" "k_mem ?k = k_mem (m_kernel m)" "tss_free ?k"
    using assms(4) by (simp_all add: i686_init_def Let_def split: prod.splits)
  then have "static_state im ?k" "first_screen ?k = first_screen (m_kernel m)"
    using assms(3) by (simp_all add: static_state_def first_screen_def)
  then show ?thesis
    using main_ok [OF assms(1) _ assms(2) k(1,3)]
    by (auto simp: i686_boot_main_def kernel_main_def platform_get_cap_stage_def Let_def)
qed

text \<open>C1. The boot runs through. When the boot loader reports the memory as it should, with at least 272 pages
  behind the kernel and no more upper memory than the bitmap block of the allocator can describe, and the static
  variables are what the loader leaves, \<^verbatim>\<open>_i686_boot_main\<close> does not fault and does not panic; it halts in
  the idle loop at the end of \<^verbatim>\<open>main\<close>. There the kernel is \<open>idle_kernel\<close>: the first thread is current and is
  the idle thread of the scheduler of its CPU, whose run rings are empty; the task state segment names the first of the thread's two stacks for interrupts
  from user mode; no stack is left in the pool, of the 32 objects that each of the zones of threads and of schedulers has got, all are free but the one in use;
  the kernel's memory satisfies its invariant, and interrupts are on.
  The screen shows the capacity, a line for each of the five requests for pages (4, 1, 4, 4, 5) and the last message; descriptor tables and interrupt
  controllers are those of \<^verbatim>\<open>_i686_init\<close>.\<close>

theorem kernel_reaches_idle:
  assumes "image_ok im" and "memory_reported im 270" and "static_state im (m_kernel m)" and "k_slice (m_kernel m) = slice_static"
  shows "\<exists>k. i686_boot_main im m = Inr (Halted ((i686_init im m)\<lparr>m_kernel := k\<rparr>)) \<and> idle_kernel k \<and>
    kern_screen k = show_text (capacity_text @ ll_text 4 @ ll_text 1 @ ll_text 4 @ ll_text 4 @ ll_text 5 @ hey_text) (first_screen (m_kernel m))"
  by (rule boot_reaches_idle [OF assms])

text \<open>A loaded kernel with 128 MB of memory.\<close>

definition example_image :: image where
  "example_image = \<lparr>at_cpu = 0xC0110000, at_slice = 0xC0110100, at_memrange = 0xC0110200, at_bmas = 0xC0110300, at_maps = 0xC0110400,
     at_zone_zone = 0xC0110500, at_szz_buf = 0xC0120000, at_page_dir = 0xC0111000, at_gdt = 0xC0112000, at_tss = 0xC0112100,
     at_idt = 0xC0113000, at_cpu_local = 0xC0114000, i686_vectors = replicate 256 0xC0115000, kernel_end = 0xC0142000,
     multiboot_memdata = [1, 640, 129920]\<rparr>"

definition example_kernel :: kernel where
  "example_kernel = \<lparr>k_slice = slice_static, k_bmas = 0,
     k_mem = \<lparr>stacks = None, stacks_sl = 0, kstacks = (\<lambda>_. \<lparr>st_tail = None, st_sp = 0\<rparr>),
       vmst = boot_machine\<lparr>zones := \<lambda>y. (zones boot_machine y)\<lparr>zn_memtype := 0\<rparr>, zvm := (zvm boot_machine)\<lparr>vm_phys := phys_static\<rparr>\<rparr>\<rparr>,
     k_world = example_world, k_cpu_stack = 0, k_thread_zone = 0, k_sched_zone = 0, k_interrupts = False\<rparr>"

lemma example_image_ok: "image_ok example_image" "memory_reported example_image 270" "at_bmas example_image \<noteq> 0"
  by (simp_all add: image_ok_def memory_reported_def example_image_def boot_info_ok_def)

lemma example_kernel_ok: "static_state example_image example_kernel" "k_slice example_kernel = slice_static"
  using boot_machine_ok boot_kterm_up
  by (simp_all add: static_state_def example_kernel_def boot_machine_def example_vm_def vm_up_def term_up_def term_ready_def)

theorem kernel_reaches_idle_witness:
  "\<exists>m k. m_kernel m = example_kernel \<and> i686_boot_main example_image m = Inr (Halted ((i686_init example_image m)\<lparr>m_kernel := k\<rparr>)) \<and>
     idle_kernel k"
proof -
  fix g i r p
  let ?m = "\<lparr>m_gdt = g, m_idt = i, m_regs = r, m_pic = p, m_kernel = example_kernel\<rparr>"
  have "m_kernel ?m = example_kernel" by simp
  with kernel_reaches_idle [OF example_image_ok(1,2), of ?m] example_kernel_ok show ?thesis by (metis (no_types))
qed

text \<open>C2. What the booted kernel can take. After the boot only the lines of the timer and of the slave controller are enabled. Whatever vectors other than the timer's are taken
  in the idle loop, they are acknowledged and returned from: kernel, gates, interrupt mask and registers stay as the boot left them. The first tick of the timer makes the kernel follow a null
  pointer: \<^verbatim>\<open>sched_preempt\<close> finds all run rings empty and takes them for runnable. The C code may be compiled to anything that keeps the calling convention and fits on the stack.\<close>

theorem first_tick_faults:
  assumes "image_ok im" and "memory_reported im 270" and "static_state im (m_kernel m)" and "k_slice (m_kernel m) = slice_static" and "m_pic m = pic_static"
  shows "\<exists>m'. i686_boot_main im m = Inr (Halted m') \<and> irqmask (m_pic m') = 0xFFFA \<and>
    (\<forall>s cc d vs. s_machine s = m' \<and> c_abi d cc \<and> d + 84 \<le> unat (frame_base (s_tss s) (s_context s)) \<and> (\<forall>i\<in>set vs. is_interrupt i) \<longrightarrow>
      (if 32 \<in> fst ` set vs then take_interrupts (Suc fuel) cc lapic vs s = Inl Null_Deref
       else \<exists>s'. take_interrupts (Suc fuel) cc lapic vs s = Inr s' \<and> same_run s s'))"
proof -
  obtain k where k: "i686_boot_main im m = Inr (Halted ((i686_init im m)\<lparr>m_kernel := k\<rparr>))" "idle_kernel k" using boot_reaches_idle [OF assms(1-4)] by blast
  have "irqmask (m_pic ((i686_init im m)\<lparr>m_kernel := k\<rparr>)) = 0xFFFA"
    using assms(5) by (simp add: i686_init_def i686_timerinit_def i686_picinit_def picenable_def pic_static_def IRQ_SLAVE_def IRQ_TIMER_def Let_def split: prod.splits)
  moreover have "if 32 \<in> fst ` set vs then take_interrupts (Suc fuel) cc lapic vs s = Inl Null_Deref
      else \<exists>s'. take_interrupts (Suc fuel) cc lapic vs s = Inr s' \<and> same_run s s'"
    if "s_machine s = (i686_init im m)\<lparr>m_kernel := k\<rparr>" "c_abi d cc" "d + 84 \<le> unat (frame_base (s_tss s) (s_context s))" "\<forall>i\<in>set vs. is_interrupt i"
    for s cc d vs
    by (rule idle_run [OF that(2,4) _ that(3)]) (simp add: that(1) k(2))
  ultimately show ?thesis using k(1) by blast
qed

theorem first_tick_faults_witness:
  "\<exists>s m m'. m_kernel m = example_kernel \<and> m_pic m = pic_static \<and> i686_boot_main example_image m = Inr (Halted m') \<and> s_machine s = m' \<and>
     take_interrupts 1 example_code 0 [(33, None), (32, None)] s = Inl Null_Deref"
proof -
  fix g i r
  let ?m = "\<lparr>m_gdt = g, m_idt = i, m_regs = r, m_pic = pic_static, m_kernel = example_kernel\<rparr>"
  have "m_pic ?m = pic_static" "m_kernel ?m = example_kernel" by simp_all
  with first_tick_faults [OF example_image_ok(1,2), of ?m 0 0] example_kernel_ok obtain m' where
    m': "i686_boot_main example_image ?m = Inr (Halted m')"
    "\<And>s cc d vs. s_machine s = m' \<Longrightarrow> c_abi d cc \<Longrightarrow> d + 84 \<le> unat (frame_base (s_tss s) (s_context s)) \<Longrightarrow> \<forall>i\<in>set vs. is_interrupt i \<Longrightarrow>
      32 \<in> fst ` set vs \<Longrightarrow> take_interrupts 1 cc 0 vs s = Inl Null_Deref" by auto
  let ?s = "\<lparr>s_context = example_context, s_machine = m', s_lapic_log = []\<rparr>"
  have "take_interrupts 1 example_code 0 [(33, None), (32, None)] ?s = Inl Null_Deref"
    by (rule m'(2) [OF _ example_abi]) (simp_all add: is_interrupt_def has_error_code_def frame_base_def example_context_def)
  with m'(1) show ?thesis by (intro exI [of _ ?s] exI [of _ ?m] exI [of _ m']) simp
qed

lemma idle_kernel_loaded: "idle_kernel k \<Longrightarrow> cpu_loaded (cpus (k_world k) (this_cpu (k_world k)))"
  by (auto simp: idle_kernel_def first_thread_def cpu_loaded_def kernel_get_current_thread_def kernel_get_current_cpu_def)

text \<open>C3. No second thread. The boot loads the task register when it makes the first thread current, which marks the descriptor of the task state segment busy. However
  threads, scheduler and wait queues are used from then on, on this and on other CPUs, the boot CPU can neither make a thread current again nor enter nor leave a system call: each reaches
  \<^verbatim>\<open>ltr\<close> with a busy descriptor, which is a protection fault.\<close>

theorem switches_fault_after_boot:
  assumes "image_ok im" and "memory_reported im 270" and "static_state im (m_kernel m)" and "k_slice (m_kernel m) = slice_static"
  shows "\<exists>m'. i686_boot_main im m = Inr (Halted m') \<and>
    (\<forall>w t. kern_steps (k_world (m_kernel m')) w \<and> this_cpu w = this_cpu (k_world (m_kernel m')) \<longrightarrow>
      kernel_set_current_thread (Some t) w = Inl Protection_Fault \<and>
      thread_enter_syscall w = Inl Protection_Fault \<and> thread_exit_syscall w = Inl Protection_Fault)"
proof -
  obtain k where k: "i686_boot_main im m = Inr (Halted ((i686_init im m)\<lparr>m_kernel := k\<rparr>))" "idle_kernel k"
    using boot_reaches_idle [OF assms] by blast
  have "cpu_loaded (cpus w (this_cpu w))" if "kern_steps (k_world k) w" "this_cpu w = this_cpu (k_world k)" for w
    using loaded.kern_steps_keep [OF that(1), of "this_cpu w"] idle_kernel_loaded [OF k(2)] that(2) by (simp add: loaded.all_ok_def)
  then show ?thesis using k(1) loaded_faults by (intro exI [of _ "(i686_init im m)\<lparr>m_kernel := k\<rparr>"]) simp
qed

theorem switches_fault_after_boot_witness:
  "\<exists>m m'. m_kernel m = example_kernel \<and> i686_boot_main example_image m = Inr (Halted m') \<and>
     thread_enter_syscall (k_world (m_kernel m')) = Inl Protection_Fault"
proof -
  fix g i r p
  let ?m = "\<lparr>m_gdt = g, m_idt = i, m_regs = r, m_pic = p, m_kernel = example_kernel\<rparr>"
  have "m_kernel ?m = example_kernel" by simp
  with switches_fault_after_boot [OF example_image_ok(1,2), of ?m] example_kernel_ok kern_steps.refl show ?thesis by (metis (no_types))
qed

text \<open>C30. The stages of a port. On a machine set up as for the boot, with the task register not yet loaded, and whatever stage
  \<^verbatim>\<open>platform_get_cap_stage\<close> reports, \<^verbatim>\<open>kernel_main\<close> halts, and the screen shows what the stage has come to: the page allocator with the length of each of its ranges, the capacity and the request for the CPU's
  stack, the addresses of CPU, slice and ranges and every range with its bounds, each in this order and with exactly these texts.\<close>

theorem kernel_main_stages:
  assumes "image_ok im" and "at_bmas im \<noteq> 0" and "static_state im k" and "memory_reported im 270"
    and "k_slice k = i686_init_memory (kernel_end im) (multiboot_memdata im) slice_static"
    and "caps \<in> {platform_ALIVE..platform_INTERRUPTS}" and "tss_free k"
  shows "\<exists>k' p. kernel_main caps im k = Inr (Halted k') \<and> kern_initmem (k_slice k) phys_static = Inr p \<and>
    kern_screen k' = show_text (stage_text caps im (k_slice k) p) (first_screen k)"
  using assms by (intro kernel_main_ok) (simp_all add: platform_stages)

theorem kernel_main_stages_witness:
  "\<exists>k' p. kernel_main platform_MMU example_image
      (example_kernel\<lparr>k_slice := i686_init_memory 0xC0142000 [1, 640, 129920] slice_static\<rparr>) = Inr (Halted k') \<and>
     kern_screen k' = show_text (printmem_text example_image p @ capacity_text @ ll_text 4 @
       alive_text example_image 0xC0110000 (i686_init_memory 0xC0142000 [1, 640, 129920] slice_static)) (first_screen example_kernel)"
proof -
  let ?k = "example_kernel\<lparr>k_slice := i686_init_memory 0xC0142000 [1, 640, 129920] slice_static\<rparr>"
  have "static_state example_image ?k" "first_screen ?k = first_screen example_kernel"
    using example_kernel_ok by (simp_all add: static_state_def first_screen_def)
  moreover have "tss_free ?k" by (simp add: example_kernel_def example_world_def)
  ultimately show ?thesis
    using kernel_main_stages [OF example_image_ok(1,3) _ example_image_ok(2), of ?k platform_MMU]
    by (auto simp: example_image_def platform_stages stage_text_def)
qed

text \<open>A machine after initialisation, with the zone of the threads at \<open>0x3000\<close>.\<close>

lemma running_machine:
  "\<exists>m. vm_init 0x2000 0xC0200000 0xC0010000 boot_machine = Inr m \<and> kmem_ok (zvm m) \<and> 9 \<le> kmem_avail (zvm m)"
proof -
  from vm_init_ok [OF boot_machine_ok(1-3) _ _ boot_machine_ok(4,5), of "0xC0200000" "0x2000" "0xC0010000"]
  obtain m where m: "vm_init 0x2000 0xC0200000 0xC0010000 boot_machine = Inr m" "kmem_inv (zvm m) 0 0 0" "ds_n_pages (dss (zvm m) 0) = 128"
    "card (page_pool (vm_phys (zvm m)) - allocated (vm_phys (zvm m))) = card (page_pool boot_pages - allocated boot_pages) - 252"
    by (auto simp: boot_machine_def)
  have "kmem_ok (zvm m)" using m(2) kmem_inv_state [OF m(2)] by (simp add: kmem_ok_def)
  moreover have "9 \<le> kmem_avail (zvm m)" using m(3,4) kmem_inv_state [OF m(2)] boot_pages_ok(2) by (simp add: kmem_avail_def)
  ultimately show ?thesis using m(1) by blast
qed

text \<open>C9. Zones over the kernel's memory. A zone whose lock is free, over a kernel memory that
  satisfies its invariant; \<open>L\<close> are objects in use. \<^verbatim>\<open>zalloc\<close> returns: it adds new objects \<open>N\<close> to the free ones, which are neither free nor
  in use before, and this only if the zone refills itself and has fewer than 32 free; then it hands out one of the free ones, of which exactly this one is no longer free, and
  returns null only if there is none. A zone with fewer than 32 free objects that refills itself from
  \<^verbatim>\<open>vm_kalloc_ll\<close> does so while there are pages for 32 objects: the call succeeds, and the zone gets as many new objects as fit into the pages. \<^verbatim>\<open>zfree\<close> of an object in use makes exactly
  this one free. Both calls keep all invariants.\<close>

theorem zone_over_kernel_memory:
  assumes "zone_idle kmem_ok kmem_taken z m L"
  shows "(\<exists>r m' N. zalloc vm_kalloc_ll vm_alloc_critical z m = Inr (r, m') \<and> N \<inter> (zone_free z m \<union> L) = {} \<and>
      (N \<noteq> {} \<longrightarrow> zn_memtype (zones m z) AND ZONE_AUTO_REFILL \<noteq> 0 \<and> zn_count (zones m z) < 32) \<and>
      (if r = 0 then zone_free z m = {} \<and> N = {} \<and> zone_free z m' = {} \<and> zone_idle kmem_ok kmem_taken z m' L
       else r \<in> zone_free z m \<union> N \<and> zone_free z m' = zone_free z m \<union> N - {r} \<and> r \<notin> L \<and> zone_idle kmem_ok kmem_taken z m' (insert r L)) \<and>
      (let n = unat (zn_bufsize (zones m z)); k = kmem_request (zn_bufsize (zones m z) * 32) in
       zn_memtype (zones m z) = ZONE_AUTO_REFILL \<and> zn_count (zones m z) < 32 \<and> 0 < k \<and> k \<le> kmem_avail (zvm m) \<and> n \<le> 4096 * k \<longrightarrow>
         r \<noteq> 0 \<and> card (zone_free z m') + 1 = card (zone_free z m) + 4096 * k div n)) \<and>
    (\<forall>k\<in>L. \<exists>m'. zfree k m = Inr m' \<and> k \<notin> zone_free z m \<and> zone_free z m' = insert k (zone_free z m) \<and>
       zone_idle kmem_ok kmem_taken z m' (L - {k}))"
proof -
  have p: "zone_pool kmem_ok kmem_taken z m L" "zn_lock (zones m z) = 0" using assms by (simp_all add: zone_idle_def)
  obtain r m' N where a: "zalloc vm_kalloc_ll vm_alloc_critical z m = Inr (r, m')" "zn_lock (zones m' z) = 0"
    "if r = 0 then zone_pool kmem_ok kmem_taken z m' L else r \<notin> L \<and> zone_pool kmem_ok kmem_taken z m' (insert r L)"
    "N \<inter> (zone_free z m \<union> L) = {}" "N \<noteq> {} \<longrightarrow> zn_memtype (zones m z) AND ZONE_AUTO_REFILL \<noteq> 0 \<and> zn_count (zones m z) < 32"
    "if r = 0 then zone_free z m = {} \<and> N = {} \<and> zone_free z m' = {} else r \<in> zone_free z m \<union> N \<and> zone_free z m' = zone_free z m \<union> N - {r}"
    using km.zalloc_pool [OF p] by blast
  let ?n = "unat (zn_bufsize (zones m z))" and ?k = "kmem_request (zn_bufsize (zones m z) * 32)"
  have refill: "r \<noteq> 0 \<and> card (zone_free z m') + 1 = card (zone_free z m) + 4096 * ?k div ?n"
    if "zn_memtype (zones m z) = ZONE_AUTO_REFILL" "zn_count (zones m z) < 32" "0 < ?k" "?k \<le> kmem_avail (zvm m)" "?n \<le> 4096 * ?k"
    by (rule km.zalloc_supply [OF p that(2,1,3-5)]) (use a(1) in simp)
  have free: "\<exists>m'. zfree k m = Inr m' \<and> k \<notin> zone_free z m \<and> zone_free z m' = insert k (zone_free z m) \<and>
      zone_idle kmem_ok kmem_taken z m' (L - {k})" if k: "k \<in> L" for k
  proof -
    obtain m' where m': "zfree k m = Inr m'" "zone_idle kmem_ok kmem_taken z m' (L - {k})"
      using km.zon.pool_release_ok [OF assms k] by (auto simp: zfree_opt_def)
    then show ?thesis
      using km.zon.pool_release_free [OF assms k] km.zon.pool_free_live [OF assms] k by (auto simp: zfree_opt_def)
  qed
  have res: "if r = 0 then zone_free z m = {} \<and> N = {} \<and> zone_free z m' = {} \<and> zone_idle kmem_ok kmem_taken z m' L
      else r \<in> zone_free z m \<union> N \<and> zone_free z m' = zone_free z m \<union> N - {r} \<and> r \<notin> L \<and> zone_idle kmem_ok kmem_taken z m' (insert r L)"
    using a(2,3,6) by (auto simp: zone_idle_def split: if_splits)
  have "\<exists>r m' N. zalloc vm_kalloc_ll vm_alloc_critical z m = Inr (r, m') \<and> N \<inter> (zone_free z m \<union> L) = {} \<and>
      (N \<noteq> {} \<longrightarrow> zn_memtype (zones m z) AND ZONE_AUTO_REFILL \<noteq> 0 \<and> zn_count (zones m z) < 32) \<and>
      (if r = 0 then zone_free z m = {} \<and> N = {} \<and> zone_free z m' = {} \<and> zone_idle kmem_ok kmem_taken z m' L
       else r \<in> zone_free z m \<union> N \<and> zone_free z m' = zone_free z m \<union> N - {r} \<and> r \<notin> L \<and> zone_idle kmem_ok kmem_taken z m' (insert r L)) \<and>
      (zn_memtype (zones m z) = ZONE_AUTO_REFILL \<and> zn_count (zones m z) < 32 \<and> 0 < ?k \<and> ?k \<le> kmem_avail (zvm m) \<and> ?n \<le> 4096 * ?k \<longrightarrow>
         r \<noteq> 0 \<and> card (zone_free z m') + 1 = card (zone_free z m) + 4096 * ?k div ?n)"
    by (intro exI conjI, rule a(1), rule a(4), rule a(5), rule res) (intro impI, elim conjE, rule refill)
  then show ?thesis unfolding Let_def by (rule conjI) (intro ballI, rule free)
qed

lemma empty_zone:
  assumes "kmem_ok v"
  shows "zone_idle kmem_ok kmem_taken 0x3000 (boot_machine\<lparr>zvm := v\<rparr>) {}" "zone_free 0x3000 (boot_machine\<lparr>zvm := v\<rparr>) = {}"
proof -
  have "zone_ok (boot_machine\<lparr>zvm := v\<rparr>) 0x3000 []" by (simp add: zone_ok_def boot_machine_def)
  from zone_ok_free(1) [OF this] show "zone_free 0x3000 (boot_machine\<lparr>zvm := v\<rparr>) = {}" by simp
  show "zone_idle kmem_ok kmem_taken 0x3000 (boot_machine\<lparr>zvm := v\<rparr>) {}"
    using assms by (auto simp: zone_idle_def zone_pool_def zone_ok_def boot_machine_def intro!: exI [of _ "[]"])
qed

text \<open>The first call refills the empty zone with 32 objects and hands one of them out.\<close>

theorem zone_over_kernel_memory_witness:
  "\<exists>v r m'. zone_idle kmem_ok kmem_taken 0x3000 (boot_machine\<lparr>zvm := v\<rparr>) {} \<and>
     zalloc vm_kalloc_ll vm_alloc_critical 0x3000 (boot_machine\<lparr>zvm := v\<rparr>) = Inr (r, m') \<and> r \<noteq> 0 \<and>
     zone_idle kmem_ok kmem_taken 0x3000 m' {r} \<and> card (zone_free 0x3000 m') = 31"
proof -
  obtain m :: "vm_state zstate" where m: "kmem_ok (zvm m)" "9 \<le> kmem_avail (zvm m)" using running_machine by blast
  let ?m = "boot_machine\<lparr>zvm := zvm m\<rparr>"
  note e = empty_zone [OF m(1)]
  have z: "zn_bufsize (zones ?m 0x3000) = 128" "zn_memtype (zones ?m 0x3000) = ZONE_AUTO_REFILL" "zn_count (zones ?m 0x3000) = 0" "zvm ?m = zvm m"
    by (simp_all add: boot_machine_def)
  have k: "kmem_request (128 * 32) = 1" "unat (128 :: u32) = 128" by (simp_all add: kmem_request_def)
  from zone_over_kernel_memory [OF e(1)] obtain r m' where
    "zalloc vm_kalloc_ll vm_alloc_critical 0x3000 ?m = Inr (r, m')"
    "if r = 0 then zone_idle kmem_ok kmem_taken 0x3000 m' {} else zone_idle kmem_ok kmem_taken 0x3000 m' {r}"
    "r \<noteq> 0" "card (zone_free 0x3000 m') + 1 = card (zone_free 0x3000 ?m) + 4096 * 1 div 128"
    unfolding Let_def z k using m(2) by (auto split: if_splits)
  with e show ?thesis by auto
qed

text \<open>C7. Creating a thread. Over the zone of the threads, the stack pool and the kernel's memory
  together, \<^verbatim>\<open>thread_allocate\<close> does not fault. It takes a thread and, if there is one, two stacks, and returns the thread exactly if it got all three.
  The thread it returns has a record that no other thread uses, its two interrupt stacks are different and used by nobody else, the stack
  pointers in the thread are theirs, the thread is in no run queue, and of the free threads and stacks only these are gone. When it fails, every thread and every stack
  that was free is free, and so is whatever it had taken. It succeeds when the zone is as \<^verbatim>\<open>thread_init\<close> makes it and there are nine pages: one for the zone, four for each
  of the stacks.\<close>

theorem thread_allocate_over_kernel_memory:
  assumes "stack_pool (\<lambda>m. kmem_ok (zvm m)) (\<lambda>m. kmem_taken (zvm m)) m L" and "thread_zone z (vmst m) T"
  shows "\<exists>thr v s0 m0 s1 m1 r m' w'. thread_zalloc z (vmst m) = Inr (thr, v) \<and> kernel_stack_allocate zkalloc (m\<lparr>vmst := v\<rparr>) = Inr (s0, m0) \<and>
    kernel_stack_allocate zkalloc m0 = Inr (s1, m1) \<and> thread_allocate (thread_zalloc z) thread_zfree zkalloc m w = Inr (r, m', w') \<and>
    r = (if s0 = None \<or> s1 = None then None else thr) \<and>
    (case r of None \<Rightarrow> stack_pool (\<lambda>m. kmem_ok (zvm m)) (\<lambda>m. kmem_taken (zvm m)) m' L \<and> thread_zone z (vmst m') T \<and>
         thread_free z (vmst m) \<union> set_option thr \<subseteq> thread_free z (vmst m') \<and>
         stack_free m' = (if thr = None then stack_free m else stack_free m \<union> set_option s0 \<union> set_option s1)
     | Some t \<Rightarrow> \<exists>a b. a \<noteq> b \<and> a \<notin> L \<and> b \<notin> L \<and>
         stack_pool (\<lambda>m. kmem_ok (zvm m)) (\<lambda>m. kmem_taken (zvm m)) m' (insert b (insert a L)) \<and>
         t \<notin> T \<and> thread_zone z (vmst m') (insert t T) \<and>
         stack_free m' = stack_free m - {a, b} \<and> thread_free z (vmst m) - {t} \<subseteq> thread_free z (vmst m') \<and>
         t_istobjs (threads w' t) = [Some a, Some b] \<and>
         t_istacks (threads w' t) = [st_sp (kstacks m' a), st_sp (kstacks m' b)] \<and>
         t_storage (threads w' t) ! 0 = st_sp (kstacks m' a) \<and> ring (rings w') (T_Queue_Entry t) []) \<and>
    (zn_bufsize (zones (vmst m) z) = 128 \<and> zn_memtype (zones (vmst m) z) = ZONE_AUTO_REFILL \<and> 9 \<le> kmem_avail (zvm (vmst m)) \<longrightarrow> r \<noteq> None)"
proof -
  have enough: "\<exists>t m' w'. thread_allocate (thread_zalloc z) thread_zfree zkalloc m w = Inr (Some t, m', w')"
    if h: "zn_bufsize (zones (vmst m) z) = 128" "zn_memtype (zones (vmst m) z) = ZONE_AUTO_REFILL" "9 \<le> kmem_avail (zvm (vmst m))"
  proof -
    have k: "kmem_request 4096 = 1" by (simp add: kmem_request_def)
    have p: "zone_pool kmem_ok kmem_taken z (vmst m) (of_nat ` T)" "zn_lock (zones (vmst m) z) = 0"
      using assms(2) by (simp_all add: thread_zone_def zone_idle_def)
    obtain r v where "zalloc vm_kalloc_ll vm_alloc_critical z (vmst m) = Inr (r, v)" "r \<noteq> 0" "8 \<le> kmem_avail (zvm v)"
      by (rule km.zalloc_enough [OF p h(2), of 8]) (use h(3) in \<open>simp_all add: h(1) k\<close>)
    moreover from this(1,2) have "thread_zalloc z (vmst m) = Inr (Some (unat r), v)" by (simp add: thread_zalloc_def)
    ultimately show ?thesis using tm.thread_allocate_enough [OF assms, of "unat r" v w] by blast
  qed
  have made: "r \<noteq> None" if "thread_allocate (thread_zalloc z) thread_zfree zkalloc m w = Inr (r, m', w')"
    "zn_bufsize (zones (vmst m) z) = 128 \<and> zn_memtype (zones (vmst m) z) = ZONE_AUTO_REFILL \<and> 9 \<le> kmem_avail (zvm (vmst m))" for r m' w'
    using enough that by auto
  show ?thesis using tm.thread_allocate_pools [OF assms, of w]
    by (elim exE conjE, intro exI conjI impI) (assumption | erule (1) made)+
qed

text \<open>A machine whose pools are empty: the call gets the memory for both from the pages and makes a thread.\<close>

theorem thread_allocate_over_kernel_memory_witness:
  "\<exists>m t m' w'. stack_pool (\<lambda>m. kmem_ok (zvm m)) (\<lambda>m. kmem_taken (zvm m)) m {} \<and> thread_zone 0x3000 (vmst m) {} \<and>
     thread_allocate (thread_zalloc 0x3000) thread_zfree zkalloc m example_world = Inr (Some t, m', w') \<and> thread_zone 0x3000 (vmst m') {t}"
proof -
  obtain k :: "vm_state zstate" where k: "kmem_ok (zvm k)" "9 \<le> kmem_avail (zvm k)" using running_machine by blast
  let ?m = "\<lparr>stacks = None, stacks_sl = 0, kstacks = (\<lambda>_. \<lparr>st_tail = None, st_sp = 0\<rparr>), vmst = boot_machine\<lparr>zvm := zvm k\<rparr>\<rparr>"
  have a: "stack_pool (\<lambda>m. kmem_ok (zvm m)) (\<lambda>m. kmem_taken (zvm m)) ?m {}"
    using k by (auto simp: stack_pool_def intro!: exI [of _ "[]"])
  have b: "thread_zone 0x3000 (vmst ?m) {}" using empty_zone(1) [OF k(1)] by (simp add: thread_zone_def)
  have z: "zn_bufsize (zones (vmst ?m) 0x3000) = 128 \<and> zn_memtype (zones (vmst ?m) 0x3000) = ZONE_AUTO_REFILL \<and> 9 \<le> kmem_avail (zvm (vmst ?m))"
    using k(2) by (simp add: boot_machine_def)
  from thread_allocate_over_kernel_memory [OF a b, of example_world] z obtain t m' w' where
    "thread_allocate (thread_zalloc 0x3000) thread_zfree zkalloc ?m example_world = Inr (Some t, m', w')" "thread_zone 0x3000 (vmst m') {t}"
    by (elim exE conjE) (fastforce split: option.splits)
  with a b show ?thesis by blast
qed

end
